(* ===== verification/Prelude.thy ===== *)
theory Prelude
  imports Main "HOL-Library.Word"
begin

text \<open>
  Shared vocabulary of the development: the machine types of the amd64 build, a byte-addressed
  memory with little-endian 64-bit accesses, the outcome type of C++ code that may fail an
  assertion or abort, and the list and word lemmas the component theories use.

  The build that is modelled is the one the Makefile describes: \<open>ARCH = amd64\<close> (so
  \<open>unsigned long\<close>, \<open>size_t\<close> and pointers have 64 bits and \<open>int\<close> has 32), with
  \<open>DETECT_OVERFLOW\<close> and \<open>DETECT_USAGE_AFTER_FREE\<close> on, \<open>DETECT_MEMORY_LEAKS\<close> and
  \<open>EVALUATING_PERF\<close> off, and assertions enabled (\<open>NDEBUG\<close> is not set).
\<close>

unbundle bit_operations_syntax

named_theorems mem_simps \<open>reading after writing, at the same or at a separate address\<close>

section \<open>Machine types\<close>

type_synonym u8 = "8 word"
type_synonym u32 = "32 word"
type_synonym u64 = "64 word"

text \<open>\<open>int\<close> of an \<open>unsigned long\<close>: truncation to 32 bits, read as two's complement.\<close>

definition int_of_ulong :: "u64 \<Rightarrow> int" where
  "int_of_ulong x = sint (ucast x :: u32)"

text \<open>An \<open>unsigned long\<close> stored in an \<open>int\<close> and converted back: sign extension of 32 bits.\<close>

definition sext32 :: "u64 \<Rightarrow> u64" where
  "sext32 x = scast (ucast x :: u32)"

lemma sext32_small: "n < 2 ^ 31 \<Longrightarrow> sext32 (of_nat n) = of_nat n"
  by (simp add: sext32_def unsigned_of_nat signed_of_nat take_bit_nat_eq_self
      signed_take_bit_int_eq_self)

lemma unat_u64_less: "unat (x :: u64) < 2 ^ 64"
  using unsigned_less [of x, where ?'a = nat] by simp

lemma unat_inc: "i < l \<Longrightarrow> unat (i + 1) = Suc (unat i)" for i l :: u64
proof -
  assume "i < l"
  then have "Suc (unat i) < 2 ^ 64"
    using unat_u64_less [of l] by (simp add: word_less_nat_alt)
  then show ?thesis by (simp add: unat_word_ariths)
qed

lemma unat_dec: "0 < w \<Longrightarrow> unat (w - 1) = unat w - 1" for w :: u64
  by (rule unat_minus_one) auto

lemma unat_dec_less: "l < i \<Longrightarrow> unat (i - 1) < unat i" for i l :: u64
proof -
  assume "l < i"
  then have "0 < i" using word_zero_le [of l] by (meson order_le_less_trans)
  then show ?thesis by (simp add: unat_dec word_less_nat_alt)
qed

section \<open>Outcomes\<close>

text \<open>
  \<open>Assertion\<close>: an \<open>assert\<close> or \<open>REQUIRE\<close> failed; \<open>Abort\<close>: \<open>abort()\<close> was called;
  \<open>Exit\<close>: \<open>exit(-1)\<close> was called; \<open>Undefined\<close>: the code reads or writes through a
  pointer that the C++ standard gives no meaning to at that point.
\<close>

datatype fault = Assertion | Abort | Exit | Undefined

datatype 'a res = Ok 'a | Err fault

primrec rbind :: "'a res \<Rightarrow> ('a \<Rightarrow> 'b res) \<Rightarrow> 'b res" where
  "rbind (Ok x) f = f x"
| "rbind (Err e) f = Err e"

primrec rmap :: "('a \<Rightarrow> 'b) \<Rightarrow> 'a res \<Rightarrow> 'b res" where
  "rmap f (Ok x) = Ok (f x)"
| "rmap f (Err e) = Err e"

lemma rbind_Ok_iff: "rbind r f = Ok y \<longleftrightarrow> (\<exists>x. r = Ok x \<and> f x = Ok y)"
  by (cases r) auto

lemma rmap_Ok_iff: "rmap f r = Ok y \<longleftrightarrow> (\<exists>x. r = Ok x \<and> y = f x)"
  by (cases r) auto

text \<open>
  Code with a loop that may not end has an outcome of type \<open>'a res option\<close>; \<open>None\<close> means that
  it does not return.
\<close>

definition obind :: "'a res option \<Rightarrow> ('a \<Rightarrow> 'b res option) \<Rightarrow> 'b res option" where
  "obind r f = (case r of None \<Rightarrow> None | Some (Err e) \<Rightarrow> Some (Err e) | Some (Ok x) \<Rightarrow> f x)"

lemma obind_simps [simp]:
  "obind None f = None" "obind (Some (Err e)) f = Some (Err e)" "obind (Some (Ok x)) f = f x"
  by (simp_all add: obind_def)

lemma obind_Ok_iff: "obind r f = Some (Ok y) \<longleftrightarrow> (\<exists>x. r = Some (Ok x) \<and> f x = Some (Ok y))"
  by (auto simp: obind_def split: option.splits res.splits)

section \<open>Lists\<close>

lemma in_set_tlD: "x \<in> set (tl xs) \<Longrightarrow> x \<in> set xs"
  by (cases xs) auto

section \<open>Memory\<close>

type_synonym mem = "u64 \<Rightarrow> u8"

definition rd64 :: "mem \<Rightarrow> u64 \<Rightarrow> u64" where
  "rd64 m a = foldr (\<lambda>i w. push_bit (8 * i) (ucast (m (a + of_nat i))) OR w) [0..<8] 0"

definition wr64 :: "mem \<Rightarrow> u64 \<Rightarrow> u64 \<Rightarrow> mem" where
  "wr64 m a v = (\<lambda>x. if x - a < 8 then ucast (drop_bit (8 * unat (x - a)) v) else m x)"

definition rd32 :: "mem \<Rightarrow> u64 \<Rightarrow> u32" where
  "rd32 m a = ucast (rd64 m a)"

definition wr32 :: "mem \<Rightarrow> u64 \<Rightarrow> u32 \<Rightarrow> mem" where
  "wr32 m a v = (\<lambda>x. if x - a < 4 then ucast (drop_bit (8 * unat (x - a)) v) else m x)"

text \<open>The bytes a 64-bit access at \<open>a\<close> touches, and \<open>memcpy\<close>.\<close>

definition in_range :: "u64 \<Rightarrow> u64 \<Rightarrow> u64 \<Rightarrow> bool" where
  "in_range a n x \<longleftrightarrow> x - a < n"

definition memcpy :: "mem \<Rightarrow> u64 \<Rightarrow> u64 \<Rightarrow> u64 \<Rightarrow> mem" where
  "memcpy m dst src n = (\<lambda>x. if in_range dst n x then m (src + (x - dst)) else m x)"

text \<open>\<open>malloc\<close> and \<open>free\<close> of the runtime's own heap, as arguments of the code that uses them.\<close>

type_synonym 'h im_fun = "u64 \<Rightarrow> 'h \<Rightarrow> (u64 \<times> 'h) res"
type_synonym 'h fr_fun = "u64 \<Rightarrow> 'h \<Rightarrow> 'h res"

subsection \<open>Words from bytes\<close>

lemma bit_foldr_or:
  "bit (foldr (\<lambda>i w. f i OR w) xs (0 :: 'a::len word)) n \<longleftrightarrow> (\<exists>i\<in>set xs. bit (f i) n)"
  by (induction xs) (auto simp: bit_or_iff)

lemma div8_unique: "8 * i \<le> n \<Longrightarrow> n - 8 * i < 8 \<Longrightarrow> i = n div 8 \<and> n - 8 * i = n mod 8"
  for n i :: nat
proof -
  assume "8 * i \<le> n" "n - 8 * i < 8"
  then obtain k where "n = 8 * i + k" "k < 8" by (metis le_add_diff_inverse)
  then show ?thesis by simp
qed

lemma bit_u8_less: "bit (b :: u8) k \<Longrightarrow> k < 8"
  using bit_imp_le_length [of b k] by simp

lemma bit_push_byte: "bit (push_bit (8 * i) (ucast b :: u64)) n \<longleftrightarrow>
    8 * i \<le> n \<and> n < 64 \<and> n - 8 * i < 8 \<and> bit b (n - 8 * i)" for b :: u8
  using bit_u8_less [of b "n - 8 * i"] by (auto simp: bit_simps)

lemma bit_rd64: "bit (rd64 m a) n \<longleftrightarrow> n < 64 \<and> bit (m (a + of_nat (n div 8))) (n mod 8)"
proof -
  have "bit (rd64 m a) n \<longleftrightarrow>
      (\<exists>i<8. 8 * i \<le> n \<and> n < 64 \<and> n - 8 * i < 8 \<and> bit (m (a + of_nat i)) (n - 8 * i))"
    unfolding rd64_def bit_foldr_or bit_push_byte
    by (simp only: set_upt Bex_def atLeastLessThan_iff le0 simp_thms)
  also have "\<dots> \<longleftrightarrow> n < 64 \<and> bit (m (a + of_nat (n div 8))) (n mod 8)" (is "?L \<longleftrightarrow> ?R")
  proof
    assume ?L then show ?R by (auto dest: div8_unique)
  next
    assume ?R then show ?L
      by (intro exI [of _ "n div 8"]) (auto simp: minus_mult_div_eq_mod)
  qed
  finally show ?thesis .
qed

lemma bit_byte_of_word:
  "bit (ucast (drop_bit (8 * i) v) :: u8) k \<longleftrightarrow> k < 8 \<and> bit v (8 * i + k)" for v :: u64
  by (auto simp: bit_simps dest: bit_imp_le_length)

lemma rd64_eq_iff:
  "rd64 m a = v \<longleftrightarrow> (\<forall>i<8. m (a + of_nat i) = ucast (drop_bit (8 * i) v))"
proof
  assume v: "rd64 m a = v"
  show "\<forall>i<8. m (a + of_nat i) = ucast (drop_bit (8 * i) v)"
  proof (intro allI impI)
    fix i :: nat assume i: "i < 8"
    show "m (a + of_nat i) = ucast (drop_bit (8 * i) v)"
    proof (rule bit_word_eqI)
      fix k assume "k < LENGTH(8)"
      then have k: "k < 8" by simp
      then have "(8 * i + k) div 8 = i" "(8 * i + k) mod 8 = k" "8 * i + k < 64"
        using i by simp_all
      then show "bit (m (a + of_nat i)) k = bit (ucast (drop_bit (8 * i) v) :: u8) k"
        using k by (simp only: bit_byte_of_word v [symmetric] bit_rd64) simp
    qed
  qed
next
  assume b: "\<forall>i<8. m (a + of_nat i) = ucast (drop_bit (8 * i) v)"
  show "rd64 m a = v"
  proof (rule bit_word_eqI)
    fix n assume "n < LENGTH(64)"
    then have n: "n < 64" "n div 8 < 8" by auto
    have "bit (rd64 m a) n \<longleftrightarrow> bit (ucast (drop_bit (8 * (n div 8)) v) :: u8) (n mod 8)"
      using b n by (simp only: bit_rd64) simp
    also have "\<dots> \<longleftrightarrow> bit v n"
      by (simp only: bit_byte_of_word) simp
    finally show "bit (rd64 m a) n = bit v n" .
  qed
qed

subsection \<open>Reading after writing\<close>

lemma of_nat_less_8: "i < 8 \<Longrightarrow> (of_nat i :: u64) < 8 \<and> unat (of_nat i :: u64) = i"
  by (simp add: word_less_nat_alt unat_of_nat)

lemma rd64_wr64_same [mem_simps]: "rd64 (wr64 m a v) a = v"
  by (simp add: rd64_eq_iff wr64_def of_nat_less_8)

definition sep64 :: "u64 \<Rightarrow> u64 \<Rightarrow> bool" where
  "sep64 a b \<longleftrightarrow> 8 \<le> a - b \<and> 8 \<le> b - a"

lemma sep64_sym: "sep64 a b \<longleftrightarrow> sep64 b a"
  by (auto simp: sep64_def)

lemma unat_uminus: "d \<noteq> 0 \<Longrightarrow> unat (- d) = 2 ^ 64 - unat d" for d :: u64
  using unat_sub_if' [of 0 d] by (simp add: unat_eq_zero)

lemma near_word:
  fixes d e :: u64
  assumes "e < 8" and "8 \<le> d" and "8 \<le> - d"
  shows "8 \<le> d + e"
proof -
  have "d \<noteq> 0" using assms(2) by auto
  then have "8 \<le> unat d" "unat d + 8 \<le> 2 ^ 64" "unat e < 8"
    using assms unsigned_less [of d] by (auto simp: word_le_nat_alt word_less_nat_alt unat_uminus)
  then show ?thesis
    by (simp add: word_le_nat_alt unat_word_ariths)
qed

lemma rd64_cong: "(\<And>i. i < 8 \<Longrightarrow> m (a + of_nat i) = m' (a + of_nat i)) \<Longrightarrow> rd64 m a = rd64 m' a"
  by (simp add: rd64_eq_iff [of m a "rd64 m' a"]) (metis rd64_eq_iff)

lemma rd64_wr64_sep [mem_simps]:
  assumes "sep64 a b"
  shows "rd64 (wr64 m b v) a = rd64 m a"
proof (rule rd64_cong)
  fix i :: nat assume i: "i < 8"
  have "8 \<le> (a - b) + of_nat i"
    using assms of_nat_less_8 [OF i] by (intro near_word) (auto simp: sep64_def)
  then show "wr64 m b v (a + of_nat i) = m (a + of_nat i)"
    by (simp add: wr64_def algebra_simps linorder_not_less [symmetric])
qed

subsection \<open>Locality of reads and writes\<close>

lemma rd64_local: "(\<And>x. x - a < 8 \<Longrightarrow> m' x = m x) \<Longrightarrow> rd64 m' a = rd64 m a"
  by (rule rd64_cong) (simp add: of_nat_less_8)

lemma bit_rd32: "bit (rd32 m a) n \<longleftrightarrow> n < 32 \<and> bit (m (a + of_nat (n div 8))) (n mod 8)"
  by (auto simp: rd32_def bit_ucast_iff bit_rd64)

lemma rd32_local: "(\<And>x. x - a < 4 \<Longrightarrow> m' x = m x) \<Longrightarrow> rd32 m' a = rd32 m a"
proof (rule bit_word_eqI)
  fix n assume m: "\<And>x. x - a < 4 \<Longrightarrow> m' x = m x" and "n < LENGTH(32)"
  then have "n div 8 < 4" by simp
  then have "(of_nat (n div 8) :: u64) < 4" by (simp add: word_less_nat_alt unat_of_nat)
  then show "bit (rd32 m' a) n = bit (rd32 m a) n" using m [of "a + of_nat (n div 8)"] by (simp add: bit_rd32)
qed

lemma wr32_other: "\<not> x - a < 4 \<Longrightarrow> wr32 m a v x = m x"
  by (simp add: wr32_def)

lemma wr64_other: "\<not> x - a < 8 \<Longrightarrow> wr64 m a v x = m x"
  by (simp add: wr64_def)

lemma rd32_wr32_same [mem_simps]: "rd32 (wr32 m a v) a = v"
proof (rule bit_word_eqI)
  fix n assume n: "n < LENGTH(32)"
  then have "n div 8 < 4" by simp
  then have k: "(of_nat (n div 8) :: u64) < 4" "unat (of_nat (n div 8) :: u64) = n div 8"
    by (simp_all add: word_less_nat_alt unat_of_nat)
  have "8 * (n div 8) + n mod 8 = n" by simp
  then show "bit (rd32 (wr32 m a v) a) n = bit v n"
    using n k by (simp add: bit_rd32 wr32_def bit_ucast_iff bit_drop_bit_eq)
qed

text \<open>
  Two accesses at offsets from a common base do not meet when the offsets, as numbers, are far
  enough apart.
\<close>

lemma offset_range:
  fixes x p i n :: u64
  assumes "x - (p + i) < n" and "unat i + unat n \<le> 2 ^ 64"
  shows "unat i \<le> unat (x - p)" and "unat (x - p) < unat i + unat n"
proof -
  have u: "unat (x - (p + i)) < unat n" using assms(1) by (simp add: word_less_nat_alt)
  then have "unat i + unat (x - (p + i)) < 2 ^ 64" using assms(2) by linarith
  then have "unat (i + (x - (p + i))) = unat i + unat (x - (p + i))"
    by (simp only: unat_word_ariths) simp
  then have "unat (x - p) = unat i + unat (x - (p + i))" by (simp add: algebra_simps)
  then show "unat i \<le> unat (x - p)" "unat (x - p) < unat i + unat n" using u by auto
qed

lemma offsets_apart:
  fixes x p i j n k :: u64
  assumes "x - (p + i) < n" and "x - (p + j) < k"
    and "unat i + unat n \<le> unat j \<or> unat j + unat k \<le> unat i"
    and "unat i + unat n \<le> 2 ^ 64" and "unat j + unat k \<le> 2 ^ 64"
  shows False
  using offset_range [OF assms(1,4)] offset_range [OF assms(2,5)] assms(3) by linarith

section \<open>Guard zones\<close>

text \<open>
  The contract of a guard: \<open>put\<close> fills a zone of memory, \<open>bad\<close> says exactly whether a byte of
  the zone is no longer what \<open>put\<close> wrote. The overflow guard behind an object and the canary of
  a freed object are two implementations.
\<close>

locale guard_zone =
  fixes put :: "mem \<Rightarrow> mem" and bad :: "mem \<Rightarrow> bool" and zone :: "u64 \<Rightarrow> bool"
  assumes bad_iff: "bad m' \<longleftrightarrow> (\<exists>x. zone x \<and> m' x \<noteq> put m x)"
    and put_frame: "\<not> zone x \<Longrightarrow> put m x = m x"
begin

lemma put_good: "\<not> bad (put m)"
  using bad_iff [of "put m" m] by blast

lemma put_same: "zone x \<Longrightarrow> put m x = put m' x"
  using bad_iff [of "put m" m'] put_good by blast

lemma put_put: "put (put m) = put m"
  using put_same put_frame by (metis ext)

lemma intact: "(\<And>x. zone x \<Longrightarrow> m' x = put m x) \<Longrightarrow> \<not> bad m'"
  using bad_iff by blast

text \<open>
  A run of the program, as the sequence of its byte writes: it is reported exactly when the last
  write to some byte of the zone, if there is one, stored another value.
\<close>

lemma bad_after_writes:
  "bad (fold (\<lambda>(a, v) m. m(a := v)) ws (put m)) \<longleftrightarrow>
    (\<exists>x v. zone x \<and> map_of (rev ws) x = Some v \<and> v \<noteq> put m x)"
proof -
  have "fold (\<lambda>(a, v) m. m(a := v)) ws m0 x = (case map_of (rev ws) x of Some v \<Rightarrow> v | None \<Rightarrow> m0 x)" for m0 x
    by (induction ws arbitrary: m0) (auto simp: map_add_def split: option.splits)
  then show ?thesis by (auto simp: bad_iff [of _ m] split: option.splits)
qed

lemma outside_writes_ignored:
  "\<forall>(a, v)\<in>set ws. \<not> zone a \<Longrightarrow> \<not> bad (fold (\<lambda>(a, v) m. m(a := v)) ws (put m))"
  by (auto simp: bad_after_writes dest!: map_of_SomeD)

end

end
