(* ===== verification/Linked_List.thy ===== *)
theory Linked_List
  imports Prelude
begin

text \<open>
  The intrusive circular doubly-linked list of \<open>include/list.hh\<close>, on which the event lists,
  the deferred-work lists and the hash buckets of the runtime are built. A node is a
  \<open>list_t\<close> with two pointers; the store maps every address to the node there, and the
  operations are the source's sequences of pointer assignments, in the source's order.
  \<open>is_list h head xs\<close> says that the nodes \<open>xs\<close> hang on \<open>head\<close> in this order. Every
  operation is shown to implement the list operation its comment promises, with the frame
  property that disjoint lists are untouched; two operations that do not
  (\<open>listInsertList\<close> and \<open>listRetrieveAllItems\<close> on an empty source) are characterised.
  The locale \<open>fifo\<close> states the queue contract that the clients rely on.
\<close>

section \<open>The structure and its operations\<close>

record list_t =
  prv :: u64
  nxt :: u64

type_synonym lstore = "u64 \<Rightarrow> list_t"

definition set_next :: "u64 \<Rightarrow> u64 \<Rightarrow> lstore \<Rightarrow> lstore" where
  "set_next p v h = h(p := (h p)\<lparr>nxt := v\<rparr>)"

definition set_prev :: "u64 \<Rightarrow> u64 \<Rightarrow> lstore \<Rightarrow> lstore" where
  "set_prev p v h = h(p := (h p)\<lparr>prv := v\<rparr>)"

definition nodeInit :: "u64 \<Rightarrow> lstore \<Rightarrow> lstore" where
  "nodeInit node h = set_next node node (set_prev node node h)"

definition listInit :: "u64 \<Rightarrow> lstore \<Rightarrow> lstore" where
  "listInit node h = nodeInit node h"

definition isListEmpty :: "u64 \<Rightarrow> lstore \<Rightarrow> bool" where
  "isListEmpty head h \<longleftrightarrow> nxt (h head) = head"

definition nextEntry :: "u64 \<Rightarrow> lstore \<Rightarrow> u64" where
  "nextEntry cur h = nxt (h cur)"

definition prevEntry :: "u64 \<Rightarrow> lstore \<Rightarrow> u64" where
  "prevEntry cur h = prv (h cur)"

definition tailList :: "u64 \<Rightarrow> lstore \<Rightarrow> u64" where
  "tailList head h = (if \<not> isListEmpty head h then prv (h head) else 0)"

definition insert_between :: "u64 \<Rightarrow> u64 \<Rightarrow> u64 \<Rightarrow> lstore \<Rightarrow> lstore" where
  "insert_between node p n h =
     (let h = set_next node n h; h = set_prev node p h; h = set_next p node h
      in set_prev n node h)"

definition listInsertNode :: "u64 \<Rightarrow> u64 \<Rightarrow> lstore \<Rightarrow> lstore" where
  "listInsertNode node p h = insert_between node p (nxt (h p)) h"

definition listInsertTail :: "u64 \<Rightarrow> u64 \<Rightarrow> lstore \<Rightarrow> lstore" where
  "listInsertTail node head h = insert_between node (prv (h head)) head h"

definition listInsertHead :: "u64 \<Rightarrow> u64 \<Rightarrow> lstore \<Rightarrow> lstore" where
  "listInsertHead node head h = insert_between node head (nxt (h head)) h"

definition list_link :: "u64 \<Rightarrow> u64 \<Rightarrow> lstore \<Rightarrow> lstore" where
  "list_link p n h = set_prev n p (set_next p n h)"

definition listInsertList :: "u64 \<Rightarrow> u64 \<Rightarrow> lstore \<Rightarrow> lstore" where
  "listInsertList lst wher h =
     (let h = list_link wher lst h in list_link (prv (h lst)) (nxt (h wher)) h)"

definition listInsertListTail :: "u64 \<Rightarrow> u64 \<Rightarrow> lstore \<Rightarrow> lstore" where
  "listInsertListTail lst wher h =
     (let h = list_link (prv (h wher)) (nxt (h lst)) h in list_link (prv (h lst)) wher h)"

definition listRemoveNode :: "u64 \<Rightarrow> lstore \<Rightarrow> lstore" where
  "listRemoveNode node h = nodeInit node (list_link (prv (h node)) (nxt (h node)) h)"

definition isListTail :: "u64 \<Rightarrow> u64 \<Rightarrow> lstore \<Rightarrow> bool" where
  "isListTail node head h \<longleftrightarrow> nxt (h node) = head"

definition listRetrieveItem :: "u64 \<Rightarrow> lstore \<Rightarrow> u64 \<times> lstore" where
  "listRetrieveItem lst h =
     (if \<not> isListEmpty lst h then let first = nxt (h lst) in (first, listRemoveNode first h)
      else (0, h))"

definition listRetrieveAllItems :: "u64 \<Rightarrow> u64 \<Rightarrow> lstore \<Rightarrow> lstore" where
  "listRetrieveAllItems dest src h =
     (let first = nxt (h src); last = prv (h src);
          h = set_prev first dest h; h = set_next last dest h;
          h = set_next dest first h; h = set_prev dest last h
      in listInit src h)"

lemmas list_ops = set_next_def set_prev_def nodeInit_def listInit_def isListEmpty_def
  nextEntry_def prevEntry_def tailList_def insert_between_def listInsertNode_def
  listInsertTail_def listInsertHead_def list_link_def listInsertList_def
  listInsertListTail_def listRemoveNode_def isListTail_def listRetrieveItem_def
  listRetrieveAllItems_def

section \<open>The shape of a list\<close>

fun linked :: "lstore \<Rightarrow> u64 list \<Rightarrow> bool" where
  "linked h (a # b # r) \<longleftrightarrow> nxt (h a) = b \<and> prv (h b) = a \<and> linked h (b # r)"
| "linked h r \<longleftrightarrow> True"

definition is_list :: "lstore \<Rightarrow> u64 \<Rightarrow> u64 list \<Rightarrow> bool" where
  "is_list h head xs \<longleftrightarrow> linked h (head # xs @ [head]) \<and> distinct (head # xs)"

lemma linked_append: "linked h (xs @ y # ys) \<longleftrightarrow> linked h (xs @ [y]) \<and> linked h (y # ys)"
  by (induction h xs rule: linked.induct) auto

lemma linked_cong:
  assumes "linked h xs"
    and "\<And>a. a \<in> set (butlast xs) \<Longrightarrow> nxt (h' a) = nxt (h a)"
    and "\<And>a. a \<in> set (tl xs) \<Longrightarrow> prv (h' a) = prv (h a)"
  shows "linked h' xs"
  using assms by (induction h xs rule: linked.induct) (auto split: if_splits)

subsection \<open>The pointers after each primitive\<close>

lemma insert_between_fields [simp]:
  "nxt (insert_between node p n h a) = (if a = p then node else if a = node then n else nxt (h a))"
  "prv (insert_between node p n h a) = (if a = n then node else if a = node then p else prv (h a))"
  by (auto simp: insert_between_def set_next_def set_prev_def Let_def)

lemma list_link_fields [simp]:
  "nxt (list_link p n h a) = (if a = p then n else nxt (h a))"
  "prv (list_link p n h a) = (if a = n then p else prv (h a))"
  by (auto simp: list_link_def set_next_def set_prev_def)

lemma nodeInit_fields [simp]:
  "nxt (nodeInit node h a) = (if a = node then node else nxt (h a))"
  "prv (nodeInit node h a) = (if a = node then node else prv (h a))"
  by (auto simp: nodeInit_def set_next_def set_prev_def)

lemma listRemoveNode_fields [simp]:
  "nxt (listRemoveNode node h a) =
     (if a = node then node else if a = prv (h node) then nxt (h node) else nxt (h a))"
  "prv (listRemoveNode node h a) =
     (if a = node then node else if a = nxt (h node) then prv (h node) else prv (h a))"
  by (auto simp: listRemoveNode_def)

subsection \<open>Splicing a linked sequence\<close>

lemma linked_insert:
  assumes "linked h (as @ p # n # bs)" and "node \<notin> set (as @ p # n # bs)"
    and "p \<notin> set as" "p \<notin> set (butlast (n # bs))"
    and "n \<notin> set (tl (as @ [p]))" "n \<notin> set bs"
  shows "linked (insert_between node p n h) (as @ p # node # n # bs)"
proof -
  let ?h = "insert_between node p n h"
  from assms(1) have l: "linked h (as @ [p])" and r: "linked h (n # bs)"
    using linked_append [of h as p "n # bs"] by auto
  have "linked ?h (as @ [p])"
    by (rule linked_cong [OF l]) (use assms in \<open>auto split: if_splits dest: in_set_tlD\<close>)
  moreover have "linked ?h (n # bs)"
    by (rule linked_cong [OF r]) (use assms in \<open>auto split: if_splits dest: in_set_butlastD\<close>)
  ultimately show ?thesis
    using assms linked_append [of ?h as p "node # n # bs"] by auto
qed

lemma linked_remove:
  assumes "linked h (as @ p # node # n # bs)" and "node \<notin> set (as @ p # n # bs)"
    and "p \<notin> set as" "p \<notin> set (butlast (n # bs))"
    and "n \<notin> set (tl (as @ [p]))" "n \<notin> set bs"
  shows "linked (listRemoveNode node h) (as @ p # n # bs)"
proof -
  let ?h = "listRemoveNode node h"
  from assms(1) have l: "linked h (as @ [p])" and r: "linked h (n # bs)"
    and pn: "prv (h node) = p" "nxt (h node) = n"
    using linked_append [of h as p "node # n # bs"] by auto
  have "linked ?h (as @ [p])"
    by (rule linked_cong [OF l]) (use assms pn in \<open>auto split: if_splits dest: in_set_tlD\<close>)
  moreover have "linked ?h (n # bs)"
    by (rule linked_cong [OF r]) (use assms pn in \<open>auto split: if_splits dest: in_set_butlastD\<close>)
  ultimately show ?thesis
    using assms pn linked_append [of ?h as p "n # bs"] by auto
qed

text \<open>A list seen at the gap between the prefix \<open>xs\<close> and the suffix \<open>ys\<close>.\<close>

lemma gap:
  obtains as p n bs where "head # xs = as @ [p]" and "ys @ [head] = n # bs"
    and "p = last (head # xs)" and "n = hd (ys @ [head])"
  by (metis append_butlast_last_id list.distinct(1) list.exhaust_sel snoc_eq_iff_butlast)

lemma distinct_gap:
  assumes "distinct (head # xs @ ys)" and "head # xs = as @ [p]" and "ys @ [head] = n # bs"
  shows "p \<notin> set as" "p \<notin> set (butlast (n # bs))" "n \<notin> set (tl (as @ [p]))" "n \<notin> set bs"
proof -
  have d: "distinct (as @ [p])" "distinct (n # bs)" and x: "set (as @ [p]) = insert head (set xs)"
    and b: "butlast (n # bs) = ys" and t: "tl (as @ [p]) = xs"
    and n: "n \<in> insert head (set ys)"
    using assms by (auto simp flip: assms(2,3)) (metis list.set_intros(1) assms(3) in_set_conv_decomp
        insertE list.set(2) set_append Un_iff empty_iff empty_set)
  show "p \<notin> set as" "n \<notin> set bs" using d by auto
  show "p \<notin> set (butlast (n # bs))" using assms(1) x unfolding b by auto
  show "n \<notin> set (tl (as @ [p]))" using assms(1) n unfolding t by auto
qed

lemma gap_eq:
  assumes "head # xs = as @ [p]" and "ys @ [head] = n # bs"
  shows "head # (xs @ ys) @ [head] = as @ p # n # bs"
    and "head # (xs @ node # ys) @ [head] = as @ p # node # n # bs"
proof -
  have "head # (xs @ ys) @ [head] = (head # xs) @ (ys @ [head])" by simp
  then show "head # (xs @ ys) @ [head] = as @ p # n # bs" unfolding assms by simp
  have "head # (xs @ node # ys) @ [head] = (head # xs) @ node # (ys @ [head])" by simp
  then show "head # (xs @ node # ys) @ [head] = as @ p # node # n # bs" unfolding assms by simp
qed

lemma is_list_insert_between:
  assumes "is_list h head (xs @ ys)" and "node \<notin> set (head # xs @ ys)"
  shows "is_list (insert_between node (last (head # xs)) (hd (ys @ [head])) h) head
           (xs @ node # ys)"
proof -
  obtain as p n bs where g: "head # xs = as @ [p]" "ys @ [head] = n # bs"
    "p = last (head # xs)" "n = hd (ys @ [head])" by (rule gap)
  have d: "distinct (head # xs @ ys)" using assms by (auto simp: is_list_def)
  note eq = gap_eq [OF g(1,2)]
  have "node \<notin> set (as @ p # n # bs)" using assms(2) eq(1) by (auto simp flip: eq(1))
  then have "linked (insert_between node p n h) (as @ p # node # n # bs)"
    using assms(1) distinct_gap [OF d g(1,2)] unfolding is_list_def eq by (intro linked_insert) auto
  then show ?thesis
    using assms d unfolding is_list_def eq(2) g(3,4) by auto
qed

lemma is_list_remove:
  assumes "is_list h head (xs @ node # ys)"
  shows "is_list (listRemoveNode node h) head (xs @ ys)"
proof -
  obtain as p n bs where g: "head # xs = as @ [p]" "ys @ [head] = n # bs"
    "p = last (head # xs)" "n = hd (ys @ [head])" by (rule gap)
  have d: "distinct (head # xs @ ys)" "node \<notin> set (head # xs @ ys)"
    using assms by (auto simp: is_list_def)
  note eq = gap_eq [OF g(1,2)]
  have "node \<notin> set (as @ p # n # bs)" using d(2) eq(1) by (auto simp flip: eq(1))
  then have "linked (listRemoveNode node h) (as @ p # n # bs)"
    using assms distinct_gap [OF d(1) g(1,2)] unfolding is_list_def eq by (intro linked_remove) auto
  then show ?thesis
    using d unfolding is_list_def eq(1) by auto
qed

lemma is_list_ends:
  assumes "is_list h head xs"
  shows "nxt (h head) = hd (xs @ [head])" and "prv (h head) = last (head # xs)"
proof -
  show "nxt (h head) = hd (xs @ [head])"
    using assms by (cases xs) (auto simp: is_list_def)
  obtain as p where g: "head # xs = as @ [p]" by (metis list.distinct(1) rev_exhaust)
  have "head # xs @ [head] = as @ p # [head]"
    using gap_eq(1) [OF g, of "[]" head "[]"] by simp
  then have "linked h (as @ p # [head])" using assms by (metis is_list_def)
  then show "prv (h head) = last (head # xs)"
    using linked_append [of h as p "[head]"] g by (metis last_snoc linked.simps(1))
qed

section \<open>What the operations do to lists\<close>

lemma is_list_cong:
  assumes "is_list h k ys"
    and "\<And>a. a \<in> set (k # ys) \<Longrightarrow> nxt (h' a) = nxt (h a) \<and> prv (h' a) = prv (h a)"
  shows "is_list h' k ys"
proof -
  have "linked h' (k # ys @ [k])"
    by (rule linked_cong [of h]) (use assms in \<open>auto simp: is_list_def dest!: in_set_butlastD\<close>)
  then show ?thesis using assms(1) by (simp add: is_list_def)
qed

lemma is_list_same:
  "is_list h k ys \<Longrightarrow> (\<And>a. a \<in> set (k # ys) \<Longrightarrow> h' a = h a) \<Longrightarrow> is_list h' k ys"
  by (rule is_list_cong) auto

lemma is_list_listInit [intro]: "is_list (listInit node h) node []"
  by (simp add: is_list_def listInit_def)

lemma isListEmpty_iff: "is_list h head xs \<Longrightarrow> isListEmpty head h \<longleftrightarrow> xs = []"
  using is_list_ends(1) [of h head xs] by (cases xs) (auto simp: isListEmpty_def is_list_def)

lemma is_list_listInsertTail:
  "is_list h head xs \<Longrightarrow> node \<notin> set (head # xs) \<Longrightarrow>
     is_list (listInsertTail node head h) head (xs @ [node])"
  using is_list_insert_between [of h head xs "[]" node]
  by (simp add: listInsertTail_def is_list_ends(2))

lemma is_list_listInsertHead:
  "is_list h head xs \<Longrightarrow> node \<notin> set (head # xs) \<Longrightarrow>
     is_list (listInsertHead node head h) head (node # xs)"
  using is_list_insert_between [of h head "[]" xs node]
  by (simp add: listInsertHead_def is_list_ends(1))

lemma is_list_succ:
  assumes "is_list h head (xs @ p # ys)"
  shows "nxt (h p) = hd (ys @ [head])" and "prv (h p) = last (head # xs)"
proof -
  obtain as q where g: "head # xs = as @ [q]" by (metis list.distinct(1) rev_exhaust)
  have "head # (xs @ p # ys) @ [head] = as @ q # p # (ys @ [head])"
    using gap_eq(2) [OF g, of ys "hd (ys @ [head])" "tl (ys @ [head])" p] by simp
  then have l: "linked h (as @ q # p # (ys @ [head]))"
    using assms by (metis is_list_def)
  then show "prv (h p) = last (head # xs)"
    using linked_append [of h as q "p # ys @ [head]"] g by auto
  have "linked h (p # (ys @ [head]))"
    using l linked_append [of h as q "p # ys @ [head]"] by simp
  then show "nxt (h p) = hd (ys @ [head])" by (cases ys) auto
qed

lemma is_list_listInsertNode:
  "is_list h head (xs @ p # ys) \<Longrightarrow> node \<notin> set (head # xs @ p # ys) \<Longrightarrow>
     is_list (listInsertNode node p h) head (xs @ p # node # ys)"
  using is_list_insert_between [of h head "xs @ [p]" ys node]
  by (simp add: listInsertNode_def is_list_succ(1))

lemma is_list_removed: "is_list (listRemoveNode node h) node []"
  by (simp add: is_list_def)

lemma listRemoveNode_frame:
  assumes "is_list h head (xs @ node # ys)" and "a \<notin> set (head # xs @ node # ys)"
  shows "listRemoveNode node h a = h a"
proof -
  have "prv (h node) \<in> set (head # xs)" "nxt (h node) \<in> set (ys @ [head])"
    using is_list_succ [OF assms(1)] by (metis last_in_set list.distinct(1), metis hd_in_set snoc_eq_iff_butlast)
  then show ?thesis
    using assms(2) by (auto simp: listRemoveNode_def nodeInit_def list_link_def set_next_def set_prev_def)
qed

lemma listInsertTail_frame:
  assumes "is_list h head xs" and "a \<notin> set (node # head # xs)"
  shows "listInsertTail node head h a = h a"
proof -
  have "prv (h head) \<in> set (head # xs)"
    using is_list_ends(2) [OF assms(1)] by (metis last_in_set list.distinct(1))
  then show ?thesis
    using assms(2)
    by (auto simp: listInsertTail_def insert_between_def set_next_def set_prev_def Let_def)
qed

lemma listRetrieveItem_Nil: "is_list h head [] \<Longrightarrow> listRetrieveItem head h = (0, h)"
  by (simp add: listRetrieveItem_def isListEmpty_iff)

lemma listRetrieveItem_Cons:
  assumes "is_list h head (x # xs)"
  shows "fst (listRetrieveItem head h) = x"
    and "is_list (snd (listRetrieveItem head h)) head xs"
    and "is_list (snd (listRetrieveItem head h)) x []"
  using assms is_list_ends(1) [OF assms] is_list_remove [of h head "[]" x xs] is_list_removed [of x h]
  by (simp_all add: listRetrieveItem_def isListEmpty_iff Let_def)

subsection \<open>Moving whole lists\<close>

lemma linked_append2: "linked h (xs @ ys) \<longleftrightarrow> linked h xs \<and> linked h ys \<and>
    (xs \<noteq> [] \<and> ys \<noteq> [] \<longrightarrow> nxt (h (last xs)) = hd ys \<and> prv (h (hd ys)) = last xs)"
  by (induction h xs rule: linked.induct) (auto, (cases ys; auto)+)

lemma is_list_parts: "is_list h head xs \<longleftrightarrow> linked h xs \<and> distinct (head # xs) \<and>
    nxt (h head) = hd (xs @ [head]) \<and> prv (h (hd (xs @ [head]))) = head \<and>
    nxt (h (last (head # xs))) = head \<and> prv (h head) = last (head # xs)"
  using linked_append2 [of h "[head]" "xs @ [head]"] linked_append2 [of h xs "[head]"]
  by (cases xs rule: rev_cases) (auto simp: is_list_def)

lemma linked_cong2:
  assumes "linked h zs" and "distinct zs"
    and "\<And>a. a \<in> set zs \<Longrightarrow> a \<noteq> last zs \<Longrightarrow> nxt (h' a) = nxt (h a)"
    and "\<And>a. a \<in> set zs \<Longrightarrow> a \<noteq> hd zs \<Longrightarrow> prv (h' a) = prv (h a)"
  shows "linked h' zs"
proof (rule linked_cong [OF assms(1)])
  fix a
  show "nxt (h' a) = nxt (h a)" if "a \<in> set (butlast zs)"
    using that assms(2,3) by (cases zs rule: rev_cases) auto
  show "prv (h' a) = prv (h a)" if "a \<in> set (tl zs)"
    using that assms(2,4) by (cases zs) auto
qed

lemma is_list_listInsertListTail:
  assumes "is_list h wher xs" and "is_list h lst ys" and "set (wher # xs) \<inter> set (lst # ys) = {}"
  shows "is_list (listInsertListTail lst wher h) wher (xs @ ys)"
proof (cases "ys = []")
  case True
  define z where "z = last (wher # xs)"
  have l: "lst \<notin> set (wher # xs)" using assms(3) by auto
  moreover have "z \<in> set (wher # xs)" unfolding z_def by (rule last_in_set) simp
  ultimately have "lst \<noteq> z" by metis
  moreover have "nxt (h lst) = lst" "prv (h wher) = z" "nxt (h z) = wher"
    using assms True unfolding z_def is_list_parts by simp_all
  ultimately have z: "nxt (h lst) = lst" "prv (h wher) = z" "nxt (h z) = wher" "lst \<noteq> z"
    by simp_all
  have "nxt (listInsertListTail lst wher h a) = nxt (h a) \<and>
      prv (listInsertListTail lst wher h a) = prv (h a)" if "a \<in> set (wher # xs)" for a
  proof -
    have "lst \<noteq> a" "lst \<noteq> wher" using that l by auto
    then show ?thesis unfolding listInsertListTail_def Let_def using z by simp
  qed
  then show ?thesis using is_list_cong [OF assms(1)] True by simp
next
  case False
  let ?h = "listInsertListTail lst wher h"
  have f: "nxt (h lst) = hd ys" "prv (h lst) = last ys" "prv (h wher) = last (wher # xs)"
    "hd ys \<in> set ys" "last ys \<in> set ys" "last (wher # xs) \<in> set (wher # xs)"
    using assms(1,2) False last_in_set [of "wher # xs"] by (simp_all add: is_list_parts)
  have d: "lst \<notin> set ys" "set (wher # xs) \<inter> set (lst # ys) = {}"
    using assms(2,3) by (simp_all add: is_list_def)
  then have ne: "hd ys \<notin> set (wher # lst # xs)" "last ys \<notin> set (wher # lst # xs)" "lst \<noteq> wher"
    "last (wher # xs) \<notin> set (lst # ys)" "wher \<notin> set ys"
    using f(4-6) by (auto simp only: set_simps)
  then have ll: "last ys \<noteq> last (wher # xs)" using f(5) by (metis list.set_intros(2))
  have nx: "nxt (?h a) = (if a = last ys then wher else if a = last (wher # xs) then hd ys
      else nxt (h a))" for a
    using f ne by (auto simp: listInsertListTail_def Let_def)
  have pv: "prv (?h a) = (if a = wher then last ys else if a = hd ys then last (wher # xs)
      else prv (h a))" for a
    using f ne by (auto simp: listInsertListTail_def Let_def)
  have lx: "linked h (wher # xs)" "linked h ys" "distinct (wher # xs)" "distinct ys"
    using assms linked_append2 [of h "[wher]" xs] by (auto simp: is_list_parts)
  have "linked ?h (wher # xs)" "linked ?h ys"
    by (rule linked_cong2 [of h]; use lx ne in \<open>force simp: nx pv\<close>)+
  then have "linked ?h ((wher # xs) @ ys)"
    using False f ne ll by (subst linked_append2) (simp add: nx pv del: last.simps)
  then have "linked ?h (((wher # xs) @ ys) @ [wher])"
    using False f ne ll by (subst linked_append2) (simp add: nx pv)
  then show ?thesis using assms by (auto simp: is_list_def)
qed

lemma is_list_listRetrieveAllItems:
  assumes "is_list h src xs" and "xs \<noteq> []" and "dest \<notin> set (src # xs)"
  shows "is_list (listRetrieveAllItems dest src h) dest xs"
    and "is_list (listRetrieveAllItems dest src h) src []"
proof -
  let ?h = "listRetrieveAllItems dest src h"
  have f: "nxt (h src) = hd xs" "prv (h src) = last xs" "hd xs \<in> set xs" "last xs \<in> set xs"
    using assms by (auto simp: is_list_parts)
  then have ne: "src \<noteq> dest" "hd xs \<noteq> src" "hd xs \<noteq> dest" "last xs \<noteq> src" "last xs \<noteq> dest"
    using assms by (auto simp: is_list_parts)
  have nx: "nxt (?h a) = (if a = src then src else if a = dest then hd xs
      else if a = last xs then dest else nxt (h a))" for a
    using f ne by (simp add: listRetrieveAllItems_def Let_def listInit_def set_next_def set_prev_def)
  have pv: "prv (?h a) = (if a = src then src else if a = dest then last xs
      else if a = hd xs then dest else prv (h a))" for a
    using f ne by (simp add: listRetrieveAllItems_def Let_def listInit_def set_next_def set_prev_def)
  have "linked ?h xs"
    by (rule linked_cong2 [of h]) (use assms in \<open>auto simp: nx pv is_list_parts\<close>)
  then show "is_list ?h dest xs"
    using assms f ne by (simp add: is_list_parts nx pv)
  show "is_list ?h src []" by (simp add: is_list_parts nx pv)
qed

lemma listRetrieveAllItems_Nil:
  assumes "is_list h src []" and "dest \<noteq> src"
  shows "nxt (listRetrieveAllItems dest src h dest) = src"
    and "nxt (listRetrieveAllItems dest src h src) = src"
  using assms
  by (simp_all add: is_list_parts listRetrieveAllItems_def Let_def listInit_def set_next_def set_prev_def)

lemma listInsertList_eq: "lst \<noteq> wher \<Longrightarrow> listInsertList lst wher h = list_link wher lst h"
  by (auto simp: listInsertList_def Let_def list_link_def set_next_def set_prev_def)

section \<open>The queue contract\<close>

text \<open>
  What the runtime relies on when it keeps deferred work on such a list: elements are inserted
  at the tail, retrieved from the head, and a retrieval from an empty list is the null element.
  \<open>rel s q xs\<close> relates the concrete store to the abstract queue; \<open>fresh x q xs\<close> is the
  condition under which \<open>x\<close> may be enqueued.
\<close>

locale fifo =
  fixes rel :: "'s \<Rightarrow> 'q \<Rightarrow> 'a list \<Rightarrow> bool"
    and fresh :: "'a \<Rightarrow> 'q \<Rightarrow> 'a list \<Rightarrow> bool"
    and enq :: "'a \<Rightarrow> 'q \<Rightarrow> 's \<Rightarrow> 's"
    and deq :: "'q \<Rightarrow> 's \<Rightarrow> 'a \<times> 's"
    and null :: 'a
  assumes rel_enq: "rel s q xs \<Longrightarrow> fresh x q xs \<Longrightarrow> rel (enq x q s) q (xs @ [x])"
    and deq_Nil: "rel s q [] \<Longrightarrow> deq q s = (null, s)"
    and deq_Cons: "rel s q (x # xs) \<Longrightarrow> fst (deq q s) = x \<and> rel (snd (deq q s)) q xs"
    and fresh_prefix: "fresh x q (xs @ ys) \<Longrightarrow> fresh x q xs"
begin

primrec enqs :: "'a list \<Rightarrow> 'q \<Rightarrow> 's \<Rightarrow> 's" where
  "enqs [] q s = s"
| "enqs (x # xs) q s = enqs xs q (enq x q s)"

primrec deqs :: "nat \<Rightarrow> 'q \<Rightarrow> 's \<Rightarrow> 'a list \<times> 's" where
  "deqs 0 q s = ([], s)"
| "deqs (Suc n) q s = (let (x, s') = deq q s; (xs, s'') = deqs n q s' in (x # xs, s''))"

fun all_fresh :: "'q \<Rightarrow> 'a list \<Rightarrow> 'a list \<Rightarrow> bool" where
  "all_fresh q xs [] \<longleftrightarrow> True"
| "all_fresh q xs (y # ys) \<longleftrightarrow> fresh y q xs \<and> all_fresh q (xs @ [y]) ys"

lemma rel_enqs: "rel s q xs \<Longrightarrow> all_fresh q xs ys \<Longrightarrow> rel (enqs ys q s) q (xs @ ys)"
proof (induction ys arbitrary: xs s)
  case (Cons y ys)
  then have "rel (enq y q s) q (xs @ [y])" by (simp add: rel_enq)
  from Cons.IH [OF this] Cons.prems show ?case by simp
qed simp

lemma deqs_all: "rel s q xs \<Longrightarrow> \<exists>s'. deqs (length xs) q s = (xs, s') \<and> rel s' q []"
proof (induction xs arbitrary: s)
  case (Cons x xs)
  obtain y t where d: "deq q s = (y, t)" by (cases "deq q s") auto
  with deq_Cons [OF Cons.prems] have "y = x" "rel t q xs" by auto
  with Cons.IH [of t] d show ?case by auto
qed simp

theorem enq_deq_order:
  assumes "rel s q []" and "all_fresh q [] ys"
  shows "\<exists>s'. deqs (length ys) q (enqs ys q s) = (ys, s') \<and> deq q s' = (null, s')"
  using deqs_all [OF rel_enqs [OF assms, simplified]] deq_Nil by auto

end

text \<open>\<open>list.hh\<close> meets the contract.\<close>

definition list_fresh :: "u64 \<Rightarrow> u64 \<Rightarrow> u64 list \<Rightarrow> bool" where
  "list_fresh node head xs \<longleftrightarrow> node \<notin> set (head # xs)"

interpretation lq: fifo is_list list_fresh listInsertTail listRetrieveItem 0
proof (unfold_locales, goal_cases)
  case (1 s q xs x) then show ?case by (simp add: is_list_listInsertTail list_fresh_def)
next
  case (2 s q) then show ?case by (rule listRetrieveItem_Nil)
next
  case (3 s q x xs) then show ?case using listRetrieveItem_Cons by blast
next
  case (4 x q xs ys) then show ?case by (auto simp: list_fresh_def)
qed

section \<open>Properties\<close>

primrec retrieve_items :: "nat \<Rightarrow> u64 \<Rightarrow> lstore \<Rightarrow> u64 list \<times> lstore" where
  "retrieve_items 0 q h = ([], h)"
| "retrieve_items (Suc n) q h =
     (let (x, h') = listRetrieveItem q h; (xs, h'') = retrieve_items n q h' in (x # xs, h''))"

lemma lq_deqs_eq: "lq.deqs n q h = retrieve_items n q h"
  by (induction n arbitrary: h) (auto split: prod.splits)

lemma lq_enqs_eq: "lq.enqs ys q h = fold (\<lambda>y. listInsertTail y q) ys h"
  by (induction ys arbitrary: h) auto

lemma lq_all_fresh_iff:
  "lq.all_fresh q xs ys \<longleftrightarrow> distinct ys \<and> q \<notin> set ys \<and> set xs \<inter> set ys = {}"
proof (induction ys arbitrary: xs)
  case (Cons y ys)
  then show ?case by (simp only: lq.all_fresh.simps) (auto simp: list_fresh_def)
qed simp

text \<open>
  C38. First in, first out: nodes inserted at the tail of an empty list come back from
  \<open>listRetrieveItem\<close> in the order of their insertion, after which the list is empty again
  (a further \<open>listRetrieveItem\<close> returns \<open>NULL\<close> and changes nothing).
\<close>

theorem list_insert_retrieve_fifo:
  assumes "is_list h q []" and "distinct (q # ys)"
  shows "\<exists>h'. retrieve_items (length ys) q (fold (\<lambda>y. listInsertTail y q) ys h) = (ys, h') \<and>
    listRetrieveItem q h' = (0, h')"
  using lq.enq_deq_order [OF assms(1), of ys] assms(2)
  by (simp add: lq_deqs_eq lq_enqs_eq lq_all_fresh_iff)

abbreviation blank_store :: lstore where
  "blank_store \<equiv> \<lambda>_. \<lparr>prv = 0, nxt = 0\<rparr>"

theorem list_insert_retrieve_fifo_witness:
  "\<exists>h'. retrieve_items 3 100 (fold (\<lambda>y. listInsertTail y 100) [8, 16, 24] (listInit 100 blank_store)) =
    ([8, 16, 24], h') \<and> listRetrieveItem 100 h' = (0, h')"
  using list_insert_retrieve_fifo [of "listInit 100 blank_store" 100 "[8, 16, 24]", OF is_list_listInit]
  by (simp add: numeral_3_eq_3)

lemma is_list_frame:
  assumes l: "is_list h head (xs @ node # ys)" and o: "is_list h head' zs"
    and d: "set (head # xs @ node # ys) \<inter> set (head' # zs) = {}"
  shows "is_list (listRemoveNode node h) head' zs"
  by (rule is_list_same [OF o]) (use listRemoveNode_frame [OF l] d in blast)

text \<open>
  C39. Removing a node from anywhere in a list leaves the other nodes of the list in their
  order, leaves the node itself as an empty list of its own, and leaves every list that shares
  no node with this one as it was.
\<close>

theorem listRemoveNode_correct:
  assumes "is_list h head (xs @ node # ys)" and "is_list h head' zs"
    and "set (head # xs @ node # ys) \<inter> set (head' # zs) = {}"
  shows "is_list (listRemoveNode node h) head (xs @ ys) \<and>
    is_list (listRemoveNode node h) node [] \<and> is_list (listRemoveNode node h) head' zs"
  using is_list_remove [OF assms(1)] is_list_removed is_list_frame [OF assms] by blast

definition two_lists :: lstore where
  "two_lists = listInsertTail 24 100 (listInsertTail 16 100 (listInsertTail 8 100
     (listInit 100 (listInsertTail 56 200 (listInit 200 blank_store)))))"

lemma two_lists_lists: "is_list two_lists 100 [8, 16, 24]" "is_list two_lists 200 [56]"
  by (simp_all add: two_lists_def is_list_def listInsertTail_def listInit_def)

theorem listRemoveNode_correct_witness:
  "is_list (listRemoveNode 16 two_lists) 100 [8, 24] \<and>
    is_list (listRemoveNode 16 two_lists) 16 [] \<and> is_list (listRemoveNode 16 two_lists) 200 [56]"
  using listRemoveNode_correct [of two_lists 100 "[8]" 16 "[24]" 200 "[56]"] two_lists_lists by simp

text \<open>
  Splicing: \<open>listInsertListTail\<close> appends all nodes of one list to another, and
  \<open>listRetrieveAllItems\<close> moves all nodes of a non-empty list to a fresh head and leaves the
  source empty.
\<close>

theorem list_splice_correct:
  assumes "is_list h wher xs" and "is_list h lst ys" and "set (wher # xs) \<inter> set (lst # ys) = {}"
    and "dest \<notin> set (lst # ys)" and "ys \<noteq> []"
  shows "is_list (listInsertListTail lst wher h) wher (xs @ ys) \<and>
    is_list (listRetrieveAllItems dest lst h) dest ys \<and> is_list (listRetrieveAllItems dest lst h) lst []"
  using is_list_listInsertListTail [OF assms(1-3)] is_list_listRetrieveAllItems [OF assms(2,5,4)]
  by blast

theorem list_splice_correct_witness:
  "is_list (listInsertListTail 200 100 two_lists) 100 [8, 16, 24, 56] \<and>
    is_list (listRetrieveAllItems 300 200 two_lists) 300 [56] \<and>
    is_list (listRetrieveAllItems 300 200 two_lists) 200 []"
  using list_splice_correct [of two_lists 100 "[8, 16, 24]" 200 "[56]" 300] two_lists_lists by simp

lemma is_list_prv_nxt:
  assumes "is_list h head zs" and "x \<in> set zs"
  shows "nxt (h (prv (h x))) = x"
proof -
  obtain us vs where z: "zs = us @ x # vs" using assms(2) by (meson split_list)
  show ?thesis
  proof (cases us rule: rev_cases)
    case Nil
    then show ?thesis using assms(1) is_list_succ(2) [of h head us x vs] is_list_ends(1) [of h head zs] z
      by simp
  next
    case (snoc us' u)
    then have "prv (h x) = u" using assms(1) is_list_succ(2) [of h head us x vs] z by simp
    moreover have "nxt (h u) = x"
      using assms(1) is_list_succ(1) [of h head us' u "x # vs"] z snoc by simp
    ultimately show ?thesis by simp
  qed
qed

text \<open>
  C40. \<open>listInsertList\<close> loses nodes: after splicing \<open>lst\<close> behind the head \<open>wher\<close> of a
  non-empty list, there is no well-formed list at \<open>wher\<close> that still holds the old first node,
  because \<open>where->next\<close> is read after it has been overwritten.
\<close>

theorem listInsertList_loses_successors:
  assumes "is_list h wher (x # xs)" and "lst \<notin> set (wher # x # xs)"
  shows "\<not> (\<exists>zs. is_list (listInsertList lst wher h) wher zs \<and> x \<in> set zs)"
proof
  assume "\<exists>zs. is_list (listInsertList lst wher h) wher zs \<and> x \<in> set zs"
  then obtain zs where z: "is_list (list_link wher lst h) wher zs" "x \<in> set zs"
    using assms(2) listInsertList_eq [of lst wher h] by auto
  have "prv (h x) = wher" using is_list_succ(2) [of h wher "[]" x xs] assms(1) by simp
  then show False using is_list_prv_nxt [OF z] assms by (auto split: if_splits)
qed

theorem listInsertList_loses_successors_witness:
  "\<not> (\<exists>zs. is_list (listInsertList 200 100 two_lists) 100 zs \<and> 8 \<in> set zs)"
  using listInsertList_loses_successors [of two_lists 100 8 "[16, 24]" 200] two_lists_lists by simp

end
