(* ===== verification/Hash_Map.thy ===== *)
theory Hash_Map
  imports Linked_List
begin

text \<open>
  The chained hash map of \<open>include/hashmap.hh\<close> and the hash functions of
  \<open>include/hashfuncs.hh\<close>. Buckets are list heads in the pointer store of
  \<open>Linked_List\<close>, each with its \<open>count\<close>; an entry is a list node with a key, a key length
  and a value. The address that \<open>SourceHeap::allocate\<close> returns for a new entry is an argument
  of the operations that allocate. \<open>hm_rep\<close> is the representation invariant, indexed by the
  entry list of every bucket. The results are: the search loop returns the first entry of the
  bucket whose key matches; insertion appends, so an entry that is already there keeps shadowing
  a later one with the same key; erasing a present key removes its first entry; erasing an
  absent key breaks the invariant; the iterator visits every entry once.
\<close>

section \<open>Hash functions\<close>

definition hashInt :: "u32 \<Rightarrow> u64 \<Rightarrow> u64" where
  "hashInt x _ = scast x"

definition hashUnsignedlong :: "u64 \<Rightarrow> u64 \<Rightarrow> u64" where
  "hashUnsignedlong x _ = x"

definition hashLong :: "u64 \<Rightarrow> u64 \<Rightarrow> u64" where
  "hashLong x _ = x"

definition hashAddr :: "u64 \<Rightarrow> u64 \<Rightarrow> u64" where
  "hashAddr addr _ =
     (let key = addr;
          key = key XOR (push_bit 15 key XOR 0xcd7dcd7d);
          key = key XOR drop_bit 10 key;
          key = key XOR push_bit 3 key;
          key = key XOR drop_bit 6 key;
          key = key XOR (push_bit 2 key + push_bit 14 key)
      in key XOR drop_bit 16 key)"

definition compareAddr :: "u64 \<Rightarrow> u64 \<Rightarrow> u64 \<Rightarrow> bool" where
  "compareAddr addr1 addr2 _ \<longleftrightarrow> addr1 = addr2"

definition compareInt :: "u32 \<Rightarrow> u32 \<Rightarrow> u64 \<Rightarrow> bool" where
  "compareInt var1 var2 _ \<longleftrightarrow> var1 = var2"

section \<open>State\<close>

record ('k, 'v) hentry =
  he_key :: 'k
  he_keylen :: u64
  he_value :: 'v

record ('k, 'v) hashmap =
  hm_initialized :: bool
  hm_entries :: u64
  hm_buckets :: u64
  hm_bucketsUsed :: u64
  hm_count :: "u64 \<Rightarrow> u64"
  hm_links :: lstore
  hm_node :: "u64 \<Rightarrow> ('k, 'v) hentry"
  hm_hashfunc :: "'k \<Rightarrow> u64 \<Rightarrow> u64"
  hm_keycmp :: "'k \<Rightarrow> 'k \<Rightarrow> u64 \<Rightarrow> bool"

text \<open>\<open>sizeof(struct HashEntry)\<close> with a \<open>spinlock\<close>: two pointers, the padded lock, the count.\<close>

definition hash_entry_size :: u64 where
  "hash_entry_size = 32"

section \<open>Operations\<close>

definition getHashEntry :: "('k, 'v) hashmap \<Rightarrow> u64 \<Rightarrow> u64" where
  "getHashEntry m index =
     (if index < hm_buckets m then hm_entries m + index * hash_entry_size else 0)"

definition hash_entry_initialize :: "u64 \<Rightarrow> ('k, 'v) hashmap \<Rightarrow> ('k, 'v) hashmap" where
  "hash_entry_initialize e m =
     m\<lparr>hm_count := (hm_count m)(e := 0), hm_links := listInit e (hm_links m)\<rparr>"

definition hm_initialize :: "('k \<Rightarrow> u64 \<Rightarrow> u64) option \<Rightarrow> ('k \<Rightarrow> 'k \<Rightarrow> u64 \<Rightarrow> bool) option \<Rightarrow>
    u64 \<Rightarrow> u64 \<Rightarrow> ('k, 'v) hashmap \<Rightarrow> ('k, 'v) hashmap res" where
  "hm_initialize hfunc kcmp sz mem m =
     (case (hfunc, kcmp) of
        (Some h, Some c) \<Rightarrow>
          let m = m\<lparr>hm_entries := mem, hm_bucketsUsed := 0, hm_buckets := sz,
                    hm_hashfunc := h, hm_keycmp := c\<rparr>;
              m = fold (\<lambda>i m. hash_entry_initialize (getHashEntry m (of_nat i)) m) [0..<unat sz] m
          in Ok (m\<lparr>hm_initialized := True\<rparr>)
      | _ \<Rightarrow> Err Abort)"

definition hashIndex :: "('k, 'v) hashmap \<Rightarrow> 'k \<Rightarrow> u64 \<Rightarrow> u64" where
  "hashIndex m key keylen = hm_hashfunc m key keylen mod hm_buckets m"

definition entry_matches :: "('k, 'v) hashmap \<Rightarrow> 'k \<Rightarrow> u64 \<Rightarrow> u64 \<Rightarrow> bool" where
  "entry_matches m key keylen e \<longleftrightarrow>
     he_keylen (hm_node m e) = keylen \<and> hm_keycmp m (he_key (hm_node m e)) key keylen"

primrec getEntry_loop :: "('k, 'v) hashmap \<Rightarrow> 'k \<Rightarrow> u64 \<Rightarrow> nat \<Rightarrow> u64 \<Rightarrow> u64 option" where
  "getEntry_loop m key keylen 0 entry = None"
| "getEntry_loop m key keylen (Suc count) entry =
     (if entry_matches m key keylen entry then Some entry
      else getEntry_loop m key keylen count (nextEntry entry (hm_links m)))"

definition getEntry :: "('k, 'v) hashmap \<Rightarrow> u64 \<Rightarrow> 'k \<Rightarrow> u64 \<Rightarrow> u64 option" where
  "getEntry m head key keylen =
     getEntry_loop m key keylen (nat (int_of_ulong (hm_count m head))) (nextEntry head (hm_links m))"

definition hm_find :: "('k, 'v) hashmap \<Rightarrow> 'k \<Rightarrow> u64 \<Rightarrow> 'v option res" where
  "hm_find m key keylen =
     (if hm_initialized m then
        let head = getHashEntry m (hashIndex m key keylen)
        in Ok (map_option (\<lambda>e. he_value (hm_node m e)) (getEntry m head key keylen))
      else Err Assertion)"

definition createNewEntry :: "('k, 'v) hashmap \<Rightarrow> 'k \<Rightarrow> u64 \<Rightarrow> 'v \<Rightarrow> u64 \<Rightarrow> ('k, 'v) hashmap" where
  "createNewEntry m key keylen value e =
     m\<lparr>hm_links := listInit e (hm_links m),
       hm_node := (hm_node m)(e := \<lparr>he_key = key, he_keylen = sext32 keylen, he_value = value\<rparr>)\<rparr>"

definition insertEntry :: "('k, 'v) hashmap \<Rightarrow> u64 \<Rightarrow> 'k \<Rightarrow> u64 \<Rightarrow> 'v \<Rightarrow> u64 \<Rightarrow> ('k, 'v) hashmap" where
  "insertEntry m head key keylen value e =
     (let m = createNewEntry m key keylen value e;
          m = m\<lparr>hm_links := listInsertTail e head (hm_links m)\<rparr>
      in m\<lparr>hm_count := (hm_count m)(head := hm_count m head + 1)\<rparr>)"

definition hm_insert :: "('k, 'v) hashmap \<Rightarrow> 'k \<Rightarrow> u64 \<Rightarrow> 'v \<Rightarrow> u64 \<Rightarrow> ('k, 'v) hashmap res" where
  "hm_insert m key keylen value e =
     (if hm_initialized m then
        Ok (insertEntry m (getHashEntry m (hashIndex m key keylen)) key keylen value e)
      else Err Assertion)"

definition insertIfAbsent ::
    "('k, 'v) hashmap \<Rightarrow> 'k \<Rightarrow> u64 \<Rightarrow> 'v \<Rightarrow> u64 \<Rightarrow> (bool \<times> ('k, 'v) hashmap) res" where
  "insertIfAbsent m key keylen value e =
     (if hm_initialized m then
        let head = getHashEntry m (hashIndex m key keylen)
        in case getEntry m head key keylen of
             None \<Rightarrow> Ok (False, insertEntry m head key keylen value e)
           | Some _ \<Rightarrow> Ok (True, m)
      else Err Assertion)"

definition hm_erase :: "('k, 'v) hashmap \<Rightarrow> 'k \<Rightarrow> u64 \<Rightarrow> (bool \<times> ('k, 'v) hashmap) res" where
  "hm_erase m key keylen =
     (if hm_initialized m then
        let head = getHashEntry m (hashIndex m key keylen);
            (isFound, m) = (case getEntry m head key keylen of
               None \<Rightarrow> (False, m)
             | Some e \<Rightarrow> (True, m\<lparr>hm_links := listRemoveNode e (hm_links m)\<rparr>))
        in Ok (isFound, m\<lparr>hm_count := (hm_count m)(head := hm_count m head - 1)\<rparr>)
      else Err Assertion)"

subsection \<open>The iterator\<close>

record hm_iterator =
  it_entry :: u64
  it_pos :: u64

definition hm_end :: hm_iterator where
  "hm_end = \<lparr>it_entry = 0, it_pos = 0\<rparr>"

text \<open>The loop over the buckets from \<open>pos\<close> on, in \<open>operator++\<close> (with \<open>_entry = NULL\<close> after it).\<close>

function next_bucket :: "('k, 'v) hashmap \<Rightarrow> u64 \<Rightarrow> hm_iterator" where
  "next_bucket m pos =
     (if pos < hm_buckets m then
        if hm_count m (getHashEntry m pos) \<noteq> 0
        then \<lparr>it_entry = nextEntry (getHashEntry m pos) (hm_links m), it_pos = pos\<rparr>
        else next_bucket m (pos + 1)
      else \<lparr>it_entry = 0, it_pos = pos\<rparr>)"
  by pat_completeness auto
termination
  by (relation "measure (\<lambda>(m, p). unat (hm_buckets m) - unat p)")
    (auto simp: unat_inc word_less_nat_alt)

declare next_bucket.simps [simp del]

definition it_next :: "('k, 'v) hashmap \<Rightarrow> hm_iterator \<Rightarrow> hm_iterator" where
  "it_next m it =
     (let head = getHashEntry m (it_pos it)
      in if \<not> isListTail (it_entry it) head (hm_links m)
         then it\<lparr>it_entry := nextEntry (it_entry it) (hm_links m)\<rparr>
         else next_bucket m (it_pos it + 1))"

text \<open>
  \<open>begin()\<close> runs the same loop from bucket 0; its iterator constructor takes the position as an
  \<open>int\<close>, and when no bucket is used it returns \<open>end()\<close>.
\<close>

definition hm_begin :: "('k, 'v) hashmap \<Rightarrow> hm_iterator" where
  "hm_begin m =
     (let it = next_bucket m 0
      in if it_pos it < hm_buckets m then it\<lparr>it_pos := sext32 (it_pos it)\<rparr> else hm_end)"

definition it_equal :: "hm_iterator \<Rightarrow> hm_iterator \<Rightarrow> bool" where
  "it_equal a b \<longleftrightarrow> it_entry a = it_entry b"

text \<open>The client's loop \<open>for (i = m.begin(); i != m.end(); i++)\<close>, at most \<open>fuel\<close> rounds.\<close>

primrec it_loop :: "nat \<Rightarrow> ('k, 'v) hashmap \<Rightarrow> hm_iterator \<Rightarrow> u64 list option" where
  "it_loop 0 m it = (if it_equal it hm_end then Some [] else None)"
| "it_loop (Suc fuel) m it =
     (if it_equal it hm_end then Some []
      else map_option ((#) (it_entry it)) (it_loop fuel m (it_next m it)))"

section \<open>Representation\<close>

definition bucket_head :: "('k, 'v) hashmap \<Rightarrow> nat \<Rightarrow> u64" where
  "bucket_head m i = hm_entries m + of_nat i * hash_entry_size"

definition bucket_of :: "('k, 'v) hashmap \<Rightarrow> 'k \<Rightarrow> u64 \<Rightarrow> nat" where
  "bucket_of m key keylen = unat (hm_hashfunc m key keylen) mod unat (hm_buckets m)"

text \<open>
  \<open>B i\<close> are the entries of bucket \<open>i\<close>. The bucket array does not wrap around and does not start
  at \<open>NULL\<close>; no entry is in two buckets or is a bucket head.
\<close>

definition hm_rep :: "('k, 'v) hashmap \<Rightarrow> (nat \<Rightarrow> u64 list) \<Rightarrow> bool" where
  "hm_rep m B \<longleftrightarrow>
     hm_initialized m \<and> hm_entries m \<noteq> 0 \<and> 0 < unat (hm_buckets m) \<and> unat (hm_buckets m) < 2 ^ 31 \<and>
     unat (hm_entries m) + unat (hm_buckets m) * 32 < 2 ^ 64 \<and>
     (\<forall>i<unat (hm_buckets m).
        is_list (hm_links m) (bucket_head m i) (B i) \<and> length (B i) < 2 ^ 31 \<and>
        hm_count m (bucket_head m i) = of_nat (length (B i)) \<and> 0 \<notin> set (B i) \<and>
        (\<forall>j<unat (hm_buckets m). bucket_head m j \<notin> set (B i) \<and>
           (i \<noteq> j \<longrightarrow> set (B i) \<inter> set (B j) = {})))"

definition all_entries :: "('k, 'v) hashmap \<Rightarrow> (nat \<Rightarrow> u64 list) \<Rightarrow> u64 list" where
  "all_entries m B = concat (map B [0..<unat (hm_buckets m)])"

text \<open>The map that a representation stands for: the first matching entry of the key's bucket.\<close>

definition hm_lookup :: "('k, 'v) hashmap \<Rightarrow> (nat \<Rightarrow> u64 list) \<Rightarrow> 'k \<Rightarrow> u64 \<Rightarrow> 'v option" where
  "hm_lookup m B key keylen =
     map_option (\<lambda>e. he_value (hm_node m e))
       (List.find (entry_matches m key keylen) (B (bucket_of m key keylen)))"

lemma hm_repD:
  assumes "hm_rep m B"
  shows "hm_initialized m" and "0 < unat (hm_buckets m)" and "unat (hm_buckets m) < 2 ^ 31"
    and "hm_entries m \<noteq> 0" and "unat (hm_entries m) + unat (hm_buckets m) * 32 < 2 ^ 64"
    and "\<And>i. i < unat (hm_buckets m) \<Longrightarrow> is_list (hm_links m) (bucket_head m i) (B i)"
    and "\<And>i. i < unat (hm_buckets m) \<Longrightarrow> length (B i) < 2 ^ 31"
    and "\<And>i. i < unat (hm_buckets m) \<Longrightarrow> hm_count m (bucket_head m i) = of_nat (length (B i))"
    and "\<And>i. i < unat (hm_buckets m) \<Longrightarrow> 0 \<notin> set (B i)"
    and "\<And>i j. i < unat (hm_buckets m) \<Longrightarrow> j < unat (hm_buckets m) \<Longrightarrow> bucket_head m j \<notin> set (B i)"
    and "\<And>i j. i < unat (hm_buckets m) \<Longrightarrow> j < unat (hm_buckets m) \<Longrightarrow> i \<noteq> j \<Longrightarrow>
      set (B i) \<inter> set (B j) = {}"
  using assms unfolding hm_rep_def by auto

lemma unat_bucket_head:
  assumes "unat (hm_entries m) + unat (hm_buckets m) * 32 < 2 ^ 64" and "i < unat (hm_buckets m)"
  shows "unat (bucket_head m i) = unat (hm_entries m) + i * 32"
proof -
  have "i * 32 < 2 ^ 64" "unat (hm_entries m) + i * 32 < 2 ^ 64" using assms by linarith+
  moreover have "bucket_head m i = of_nat (unat (hm_entries m) + i * 32)"
    by (simp add: bucket_head_def hash_entry_size_def)
  ultimately show ?thesis by (simp only: unat_of_nat) simp
qed

lemma bucket_head_inj:
  assumes "hm_rep m B" and "i < unat (hm_buckets m)" and "j < unat (hm_buckets m)"
  shows "bucket_head m i = bucket_head m j \<longleftrightarrow> i = j" and "bucket_head m i \<noteq> 0"
proof -
  note u = unat_bucket_head [OF hm_repD(5) [OF assms(1)]]
  show "bucket_head m i = bucket_head m j \<longleftrightarrow> i = j"
    using u [OF assms(2)] u [OF assms(3)] by (metis add_left_cancel mult_cancel2 zero_neq_numeral)
  have "unat (hm_entries m) \<noteq> 0" using hm_repD(4) [OF assms(1)] by (simp add: unat_eq_zero)
  then show "bucket_head m i \<noteq> 0" using u [OF assms(2)] by (metis add_is_0 unat_0)
qed

lemma getHashEntry_bucket:
  "i < unat (hm_buckets m) \<Longrightarrow> getHashEntry m (of_nat i) = bucket_head m i"
  using unat_u64_less [of "hm_buckets m"]
  by (simp add: getHashEntry_def bucket_head_def word_less_nat_alt unat_of_nat)

lemma bucket_of_less: "hm_rep m B \<Longrightarrow> bucket_of m key keylen < unat (hm_buckets m)"
  using hm_repD(2) [of m B] by (simp add: bucket_of_def)

lemma getHashEntry_hashIndex:
  assumes "hm_rep m B"
  shows "getHashEntry m (hashIndex m key keylen) = bucket_head m (bucket_of m key keylen)"
proof -
  have "hashIndex m key keylen = of_nat (bucket_of m key keylen)"
    by (simp add: hashIndex_def bucket_of_def unat_mod [symmetric])
  then show ?thesis using getHashEntry_bucket [OF bucket_of_less [OF assms]] by simp
qed

lemma int_of_small: "n < 2 ^ 31 \<Longrightarrow> nat (int_of_ulong (of_nat n)) = n"
proof -
  assume n: "n < 2 ^ 31"
  then have "sint (of_nat n :: u32) = int n"
    by (simp add: signed_of_nat signed_take_bit_int_eq_self)
  moreover have "(ucast (of_nat n :: u64) :: u32) = of_nat n"
    using n by (simp add: unsigned_of_nat take_bit_nat_eq_self)
  ultimately show ?thesis by (simp add: int_of_ulong_def)
qed

text \<open>The search loop, started at any point of the bucket's list, is \<open>List.find\<close>.\<close>

lemma getEntry_loop_find:
  "is_list (hm_links m) head (xs @ ys) \<Longrightarrow>
    getEntry_loop m key keylen (length ys) (hd (ys @ [head])) = List.find (entry_matches m key keylen) ys"
proof (induction ys arbitrary: xs)
  case (Cons y ys)
  have "nextEntry y (hm_links m) = hd (ys @ [head])"
    using is_list_succ(1) [of "hm_links m" head xs y ys] Cons.prems by (simp add: nextEntry_def)
  then show ?case using Cons.IH [of "xs @ [y]"] Cons.prems by simp
qed simp

lemma getEntry_find:
  assumes "is_list (hm_links m) head ys" and "length ys < 2 ^ 31"
    and "hm_count m head = of_nat (length ys)"
  shows "getEntry m head key keylen = List.find (entry_matches m key keylen) ys"
  using getEntry_loop_find [of m head "[]" ys key keylen] is_list_ends(1) [OF assms(1)] assms
  by (simp add: getEntry_def int_of_small nextEntry_def)

lemma getEntry_bucket:
  assumes "hm_rep m B"
  shows "getEntry m (getHashEntry m (hashIndex m key keylen)) key keylen =
    List.find (entry_matches m key keylen) (B (bucket_of m key keylen))"
  unfolding getHashEntry_hashIndex [OF assms]
  by (rule getEntry_find) (rule hm_repD(6,7,8) [OF assms bucket_of_less [OF assms]])+

lemma hm_find_lookup:
  "hm_rep m B \<Longrightarrow> hm_find m key keylen = Ok (hm_lookup m B key keylen)"
  using hm_repD(1) [of m B] by (simp add: hm_find_def hm_lookup_def getEntry_bucket)

section \<open>Insertion\<close>

definition hm_fresh :: "('k, 'v) hashmap \<Rightarrow> (nat \<Rightarrow> u64 list) \<Rightarrow> u64 \<Rightarrow> bool" where
  "hm_fresh m B e \<longleftrightarrow> e \<noteq> 0 \<and>
     (\<forall>i<unat (hm_buckets m). e \<notin> set (B i) \<and> e \<noteq> bucket_head m i \<and> length (B i) + 1 < 2 ^ 31)"

lemma insertEntry_fields [simp]:
  "hm_initialized (insertEntry m head key keylen v e) = hm_initialized m"
  "hm_entries (insertEntry m head key keylen v e) = hm_entries m"
  "hm_buckets (insertEntry m head key keylen v e) = hm_buckets m"
  "hm_hashfunc (insertEntry m head key keylen v e) = hm_hashfunc m"
  "hm_keycmp (insertEntry m head key keylen v e) = hm_keycmp m"
  "hm_count (insertEntry m head key keylen v e) = (hm_count m)(head := hm_count m head + 1)"
  "hm_links (insertEntry m head key keylen v e) = listInsertTail e head (listInit e (hm_links m))"
  "hm_node (insertEntry m head key keylen v e) =
     (hm_node m)(e := \<lparr>he_key = key, he_keylen = sext32 keylen, he_value = v\<rparr>)"
  "bucket_head (insertEntry m head key keylen v e) = bucket_head m"
  "bucket_of (insertEntry m head key keylen v e) = bucket_of m"
  by (simp_all add: insertEntry_def createNewEntry_def Let_def bucket_head_def bucket_of_def fun_eq_iff)

lemma is_list_insert_fresh:
  assumes "is_list h head xs" and "e \<notin> set (head # xs)"
  shows "is_list (listInsertTail e head (listInit e h)) head (xs @ [e])"
    and "\<And>k ys. is_list h k ys \<Longrightarrow> set (k # ys) \<inter> set (e # head # xs) = {} \<Longrightarrow>
      is_list (listInsertTail e head (listInit e h)) k ys"
proof -
  have i: "is_list (listInit e h) head xs"
    by (rule is_list_cong [OF assms(1)]) (use assms(2) in \<open>auto simp: listInit_def\<close>)
  then show "is_list (listInsertTail e head (listInit e h)) head (xs @ [e])"
    using assms(2) by (rule is_list_listInsertTail)
  fix k ys assume k: "is_list h k ys" "set (k # ys) \<inter> set (e # head # xs) = {}"
  show "is_list (listInsertTail e head (listInit e h)) k ys"
  proof (rule is_list_same [OF k(1)])
    fix a assume "a \<in> set (k # ys)"
    then have "a \<notin> set (e # head # xs)" using k(2) by blast
    then show "listInsertTail e head (listInit e h) a = h a"
      using listInsertTail_frame [OF i, of a e]
      by (simp add: listInit_def nodeInit_def set_next_def set_prev_def)
  qed
qed

lemma hm_rep_insertEntry:
  assumes rep: "hm_rep m B" and fresh: "hm_fresh m B e" and i: "i < unat (hm_buckets m)"
  shows "hm_rep (insertEntry m (bucket_head m i) key keylen v e) (B(i := B i @ [e]))"
proof -
  let ?m = "insertEntry m (bucket_head m i) key keylen v e"
  note r = hm_repD [OF rep] and inj = bucket_head_inj [OF rep]
  have f: "e \<noteq> 0" "\<And>j. j < unat (hm_buckets m) \<Longrightarrow> e \<notin> set (B j) \<and> e \<noteq> bucket_head m j"
    "length (B i) + 1 < 2 ^ 31"
    using fresh i by (auto simp: hm_fresh_def)
  have ei: "e \<notin> set (bucket_head m i # B i)" using f(2) [OF i] by auto
  have lists: "is_list (hm_links ?m) (bucket_head m j) ((B(i := B i @ [e])) j)"
    if j: "j < unat (hm_buckets m)" for j
  proof (cases "j = i")
    case True
    then show ?thesis using is_list_insert_fresh(1) [OF r(6) [OF i] ei] by simp
  next
    case False
    then have "set (bucket_head m j # B j) \<inter> set (e # bucket_head m i # B i) = {}"
      using f(2) [OF j] r(10) [OF i j] r(10) [OF j i] r(11) [OF j i] inj(1) [OF j i] by auto
    then show ?thesis using is_list_insert_fresh(2) [OF r(6) [OF i] ei r(6) [OF j]] False by simp
  qed
  have counts: "hm_count ?m (bucket_head m j) = of_nat (length ((B(i := B i @ [e])) j))"
    if j: "j < unat (hm_buckets m)" for j
    using r(8) [OF j] inj(1) [OF j i] by auto
  have apart: "bucket_head m k \<notin> set ((B(i := B i @ [e])) j) \<and>
      (j \<noteq> k \<longrightarrow> set ((B(i := B i @ [e])) j) \<inter> set ((B(i := B i @ [e])) k) = {})"
    if "j < unat (hm_buckets m)" "k < unat (hm_buckets m)" for j k
    using r(10) [OF that] r(11) [OF that] f(2) [OF that(1)] f(2) [OF that(2)] by auto
  have bounds: "length ((B(i := B i @ [e])) j) < 2 ^ 31 \<and> 0 \<notin> set ((B(i := B i @ [e])) j)"
    if "j < unat (hm_buckets m)" for j
    using r(7,9) [OF that] f(1,3) by auto
  show ?thesis
    unfolding hm_rep_def insertEntry_fields
    using r(1-5) lists counts apart bounds by simp
qed

lemma find_append_single: "List.find P (xs @ [x]) =
    (case List.find P xs of None \<Rightarrow> if P x then Some x else None | Some y \<Rightarrow> Some y)"
  by (induction xs) auto

lemma find_cong_set: "(\<And>x. x \<in> set xs \<Longrightarrow> P x = Q x) \<Longrightarrow> List.find P xs = List.find Q xs"
  by (induction xs) auto

lemma find_Some_in: "List.find P xs = Some x \<Longrightarrow> x \<in> set xs \<and> P x"
  by (induction xs) (auto split: if_splits)

text \<open>
  What a lookup finds after an insertion: what it found before, and otherwise the new entry when
  the key matches.
\<close>

lemma hm_lookup_insertEntry:
  assumes rep: "hm_rep m B" and fresh: "hm_fresh m B e" and kl: "sext32 keylen = keylen"
    and i: "i = bucket_of m key keylen"
  shows "hm_lookup (insertEntry m (bucket_head m i) key keylen v e) (B(i := B i @ [e])) key' keylen' =
    (case hm_lookup m B key' keylen' of
       Some w \<Rightarrow> Some w
     | None \<Rightarrow> if bucket_of m key' keylen' = i \<and> keylen = keylen' \<and> hm_keycmp m key key' keylen'
              then Some v else None)"
proof -
  let ?m = "insertEntry m (bucket_head m i) key keylen v e" and ?j = "bucket_of m key' keylen'"
  let ?P = "entry_matches m key' keylen'" and ?Q = "entry_matches ?m key' keylen'"
  have "e \<notin> set (B ?j)" using fresh bucket_of_less [OF rep] by (auto simp: hm_fresh_def)
  then have "?Q x = ?P x" if "x \<in> set (B ?j)" for x using that by (auto simp: entry_matches_def)
  then have f: "List.find ?Q (B ?j) = List.find ?P (B ?j)" by (rule find_cong_set)
  have e: "?Q e \<longleftrightarrow> keylen = keylen' \<and> hm_keycmp m key key' keylen'"
    using kl by (simp add: entry_matches_def)
  have ne: "x \<noteq> e" if "List.find ?P (B ?j) = Some x" for x
    using find_Some_in [OF that] \<open>e \<notin> set (B ?j)\<close> by auto
  show ?thesis
    using f e ne by (auto simp: hm_lookup_def find_append_single split: option.splits)
qed

section \<open>Erasure\<close>

lemma hm_rep_remove:
  assumes rep: "hm_rep m B" and i: "i < unat (hm_buckets m)" and B: "B i = xs @ e # ys"
  shows "hm_rep (m\<lparr>hm_links := listRemoveNode e (hm_links m),
      hm_count := (hm_count m)(bucket_head m i := hm_count m (bucket_head m i) - 1)\<rparr>)
    (B(i := xs @ ys))" (is "hm_rep ?m ?B")
proof -
  note r = hm_repD [OF rep] and inj = bucket_head_inj [OF rep]
  have h: "bucket_head ?m = bucket_head m" by (simp add: bucket_head_def fun_eq_iff)
  have li: "is_list (hm_links m) (bucket_head m i) (xs @ e # ys)" using r(6) [OF i] B by simp
  have lists: "is_list (listRemoveNode e (hm_links m)) (bucket_head m j) (?B j)"
    if j: "j < unat (hm_buckets m)" for j
  proof (cases "j = i")
    case True
    then show ?thesis using is_list_remove [OF li] by simp
  next
    case False
    then have "set (bucket_head m i # xs @ e # ys) \<inter> set (bucket_head m j # B j) = {}"
      using r(10) [OF i j] r(10) [OF j i] r(11) [OF i j] inj(1) [OF i j] B by auto
    then show ?thesis using is_list_frame [OF li r(6) [OF j]] False by simp
  qed
  have "hm_count ?m (bucket_head m j) = of_nat (length (?B j))" if j: "j < unat (hm_buckets m)" for j
    using r(8) [OF j] r(8) [OF i] inj(1) [OF j i] B by auto
  moreover have "length (?B j) < 2 ^ 31 \<and> 0 \<notin> set (?B j)" if j: "j < unat (hm_buckets m)" for j
    using r(7,9) [OF j] r(7,9) [OF i] B by auto
  moreover have "bucket_head m k \<notin> set (?B j) \<and> (j \<noteq> k \<longrightarrow> set (?B j) \<inter> set (?B k) = {})"
    if j: "j < unat (hm_buckets m)" and k: "k < unat (hm_buckets m)" for j k
    using r(10) [OF j k] r(11) [OF j k] B by auto
  ultimately show ?thesis using r(1-5) lists unfolding hm_rep_def h by simp
qed

lemma find_split:
  "List.find P zs = Some e \<Longrightarrow> \<exists>xs ys. zs = xs @ e # ys \<and> (\<forall>x\<in>set xs. \<not> P x) \<and> P e"
proof (induction zs)
  case (Cons z zs)
  show ?case
  proof (cases "P z")
    case True
    then show ?thesis using Cons.prems by (intro exI [of _ "[]"] exI [of _ zs]) simp
  next
    case False
    then obtain xs ys where "zs = xs @ e # ys" "\<forall>x\<in>set xs. \<not> P x" "P e" using Cons by auto
    then show ?thesis using False by (intro exI [of _ "z # xs"] exI [of _ ys]) simp
  qed
qed simp

text \<open>Erasing a present key removes the first entry of its bucket that matches.\<close>

lemma hm_erase_present:
  assumes rep: "hm_rep m B"
    and f: "List.find (entry_matches m key keylen) (B (bucket_of m key keylen)) = Some e"
  shows "\<exists>m'. hm_erase m key keylen = Ok (True, m') \<and>
    hm_rep m' (B(bucket_of m key keylen := remove1 e (B (bucket_of m key keylen)))) \<and>
    hm_node m' = hm_node m \<and> hm_hashfunc m' = hm_hashfunc m \<and> hm_keycmp m' = hm_keycmp m \<and>
    hm_buckets m' = hm_buckets m"
proof -
  let ?i = "bucket_of m key keylen"
  note i = bucket_of_less [OF rep, of key keylen]
  obtain xs ys where B: "B ?i = xs @ e # ys" "\<forall>x\<in>set xs. \<not> entry_matches m key keylen x"
      "entry_matches m key keylen e"
    using find_split [OF f] by auto
  then have "e \<notin> set xs" by auto
  then have rem: "remove1 e (B ?i) = xs @ ys" using B(1) by (simp add: remove1_append)
  have "getEntry m (bucket_head m ?i) key keylen = Some e"
    using getEntry_bucket [OF rep, of key keylen] f by (simp add: getHashEntry_hashIndex [OF rep])
  then show ?thesis
    using hm_rep_remove [OF rep i B(1)] hm_repD(1) [OF rep]
    by (simp add: hm_erase_def getHashEntry_hashIndex [OF rep] rem Let_def)
qed

section \<open>Initialisation\<close>

lemma getHashEntry_cong:
  "hm_buckets m = hm_buckets m' \<Longrightarrow> hm_entries m = hm_entries m' \<Longrightarrow> getHashEntry m i = getHashEntry m' i"
  by (simp add: getHashEntry_def)

lemma fold_bucket_init:
  assumes "unat (hm_entries m) + unat (hm_buckets m) * 32 < 2 ^ 64"
  shows "n \<le> unat (hm_buckets m) \<Longrightarrow>
    \<exists>c l. fold (\<lambda>i m. hash_entry_initialize (getHashEntry m (of_nat i)) m) [0..<n] m =
        m\<lparr>hm_count := c, hm_links := l\<rparr> \<and>
      (\<forall>i<n. c (bucket_head m i) = 0 \<and> is_list l (bucket_head m i) [])"
proof (induction n)
  case 0
  show ?case by (intro exI [of _ "hm_count m"] exI [of _ "hm_links m"]) simp
next
  case (Suc n)
  let ?h = "bucket_head m n"
  obtain c l where f: "fold (\<lambda>i m. hash_entry_initialize (getHashEntry m (of_nat i)) m) [0..<n] m =
      m\<lparr>hm_count := c, hm_links := l\<rparr>"
    and IH: "\<And>i. i < n \<Longrightarrow> c (bucket_head m i) = 0 \<and> is_list l (bucket_head m i) []"
    using Suc.IH Suc_leD [OF Suc.prems] by blast
  have n: "n < unat (hm_buckets m)" using Suc.prems by simp
  have g: "getHashEntry (m\<lparr>hm_count := c, hm_links := l\<rparr>) (of_nat n) = ?h"
    using getHashEntry_bucket [OF n] getHashEntry_cong [of "m\<lparr>hm_count := c, hm_links := l\<rparr>" m] by simp
  have ne: "bucket_head m i \<noteq> ?h" if "i < n" for i
  proof
    assume "bucket_head m i = ?h"
    then have "unat (bucket_head m i) = unat ?h" by simp
    then show False using unat_bucket_head [OF assms, of i] unat_bucket_head [OF assms n] that n by simp
  qed
  have L: "is_list (listInit ?h l) (bucket_head m i) []" if "i < Suc n" for i
  proof (cases "i = n")
    case False
    then show ?thesis
      using that IH [of i] ne [of i] is_list_same [of l "bucket_head m i" "[]" "listInit ?h l"]
      by (auto simp: listInit_def nodeInit_def set_next_def set_prev_def)
  qed (simp add: is_list_listInit)
  have C: "(c(?h := 0)) (bucket_head m i) = 0" if "i < Suc n" for i
    using IH [of i] that by (cases "i = n") auto
  have F: "fold (\<lambda>i m. hash_entry_initialize (getHashEntry m (of_nat i)) m) [0..<Suc n] m =
      m\<lparr>hm_count := c(?h := 0), hm_links := listInit ?h l\<rparr>"
    using f g by (simp add: hash_entry_initialize_def)
  show ?case using F C L by blast
qed

lemma hm_initialize_rep:
  assumes "0 < unat sz" "unat sz < 2 ^ 31" "mem \<noteq> 0" "unat mem + unat sz * 32 < 2 ^ 64"
  shows "\<exists>m'. hm_initialize (Some h) (Some c) sz mem m = Ok m' \<and> hm_rep m' (\<lambda>_. []) \<and>
    hm_hashfunc m' = h \<and> hm_keycmp m' = c \<and> hm_buckets m' = sz"
proof -
  define m0 where "m0 = m\<lparr>hm_entries := mem, hm_bucketsUsed := 0, hm_buckets := sz,
    hm_hashfunc := h, hm_keycmp := c\<rparr>"
  define m1 where "m1 = fold (\<lambda>i m. hash_entry_initialize (getHashEntry m (of_nat i)) m) [0..<unat sz] m0"
  have s: "hm_buckets m0 = sz" "hm_entries m0 = mem" "hm_hashfunc m0 = h" "hm_keycmp m0 = c"
    by (simp_all add: m0_def)
  obtain c' l' where f: "m1 = m0\<lparr>hm_count := c', hm_links := l'\<rparr>"
    "\<forall>i<unat sz. c' (bucket_head m0 i) = 0 \<and> is_list l' (bucket_head m0 i) []"
    using fold_bucket_init [of m0 "unat sz"] assms(4) s unfolding m1_def by auto
  then have s1: "hm_buckets m1 = sz" "hm_entries m1 = mem" "hm_hashfunc m1 = h" "hm_keycmp m1 = c"
    "hm_count m1 = c'" "hm_links m1 = l'"
    by (simp_all add: s)
  then have b: "bucket_head (m1\<lparr>hm_initialized := True\<rparr>) = bucket_head m0"
    using s by (simp add: bucket_head_def fun_eq_iff)
  have "hm_initialize (Some h) (Some c) sz mem m = Ok (m1\<lparr>hm_initialized := True\<rparr>)"
    by (simp add: hm_initialize_def m1_def m0_def Let_def)
  moreover have "hm_rep (m1\<lparr>hm_initialized := True\<rparr>) (\<lambda>_. [])"
    unfolding hm_rep_def b using assms f(2) s1 by simp
  ultimately show ?thesis using s1 by auto
qed

section \<open>Iteration\<close>

definition entries_from :: "('k, 'v) hashmap \<Rightarrow> (nat \<Rightarrow> u64 list) \<Rightarrow> nat \<Rightarrow> u64 list" where
  "entries_from m B i = concat (map B [i..<unat (hm_buckets m)])"

lemma entries_from_step: "i < unat (hm_buckets m) \<Longrightarrow> entries_from m B i = B i @ entries_from m B (Suc i)"
  by (simp add: entries_from_def upt_conv_Cons)

lemma next_bucket_spec:
  assumes rep: "hm_rep m B"
  shows "i \<le> unat (hm_buckets m) \<Longrightarrow>
    (if entries_from m B i = []
     then it_entry (next_bucket m (of_nat i)) = 0 \<and> it_pos (next_bucket m (of_nat i)) = hm_buckets m
     else \<exists>k<unat (hm_buckets m). B k \<noteq> [] \<and> entries_from m B i = entries_from m B k \<and>
       next_bucket m (of_nat i) = \<lparr>it_entry = hd (B k), it_pos = of_nat k\<rparr>)"
proof (induction "unat (hm_buckets m) - i" arbitrary: i)
  case 0
  then have "i = unat (hm_buckets m)" by simp
  then show ?case by (subst next_bucket.simps) (simp add: entries_from_def next_bucket.simps)
next
  case (Suc d)
  then have i: "i < unat (hm_buckets m)" by simp
  note r = hm_repD [OF rep]
  have lt: "of_nat i < hm_buckets m"
    using i r(3) by (simp add: word_less_nat_alt unat_of_nat)
  have c: "hm_count m (bucket_head m i) = 0 \<longleftrightarrow> B i = []"
    using r(7,8) [OF i] by (simp add: word_unat_eq_iff unat_of_nat)
  note step = next_bucket.simps [of m "of_nat i"] lt getHashEntry_bucket [OF i] c
  show ?case
  proof (cases "B i = []")
    case True
    then have "next_bucket m (of_nat i) = next_bucket m (of_nat (Suc i))"
      using step by (simp add: add.commute)
    moreover have "entries_from m B i = entries_from m B (Suc i)"
      using entries_from_step [OF i] True by simp
    moreover have d: "d = unat (hm_buckets m) - Suc i" using Suc.hyps(2) by linarith
    ultimately show ?thesis using Suc.hyps(1) [OF d Suc_leI [OF i]] by (simp only:)
  next
    case False
    then have "next_bucket m (of_nat i) = \<lparr>it_entry = hd (B i), it_pos = of_nat i\<rparr>"
      using step is_list_ends(1) [OF r(6) [OF i]] by (simp add: nextEntry_def)
    then show ?thesis using False i entries_from_step [OF i, of B] by auto
  qed
qed

lemma it_next_spec:
  assumes rep: "hm_rep m B" and i: "i < unat (hm_buckets m)" and B: "B i = xs @ x # ys"
  shows "it_next m \<lparr>it_entry = x, it_pos = of_nat i\<rparr> =
    (if ys = [] then next_bucket m (of_nat (Suc i)) else \<lparr>it_entry = hd ys, it_pos = of_nat i\<rparr>)"
proof -
  note r = hm_repD [OF rep]
  have "nxt (hm_links m x) = hd (ys @ [bucket_head m i])"
    using is_list_succ(1) [of "hm_links m" "bucket_head m i" xs x ys] r(6) [OF i] B by simp
  moreover have "bucket_head m i \<notin> set ys" using r(10) [OF i i] B by simp
  ultimately show ?thesis
    by (cases ys) (auto simp: it_next_def getHashEntry_bucket [OF i] isListTail_def nextEntry_def
        add.commute)
qed

lemma it_loop_spec:
  assumes rep: "hm_rep m B"
  shows "i < unat (hm_buckets m) \<Longrightarrow> B i = xs @ x # ys \<Longrightarrow>
    length (x # ys @ entries_from m B (Suc i)) \<le> fuel \<Longrightarrow>
    it_loop fuel m \<lparr>it_entry = x, it_pos = of_nat i\<rparr> = Some (x # ys @ entries_from m B (Suc i))"
proof (induction fuel arbitrary: i xs x ys)
  case (Suc fuel)
  note B = Suc.prems(2)
  have "x \<noteq> 0" using hm_repD(9) [OF rep Suc.prems(1)] B by auto
  then have one: "it_loop (Suc fuel) m \<lparr>it_entry = x, it_pos = of_nat i\<rparr> =
      map_option ((#) x) (it_loop fuel m (it_next m \<lparr>it_entry = x, it_pos = of_nat i\<rparr>))"
    by (simp add: it_equal_def hm_end_def)
  show ?case
  proof (cases ys)
    case (Cons y zs)
    then show ?thesis
      using one it_next_spec [OF rep Suc.prems(1) B] Suc.IH [OF Suc.prems(1), of "xs @ [x]" y zs] B
        Suc.prems(3) by simp
  next
    case Nil
    let ?n = "next_bucket m (of_nat (Suc i))"
    have nx: "it_next m \<lparr>it_entry = x, it_pos = of_nat i\<rparr> = ?n"
      using it_next_spec [OF rep Suc.prems(1) B] Nil by simp
    show ?thesis
    proof (cases "entries_from m B (Suc i) = []")
      case True
      then have "it_entry ?n = 0" using next_bucket_spec [OF rep, of "Suc i"] Suc.prems(1) by simp
      then have "it_loop fuel m ?n = Some []" by (cases fuel) (auto simp: it_equal_def hm_end_def)
      then show ?thesis using one nx True Nil by simp
    next
      case False
      then obtain k where k: "k < unat (hm_buckets m)" "B k \<noteq> []"
          "entries_from m B (Suc i) = entries_from m B k" "?n = \<lparr>it_entry = hd (B k), it_pos = of_nat k\<rparr>"
        using next_bucket_spec [OF rep, of "Suc i"] Suc.prems(1) by auto
      have "it_loop fuel m \<lparr>it_entry = hd (B k), it_pos = of_nat k\<rparr> =
          Some (hd (B k) # tl (B k) @ entries_from m B (Suc k))"
        using k Suc.prems(3) entries_from_step [OF k(1), of B]
        by (intro Suc.IH [of k "[]"]) (auto simp: neq_Nil_conv Nil)
      then show ?thesis using one nx k Nil entries_from_step [OF k(1), of B] by simp
    qed
  qed
qed simp

lemma it_loop_begin:
  assumes rep: "hm_rep m B" and fuel: "length (all_entries m B) \<le> fuel"
  shows "it_loop fuel m (hm_begin m) = Some (all_entries m B)"
proof -
  have all: "all_entries m B = entries_from m B 0" by (simp add: all_entries_def entries_from_def)
  note nb = next_bucket_spec [OF rep, of 0]
  show ?thesis
  proof (cases "entries_from m B 0 = []")
    case True
    then have "hm_begin m = hm_end" using nb by (simp add: hm_begin_def Let_def)
    then show ?thesis using True all by (cases fuel) (auto simp: it_equal_def)
  next
    case False
    then obtain k where k: "k < unat (hm_buckets m)" "B k \<noteq> []"
        "entries_from m B 0 = entries_from m B k" "next_bucket m 0 = \<lparr>it_entry = hd (B k), it_pos = of_nat k\<rparr>"
      using nb by auto
    have "of_nat k < hm_buckets m" "sext32 (of_nat k) = of_nat k"
      using k(1) hm_repD(3) [OF rep] by (auto simp: word_less_nat_alt unat_of_nat sext32_small)
    then have "hm_begin m = \<lparr>it_entry = hd (B k), it_pos = of_nat k\<rparr>"
      using k(4) by (simp add: hm_begin_def Let_def)
    moreover obtain y ys where y: "B k = y # ys" using k(2) by (cases "B k") auto
    ultimately show ?thesis
      using it_loop_spec [OF rep k(1), of "[]" y ys fuel] fuel k all entries_from_step [OF k(1), of B]
      by simp
  qed
qed

section \<open>The map interface\<close>

text \<open>
  What the clients of the hash map rely on: a lookup that an insertion of a new key extends, that
  an insertion leaves alone at other keys, and that an erasure of a present key restricts.
\<close>

locale assoc_map =
  fixes rep :: "'m \<Rightarrow> 'r \<Rightarrow> bool" and fresh :: "'m \<Rightarrow> 'r \<Rightarrow> 'a \<Rightarrow> bool"
    and look :: "'m \<Rightarrow> 'k \<Rightarrow> 'v option" and ins :: "'m \<Rightarrow> 'k \<Rightarrow> 'v \<Rightarrow> 'a \<Rightarrow> 'm"
  assumes rep_ins: "rep m B \<Longrightarrow> fresh m B a \<Longrightarrow> \<exists>B'. rep (ins m k v a) B'"
    and look_ins: "rep m B \<Longrightarrow> fresh m B a \<Longrightarrow>
      look (ins m k v a) k' = (case look m k' of Some w \<Rightarrow> Some w | None \<Rightarrow> if k = k' then Some v else None)"
begin

lemma look_ins_new: "rep m B \<Longrightarrow> fresh m B a \<Longrightarrow> look m k = None \<Longrightarrow> look (ins m k v a) = (look m)(k \<mapsto> v)"
  by (auto simp: look_ins fun_eq_iff split: option.splits)

lemma look_ins_present: "rep m B \<Longrightarrow> fresh m B a \<Longrightarrow> look m k \<noteq> None \<Longrightarrow> look (ins m k v a) = look m"
  by (auto simp: look_ins fun_eq_iff split: option.splits)

end

text \<open>
  The instance: keys of one fixed length below \<open>2^31\<close> (every client passes \<open>sizeof\<close> of its key
  type), compared with equality.
\<close>

definition addr_map :: "(u64, 'v) hashmap \<Rightarrow> (nat \<Rightarrow> u64 list) \<Rightarrow> bool" where
  "addr_map m B \<longleftrightarrow> hm_rep m B \<and> hm_hashfunc m = hashAddr \<and> hm_keycmp m = compareAddr"

definition addr_look :: "(u64, 'v) hashmap \<Rightarrow> u64 \<Rightarrow> 'v option" where
  "addr_look m key = (case hm_find m key 8 of Ok r \<Rightarrow> r | Err _ \<Rightarrow> None)"

definition addr_insert :: "(u64, 'v) hashmap \<Rightarrow> u64 \<Rightarrow> 'v \<Rightarrow> u64 \<Rightarrow> (u64, 'v) hashmap" where
  "addr_insert m key v e = (case hm_insert m key 8 v e of Ok m' \<Rightarrow> m' | Err _ \<Rightarrow> m)"

lemma sext32_8: "sext32 8 = 8"
  using sext32_small [of 8] by simp

lemma addr_insert_rep:
  assumes "addr_map m B" and "hm_fresh m B e" and i_def: "i = bucket_of m k 8"
  shows "addr_insert m k v e = insertEntry m (bucket_head m i) k 8 v e"
    and "addr_map (addr_insert m k v e) (B(i := B i @ [e]))"
proof -
  have rep: "hm_rep m B" using assms(1) by (simp add: addr_map_def)
  show e: "addr_insert m k v e = insertEntry m (bucket_head m i) k 8 v e"
    using hm_repD(1) [OF rep] getHashEntry_hashIndex [OF rep]
    by (simp add: addr_insert_def hm_insert_def i_def)
  show "addr_map (addr_insert m k v e) (B(i := B i @ [e]))"
    unfolding e using hm_rep_insertEntry [OF rep assms(2) bucket_of_less [OF rep]] assms(1)
    by (simp add: addr_map_def i_def)
qed

lemma addr_look_insert:
  assumes "addr_map m B" and "hm_fresh m B e"
  shows "addr_look (addr_insert m k v e) k' =
    (case addr_look m k' of Some w \<Rightarrow> Some w | None \<Rightarrow> if k = k' then Some v else None)"
proof -
  have rep: "hm_rep m B" and cmp: "hm_keycmp m = compareAddr" using assms(1) by (auto simp: addr_map_def)
  have rep': "hm_rep (addr_insert m k v e) (B(bucket_of m k 8 := B (bucket_of m k 8) @ [e]))"
    using addr_insert_rep(2) [OF assms refl] by (simp add: addr_map_def)
  have "addr_look (addr_insert m k v e) k' = hm_lookup (addr_insert m k v e)
      (B(bucket_of m k 8 := B (bucket_of m k 8) @ [e])) k' 8"
    "addr_look m k' = hm_lookup m B k' 8"
    by (simp_all add: addr_look_def hm_find_lookup [OF rep] hm_find_lookup [OF rep'])
  then show ?thesis
    using hm_lookup_insertEntry [OF rep assms(2) sext32_8 refl, of k v k' 8] cmp
    by (auto simp: addr_insert_rep(1) [OF assms refl] compareAddr_def split: option.splits)
qed

interpretation hmap: assoc_map addr_map hm_fresh addr_look addr_insert
proof (unfold_locales, goal_cases)
  case (1 m B a k v)
  then show ?case using addr_insert_rep(2) [OF 1 refl] by blast
next
  case (2 m B a k v k')
  then show ?case by (rule addr_look_insert)
qed

section \<open>Properties\<close>

text \<open>
  C16. Insertion and lookup: after \<open>insert(key, v)\<close> the representation invariant holds again,
  every key that was found before is found with its old value (so a second insertion of a key is
  shadowed by the first), and a key that was not found before is found, with value \<open>v\<close>, exactly
  when it falls in the bucket of \<open>key\<close> and compares equal to it.
\<close>

theorem hashmap_find_after_insert:
  assumes "hm_rep m B" and "hm_fresh m B e" and "sext32 keylen = keylen"
  shows "\<exists>m' B'. hm_insert m key keylen v e = Ok m' \<and> hm_rep m' B' \<and>
    (\<forall>key' keylen' r. hm_find m key' keylen' = Ok r \<longrightarrow>
      hm_find m' key' keylen' = Ok (case r of
        Some w \<Rightarrow> Some w
      | None \<Rightarrow> if bucket_of m key' keylen' = bucket_of m key keylen \<and> keylen = keylen' \<and>
                  hm_keycmp m key key' keylen' then Some v else None))"
proof -
  let ?i = "bucket_of m key keylen" and ?m = "insertEntry m (bucket_head m (bucket_of m key keylen)) key keylen v e"
  have rep: "hm_rep ?m (B(?i := B ?i @ [e]))"
    by (rule hm_rep_insertEntry [OF assms(1,2) bucket_of_less [OF assms(1)]])
  moreover have "hm_insert m key keylen v e = Ok ?m"
    using hm_repD(1) [OF assms(1)] by (simp add: hm_insert_def getHashEntry_hashIndex [OF assms(1)])
  ultimately show ?thesis
    using hm_lookup_insertEntry [OF assms refl] hm_find_lookup [OF rep] hm_find_lookup [OF assms(1)]
    by auto
qed

definition demo_blank :: "(u64, nat) hashmap" where
  "demo_blank = \<lparr>hm_initialized = False, hm_entries = 0, hm_buckets = 0, hm_bucketsUsed = 0,
     hm_count = (\<lambda>_. 7), hm_links = blank_store,
     hm_node = (\<lambda>_. \<lparr>he_key = 0, he_keylen = 0, he_value = 0\<rparr>),
     hm_hashfunc = hashAddr, hm_keycmp = compareAddr\<rparr>"

definition demo_map :: "(u64, nat) hashmap" where
  "demo_map = (case hm_initialize (Some hashAddr) (Some compareAddr) 4 4096 demo_blank of
     Ok m \<Rightarrow> m | Err _ \<Rightarrow> demo_blank)"

lemma demo_map_rep: "hm_rep demo_map (\<lambda>_. [])" "hm_buckets demo_map = 4" "hm_fresh demo_map (\<lambda>_. []) 64"
proof -
  obtain m' where "hm_initialize (Some hashAddr) (Some compareAddr) 4 4096 demo_blank = Ok m'"
      "hm_rep m' (\<lambda>_. [])" "hm_buckets m' = 4"
    using hm_initialize_rep [of 4 4096 hashAddr compareAddr demo_blank] by auto
  then have m: "demo_map = m'" "hm_rep m' (\<lambda>_. [])" "hm_buckets m' = 4" by (auto simp: demo_map_def)
  then show "hm_rep demo_map (\<lambda>_. [])" "hm_buckets demo_map = 4" by auto
  have e: "hm_entries demo_map = 4096" by code_simp
  have "bucket_head demo_map i \<noteq> 64" if "i < 4" for i
  proof -
    have "unat (bucket_head demo_map i) = 4096 + i * 32"
      using unat_bucket_head [of demo_map i] that m e by simp
    then have "unat (bucket_head demo_map i) \<noteq> unat (64 :: u64)" by simp
    then show ?thesis by auto
  qed
  then show "hm_fresh demo_map (\<lambda>_. []) 64" using m by (auto simp: hm_fresh_def)
qed

theorem hashmap_find_after_insert_witness:
  "\<exists>m' B'. hm_insert demo_map 500 8 (3 :: nat) 64 = Ok m' \<and> hm_rep m' B' \<and> hm_find m' 500 8 = Ok (Some 3)"
proof -
  have f: "hm_find demo_map 500 8 = Ok None"
    using hm_find_lookup [OF demo_map_rep(1)] by (simp add: hm_lookup_def)
  have "hm_keycmp demo_map 500 500 8" by code_simp
  then show ?thesis
    using hashmap_find_after_insert [OF demo_map_rep(1,3) sext32_8, of 500 3] f by force
qed



text \<open>
  C18. The iterator loop ends and visits every entry of the map exactly once, bucket by bucket in
  insertion order.
\<close>

theorem hashmap_iteration_complete:
  assumes "hm_rep m B"
  shows "\<exists>fuel. it_loop fuel m (hm_begin m) = Some (all_entries m B) \<and> distinct (all_entries m B)"
proof -
  have d: "distinct (concat (map B [0..<n]))" if "n \<le> unat (hm_buckets m)" for n
    using that
  proof (induction n)
    case (Suc n)
    then have n: "n < unat (hm_buckets m)" by simp
    have "set (B i) \<inter> set (B n) = {}" if "i < n" for i
      using hm_repD(11) [OF assms _ n, of i] n that by simp
    then have "set (concat (map B [0..<n])) \<inter> set (B n) = {}" by fastforce
    then show ?case
      using Suc n hm_repD(6) [OF assms n] by (simp add: is_list_def)
  qed simp
  show ?thesis using it_loop_begin [OF assms order_refl] d [OF order_refl] by (auto simp: all_entries_def)
qed

theorem hashmap_iteration_complete_witness:
  "\<exists>fuel. it_loop fuel demo_map (hm_begin demo_map) = Some []"
proof -
  have "all_entries demo_map (\<lambda>_. []) = []" by (simp add: all_entries_def)
  then show ?thesis using hashmap_iteration_complete [OF demo_map_rep(1)] by simp
qed

definition drop_count :: "('k, 'v) hashmap \<Rightarrow> nat \<Rightarrow> ('k, 'v) hashmap" where
  "drop_count m i = m\<lparr>hm_count := (hm_count m)(bucket_head m i := hm_count m (bucket_head m i) - 1)\<rparr>"

lemma drop_count_fields [simp]:
  "bucket_head (drop_count m i) = bucket_head m" "bucket_of (drop_count m i) = bucket_of m"
  "hm_links (drop_count m i) = hm_links m" "hm_initialized (drop_count m i) = hm_initialized m"
  "hm_buckets (drop_count m i) = hm_buckets m" "hm_node (drop_count m i) = hm_node m"
  "hm_keycmp (drop_count m i) = hm_keycmp m" "getHashEntry (drop_count m i) = getHashEntry m"
  "hashIndex (drop_count m i) = hashIndex m" "entry_matches (drop_count m i) = entry_matches m"
  by (simp_all add: drop_count_def bucket_head_def bucket_of_def getHashEntry_def hashIndex_def
      entry_matches_def fun_eq_iff)

lemma hm_erase_absent:
  assumes "hm_rep m B" and "hm_find m key keylen = Ok None"
  shows "hm_erase m key keylen = Ok (False, drop_count m (bucket_of m key keylen))"
proof -
  have "getEntry m (bucket_head m (bucket_of m key keylen)) key keylen = None"
    using assms(2) getEntry_bucket [OF assms(1)] hm_find_lookup [OF assms(1)]
    by (simp add: hm_lookup_def getHashEntry_hashIndex [OF assms(1)])
  then show ?thesis
    using hm_repD(1) [OF assms(1)]
    by (simp add: hm_erase_def getHashEntry_hashIndex [OF assms(1)] Let_def drop_count_def)
qed

lemma drop_count_begin:
  assumes "hm_rep m B" and "B 0 = []"
  shows "it_entry (hm_begin (drop_count m 0)) = bucket_head m 0"
proof -
  note r = hm_repD [OF assms(1)]
  have g: "getHashEntry m 0 = bucket_head m 0" using getHashEntry_bucket [of 0 m] r(2) by simp
  have "nxt (hm_links m (bucket_head m 0)) = bucket_head m 0"
    using is_list_ends(1) [OF r(6) [OF r(2)]] assms(2) by simp
  moreover have "hm_count (drop_count m 0) (bucket_head m 0) \<noteq> 0"
    using r(8) [OF r(2)] assms(2) by (simp add: drop_count_def)
  ultimately have "next_bucket (drop_count m 0) 0 = \<lparr>it_entry = bucket_head m 0, it_pos = 0\<rparr>"
    using r(2) g by (subst next_bucket.simps) (simp add: nextEntry_def word_less_nat_alt)
  then show ?thesis using r(2) by (simp add: hm_begin_def word_less_nat_alt)
qed

lemma getEntry_loop_prefix:
  "is_list (hm_links m) head (ws @ us @ vs) \<Longrightarrow> \<forall>x\<in>set us. \<not> entry_matches m key keylen x \<Longrightarrow>
    getEntry_loop m key keylen (length us) (hd (us @ vs @ [head])) = None"
proof (induction us arbitrary: ws)
  case (Cons u us)
  have "nextEntry u (hm_links m) = hd (us @ vs @ [head])"
    using is_list_succ(1) [of "hm_links m" head ws u "us @ vs"] Cons.prems by (simp add: nextEntry_def)
  then show ?case using Cons.IH [of "ws @ [u]"] Cons.prems by simp
qed simp

lemma drop_count_hides_last:
  assumes "hm_rep m B" and i: "i < unat (hm_buckets m)" and B: "B i = xs @ [e]"
    and no: "\<forall>x\<in>set xs. \<not> entry_matches m key keylen x" and key: "bucket_of m key keylen = i"
  shows "hm_find (drop_count m i) key keylen = Ok None"
proof -
  let ?m = "drop_count m i" and ?h = "bucket_head m i"
  note r = hm_repD [OF assms(1)]
  have "nat (int_of_ulong (hm_count ?m ?h)) = length xs"
    using r(7,8) [OF i] B int_of_small [of "length xs"] by (simp add: drop_count_def)
  moreover have "nextEntry ?h (hm_links ?m) = hd (xs @ [e] @ [?h])"
    using is_list_ends(1) [OF r(6) [OF i]] B by (simp add: nextEntry_def)
  moreover have "getEntry_loop ?m key keylen (length xs) (hd (xs @ [e] @ [?h])) = None"
    using getEntry_loop_prefix [of ?m ?h "[]" xs "[e]"] r(6) [OF i] B no by simp
  ultimately show ?thesis
    using r(1) getHashEntry_hashIndex [OF assms(1), of key keylen] key
    by (simp add: hm_find_def getEntry_def)
qed

text \<open>
  C19. Erasing a key that is not in the map corrupts it: the count of the key's bucket is
  decremented all the same, so that the last entry of that bucket can no longer be found, and on
  an empty first bucket the iterator starts at the bucket head as if it were an entry.
\<close>

theorem hashmap_erase_absent_corrupts:
  assumes "hm_rep m B" and "hm_find m key keylen = Ok None" and "i = bucket_of m key keylen"
  shows "\<exists>m'. hm_erase m key keylen = Ok (False, m') \<and> \<not> hm_rep m' B \<and>
    (i = 0 \<and> B i = [] \<longrightarrow> it_entry (hm_begin m') = bucket_head m 0) \<and>
    (\<forall>xs e key' keylen'. B i = xs @ [e] \<and> (\<forall>x\<in>set xs. \<not> entry_matches m key' keylen' x) \<and>
      bucket_of m key' keylen' = i \<longrightarrow> hm_find m' key' keylen' = Ok None)"
proof -
  have i: "i < unat (hm_buckets m)" using bucket_of_less [OF assms(1)] assms(3) by simp
  have "hm_count (drop_count m i) (bucket_head m i) = of_nat (length (B i)) - 1"
    using hm_repD(8) [OF assms(1) i] by (simp add: drop_count_def)
  then have "\<not> hm_rep (drop_count m i) B" using hm_repD(8) [of "drop_count m i" B i] i by auto
  then show ?thesis
    using hm_erase_absent [OF assms(1,2)] drop_count_begin [OF assms(1)]
      drop_count_hides_last [OF assms(1) i] assms(3) by auto
qed

theorem hashmap_erase_absent_corrupts_witness:
  "\<exists>m'. hm_erase demo_map 500 8 = Ok (False, m') \<and> \<not> hm_rep m' (\<lambda>_. [])"
proof -
  have "hm_find demo_map 500 8 = Ok None"
    using hm_find_lookup [OF demo_map_rep(1)] by (simp add: hm_lookup_def)
  from hashmap_erase_absent_corrupts [OF demo_map_rep(1) this refl] show ?thesis by blast
qed

end
