(* ===== verification/Xdefines.thy ===== *)
theory Xdefines
  imports Prelude
begin

text \<open>
  The constants and the alignment helpers of \<open>include/xdefines.hh\<close>. \<open>alignup\<close> and
  \<open>aligndown\<close> round to a power of two; the lemmas say that the results are aligned, on the right
  side of the argument and less than one unit away from it.
\<close>

datatype faultyObjectType =
  OBJECT_TYPE_NO_ERROR | OBJECT_TYPE_OVERFLOW | OBJECT_TYPE_USEAFTERFREE | OBJECT_TYPE_LEAK
  | OBJECT_TYPE_WATCHONLY

text \<open>The enumeration's values: one bit for each kind of error.\<close>

fun fault_bits :: "faultyObjectType \<Rightarrow> u32" where
  "fault_bits OBJECT_TYPE_NO_ERROR = 0"
| "fault_bits OBJECT_TYPE_OVERFLOW = 1"
| "fault_bits OBJECT_TYPE_USEAFTERFREE = 2"
| "fault_bits OBJECT_TYPE_LEAK = 4"
| "fault_bits OBJECT_TYPE_WATCHONLY = 8"

definition alignup :: "u64 \<Rightarrow> u64 \<Rightarrow> u64" where
  "alignup sz alignto = (sz + (alignto - 1)) AND NOT (alignto - 1)"

definition aligndown :: "u64 \<Rightarrow> u64 \<Rightarrow> u64" where
  "aligndown addr alignto = addr AND NOT (alignto - 1)"

record freeObject =
  fo_ptr :: u64
  fo_size :: u64

text \<open>The constants of class \<open>xdefines\<close>.\<close>

definition USER_HEAP_SIZE :: u64 where "USER_HEAP_SIZE = 1048576 * 8192"
definition USER_HEAP_BASE :: u64 where "USER_HEAP_BASE = 0x100000000"
definition INTERNAL_HEAP_BASE :: u64 where "INTERNAL_HEAP_BASE = 0x100000000000"
definition INTERNAL_HEAP_SIZE :: u64 where "INTERNAL_HEAP_SIZE = 1048576 * 4096"
definition QUARANTINE_BUF_SIZE :: u64 where "QUARANTINE_BUF_SIZE = 1024"
definition QUARANTINE_TOTAL_SIZE :: u64 where "QUARANTINE_TOTAL_SIZE = 1048576 * 16"
definition MAX_WATCHPOINTS :: nat where "MAX_WATCHPOINTS = 4"
definition PageSize :: u64 where "PageSize = 4096"
definition MAX_ALIVE_THREADS :: nat where "MAX_ALIVE_THREADS = 128"
definition MAX_REAPABLE_THREADS :: nat where "MAX_REAPABLE_THREADS = MAX_ALIVE_THREADS - 10"
definition WORD_SIZE :: u64 where "WORD_SIZE = 8"
definition WORD_SIZE_MASK :: u64 where "WORD_SIZE_MASK = WORD_SIZE - 1"
definition SENTINEL_SIZE :: u64 where "SENTINEL_SIZE = WORD_SIZE"
definition MAGIC_BYTE_NOT_ALIGNED :: u8 where "MAGIC_BYTE_NOT_ALIGNED = 0x7E"
definition FREE_OBJECT_CANARY_WORDS :: u64 where "FREE_OBJECT_CANARY_WORDS = 16"
definition FREE_OBJECT_CANARY_SIZE :: u64 where "FREE_OBJECT_CANARY_SIZE = 16 * WORD_SIZE"
definition CALLSITE_MAXIMUM_LENGTH :: nat where "CALLSITE_MAXIMUM_LENGTH = 10"
definition MAX_SYSCALL_ENTRIES :: nat where "MAX_SYSCALL_ENTRIES = 0x100000"
definition SENTINEL_WORD :: u64 where "SENTINEL_WORD = 0xCAFEBABECAFEBABE"
definition MEMALIGN_SENTINEL_WORD :: u64 where "MEMALIGN_SENTINEL_WORD = 0xDADEBABEDADEBABE"

lemmas xdefs = USER_HEAP_SIZE_def USER_HEAP_BASE_def QUARANTINE_BUF_SIZE_def QUARANTINE_TOTAL_SIZE_def
  PageSize_def WORD_SIZE_def WORD_SIZE_MASK_def SENTINEL_SIZE_def MAGIC_BYTE_NOT_ALIGNED_def
  FREE_OBJECT_CANARY_WORDS_def FREE_OBJECT_CANARY_SIZE_def

section \<open>Alignment\<close>

lemma and_not_mask: "x AND NOT (2 ^ k - 1) = 2 ^ k * (x div 2 ^ k)" for x :: u64
proof -
  have "2 ^ k - 1 = (mask k :: u64)" by (simp add: mask_eq_exp_minus_1)
  then have "x AND NOT (2 ^ k - 1) = push_bit k (drop_bit k x)"
    by (auto simp: bit_eq_iff bit_simps)
  also have "\<dots> = 2 ^ k * (x div 2 ^ k)"
    by (simp add: push_bit_eq_mult drop_bit_eq_div mult.commute)
  finally show ?thesis .
qed

lemma unat_exp: "k < 64 \<Longrightarrow> unat (2 ^ k :: u64) = 2 ^ k"
proof -
  assume "k < 64"
  then have "(2 :: nat) ^ k < 2 ^ 64" by (rule power_strict_increasing) simp
  then have "unat (of_nat (2 ^ k) :: u64) = 2 ^ k" by (simp only: unat_of_nat) simp
  then show ?thesis by simp
qed

lemma unat_aligndown: "k < 64 \<Longrightarrow> unat (aligndown x (2 ^ k)) = 2 ^ k * (unat x div 2 ^ k)"
proof -
  assume k: "k < 64"
  have "2 ^ k * (unat x div 2 ^ k) < 2 ^ 64"
    using unat_u64_less [of x] by (meson le_less_trans times_div_less_eq_dividend)
  moreover have "unat x div 2 ^ k < 2 ^ 64"
    using unat_u64_less [of x] by (meson div_le_dividend le_less_trans)
  ultimately show ?thesis
    using k by (simp add: aligndown_def and_not_mask unat_word_ariths unat_div unat_exp)
qed

lemma unat_alignup:
  assumes "k < 64" and "unat x + 2 ^ k \<le> 2 ^ 64"
  shows "unat (alignup x (2 ^ k)) = 2 ^ k * ((unat x + (2 ^ k - 1)) div 2 ^ k)"
proof -
  have p: "unat (2 ^ k - 1 :: u64) = 2 ^ k - 1"
    using unat_dec [of "2 ^ k"] unat_exp [OF assms(1)] by (simp add: word_less_nat_alt)
  have "unat (x + (2 ^ k - 1)) = (unat x + (2 ^ k - 1)) mod 2 ^ 64"
    by (simp only: unat_word_ariths p) simp
  also have "\<dots> = unat x + (2 ^ k - 1)"
  proof (rule mod_less)
    have "(1 :: nat) \<le> 2 ^ k" by simp
    then show "unat x + (2 ^ k - 1) < 2 ^ 64" using assms(2) by linarith
  qed
  finally show ?thesis
    using unat_aligndown [OF assms(1), of "x + (2 ^ k - 1)"] by (simp add: alignup_def aligndown_def)
qed

lemma round_up_bounds:
  fixes n d :: nat assumes "0 < d"
  shows "n \<le> d * ((n + (d - 1)) div d)" and "d * ((n + (d - 1)) div d) < n + d"
proof -
  have "d * ((n + (d - 1)) div d) = n + (d - 1) - (n + (d - 1)) mod d"
    by (simp add: minus_mod_eq_mult_div)
  moreover have "(n + (d - 1)) mod d \<le> d - 1" using assms by (simp add: Suc_leI less_Suc_eq_le [symmetric])
  ultimately show "n \<le> d * ((n + (d - 1)) div d)" "d * ((n + (d - 1)) div d) < n + d"
    using assms by linarith+
qed

lemma alignup_correct:
  assumes "k < 64" and "unat x + 2 ^ k \<le> 2 ^ 64"
  shows "x \<le> alignup x (2 ^ k)" and "unat (alignup x (2 ^ k)) < unat x + 2 ^ k"
    and "2 ^ k dvd unat (alignup x (2 ^ k))"
  using round_up_bounds [of "2 ^ k" "unat x"] by (simp_all add: unat_alignup [OF assms] word_le_nat_alt)

end
