(* ===== verification/Object_Header.thy ===== *)
theory Object_Header
  imports Xdefines
begin

text \<open>
  The 16-byte header that precedes every heap object (\<open>include/objectheader.hh\<close>): a 32-bit block
  size whose lowest bit doubles as the "checked" mark of the leak detector, a 32-bit object size,
  and a sentinel word. A header is its address in the byte memory; every operation reads or
  writes the fields at their offsets 0, 4 and 8.
\<close>

section \<open>Operations\<close>

definition objectHeader_new :: "mem \<Rightarrow> u64 \<Rightarrow> u64 \<Rightarrow> mem" where
  "objectHeader_new m obj sz =
     wr64 (wr32 (wr32 m obj (ucast sz)) (obj + 4) 0) (obj + 8) SENTINEL_WORD"

definition oh_getSize :: "mem \<Rightarrow> u64 \<Rightarrow> u64" where
  "oh_getSize m obj = ucast (rd32 m obj)"

definition getObjectSize :: "mem \<Rightarrow> u64 \<Rightarrow> u64" where
  "getObjectSize m obj = ucast (rd32 m (obj + 4))"

definition setObjectSize :: "mem \<Rightarrow> u64 \<Rightarrow> u64 \<Rightarrow> mem" where
  "setObjectSize m obj sz = wr32 m (obj + 4) (ucast sz)"

definition isGoodObject :: "mem \<Rightarrow> u64 \<Rightarrow> bool" where
  "isGoodObject m obj \<longleftrightarrow> rd64 m (obj + 8) = SENTINEL_WORD"

definition getStartPtr :: "u64 \<Rightarrow> u64" where
  "getStartPtr obj = obj + 8 + SENTINEL_SIZE"

definition setObjectFree :: "mem \<Rightarrow> u64 \<Rightarrow> mem" where
  "setObjectFree m obj = wr32 m (obj + 4) 0"

definition isObjectFree :: "mem \<Rightarrow> u64 \<Rightarrow> bool" where
  "isObjectFree m obj \<longleftrightarrow> rd32 m (obj + 4) = 0"

definition getNextObject :: "mem \<Rightarrow> u64 \<Rightarrow> u64" where
  "getNextObject m obj = obj + 8 + 4 * SENTINEL_SIZE + ucast (rd32 m obj)"

definition markObjectChecked :: "mem \<Rightarrow> u64 \<Rightarrow> mem" where
  "markObjectChecked m obj = wr32 m obj (rd32 m obj OR 1)"

definition cleanObjectChecked :: "mem \<Rightarrow> u64 \<Rightarrow> mem" where
  "cleanObjectChecked m obj = wr32 m obj (rd32 m obj AND 0xFFFFFFFE)"

definition isObjectChecked :: "mem \<Rightarrow> u64 \<Rightarrow> bool" where
  "isObjectChecked m obj \<longleftrightarrow> rd32 m obj AND 1 \<noteq> 0"

definition doCheckObject :: "mem \<Rightarrow> u64 \<Rightarrow> bool" where
  "doCheckObject m obj \<longleftrightarrow> \<not> (isObjectFree m obj \<or> isObjectChecked m obj)"

definition checkLeakageAndClean :: "mem \<Rightarrow> u64 \<Rightarrow> bool \<times> mem" where
  "checkLeakageAndClean m obj =
     (if isObjectFree m obj \<or> isObjectChecked m obj then (False, cleanObjectChecked m obj)
      else (True, m))"

definition isValidObjectSize :: "u64 \<Rightarrow> bool" where
  "isValidObjectSize sz \<longleftrightarrow> sz \<noteq> 0 \<and> sz AND (sz - 1) = 0"

definition isValidAddr :: "mem \<Rightarrow> u64 \<Rightarrow> u64 \<Rightarrow> bool" where
  "isValidAddr m obj addr \<longleftrightarrow>
     isValidObjectSize (getObjectSize m obj) \<and>
     (let objectBegin = getStartPtr obj; objectEnd = objectBegin + getObjectSize m obj
      in \<not> (addr < objectBegin \<or> addr \<ge> objectEnd))"

lemmas oh_defs = objectHeader_new_def oh_getSize_def getObjectSize_def setObjectSize_def
  isGoodObject_def setObjectFree_def isObjectFree_def markObjectChecked_def
  cleanObjectChecked_def isObjectChecked_def doCheckObject_def checkLeakageAndClean_def

section \<open>32-bit fields\<close>

lemma ucast_u32_less: "unat (ucast (w :: u32) :: u64) < 2 ^ 32"
  using unsigned_less [of w, where ?'a = nat] by (simp add: unsigned_ucast_eq take_bit_nat_eq_self)

lemma ucast_ucast_small: "unat (x :: u64) < 2 ^ 32 \<Longrightarrow> ucast (ucast x :: u32) = x"
  by (simp add: word_unat_eq_iff unsigned_ucast_eq unsigned_take_bit_eq take_bit_nat_eq_self)

section \<open>The fields do not overlap\<close>

lemma fields_disjoint:
  "x - obj < 4 \<Longrightarrow> \<not> x - (obj + 4) < 4" "x - obj < 4 \<Longrightarrow> \<not> x - (obj + 8) < 8"
  "x - (obj + 4) < 4 \<Longrightarrow> \<not> x - (obj + 8) < 8" for x obj :: u64
proof -
  show "x - obj < 4 \<Longrightarrow> \<not> x - (obj + 4) < 4"
    using offsets_apart [of x obj 0 4 4 4] by auto
  show "x - obj < 4 \<Longrightarrow> \<not> x - (obj + 8) < 8"
    using offsets_apart [of x obj 0 4 8 8] by auto
  show "x - (obj + 4) < 4 \<Longrightarrow> \<not> x - (obj + 8) < 8"
    using offsets_apart [of x obj 4 4 8 8] by auto
qed

lemma field_apart [mem_simps]:
  "rd32 (wr32 m (obj + 4) v) obj = rd32 m obj"
  "rd32 (wr32 m obj v) (obj + 4) = rd32 m (obj + 4)"
  "rd64 (wr32 m obj v) (obj + 8) = rd64 m (obj + 8)"
  "rd64 (wr32 m (obj + 4) v) (obj + 8) = rd64 m (obj + 8)"
  "rd32 (wr64 m (obj + 8) w) obj = rd32 m obj"
  "rd32 (wr64 m (obj + 8) w) (obj + 4) = rd32 m (obj + 4)"
  by (rule rd32_local rd64_local; rule wr32_other wr64_other; use fields_disjoint in blast)+

section \<open>What the operations do to the fields\<close>

text \<open>The abstract header: the three fields at an address.\<close>

definition header :: "mem \<Rightarrow> u64 \<Rightarrow> u32 \<times> u32 \<times> u64" where
  "header m obj = (rd32 m obj, rd32 m (obj + 4), rd64 m (obj + 8))"

lemma header_ops:
  assumes "header m obj = (b, s, c)"
  shows "header (objectHeader_new m obj sz) obj = (ucast sz, 0, SENTINEL_WORD)"
    and "header (setObjectSize m obj sz) obj = (b, ucast sz, c)"
    and "header (setObjectFree m obj) obj = (b, 0, c)"
    and "header (markObjectChecked m obj) obj = (b OR 1, s, c)"
    and "header (cleanObjectChecked m obj) obj = (b AND 0xFFFFFFFE, s, c)"
  using assms by (simp_all add: header_def oh_defs mem_simps)

lemma even_word_bit: "even b \<longleftrightarrow> b AND 1 = 0" for b :: u32
  by (simp add: and_one_eq even_iff_mod_2_eq_zero)

lemma mark_clean_word: "even b \<Longrightarrow> (b OR 1) AND 0xFFFFFFFE = b" for b :: u32
proof -
  assume b: "even b"
  have "(0xFFFFFFFE :: u32) = NOT 1" by code_simp
  moreover have "(b OR 1) AND NOT 1 = b AND NOT 1" by (auto simp: bit_eq_iff bit_simps)
  moreover have "b AND NOT 1 = b"
    using b by (auto simp: bit_eq_iff bit_simps bit_0)
  ultimately show ?thesis by (simp only:)
qed

lemma mark_word_odd: "(b OR 1) AND 1 \<noteq> 0" "(b AND 0xFFFFFFFE) AND 1 = 0" for b :: u32
  by (auto simp: even_word_bit [symmetric] even_or_iff even_and_iff)

text \<open>A size passes \<open>isValidObjectSize\<close> exactly when it is a power of two.\<close>

lemma and_pred_zero: "x \<noteq> 0 \<Longrightarrow> x AND (x - 1) = 0 \<longleftrightarrow> (\<exists>k<64. x = 2 ^ k)" for x :: u64
proof
  assume "\<exists>k<64. x = 2 ^ k"
  then obtain k where "x = 2 ^ k" by blast
  then have "x AND (x - 1) = 2 ^ k AND mask k" by (simp add: mask_eq_exp_minus_1)
  also have "\<dots> = 0" by (auto simp: bit_eq_iff [of "2 ^ k AND mask k"] bit_simps)
  finally show "x AND (x - 1) = 0" .
next
  assume x: "x \<noteq> 0" and z: "x AND (x - 1) = 0"
  define k where "k = Max {k. bit x k}"
  have fin: "finite {k. bit x k}"
    by (rule finite_subset [of _ "{..<64}"]) (auto dest: bit_imp_le_length)
  have ne: "{k. bit x k} \<noteq> {}" using x by (auto simp: bit_eq_iff)
  have k: "bit x k" using Max_in [OF fin ne] by (simp add: k_def)
  have top: "j \<le> k" if "bit x j" for j using Max_ge [OF fin, of j] that by (simp add: k_def)
  have k64: "k < 64" using bit_imp_le_length [OF k] by simp
  have dec: "x = 2 ^ k + take_bit k x"
  proof -
    have "x = 2 ^ k OR take_bit k x"
      using k top by (intro bit_word_eqI) (auto simp: bit_simps le_less)
    also have "\<dots> = 2 ^ k + take_bit k x"
      by (rule disjunctive_add [symmetric]) (auto simp: bit_simps)
    finally show ?thesis .
  qed
  have "take_bit k x = 0"
  proof (rule ccontr)
    assume t: "take_bit k x \<noteq> 0"
    then have "x - 1 = 2 ^ k + (take_bit k x - 1)" using dec by (simp add: algebra_simps)
    moreover have less: "take_bit k x - 1 < 2 ^ k"
    proof -
      have "unat (take_bit k x) < 2 ^ k" by (simp add: unsigned_take_bit_eq)
      then show ?thesis using t k64 unat_dec [of "take_bit k x"] unat_exp [OF k64]
        by (auto simp: word_less_nat_alt unat_eq_zero word_neq_0_conv)
    qed
    moreover have "2 ^ k + (take_bit k x - 1) = 2 ^ k OR (take_bit k x - 1)"
    proof (rule disjunctive_add)
      have "unat (take_bit k x - 1) < 2 ^ k" using less unat_exp [OF k64] by (simp add: word_less_nat_alt)
      then have "(take_bit k x - 1) div 2 ^ k = 0"
        by (simp add: word_unat_eq_iff unat_div unat_exp [OF k64])
      then have "\<not> bit (take_bit k x - 1) k" by (simp add: bit_iff_odd)
      then show "\<not> bit (2 ^ k :: u64) j \<or> \<not> bit (take_bit k x - 1) j" for j
        by (auto simp: bit_simps)
    qed
    ultimately have "bit (x - 1) k" using k64 by (simp add: bit_simps)
    then have "bit (x AND (x - 1)) k" using k by (simp add: bit_and_iff)
    then show False using z by simp
  qed
  then show "\<exists>k<64. x = 2 ^ k" using dec k64 by auto
qed

section \<open>Properties\<close>

text \<open>
  C33. Marking and sweeping: on a live object with an even block size, a marked object is reported
  as reachable by \<open>checkLeakageAndClean\<close>, which restores the header it had before the mark, and
  an unmarked one is reported as leaked without any change to memory.
\<close>

theorem header_mark_sweep:
  assumes "header m obj = (b, s, c)" and "even b" and "s \<noteq> 0"
  shows "isObjectChecked (markObjectChecked m obj) obj \<and>
    fst (checkLeakageAndClean (markObjectChecked m obj) obj) = False \<and>
    header (snd (checkLeakageAndClean (markObjectChecked m obj) obj)) obj = (b, s, c) \<and>
    checkLeakageAndClean m obj = (True, m)"
proof -
  let ?m = "markObjectChecked m obj"
  have hm: "header ?m obj = (b OR 1, s, c)" using header_ops(4) [OF assms(1)] .
  have "isObjectChecked ?m obj" using hm mark_word_odd by (simp add: isObjectChecked_def header_def)
  moreover have "header (cleanObjectChecked ?m obj) obj = (b, s, c)"
    using header_ops(5) [OF hm] mark_clean_word [OF assms(2)] by simp
  moreover have "\<not> isObjectFree m obj" "\<not> isObjectChecked m obj"
    using assms by (auto simp: isObjectFree_def isObjectChecked_def header_def even_word_bit)
  ultimately show ?thesis by (simp add: checkLeakageAndClean_def)
qed

abbreviation zero_mem :: mem where
  "zero_mem \<equiv> \<lambda>_. 0"

lemma demo_header: "header (setObjectSize (objectHeader_new zero_mem 4096 64) 4096 40) 4096 = (64, 40, SENTINEL_WORD)"
proof -
  obtain b s c where "header zero_mem 4096 = (b, s, c)" by (cases "header zero_mem 4096") auto
  from header_ops(1) [OF this, of 64]
  have "header (objectHeader_new zero_mem 4096 64) 4096 = (64, 0, SENTINEL_WORD)" by simp
  from header_ops(2) [OF this, of 40] show ?thesis by simp
qed

theorem header_mark_sweep_witness:
  "header (snd (checkLeakageAndClean (markObjectChecked
      (setObjectSize (objectHeader_new zero_mem 4096 64) 4096 40) 4096) 4096)) 4096 =
    (64, 40, SENTINEL_WORD)"
  using header_mark_sweep [OF demo_header] by simp

text \<open>
  C34. What the leak detector takes for a pointer into an object: exactly the addresses inside
  the object, and only if the object size the program asked for is a power of two (so every
  pointer to an object of another size is ignored).
\<close>

theorem isValidAddr_iff:
  "isValidAddr m obj addr \<longleftrightarrow>
    (\<exists>k<32. getObjectSize m obj = 2 ^ k) \<and> obj + 16 \<le> addr \<and> addr < obj + 16 + getObjectSize m obj"
proof -
  have small: "unat (getObjectSize m obj) < 2 ^ 32"
    using unsigned_less [of "rd32 m (obj + 4)", where ?'a = nat]
    by (simp add: getObjectSize_def unsigned_ucast_eq take_bit_nat_eq_self)
  have iff: "isValidObjectSize (getObjectSize m obj) \<longleftrightarrow> (\<exists>k<64. getObjectSize m obj = 2 ^ k)"
    using and_pred_zero [of "getObjectSize m obj"] unat_exp
    by (auto simp: isValidObjectSize_def)
  have less: "k < 32" if "getObjectSize m obj = 2 ^ k" "k < 64" for k
  proof -
    have "(2 :: nat) ^ k < 2 ^ 32" using small that unat_exp [of k] by simp
    then show ?thesis by (simp only: power_strict_increasing_iff)
  qed
  have "isValidObjectSize (getObjectSize m obj) \<longleftrightarrow> (\<exists>k<32. getObjectSize m obj = 2 ^ k)"
  proof -
    have "k < 64" if "k < 32" for k :: nat using that by linarith
    then show ?thesis using iff less by blast
  qed
  then show ?thesis
    by (auto simp: isValidAddr_def Let_def getStartPtr_def SENTINEL_SIZE_def WORD_SIZE_def add.assoc)
qed

end
