(* ===== verification/Record_Entries.thy ===== *)
theory Record_Entries
  imports Xdefines
begin

text \<open>
  Anonymous memory from the kernel (\<open>include/mm.hh\<close>) and the per-thread pool of record entries
  (\<open>include/recordentries.hh\<close>), the log into which system calls and synchronisations are
  recorded and from which a replay reads them back. \<open>Real::mmap\<close> is an argument. The template
  parameter of the pool is the type of the entries; its size is the argument \<open>esz\<close>. The pool's
  memory is a store by entry address, so that a caller that fills an entry after \<open>alloc\<close> finds
  there what an earlier epoch left.

  The locale \<open>event_log\<close> is the contract the recorders rely on: entries are read back in the
  order in which they were recorded, as often as the log is rewound, and a full pool aborts.
\<close>

section \<open>Mapped memory\<close>

text \<open>\<open>mmap\<close>: address, length, protection, flags, file descriptor and offset to an address.\<close>

type_synonym mmap_fun = "u64 \<Rightarrow> u64 \<Rightarrow> u32 \<Rightarrow> u32 \<Rightarrow> int \<Rightarrow> int \<Rightarrow> u64"

definition MAP_FAILED :: u64 where "MAP_FAILED = - 1"

text \<open>
  \<open>PROT_READ | PROT_WRITE\<close> is 3; \<open>MAP_SHARED\<close>, \<open>MAP_PRIVATE\<close>, \<open>MAP_FIXED\<close>, \<open>MAP_ANONYMOUS\<close> and
  \<open>MAP_NORESERVE\<close> are 1, 2, 16, 32 and 16384.
\<close>

definition mm_allocate :: "mmap_fun \<Rightarrow> bool \<Rightarrow> u64 \<Rightarrow> int \<Rightarrow> u64 \<Rightarrow> u64 res" where
  "mm_allocate mmap isShared sz fd startaddr =
     (let sharedInfo = (if isShared then 1 else 2);
          sharedInfo = sharedInfo OR (if fd = - 1 then 32 else 0);
          sharedInfo = sharedInfo OR (if startaddr \<noteq> 0 then 16 else 0);
          sharedInfo = sharedInfo OR 16384;
          ptr = mmap startaddr sz 3 sharedInfo fd 0
      in if ptr = MAP_FAILED then Err Abort else Ok ptr)"

definition mmapAllocateShared :: "mmap_fun \<Rightarrow> u64 \<Rightarrow> int \<Rightarrow> u64 \<Rightarrow> u64 res" where
  "mmapAllocateShared mmap sz fd startaddr = mm_allocate mmap True sz fd startaddr"

definition mmapAllocatePrivate :: "mmap_fun \<Rightarrow> u64 \<Rightarrow> u64 \<Rightarrow> int \<Rightarrow> u64 res" where
  "mmapAllocatePrivate mmap sz startaddr fd = mm_allocate mmap False sz fd startaddr"

section \<open>The pool\<close>

record 'e entries =
  re_store :: "u64 \<Rightarrow> 'e"
  re_start :: u64
  re_total :: u64
  re_cur :: u64
  re_size :: u64
  re_iter :: u64

definition re_initialize :: "u64 \<Rightarrow> mmap_fun \<Rightarrow> int \<Rightarrow> 'e entries \<Rightarrow> 'e entries res" where
  "re_initialize esz mmap n r =
     (let sz = alignup (of_int n * esz) PageSize in
      rbind (mmapAllocatePrivate mmap sz 0 (- 1)) (\<lambda>ptr.
        if ptr = 0 then Err Abort
        else Ok (r\<lparr>re_size := sz, re_start := ptr, re_cur := 0, re_total := of_int n, re_iter := 0\<rparr>)))"

definition re_alloc :: "u64 \<Rightarrow> 'e entries \<Rightarrow> (u64 \<times> 'e entries) res" where
  "re_alloc esz r =
     (if re_cur r < re_total r then Ok (re_start r + re_cur r * esz, r\<lparr>re_cur := re_cur r + 1\<rparr>)
      else Err Abort)"

definition re_cleanup :: "'e entries \<Rightarrow> 'e entries" where
  "re_cleanup r = r\<lparr>re_iter := 0, re_cur := 0\<rparr>"

definition re_prepareRollback :: "'e entries \<Rightarrow> 'e entries" where
  "re_prepareRollback r = r\<lparr>re_iter := 0\<rparr>"

definition re_prepareIteration :: "'e entries \<Rightarrow> 'e entries" where
  "re_prepareIteration r = r\<lparr>re_iter := 0\<rparr>"

definition re_getEntry :: "u64 \<Rightarrow> u64 \<Rightarrow> 'e entries \<Rightarrow> u64" where
  "re_getEntry esz idx r = re_start r + idx * esz"

definition nextIterEntry :: "u64 \<Rightarrow> 'e entries \<Rightarrow> u64 \<times> 'e entries" where
  "nextIterEntry esz r =
     (let r = r\<lparr>re_iter := re_iter r + 1\<rparr> in
      (if re_iter r < re_cur r then re_getEntry esz (re_iter r) r else 0, r))"

definition advanceEntry :: "'e entries \<Rightarrow> 'e entries" where
  "advanceEntry r = r\<lparr>re_iter := re_iter r + 1\<rparr>"

definition retrieveIterEntry :: "u64 \<Rightarrow> 'e entries \<Rightarrow> u64 \<times> 'e entries" where
  "retrieveIterEntry esz r =
     (if re_iter r < re_cur r then (re_getEntry esz (re_iter r) r, r\<lparr>re_iter := re_iter r + 1\<rparr>)
      else (0, r))"

definition re_peek :: "u64 \<Rightarrow> 'e entries \<Rightarrow> u64" where
  "re_peek esz r = (if re_iter r < re_cur r then re_getEntry esz (re_iter r) r else 0)"

definition firstIterEntry :: "u64 \<Rightarrow> 'e entries \<Rightarrow> u64" where
  "firstIterEntry esz r = re_start r + re_iter r * esz"

definition getEntriesNumb :: "'e entries \<Rightarrow> u64" where
  "getEntriesNumb r = re_cur r"

section \<open>The contract of an event log\<close>

text \<open>
  \<open>put f\<close> records the entry \<open>f x\<close>, where \<open>x = stale s\<close> is what the slot held before; \<open>next_event\<close>
  reads the entry at the replay position.
\<close>

locale event_log =
  fixes ok :: "'s \<Rightarrow> bool" and stale :: "'s \<Rightarrow> 'e" and put :: "('e \<Rightarrow> 'e) \<Rightarrow> 's \<Rightarrow> 's res"
    and next_event :: "'s \<Rightarrow> 'e option \<times> 's" and rewind :: "'s \<Rightarrow> 's" and clear :: "'s \<Rightarrow> 's"
    and events :: "'s \<Rightarrow> 'e list" and pos :: "'s \<Rightarrow> nat" and cap :: "'s \<Rightarrow> nat"
  assumes put_ok: "ok s \<Longrightarrow> length (events s) < cap s \<Longrightarrow>
      \<exists>s'. put f s = Ok s' \<and> ok s' \<and> events s' = events s @ [f (stale s)] \<and> pos s' = pos s \<and> cap s' = cap s"
    and put_full: "ok s \<Longrightarrow> cap s \<le> length (events s) \<Longrightarrow> put f s = Err Abort"
    and next_some: "ok s \<Longrightarrow> pos s < length (events s) \<Longrightarrow>
      \<exists>s'. next_event s = (Some (events s ! pos s), s') \<and> ok s' \<and> events s' = events s \<and>
        pos s' = Suc (pos s) \<and> cap s' = cap s"
    and next_none: "ok s \<Longrightarrow> length (events s) \<le> pos s \<Longrightarrow> next_event s = (None, s)"
    and rewind_ok: "ok s \<Longrightarrow> ok (rewind s) \<and> events (rewind s) = events s \<and> pos (rewind s) = 0 \<and>
      cap (rewind s) = cap s"
    and clear_ok: "ok s \<Longrightarrow> ok (clear s) \<and> events (clear s) = [] \<and> pos (clear s) = 0 \<and> cap (clear s) = cap s"
begin

primrec puts :: "'e list \<Rightarrow> 's \<Rightarrow> 's res" where
  "puts [] s = Ok s"
| "puts (e # es) s = rbind (put (\<lambda>_. e) s) (puts es)"

primrec nexts :: "nat \<Rightarrow> 's \<Rightarrow> 'e option list \<times> 's" where
  "nexts 0 s = ([], s)"
| "nexts (Suc n) s = (let (e, s) = next_event s; (es, s) = nexts n s in (e # es, s))"

lemma puts_ok:
  "ok s \<Longrightarrow> length (events s) + length es \<le> cap s \<Longrightarrow>
    \<exists>s'. puts es s = Ok s' \<and> ok s' \<and> events s' = events s @ es \<and> pos s' = pos s \<and> cap s' = cap s"
proof (induction es arbitrary: s)
  case (Cons e es)
  then obtain t where t: "put (\<lambda>_. e) s = Ok t" "ok t" "events t = events s @ [e]" "pos t = pos s" "cap t = cap s"
    using put_ok [of s "\<lambda>_. e"] by auto
  with Cons.IH [of t] Cons.prems show ?case by auto
qed simp

lemma nexts_ok:
  "ok s \<Longrightarrow> pos s + n \<le> length (events s) \<Longrightarrow>
    \<exists>s'. nexts n s = (map Some (take n (drop (pos s) (events s))), s') \<and> ok s' \<and>
      events s' = events s \<and> pos s' = pos s + n \<and> cap s' = cap s"
proof (induction n arbitrary: s)
  case (Suc n)
  then obtain t where t: "next_event s = (Some (events s ! pos s), t)" "ok t" "events t = events s"
    "pos t = Suc (pos s)" "cap t = cap s" using next_some [of s] by auto
  have "drop (pos s) (events s) = events s ! pos s # drop (Suc (pos s)) (events s)"
    using Suc.prems by (simp add: Cons_nth_drop_Suc)
  with Suc.IH [of t] Suc.prems t show ?case by auto
qed simp

theorem record_replay:
  assumes "ok s" and "length es \<le> cap s"
  shows "\<exists>s' s''. puts es (clear s) = Ok s' \<and> nexts (length es) (rewind s') = (map Some es, s'') \<and>
    next_event s'' = (None, s'') \<and> events (rewind s'') = es \<and> pos (rewind s'') = 0"
proof -
  obtain s' where s': "puts es (clear s) = Ok s'" "ok s'" "events s' = es"
    using puts_ok [of "clear s" es] clear_ok [OF assms(1)] assms(2) by auto
  obtain s'' where "nexts (length es) (rewind s') = (map Some es, s'')" "ok s''" "events s'' = es" "pos s'' = length es"
    using nexts_ok [of "rewind s'" "length es"] rewind_ok [OF s'(2)] s'(3) by auto
  with s' show ?thesis using next_none [of s''] rewind_ok [of s''] by auto
qed

end

section \<open>The pool is an event log\<close>

definition re_ok :: "u64 \<Rightarrow> 'e entries \<Rightarrow> bool" where
  "re_ok esz r \<longleftrightarrow> re_start r \<noteq> 0 \<and> 0 < unat esz \<and> re_cur r \<le> re_total r \<and>
     unat (re_start r) + unat (re_total r) * unat esz \<le> 2 ^ 64"

definition re_events :: "u64 \<Rightarrow> 'e entries \<Rightarrow> 'e list" where
  "re_events esz r = map (\<lambda>i. re_store r (re_getEntry esz (of_nat i) r)) [0..<unat (re_cur r)]"

definition re_fill :: "u64 \<Rightarrow> ('e \<Rightarrow> 'e) \<Rightarrow> 'e entries \<Rightarrow> 'e entries res" where
  "re_fill esz f r = rmap (\<lambda>(p, r). r\<lparr>re_store := (re_store r)(p := f (re_store r p))\<rparr>) (re_alloc esz r)"

definition re_next :: "u64 \<Rightarrow> 'e entries \<Rightarrow> 'e option \<times> 'e entries" where
  "re_next esz r = (let (p, r') = retrieveIterEntry esz r in (if p = 0 then None else Some (re_store r p), r'))"

definition re_stale :: "u64 \<Rightarrow> 'e entries \<Rightarrow> 'e" where
  "re_stale esz r = re_store r (re_getEntry esz (re_cur r) r)"

lemma unat_getEntry:
  assumes "re_ok esz r" and "i < unat (re_total r)"
  shows "unat (re_getEntry esz (of_nat i) r) = unat (re_start r) + i * unat esz"
proof -
  have "(i + 1) * unat esz \<le> unat (re_total r) * unat esz" using assms(2) by (intro mult_right_mono) auto
  then have b: "unat (re_start r) + i * unat esz < 2 ^ 64" using assms(1) by (simp add: re_ok_def)
  have "i < 2 ^ 64" using assms(2) unat_u64_less [of "re_total r"] by linarith
  then have "unat (of_nat i :: u64) = i" by (simp add: unat_of_nat)
  with b show ?thesis by (simp add: re_getEntry_def unat_word_ariths)
qed

lemma getEntry_nonzero:
  assumes "re_ok esz r" and "i < unat (re_total r)"
  shows "re_getEntry esz (of_nat i) r \<noteq> 0"
proof
  assume "re_getEntry esz (of_nat i) r = 0"
  with unat_getEntry [OF assms] have "unat (re_start r) = 0" by simp
  with assms(1) show False by (simp add: re_ok_def unat_eq_zero)
qed

lemma getEntry_inj:
  assumes "re_ok esz r" and "i < unat (re_total r)" and "j < unat (re_total r)"
  shows "re_getEntry esz (of_nat i) r = re_getEntry esz (of_nat j) r \<longleftrightarrow> i = j"
proof
  assume "re_getEntry esz (of_nat i) r = re_getEntry esz (of_nat j) r"
  then have "i * unat esz = j * unat esz"
    using unat_getEntry [OF assms(1,2)] unat_getEntry [OF assms(1,3)] by (metis add_left_cancel)
  then show "i = j" using assms(1) by (simp add: re_ok_def)
qed simp

lemma length_re_events [simp]: "length (re_events esz r) = unat (re_cur r)"
  by (simp add: re_events_def)

lemma re_fill_ok:
  assumes ok: "re_ok esz r" and room: "unat (re_cur r) < unat (re_total r)"
  shows "\<exists>r'. re_fill esz f r = Ok r' \<and> re_ok esz r' \<and> re_events esz r' = re_events esz r @ [f (re_stale esz r)] \<and>
    re_iter r' = re_iter r \<and> re_total r' = re_total r"
proof -
  let ?p = "re_getEntry esz (re_cur r) r"
  define r' where "r' = r\<lparr>re_cur := re_cur r + 1, re_store := (re_store r)(?p := f (re_store r ?p))\<rparr>"
  have lt: "re_cur r < re_total r" using room by (simp add: word_less_nat_alt)
  have c: "unat (re_cur r + 1) = Suc (unat (re_cur r))" using unat_inc [OF lt] .
  have "re_getEntry esz (of_nat i) r \<noteq> ?p" if "i < unat (re_cur r)" for i
    using getEntry_inj [OF ok, of i "unat (re_cur r)"] that room by auto
  then have "re_events esz r' = re_events esz r @ [f (re_stale esz r)]"
    by (auto simp: re_events_def r'_def c re_stale_def re_getEntry_def)
  moreover have "re_fill esz f r = Ok r'"
    using lt by (simp add: re_fill_def re_alloc_def r'_def re_getEntry_def)
  moreover have "re_ok esz r'" using ok lt c by (simp add: re_ok_def r'_def word_le_nat_alt word_less_nat_alt)
  ultimately show ?thesis by (auto simp: r'_def)
qed

lemma re_next_some:
  assumes ok: "re_ok esz r" and lt: "unat (re_iter r) < unat (re_cur r)"
  shows "re_next esz r = (Some (re_events esz r ! unat (re_iter r)), r\<lparr>re_iter := re_iter r + 1\<rparr>)"
proof -
  have "unat (re_cur r) \<le> unat (re_total r)" using ok by (simp add: re_ok_def word_le_nat_alt)
  then have "re_getEntry esz (re_iter r) r \<noteq> 0"
    using getEntry_nonzero [OF ok, of "unat (re_iter r)"] lt by simp
  then show ?thesis
    using lt by (simp add: re_next_def retrieveIterEntry_def word_less_nat_alt re_events_def)
qed

lemma re_next_none: "unat (re_cur r) \<le> unat (re_iter r) \<Longrightarrow> re_next esz r = (None, r)"
  by (simp add: re_next_def retrieveIterEntry_def word_less_nat_alt)

interpretation pool: event_log "re_ok esz" "re_stale esz" "re_fill esz" "re_next esz" re_prepareRollback re_cleanup
  "re_events esz" "\<lambda>r. unat (re_iter r)" "\<lambda>r. unat (re_total r)" for esz :: u64
proof (unfold_locales, goal_cases)
  case (1 s f) then show ?case using re_fill_ok [of esz s f] by auto
next
  case (2 s f) then show ?case by (simp add: re_fill_def re_alloc_def word_less_nat_alt)
next
  case (3 s)
  then have "re_iter s < re_cur s" by (simp add: word_less_nat_alt)
  with re_next_some [of esz s] 3 unat_inc [of "re_iter s" "re_cur s"] show ?case
    by (auto simp: re_ok_def re_events_def re_getEntry_def)
next
  case (4 s) then show ?case by (simp add: re_next_none)
next
  case (5 s) then show ?case by (simp add: re_prepareRollback_def re_ok_def re_events_def re_getEntry_def)
next
  case (6 s) then show ?case by (simp add: re_cleanup_def re_ok_def re_events_def)
qed

text \<open>A pool as \<open>initialize\<close> leaves it, when the kernel gives a range that does not wrap around.\<close>

lemma re_initialize_ok:
  assumes "re_initialize esz mmap n r = Ok r'" and "0 < n" and "0 < unat esz"
    and "unat (re_start r') + nat n * unat esz \<le> 2 ^ 64"
  shows "re_ok esz r'" and "re_events esz r' = []" and "unat (re_total r') = nat n"
proof -
  have *: "re_start r' \<noteq> 0" "re_cur r' = 0" "re_total r' = of_int n"
    using assms(1) by (auto simp: re_initialize_def Let_def rbind_Ok_iff split: if_splits)
  have "nat n * 1 \<le> nat n * unat esz" using assms(3) by (intro mult_left_mono) auto
  moreover have "0 < unat (re_start r')" using *(1) by (simp add: unat_gt_0)
  ultimately have "nat n < 2 ^ 64" using assms(4) by linarith
  then have "unat (of_nat (nat n) :: u64) = nat n" by (simp add: unat_of_nat)
  then show t: "unat (re_total r') = nat n" using assms(2) *(3) by simp
  show "re_ok esz r'" using * t assms by (simp add: re_ok_def)
  show "re_events esz r' = []" using * by (simp add: re_events_def)
qed

end
