(* ===== verification/Heap_Layers.thy ===== *)
theory Heap_Layers
  imports Object_Header Record_Entries
begin

text \<open>
  The layers of the allocator that \<open>include/xpheap.hh\<close> and \<open>include/internalheap.hh\<close> put together
  from \<open>heaplayers/\<close>: Kingsley size classes (\<open>kingsleyheap.h\<close>, \<open>ilog2.h\<close>), free lists threaded
  through freed objects (\<open>sllist.h\<close>, \<open>adaptheap.h\<close>), the zone allocator (\<open>zoneheap.h\<close>), the
  segregated-fits heap (\<open>strictsegheap.h\<close>) and the ANSI wrapper (\<open>ansiwrapper.h\<close>).

  As in the program, all heap data is in the byte memory: the free-list heads, the state of the
  zone and the links of the free lists. Where the compiler puts the members of a heap object is
  given by a \<open>klayout\<close>. A source heap, the template parameter of the layers, is a
  \<open>source_heap\<close> dictionary: how to reach the memory in its state, its \<open>malloc\<close> and the chunk size.
\<close>

section \<open>Template parameters\<close>

record 's source_heap =
  src_mem :: "'s \<Rightarrow> mem"
  src_put :: "mem \<Rightarrow> 's \<Rightarrow> 's"
  src_malloc :: "u64 \<Rightarrow> 's \<Rightarrow> (u64 \<times> 's) res"
  src_chunk :: u64

text \<open>The addresses of \<open>head.next\<close> of every bin and of the three members of the zone.\<close>

record klayout =
  kl_bin :: "nat \<Rightarrow> u64"
  kl_sizeRemaining :: u64
  kl_currentArena :: u64
  kl_pastArenas :: u64

section \<open>Size classes\<close>

definition builtin_clzl :: "u64 \<Rightarrow> nat" where
  "builtin_clzl x = length (takeWhile (\<lambda>i. \<not> bit x i) (rev [0..<64]))"

definition ilog2 :: "u64 \<Rightarrow> int" where
  "ilog2 sz = 64 - int (builtin_clzl (push_bit 1 sz - 1)) - 1"

definition class2Size :: "int \<Rightarrow> u64" where
  "class2Size i = push_bit (nat (i + 3)) 1"

definition size2Class :: "u64 \<Rightarrow> int" where
  "size2Class sz = ilog2 (if sz < 8 then 8 else sz) - 3"

abbreviation NUMBINS :: int where "NUMBINS \<equiv> 29"

definition maxObjectSize :: u64 where
  "maxObjectSize = class2Size (NUMBINS - 1)"

section \<open>Free lists\<close>

definition sll_clear :: "u64 \<Rightarrow> mem \<Rightarrow> mem" where
  "sll_clear head m = wr64 m head 0"

definition sll_isEmpty :: "u64 \<Rightarrow> mem \<Rightarrow> bool" where
  "sll_isEmpty head m \<longleftrightarrow> rd64 m head = 0"

definition sll_get :: "u64 \<Rightarrow> mem \<Rightarrow> u64 \<times> mem" where
  "sll_get head m =
     (let e = rd64 m head in if e = 0 then (0, m) else (e, wr64 m head (rd64 m e)))"

definition sll_insert :: "u64 \<Rightarrow> u64 \<Rightarrow> mem \<Rightarrow> mem" where
  "sll_insert head e m = (let m = wr64 m e (rd64 m head) in wr64 m head e)"

text \<open>
  The size of an object is in its header, 16 bytes in front of it. The layers above take the
  \<open>getSize\<close> of the heap below them as an argument.
\<close>

definition aah_getObject :: "u64 \<Rightarrow> u64" where "aah_getObject ptr = ptr - 16"

definition aah_getPointer :: "u64 \<Rightarrow> u64" where "aah_getPointer obj = obj + 16"

definition aah_getSize :: "u64 \<Rightarrow> mem \<Rightarrow> u64 res" where
  "aah_getSize ptr m = (let sz = oh_getSize m (aah_getObject ptr) in if sz = 0 then Err Abort else Ok sz)"

definition ada_malloc :: "(u64 \<Rightarrow> mem \<Rightarrow> u64 res) \<Rightarrow> u64 \<Rightarrow> mem \<Rightarrow> (u64 \<times> mem) res" where
  "ada_malloc getSize head m =
     (let (ptr, m) = sll_get head m in
      if ptr \<noteq> 0 then rbind (getSize ptr m) (\<lambda>n. if n \<ge> 8 then Ok (ptr, m) else Err Assertion)
      else Ok (ptr, m))"

definition ada_free :: "(u64 \<Rightarrow> mem \<Rightarrow> u64 res) \<Rightarrow> u64 \<Rightarrow> u64 \<Rightarrow> mem \<Rightarrow> mem res" where
  "ada_free getSize head ptr m =
     (if ptr \<noteq> 0 then rbind (getSize ptr m) (\<lambda>n. if n \<ge> 8 then Ok (sll_insert head ptr m) else Err Assertion)
      else Ok m)"

section \<open>The zone\<close>

text \<open>An arena starts with two words: the next arena and the start of its unused space.\<close>

definition zone_new :: "klayout \<Rightarrow> mem \<Rightarrow> mem" where
  "zone_new lay m = wr64 (wr64 (wr64 m (kl_sizeRemaining lay) (- 1)) (kl_currentArena lay) 0) (kl_pastArenas lay) 0"

definition zone_refill :: "'s source_heap \<Rightarrow> klayout \<Rightarrow> u64 \<Rightarrow> 's \<Rightarrow> (bool \<times> 's) res" where
  "zone_refill D lay sz st =
     (let m = src_mem D st; cur = rd64 m (kl_currentArena lay);
          m = (if cur \<noteq> 0 then wr64 (wr64 m cur (rd64 m (kl_pastArenas lay))) (kl_pastArenas lay) cur else m);
          allocSize = (if src_chunk D < sz then sz else src_chunk D)
      in rmap (\<lambda>(a, st).
           let m = wr64 (src_mem D st) (kl_currentArena lay) a in
           if a = 0 then (False, src_put D m st)
           else let m = wr64 m (a + 8) (a + 16); m = wr64 m a 0; m = wr64 m (kl_sizeRemaining lay) allocSize
             in (True, src_put D m st))
         (src_malloc D (allocSize + 16) (src_put D m st)))"

definition zone_bump :: "'s source_heap \<Rightarrow> klayout \<Rightarrow> u64 \<Rightarrow> 's \<Rightarrow> (u64 \<times> 's) res" where
  "zone_bump D lay sz st =
     (let m = src_mem D st; m = wr64 m (kl_sizeRemaining lay) (rd64 m (kl_sizeRemaining lay) - sz);
          cur = rd64 m (kl_currentArena lay); ptr = rd64 m (cur + 8); m = wr64 m (cur + 8) (ptr + sz)
      in if ptr = 0 \<or> ptr mod 16 \<noteq> 0 then Err Assertion else Ok (ptr, src_put D m st))"

definition zoneMalloc :: "'s source_heap \<Rightarrow> klayout \<Rightarrow> u64 \<Rightarrow> 's \<Rightarrow> (u64 \<times> 's) res" where
  "zoneMalloc D lay sz st =
     (let sz = (sz + 15) AND NOT 15; m = src_mem D st in
      if rd64 m (kl_currentArena lay) = 0 \<or> sint (rd64 m (kl_sizeRemaining lay)) < sint sz then
        rbind (zone_refill D lay sz st) (\<lambda>(got, st). if got then zone_bump D lay sz st else Ok (0, st))
      else zone_bump D lay sz st)"

definition zone_malloc :: "'s source_heap \<Rightarrow> klayout \<Rightarrow> u64 \<Rightarrow> 's \<Rightarrow> (u64 \<times> 's) res" where
  "zone_malloc D lay sz st =
     rbind (zoneMalloc D lay sz st) (\<lambda>(ptr, st). if ptr mod 16 = 0 then Ok (ptr, st) else Err Assertion)"

section \<open>Segregated fits\<close>

text \<open>\<open>big\<close> is the \<open>malloc\<close> of the heap for memory that no free list has.\<close>

definition seg_malloc ::
    "'s source_heap \<Rightarrow> klayout \<Rightarrow> (u64 \<Rightarrow> mem \<Rightarrow> u64 res) \<Rightarrow> (u64 \<Rightarrow> 's \<Rightarrow> (u64 \<times> 's) res) \<Rightarrow> u64 \<Rightarrow> 's \<Rightarrow> (u64 \<times> 's) res" where
  "seg_malloc D lay getSize big sz st =
     (let sizeClass = size2Class sz; realSize = class2Size sizeClass in
      if realSize < sz then Err Assertion
      else rbind
        (if realSize \<le> maxObjectSize then
           if sizeClass < 0 \<or> sizeClass \<ge> NUMBINS then Err Assertion
           else rmap (\<lambda>(p, m). (p, src_put D m st)) (ada_malloc getSize (kl_bin lay (nat sizeClass)) (src_mem D st))
         else Ok (0, st))
        (\<lambda>(ptr, st). if ptr = 0 then big realSize st else Ok (ptr, st)))"

text \<open>The loop that lowers the class; below class \<open>-3\<close> the shift of \<open>class2Size\<close> has no meaning.\<close>

function lower_class :: "int \<Rightarrow> u64 \<Rightarrow> int" where
  "lower_class c sz = (if c > - 3 \<and> class2Size c > sz then lower_class (c - 1) sz else c)"
  by pat_completeness auto
termination by (relation "measure (\<lambda>(c, _). nat (c + 3))") auto

declare lower_class.simps [simp del]

text \<open>\<open>bigheap.free\<close> reaches the zone's \<open>free\<close>, which does nothing.\<close>

definition seg_free :: "(u64 \<Rightarrow> mem \<Rightarrow> u64 res) \<Rightarrow> klayout \<Rightarrow> u64 \<Rightarrow> mem \<Rightarrow> mem res" where
  "seg_free getSize lay ptr m =
     rbind (getSize ptr m) (\<lambda>objectSize.
       if objectSize > maxObjectSize then Ok m
       else let c = size2Class objectSize in
         if c < 0 \<or> c \<ge> NUMBINS then Err Assertion
         else let c = lower_class c objectSize in
           if c < 0 then Err Undefined else ada_free getSize (kl_bin lay (nat c)) ptr m)"

section \<open>The ANSI wrapper\<close>

definition MallocMaxSize :: u64 where "MallocMaxSize = 0x7FFFFFFF"

definition UNIQUE_VALUE :: u64 where "UNIQUE_VALUE = 0x81234567"

definition ansi_malloc ::
    "'s source_heap \<Rightarrow> klayout \<Rightarrow> (u64 \<Rightarrow> mem \<Rightarrow> u64 res) \<Rightarrow> (u64 \<Rightarrow> 's \<Rightarrow> (u64 \<times> 's) res) \<Rightarrow> u64 \<Rightarrow> 's \<Rightarrow> (u64 \<times> 's) res" where
  "ansi_malloc D lay getSize big sz st =
     (if sz = 0 then Ok (UNIQUE_VALUE, st)
      else if sz > MallocMaxSize then Ok (0, st)
      else let sz = (if sz < 16 then 16 else sz); sz = (sz + 16 - 1) AND NOT (16 - 1) in
        rbind (seg_malloc D lay getSize big sz st) (\<lambda>(ptr, st). if ptr mod 16 = 0 then Ok (ptr, st) else Err Assertion))"

definition ansi_free :: "(u64 \<Rightarrow> mem \<Rightarrow> u64 res) \<Rightarrow> klayout \<Rightarrow> u64 \<Rightarrow> mem \<Rightarrow> mem res" where
  "ansi_free getSize lay ptr m = (if ptr \<noteq> UNIQUE_VALUE then if ptr \<noteq> 0 then seg_free getSize lay ptr m else Ok m else Ok m)"

definition ansi_getSize :: "(u64 \<Rightarrow> mem \<Rightarrow> u64 res) \<Rightarrow> u64 \<Rightarrow> mem \<Rightarrow> u64 res" where
  "ansi_getSize getSize ptr m = (if ptr \<noteq> 0 then getSize ptr m else Ok 0)"

text \<open>The constructor of a heap object: empty free lists and no arena.\<close>

definition kheap_new :: "klayout \<Rightarrow> mem \<Rightarrow> mem" where
  "kheap_new lay m = fold (\<lambda>i m. sll_clear (kl_bin lay i) m) [0..<nat NUMBINS] (zone_new lay m)"

section \<open>What the size classes are\<close>

lemma bit_unat: "bit x i \<longleftrightarrow> odd (unat x div 2 ^ i)" for x :: u64
proof -
  have "bit x i \<longleftrightarrow> bit (unat x) i" by (simp add: bit_unsigned_iff)
  then show ?thesis by (simp add: bit_iff_odd)
qed

lemma builtin_clzl_eq:
  assumes "2 ^ k \<le> unat x" and "unat x < 2 ^ Suc k"
  shows "builtin_clzl x = 63 - k"
proof -
  have "(2 :: nat) ^ k < 2 ^ 64" using assms(1) unat_u64_less [of x] by linarith
  then have k: "k < 64" by (simp add: power_strict_increasing_iff [of 2 k 64, simplified])
  have hi: "\<not> bit x i" if "k < i" for i
  proof -
    have "(2 :: nat) ^ Suc k \<le> 2 ^ i" using that by (intro power_increasing) auto
    then have "unat x div 2 ^ i = 0" using assms(2) by simp
    then show ?thesis by (simp add: bit_unat)
  qed
  have "unat x div 2 ^ k = 1"
    using assms by (intro div_nat_eqI) simp_all
  then have at: "bit x k" by (simp add: bit_unat)
  have "rev [0..<64] = rev [Suc k..<64] @ k # rev [0..<k]"
    using k upt_add_eq_append [of 0 k "64 - k"] upt_conv_Cons [of k 64] by simp
  then have "takeWhile (\<lambda>i. \<not> bit x i) (rev [0..<64]) = rev [Suc k..<64]"
    using hi at by (simp add: takeWhile_tail)
  then show ?thesis using k by (simp add: builtin_clzl_def)
qed

lemma ilog2_eq:
  assumes "unat sz \<le> 2 ^ k" and "2 ^ k < 2 * unat sz" and "k \<le> 62"
  shows "ilog2 sz = int k"
proof -
  have "(2 :: nat) ^ k \<le> 2 ^ 62" using assms(3) by (intro power_increasing) auto
  then have "2 * unat sz < 2 ^ 64" using assms(1) by simp
  then have "unat (push_bit 1 sz) = 2 * unat sz" by (simp add: push_bit_eq_mult unat_word_ariths mult.commute)
  moreover from this have "0 < push_bit 1 sz" using assms(2) by (auto simp: word_less_nat_alt)
  ultimately have u: "unat (push_bit 1 sz - 1) = 2 * unat sz - 1" by (simp add: unat_dec)
  have "builtin_clzl (push_bit 1 sz - 1) = 63 - k"
  proof (rule builtin_clzl_eq)
    show "2 ^ k \<le> unat (push_bit 1 sz - 1)" using assms(2) unfolding u by linarith
    have "2 * unat sz \<le> 2 ^ Suc k" using assms(1) by simp
    then show "unat (push_bit 1 sz - 1) < 2 ^ Suc k" using assms(2) unfolding u by linarith
  qed
  then show ?thesis using assms(3) by (simp add: ilog2_def)
qed

lemma unat_class2Size: "- 3 \<le> c \<Longrightarrow> c \<le> 60 \<Longrightarrow> unat (class2Size c) = 2 ^ nat (c + 3)"
  by (simp add: class2Size_def push_bit_eq_mult unat_exp)

lemma size_class_exists:
  fixes n :: nat assumes "0 < n"
  shows "\<exists>k. n \<le> 2 ^ k \<and> 2 ^ k < 2 * n"
proof -
  define k where "k = (LEAST k. n \<le> 2 ^ k)"
  have le: "n \<le> 2 ^ k" unfolding k_def by (rule LeastI [of _ n]) (simp add: less_imp_le)
  show ?thesis
  proof (cases k)
    case 0 then show ?thesis using le assms by (intro exI [of _ 0]) auto
  next
    case (Suc j)
    then have "\<not> n \<le> 2 ^ j" using not_less_Least [of j "\<lambda>k. n \<le> 2 ^ k"] by (simp add: k_def)
    then show ?thesis using le Suc by (intro exI [of _ k]) simp
  qed
qed

lemma size2Class_spec:
  assumes "unat sz \<le> 2 ^ 31"
  shows "0 \<le> size2Class sz" and "size2Class sz < NUMBINS" and "sz \<le> class2Size (size2Class sz)"
    and "8 < sz \<Longrightarrow> unat (class2Size (size2Class sz)) < 2 * unat sz"
proof -
  let ?n = "if sz < 8 then 8 else sz"
  have n8: "8 \<le> unat ?n" "unat sz \<le> unat ?n" "unat ?n \<le> 2 ^ 31" "8 < sz \<Longrightarrow> ?n = sz"
    using assms by (auto simp: word_less_nat_alt)
  then obtain k where k: "unat ?n \<le> 2 ^ k" "2 ^ k < 2 * unat ?n" using size_class_exists [of "unat ?n"] by auto
  have "(2 :: nat) ^ 3 \<le> 2 ^ k" using k(1) n8(1) by simp
  then have k3: "3 \<le> k" using power_increasing_iff [of "2 :: nat" 3 k] by linarith
  have "(2 :: nat) ^ k < 2 ^ 32" using k(2) n8(3) by simp
  then have k31: "k < 32" using power_strict_increasing_iff [of "2 :: nat" k 32] by simp
  have "ilog2 ?n = int k" using k k31 by (intro ilog2_eq) auto
  then have c: "size2Class sz = int k - 3" by (simp add: size2Class_def)
  then have u: "unat (class2Size (size2Class sz)) = 2 ^ k" using k3 k31 by (simp add: unat_class2Size)
  show "0 \<le> size2Class sz" "size2Class sz < NUMBINS" using c k3 k31 by auto
  show "sz \<le> class2Size (size2Class sz)" using u k(1) n8(2) by (simp add: word_le_nat_alt)
  show "unat (class2Size (size2Class sz)) < 2 * unat sz" if "8 < sz" using u k(2) n8(4) that by simp
qed

lemma size2Class_class2Size:
  assumes "0 \<le> c" and "c < NUMBINS"
  shows "size2Class (class2Size c) = c" and "lower_class c (class2Size c) = c" and "class2Size c \<le> maxObjectSize"
    and "8 \<le> class2Size c"
proof -
  have u: "unat (class2Size c) = 2 ^ nat (c + 3)" using assms by (simp add: unat_class2Size)
  have p: "(2 :: nat) ^ 3 \<le> 2 ^ nat (c + 3)" "(2 :: nat) ^ nat (c + 3) \<le> 2 ^ 31"
    using assms by (intro power_increasing; simp)+
  then show "8 \<le> class2Size c" using u by (simp add: word_le_nat_alt)
  then have "ilog2 (if class2Size c < 8 then 8 else class2Size c) = c + 3"
    using ilog2_eq [of "class2Size c" "nat (c + 3)"] assms u by auto
  then show "size2Class (class2Size c) = c" by (simp add: size2Class_def)
  show "lower_class c (class2Size c) = c" by (simp add: lower_class.simps)
  have "unat maxObjectSize = 2 ^ 31" by (simp add: maxObjectSize_def unat_class2Size)
  then show "class2Size c \<le> maxObjectSize" using u p(2) by (simp add: word_le_nat_alt)
qed

end
