(* ===== verification/Bitmap.thy ===== *)
theory Bitmap
  imports Prelude
begin

text \<open>
  The bitmap of \<open>include/bitmap.hh\<close>: one bit per heap word, stored in an array of
  64-bit words. The array is a function from word indexes to words; the tables \<open>on\<close> and
  \<open>off\<close> that \<open>initialize\<close> fills are the functions \<open>bm_on\<close> and \<open>bm_off\<close>. The
  assertions of the source are kept, as the outcome \<open>Err Assertion\<close>. \<open>tst\<close> is the
  abstract view: the set of items whose bit is on. The single-bit operations are shown to
  implement set insertion, deletion and membership; \<open>getLastBit\<close> to find the greatest
  element below an item; \<open>hasBitSet\<close> to be exact within one word, and to be wrong or to
  diverge across words.
\<close>

section \<open>State and operations\<close>

record bitmap =
  bm_start :: "u64 \<Rightarrow> u64"
  bm_words :: u64
  bm_elements :: u64

definition bitmap_initialize :: "(u64 \<Rightarrow> u64) \<Rightarrow> u64 \<Rightarrow> u64 \<Rightarrow> bitmap" where
  "bitmap_initialize addr elements words =
     \<lparr>bm_start = addr, bm_words = words, bm_elements = elements\<rparr>"

definition bm_on :: "u64 \<Rightarrow> u64" where
  "bm_on i = push_bit (unat i) 1"

definition bm_off :: "u64 \<Rightarrow> u64" where
  "bm_off i = NOT (bm_on i)"

definition readWord :: "bitmap \<Rightarrow> u64 \<Rightarrow> u64 res" where
  "readWord b i = (if i \<le> bm_words b then Ok (bm_start b i) else Err Assertion)"

definition getWord :: "bitmap \<Rightarrow> u64 \<Rightarrow> u64 res" where
  "getWord b i = (if i \<le> bm_words b then Ok i else Err Assertion)"

definition getIndexes :: "u64 \<Rightarrow> u64 \<times> u64" where
  "getIndexes item = (item div 64, item mod 64)"

definition getItemIndex :: "u64 \<Rightarrow> u64 \<Rightarrow> u64" where
  "getItemIndex w i = w * 64 + i"

definition put_word :: "bitmap \<Rightarrow> u64 \<Rightarrow> u64 \<Rightarrow> bitmap" where
  "put_word b i w = b\<lparr>bm_start := (bm_start b)(i := w)\<rparr>"

definition setBit_at :: "bitmap \<Rightarrow> u64 \<Rightarrow> u64 \<Rightarrow> bitmap res" where
  "setBit_at b w i = rbind (getWord b w) (\<lambda>p. Ok (put_word b p (bm_start b p OR bm_on i)))"

definition setBit :: "bitmap \<Rightarrow> u64 \<Rightarrow> bitmap res" where
  "setBit b item = (if item \<le> bm_elements b then
     let (w, i) = getIndexes item in setBit_at b w i else Err Assertion)"

definition checkSetBit_at :: "bitmap \<Rightarrow> u64 \<Rightarrow> u64 \<Rightarrow> (bool \<times> bitmap) res" where
  "checkSetBit_at b w i = rbind (getWord b w) (\<lambda>p.
     let result = (if bm_start b p AND bm_on i = 0 then True else False)
     in Ok (result, put_word b p (bm_start b p OR bm_on i)))"

definition checkSetBit :: "bitmap \<Rightarrow> u64 \<Rightarrow> (bool \<times> bitmap) res" where
  "checkSetBit b item = (if item \<le> bm_elements b then
     let (w, i) = getIndexes item in checkSetBit_at b w i else Err Assertion)"

definition clearBit_at :: "bitmap \<Rightarrow> u64 \<Rightarrow> u64 \<Rightarrow> bitmap res" where
  "clearBit_at b w i = rbind (getWord b w) (\<lambda>p. Ok (put_word b p (bm_start b p AND bm_off i)))"

definition clearBit :: "bitmap \<Rightarrow> u64 \<Rightarrow> bitmap res" where
  "clearBit b item = (if item \<le> bm_elements b then
     let (w, i) = getIndexes item in clearBit_at b w i else Err Assertion)"

definition isBitSet_at :: "bitmap \<Rightarrow> u64 \<Rightarrow> u64 \<Rightarrow> bool res" where
  "isBitSet_at b w i = rbind (getWord b w) (\<lambda>p. Ok (bm_start b p AND bm_on i \<noteq> 0))"

definition isBitSet :: "bitmap \<Rightarrow> u64 \<Rightarrow> bool res" where
  "isBitSet b item = (if item \<le> bm_elements b then
     let (w, i) = getIndexes item in isBitSet_at b w i else Err Assertion)"

definition hasSetBit :: "u64 \<Rightarrow> u64 \<Rightarrow> bool" where
  "hasSetBit bitWord index \<longleftrightarrow> bitWord AND bm_on index \<noteq> 0"

definition isBitSetOnWord :: "u64 \<Rightarrow> u64 \<Rightarrow> bool" where
  "isBitSetOnWord bitword index \<longleftrightarrow> bitword AND bm_on index \<noteq> 0"

text \<open>
  The compiler's bit-scan builtins: \<open>__builtin_ffsl\<close> is one more than the index of the lowest
  set bit, or 0; \<open>__builtin_clzl\<close> is the number of leading zero bits of a non-zero word.
\<close>

definition set_bits_of :: "u64 \<Rightarrow> nat list" where
  "set_bits_of w = filter (bit w) [0..<64]"

definition builtin_ffsl :: "u64 \<Rightarrow> u64" where
  "builtin_ffsl w = (case set_bits_of w of [] \<Rightarrow> 0 | i # _ \<Rightarrow> of_nat i + 1)"

definition builtin_clzl :: "u64 \<Rightarrow> u64" where
  "builtin_clzl w = of_nat (63 - last (set_bits_of w))"

definition getMsbIndex :: "u64 \<Rightarrow> u64" where
  "getMsbIndex word = 64 - 2 - builtin_clzl word"

definition getLsbIndex :: "u64 \<Rightarrow> u64" where
  "getLsbIndex word = builtin_ffsl word - 1"

function scan_bits_up :: "u64 \<Rightarrow> u64 \<Rightarrow> u64 \<Rightarrow> bool" where
  "scan_bits_up bitword i l =
     (if i < l then if hasSetBit bitword i then True else scan_bits_up bitword (i + 1) l
      else False)"
  by pat_completeness auto
termination
  by (relation "measure (\<lambda>(w, i, l). unat l - unat i)")
    (auto simp: unat_inc word_less_nat_alt)

text \<open>
  The loop over the words between the first and the last: it never advances its index, so it
  ends only if its first word is not zero (\<open>None\<close>: the loop does not end).
\<close>

partial_function (option) scan_words_up :: "bitmap \<Rightarrow> u64 \<Rightarrow> u64 \<Rightarrow> bool res option" where
  "scan_words_up b i l =
     (if i < l then
        (case readWord b i of
           Err e \<Rightarrow> Some (Err e)
         | Ok w \<Rightarrow> if w \<noteq> 0 then Some (Ok True) else scan_words_up b i l)
      else Some (Ok False))"

definition hasBitSet :: "bitmap \<Rightarrow> u64 \<Rightarrow> u64 \<Rightarrow> bool res option" where
  "hasBitSet b item totalbits =
     (let (fw, fb) = getIndexes item; (lw, lb) = getIndexes (item + totalbits) in
      case readWord b fw of
        Err e \<Rightarrow> Some (Err e)
      | Ok bitword \<Rightarrow>
          if fw = lw then Some (Ok (scan_bits_up bitword fb lb))
          else if fb \<le> getLsbIndex bitword then Some (Ok True)
          else Option.bind (scan_words_up b (fw + 1) lw) (\<lambda>mid.
            case mid of
              Err e \<Rightarrow> Some (Err e)
            | Ok True \<Rightarrow> Some (Ok True)
            | Ok False \<Rightarrow>
                (case readWord b lw of
                   Err e \<Rightarrow> Some (Err e)
                 | Ok w \<Rightarrow> Some (Ok (w \<noteq> 0 \<and> getMsbIndex w \<le> lb)))))"

text \<open>
  \<open>memset(start, 0, size)\<close> with the \<open>int size = (lastWord - firstWord) * WORDSIZE\<close>, which
  \<open>memset\<close> counts in bytes, eight to a word.
\<close>

definition clearBits :: "bitmap \<Rightarrow> u64 \<Rightarrow> u64 \<Rightarrow> bitmap res" where
  "clearBits b item bits =
     (let (fw, fb) = getIndexes item; (lw, lb) = getIndexes (item + bits) in
      if fb = 0 \<and> lb = 0 then
        rbind (getWord b fw) (\<lambda>p.
          let size = sext32 ((lw - fw) * 64)
          in Ok (b\<lparr>bm_start := (\<lambda>i. if i - p < size div 8 then 0 else bm_start b i)\<rparr>))
      else Err Assertion)"

function scan_bits_down :: "u64 \<Rightarrow> u64 \<Rightarrow> u64 \<Rightarrow> u64 option" where
  "scan_bits_down bitword i lsb =
     (if i > lsb then let j = i - 1 in
        if isBitSetOnWord bitword j then Some j else scan_bits_down bitword j lsb
      else None)"
  by pat_completeness auto
termination
  by (relation "measure (\<lambda>(w, i, l). unat i)") (auto simp: unat_dec_less)

function scan_words_down :: "bitmap \<Rightarrow> u64 \<Rightarrow> u64 option res" where
  "scan_words_down b w =
     (if w > 0 then let v = w - 1 in
        rbind (readWord b v) (\<lambda>bitword.
          if bitword \<noteq> 0 then Ok (Some (getItemIndex v (getMsbIndex bitword + 1)))
          else scan_words_down b v)
      else Ok None)"
  by pat_completeness auto
termination
  by (relation "measure (\<lambda>(b, w). unat w)") (auto simp: unat_dec_less)

definition getLastBit :: "bitmap \<Rightarrow> u64 \<Rightarrow> u64 option res" where
  "getLastBit b item =
     (let (w, i) = getIndexes item in
      rbind (readWord b w) (\<lambda>bitword.
        let found = (if bitword \<noteq> 0 then
                       let lsb = getLsbIndex bitword in
                       if i > lsb then scan_bits_down bitword i lsb else None
                     else None)
        in case found of
             Some j \<Rightarrow> Ok (Some (getItemIndex w j))
           | None \<Rightarrow> scan_words_down b w))"

declare scan_bits_up.simps [simp del] scan_bits_down.simps [simp del] scan_words_down.simps [simp del]

section \<open>The set of items\<close>

definition tst :: "bitmap \<Rightarrow> nat \<Rightarrow> bool" where
  "tst b n \<longleftrightarrow> bit (bm_start b (of_nat (n div 64))) (n mod 64)"

definition bm_inv :: "bitmap \<Rightarrow> bool" where
  "bm_inv b \<longleftrightarrow> bm_elements b div 64 \<le> bm_words b"

lemma bit_bm_on: "bit (bm_on i) k \<longleftrightarrow> k = unat i \<and> k < 64"
  by (auto simp: bm_on_def bit_simps)

lemma unat_mod_64_less: "unat (i mod 64) < 64" for i :: u64
  by (simp add: unat_mod)

lemma and_on_iff: "w AND bm_on i = 0 \<longleftrightarrow> \<not> (bit w (unat i) \<and> unat i < 64)"
  by (auto simp: bit_eq_iff [of "w AND bm_on i"] bit_and_iff bit_bm_on)

lemma item_in_words:
  assumes "bm_inv b" and "item \<le> bm_elements b"
  shows "item div 64 \<le> bm_words b"
proof -
  have "item div 64 \<le> bm_elements b div 64"
    using assms(2) by (simp add: word_le_nat_alt unat_div div_le_mono)
  also have "\<dots> \<le> bm_words b" using assms(1) by (simp add: bm_inv_def)
  finally show ?thesis .
qed

text \<open>Two items name the same bit exactly when they are the same item.\<close>

lemma of_nat_div_64: "n < 2 ^ 64 \<Longrightarrow> of_nat (n div 64) = (of_nat n :: u64) div 64"
  by (simp add: word_unat_eq_iff unat_div unat_of_nat)

lemma tst_put:
  assumes "n < 2 ^ 64"
  shows "tst (put_word b (item div 64) w) n \<longleftrightarrow>
    (if n div 64 = unat item div 64 then bit w (n mod 64) else tst b n)"
proof -
  have "(of_nat (n div 64) :: u64) = item div 64 \<longleftrightarrow> n div 64 = unat item div 64"
    using assms by (simp add: of_nat_div_64 word_unat_eq_iff unat_div unat_of_nat)
  then show ?thesis by (simp add: tst_def put_word_def)
qed

lemma unat_div_mod_64: "unat (item div 64) = unat item div 64" "unat (item mod 64) = unat item mod 64"
  for item :: u64
  by (simp_all add: unat_div unat_mod)

lemma same_item: "n div 64 = unat item div 64 \<and> n mod 64 = unat item mod 64 \<longleftrightarrow> n = unat item"
  by (metis mult_div_mod_eq)

lemma tst_unat: "tst b (unat item) \<longleftrightarrow> bit (bm_start b (item div 64)) (unat item mod 64)"
proof -
  have "(of_nat (unat item div 64) :: u64) = item div 64"
    using of_nat_div_64 [OF unat_u64_less [of item]] by simp
  then show ?thesis by (simp add: tst_def)
qed

lemma tst_put_bit:
  assumes n: "n < 2 ^ 64"
    and w: "\<And>k. k < 64 \<Longrightarrow> bit w k \<longleftrightarrow>
      (if k = unat item mod 64 then v else bit (bm_start b (item div 64)) k)"
  shows "tst (put_word b (item div 64) w) n \<longleftrightarrow> (if n = unat item then v else tst b n)"
proof (cases "n div 64 = unat item div 64")
  case True
  then have "(of_nat (n div 64) :: u64) = item div 64"
    using of_nat_div_64 [OF unat_u64_less [of item]] by simp
  then have "tst b n \<longleftrightarrow> bit (bm_start b (item div 64)) (n mod 64)" by (simp add: tst_def)
  then show ?thesis
    unfolding tst_put [OF n] using True w [of "n mod 64"] same_item [of n item] by auto
next
  case False
  then show ?thesis unfolding tst_put [OF n] by auto
qed

section \<open>The single-bit operations\<close>

abbreviation same_shape :: "bitmap \<Rightarrow> bitmap \<Rightarrow> bool" where
  "same_shape b b' \<equiv> bm_words b' = bm_words b \<and> bm_elements b' = bm_elements b"

lemma bm_inv_put [simp]: "bm_inv (put_word b p w) = bm_inv b"
  "bm_words (put_word b p w) = bm_words b" "bm_elements (put_word b p w) = bm_elements b"
  by (simp_all add: bm_inv_def put_word_def)

lemmas bit_op_defs = setBit_def setBit_at_def checkSetBit_def checkSetBit_at_def clearBit_def
  clearBit_at_def isBitSet_def isBitSet_at_def getIndexes_def getWord_def

lemma setBit_tst:
  assumes "bm_inv b" and "item \<le> bm_elements b"
  shows "\<exists>b'. setBit b item = Ok b' \<and> bm_inv b' \<and> same_shape b b' \<and>
    (\<forall>n<2 ^ 64. tst b' n \<longleftrightarrow> n = unat item \<or> tst b n)"
proof -
  let ?b' = "put_word b (item div 64) (bm_start b (item div 64) OR bm_on (item mod 64))"
  have "setBit b item = Ok ?b'"
    using assms item_in_words [OF assms] by (simp add: bit_op_defs)
  moreover have "tst ?b' n \<longleftrightarrow> (if n = unat item then True else tst b n)" if "n < 2 ^ 64" for n
    by (rule tst_put_bit [OF that]) (simp add: bit_or_iff bit_bm_on unat_div_mod_64)
  ultimately show ?thesis using assms(1) by auto
qed

lemma clearBit_tst:
  assumes "bm_inv b" and "item \<le> bm_elements b"
  shows "\<exists>b'. clearBit b item = Ok b' \<and> bm_inv b' \<and> same_shape b b' \<and>
    (\<forall>n<2 ^ 64. tst b' n \<longleftrightarrow> n \<noteq> unat item \<and> tst b n)"
proof -
  let ?b' = "put_word b (item div 64) (bm_start b (item div 64) AND bm_off (item mod 64))"
  have "clearBit b item = Ok ?b'"
    using assms item_in_words [OF assms] by (simp add: bit_op_defs)
  moreover have "tst ?b' n \<longleftrightarrow> (if n = unat item then False else tst b n)" if "n < 2 ^ 64" for n
    by (rule tst_put_bit [OF that])
      (simp add: bm_off_def bit_and_iff bit_not_iff bit_bm_on unat_div_mod_64)
  ultimately show ?thesis using assms(1) by auto
qed

lemma isBitSet_tst:
  "bm_inv b \<Longrightarrow> item \<le> bm_elements b \<Longrightarrow> isBitSet b item = Ok (tst b (unat item))"
  using item_in_words [of b item]
  by (simp add: bit_op_defs and_on_iff unat_div_mod_64 tst_unat)

lemma checkSetBit_eq:
  assumes "bm_inv b" and "item \<le> bm_elements b"
  shows "checkSetBit b item = rmap (Pair (\<not> tst b (unat item))) (setBit b item)"
  using assms item_in_words [OF assms]
  by (simp add: bit_op_defs and_on_iff unat_div_mod_64 tst_unat)

section \<open>Scanning a word\<close>

lemma set_bits_of_Nil: "set_bits_of w = [] \<longleftrightarrow> w = 0"
  by (auto simp: set_bits_of_def filter_empty_conv bit_eq_iff [of w])

lemma set_set_bits_of: "k \<in> set (set_bits_of w) \<longleftrightarrow> bit w k"
  using bit_imp_le_length [of w k] by (auto simp: set_bits_of_def)

lemma sorted_set_bits_of: "sorted (set_bits_of w)"
  by (simp add: set_bits_of_def sorted_filter [of id, simplified])

lemma unat_of_nat_64: "k < 64 \<Longrightarrow> unat (of_nat k :: u64) = k"
  by (simp add: unat_of_nat)

text \<open>\<open>getLsbIndex\<close> is the lowest set bit of a non-zero word.\<close>

lemma getLsbIndex_lowest:
  assumes "w \<noteq> 0"
  shows "bit w (unat (getLsbIndex w))" and "\<And>k. bit w k \<Longrightarrow> unat (getLsbIndex w) \<le> k"
proof -
  obtain i js where i: "set_bits_of w = i # js" using assms set_bits_of_Nil by (cases "set_bits_of w") auto
  then have "bit w i" and low: "\<And>k. bit w k \<Longrightarrow> i \<le> k"
    using sorted_set_bits_of [of w] set_set_bits_of [of _ w] by force+
  moreover have "i < 64" using \<open>bit w i\<close> bit_imp_le_length [of w i] by simp
  then have "unat (getLsbIndex w) = i"
    by (simp add: getLsbIndex_def builtin_ffsl_def i unat_of_nat_64)
  ultimately show "bit w (unat (getLsbIndex w))" "\<And>k. bit w k \<Longrightarrow> unat (getLsbIndex w) \<le> k"
    by auto
qed

text \<open>\<open>getMsbIndex\<close> is one less than the highest set bit (it wraps around when that is bit 0).\<close>

lemma getMsbIndex_highest:
  assumes "w \<noteq> 0"
  shows "bit w (unat (getMsbIndex w + 1))" and "\<And>k. bit w k \<Longrightarrow> k \<le> unat (getMsbIndex w + 1)"
proof -
  let ?l = "last (set_bits_of w)"
  have "set_bits_of w \<noteq> []" using assms set_bits_of_Nil by auto
  then have l: "bit w ?l" using set_set_bits_of [of ?l w] by simp
  then have "?l < 64" using bit_imp_le_length [of w ?l] by simp
  then have "unat (getMsbIndex w + 1) = ?l"
    by (simp add: getMsbIndex_def builtin_clzl_def of_nat_diff unat_of_nat_64)
  moreover have "k \<le> ?l" if "bit w k" for k
    using that set_set_bits_of [of k w] sorted_set_bits_of [of w]
    by (metis in_set_conv_nth last_conv_nth diff_less_Suc less_Suc_eq_le Suc_pred'
        length_pos_if_in_set sorted_nth_mono list.size(3) not_less_zero diff_less zero_less_one)
  ultimately show "bit w (unat (getMsbIndex w + 1))" "\<And>k. bit w k \<Longrightarrow> k \<le> unat (getMsbIndex w + 1)"
    using l by auto
qed

section \<open>The last bit before an item\<close>

lemma unat_scan_item:
  assumes "w \<le> item div 64" and "unat j < 64"
  shows "unat (getItemIndex w j) = unat w * 64 + unat j"
proof -
  have "unat w \<le> unat item div 64" using assms(1) by (simp add: word_le_nat_alt unat_div)
  moreover have "unat item div 64 < 2 ^ 58" using unat_u64_less [of item] by simp
  ultimately have "unat w < 2 ^ 58" by linarith
  then have "unat w * 64 + unat j < 2 ^ 64" using assms(2) by simp
  then show ?thesis by (simp add: getItemIndex_def unat_word_ariths)
qed

lemma tst_word: "k < 64 \<Longrightarrow> tst b (unat w * 64 + k) \<longleftrightarrow> bit (bm_start b w) k"
  by (simp add: tst_def)

lemma scan_bits_down_Some:
  "scan_bits_down bw i l = Some j \<Longrightarrow> unat i \<le> 64 \<Longrightarrow>
    unat j < unat i \<and> bit bw (unat j) \<and> (\<forall>k. unat j < k \<and> k < unat i \<longrightarrow> \<not> bit bw k)"
proof (induction bw i l rule: scan_bits_down.induct)
  case (1 bw i l)
  from "1.prems" have li: "l < i" by (subst (asm) scan_bits_down.simps) (simp split: if_splits)
  then have d: "unat (i - 1) = unat i - 1" "0 < unat i"
    using unat_dec [of i] by (auto simp: word_less_nat_alt)
  show ?case
  proof (cases "bit bw (unat (i - 1))")
    case True
    then have "j = i - 1" using "1.prems" li d
      by (subst (asm) scan_bits_down.simps)
        (auto simp: isBitSetOnWord_def and_on_iff Let_def split: if_splits)
    then show ?thesis using True d by auto
  next
    case False
    then have "scan_bits_down bw (i - 1) l = Some j" using "1.prems" li d
      by (subst (asm) scan_bits_down.simps) (auto simp: isBitSetOnWord_def and_on_iff Let_def)
    then have "unat j < unat (i - 1) \<and> bit bw (unat j) \<and>
        (\<forall>k. unat j < k \<and> k < unat (i - 1) \<longrightarrow> \<not> bit bw k)"
      using "1.IH" [OF li refl] False "1.prems" d
      by (simp add: isBitSetOnWord_def and_on_iff)
    moreover have "\<not> bit bw k" if "unat (i - 1) \<le> k" "k < unat i" for k
    proof -
      have "k = unat (i - 1)" using that d by linarith
      then show ?thesis using False by simp
    qed
    ultimately show ?thesis using d by (metis diff_le_self linorder_not_le order_less_le_trans)
  qed
qed

lemma scan_bits_down_None:
  "scan_bits_down bw i l = None \<Longrightarrow> unat i \<le> 64 \<Longrightarrow> unat l \<le> k \<Longrightarrow> k < unat i \<Longrightarrow> \<not> bit bw k"
proof (induction bw i l rule: scan_bits_down.induct)
  case (1 bw i l)
  have li: "l < i" using "1.prems"(3,4) by (simp add: word_less_nat_alt)
  then have d: "unat (i - 1) = unat i - 1" "0 < unat i"
    using unat_dec [of i] by (auto simp: word_less_nat_alt)
  have nb: "\<not> isBitSetOnWord bw (i - 1)" and rec: "scan_bits_down bw (i - 1) l = None"
    using "1.prems"(1) li by (subst (asm) scan_bits_down.simps; auto simp: Let_def split: if_splits)+
  show ?case
  proof (cases "k = unat (i - 1)")
    case True
    then show ?thesis using nb "1.prems"(2,4) by (simp add: isBitSetOnWord_def and_on_iff)
  next
    case False
    then show ?thesis using "1.IH" [OF li refl nb rec] "1.prems"(2,3,4) d by linarith
  qed
qed

lemma scan_words_down_spec:
  "w \<le> bm_words b \<Longrightarrow> w \<le> item div 64 \<Longrightarrow>
    (scan_words_down b w = Ok None \<and> (\<forall>n<unat w * 64. \<not> tst b n)) \<or>
    (\<exists>j. scan_words_down b w = Ok (Some j) \<and> unat j < unat w * 64 \<and> tst b (unat j) \<and>
         (\<forall>n. unat j < n \<and> n < unat w * 64 \<longrightarrow> \<not> tst b n))"
proof (induction b w rule: scan_words_down.induct)
  case (1 b w)
  show ?case
  proof (cases "0 < w")
    case False
    then show ?thesis by (subst scan_words_down.simps) (simp add: word_less_nat_alt)
  next
    case True
    let ?v = "w - 1" let ?bw = "bm_start b ?v"
    have uv: "unat w = Suc (unat ?v)" using True unat_dec [of w] by (simp add: word_less_nat_alt)
    then have v: "?v \<le> bm_words b" "?v \<le> item div 64"
      using "1.prems" by (auto simp: word_le_nat_alt)
    have rd: "readWord b ?v = Ok ?bw" using v by (simp add: readWord_def)
    have top: "tst b n \<longleftrightarrow> bit ?bw (n - unat ?v * 64)" if "unat ?v * 64 \<le> n" "n < unat w * 64" for n
      using tst_word [of "n - unat ?v * 64" b ?v] that uv by simp
    show ?thesis
    proof (cases "?bw = 0")
      case True
      then have "scan_words_down b w = scan_words_down b ?v"
        using \<open>0 < w\<close> rd by (subst scan_words_down.simps) (simp add: Let_def)
      moreover have "\<not> tst b n" if "unat ?v * 64 \<le> n" "n < unat w * 64" for n
        using top that True by simp
      moreover note "1.IH" [OF \<open>0 < w\<close> refl _ v] True
      ultimately show ?thesis using uv
        by (smt (verit) linorder_not_le add_Suc_right mult_Suc trans_less_add2)
    next
      case False
      let ?m = "getMsbIndex ?bw + 1"
      have m: "bit ?bw (unat ?m)" "\<And>k. bit ?bw k \<Longrightarrow> k \<le> unat ?m"
        using getMsbIndex_highest [OF False] by auto
      then have "unat ?m < 64" using bit_imp_le_length [of ?bw "unat ?m"] by simp
      then have i: "unat (getItemIndex ?v ?m) = unat ?v * 64 + unat ?m"
        using unat_scan_item [OF v(2)] by blast
      have "scan_words_down b w = Ok (Some (getItemIndex ?v ?m))"
        using \<open>0 < w\<close> rd False by (subst scan_words_down.simps) (simp add: Let_def)
      moreover have "tst b (unat (getItemIndex ?v ?m))"
        using i m(1) tst_word \<open>unat ?m < 64\<close> by simp
      moreover have "\<not> tst b n" if "unat ?v * 64 + unat ?m < n" "n < unat w * 64" for n
        using top [of n] m(2) [of "n - unat ?v * 64"] that by linarith
      ultimately show ?thesis using i uv \<open>unat ?m < 64\<close> by auto
    qed
  qed
qed

text \<open>
  \<open>getLastBit\<close> is total on items inside the word array and returns the greatest item below the
  given one whose bit is on.
\<close>

definition last_below :: "bitmap \<Rightarrow> nat \<Rightarrow> nat option \<Rightarrow> bool" where
  "last_below b n r \<longleftrightarrow> (case r of
     None \<Rightarrow> \<forall>k<n. \<not> tst b k
   | Some j \<Rightarrow> j < n \<and> tst b j \<and> (\<forall>k. j < k \<and> k < n \<longrightarrow> \<not> tst b k))"

lemma getLastBit_spec:
  assumes "item div 64 \<le> bm_words b"
  shows "\<exists>r. getLastBit b item = Ok r \<and> last_below b (unat item) (map_option unat r)"
proof -
  let ?w = "item div 64" let ?i = "item mod 64" let ?bw = "bm_start b ?w"
  let ?lsb = "getLsbIndex ?bw"
  define found where "found = (if ?bw \<noteq> 0 then if ?i > ?lsb then scan_bits_down ?bw ?i ?lsb
    else None else None)"
  have i: "unat ?i \<le> 64" "unat item = unat ?w * 64 + unat ?i" "unat ?i < 64"
    using unat_mod_64_less [of item] by (auto simp: unat_div_mod_64)
  have g: "getLastBit b item = (case found of Some j \<Rightarrow> Ok (Some (getItemIndex ?w j))
      | None \<Rightarrow> scan_words_down b ?w)"
    using assms by (simp add: getLastBit_def getIndexes_def readWord_def found_def Let_def)
  have top: "tst b n \<longleftrightarrow> bit ?bw (n - unat ?w * 64)" if "unat ?w * 64 \<le> n" "n < unat item" for n
    using tst_word [of "n - unat ?w * 64" b ?w] that i by simp
  show ?thesis
  proof (cases found)
    case (Some j)
    then have "scan_bits_down ?bw ?i ?lsb = Some j" by (auto simp: found_def split: if_splits)
    from scan_bits_down_Some [OF this i(1)] have j: "unat j < unat ?i" "bit ?bw (unat j)"
      "\<And>k. unat j < k \<Longrightarrow> k < unat ?i \<Longrightarrow> \<not> bit ?bw k" by auto
    then have u: "unat (getItemIndex ?w j) = unat ?w * 64 + unat j"
      using unat_scan_item [of ?w item j] i by simp
    have "\<not> tst b k" if "unat ?w * 64 + unat j < k" "k < unat item" for k
      using top [of k] j(3) [of "k - unat ?w * 64"] that i by linarith
    then have "last_below b (unat item) (Some (unat (getItemIndex ?w j)))"
      using u j tst_word [of "unat j" b ?w] i by (simp add: last_below_def)
    then show ?thesis using g Some by simp
  next
    case None
    have "\<not> bit ?bw k" if "k < unat ?i" for k
    proof (cases "?bw = 0 \<or> k < unat ?lsb")
      case True
      then show ?thesis using getLsbIndex_lowest(2) [of ?bw k] by (cases "?bw = 0") auto
    next
      case False
      then have "scan_bits_down ?bw ?i ?lsb = None" using None that
        by (auto simp: found_def word_less_nat_alt split: if_splits)
      then show ?thesis using scan_bits_down_None [OF _ i(1)] False that by auto
    qed
    then have hi: "\<not> tst b n" if "unat ?w * 64 \<le> n" "n < unat item" for n
      using top [of n] that i by simp
    have "last_below b (unat item) (map_option unat r)"
      if "last_below b (unat ?w * 64) (map_option unat r)" for r
      using that hi i(2) by (cases r) (auto simp: last_below_def simp del: unat_div_mod_64, (metis not_le)+)
    moreover have "\<exists>r. scan_words_down b ?w = Ok r \<and> last_below b (unat ?w * 64) (map_option unat r)"
      using scan_words_down_spec [OF assms order_refl] unfolding last_below_def by force
    ultimately show ?thesis using g None by auto
  qed
qed

section \<open>Ranges of bits\<close>

lemma scan_bits_up_iff:
  "unat l \<le> 64 \<Longrightarrow> scan_bits_up bw i l \<longleftrightarrow> (\<exists>k. unat i \<le> k \<and> k < unat l \<and> bit bw k)"
proof (induction bw i l rule: scan_bits_up.induct)
  case (1 bw i l)
  show ?case
  proof (cases "i < l")
    case True
    then have "scan_bits_up bw i l \<longleftrightarrow> bit bw (unat i) \<or> scan_bits_up bw (i + 1) l"
      using "1.prems" by (subst scan_bits_up.simps)
        (auto simp: hasSetBit_def and_on_iff word_less_nat_alt)
    also have "\<dots> \<longleftrightarrow> bit bw (unat i) \<or> (\<exists>k. Suc (unat i) \<le> k \<and> k < unat l \<and> bit bw k)"
      using "1.IH" [OF True] "1.prems" True unat_inc [OF True]
      by (cases "bit bw (unat i)") (auto simp: hasSetBit_def and_on_iff)
    also have "\<dots> \<longleftrightarrow> (\<exists>k. unat i \<le> k \<and> k < unat l \<and> bit bw k)"
      using True unfolding Suc_le_eq word_less_nat_alt by (auto simp: le_less)
    finally show ?thesis .
  qed (subst scan_bits_up.simps, auto simp: word_less_nat_alt)
qed

lemma hasBitSet_one_word_iff:
  assumes word: "item div 64 = (item + n) div 64" and nowrap: "unat item + unat n < 2 ^ 64"
    and rd: "item div 64 \<le> bm_words b"
  shows "hasBitSet b item n =
    Some (Ok (\<exists>k. unat item \<le> k \<and> k < unat item + unat n \<and> tst b k))"
proof -
  let ?w = "item div 64" let ?bw = "bm_start b ?w"
  have s: "unat (item + n) = unat item + unat n" using nowrap by (simp add: unat_word_ariths)
  have base: "unat item = unat ?w * 64 + unat (item mod 64)"
    "unat item + unat n = unat ?w * 64 + unat ((item + n) mod 64)"
    using word s by (metis div_mult_mod_eq unat_div_mod_64)+
  have "hasBitSet b item n = Some (Ok (scan_bits_up ?bw (item mod 64) ((item + n) mod 64)))"
    using word rd by (simp add: hasBitSet_def getIndexes_def readWord_def)
  moreover have l: "unat ((item + n) mod 64) < 64" by (rule unat_mod_64_less)
  moreover have "(\<exists>k. unat (item mod 64) \<le> k \<and> k < unat ((item + n) mod 64) \<and> bit ?bw k) \<longleftrightarrow>
      (\<exists>k. unat item \<le> k \<and> k < unat item + unat n \<and> tst b k)" (is "?L \<longleftrightarrow> ?R")
  proof
    assume ?L
    then obtain k where k: "unat (item mod 64) \<le> k" "k < unat ((item + n) mod 64)" "bit ?bw k"
      by blast
    then have "tst b (unat ?w * 64 + k)" using tst_word l by simp
    then show ?R using k base by (intro exI [of _ "unat ?w * 64 + k"]) simp
  next
    assume ?R
    then obtain k where k: "unat item \<le> k" "k < unat item + unat n" "tst b k" by blast
    then have "bit ?bw (k - unat ?w * 64)"
      using tst_word [of "k - unat ?w * 64" b ?w] base l by simp
    moreover have "unat (item mod 64) \<le> k - unat ?w * 64" "k - unat ?w * 64 < unat ((item + n) mod 64)"
      using k(1,2) base by linarith+
    ultimately show ?L by blast
  qed
  ultimately show ?thesis by (simp add: scan_bits_up_iff)
qed

lemma scan_words_up_diverges:
  assumes "i < l" and "readWord b i = Ok 0"
  shows "scan_words_up b i l = None"
proof -
  have "scan_words_up b' i' l' = Some r \<Longrightarrow> \<not> (i' < l' \<and> readWord b' i' = Ok 0)" for b' i' l' r
    by (rule scan_words_up.raw_induct [of "\<lambda>b i l r. \<not> (i < l \<and> readWord b i = Ok 0)"])
      (auto split: if_splits res.splits)
  then show ?thesis using assms by (cases "scan_words_up b i l") auto
qed

section \<open>The interface the sentinel map relies on\<close>

text \<open>
  A set of items that can be updated one item at a time. \<open>apply_ops\<close> is a sequence of
  updates; what an item's membership is after it depends on the last update of that item only.
\<close>

locale item_set =
  fixes ok :: "'b \<Rightarrow> bool" and dom_ok :: "'b \<Rightarrow> u64 \<Rightarrow> bool" and mbr :: "'b \<Rightarrow> nat \<Rightarrow> bool"
    and ins del :: "'b \<Rightarrow> u64 \<Rightarrow> 'b res" and qry :: "'b \<Rightarrow> u64 \<Rightarrow> bool res"
  assumes ins: "ok b \<Longrightarrow> dom_ok b i \<Longrightarrow> \<exists>b'. ins b i = Ok b' \<and> ok b' \<and> dom_ok b' = dom_ok b \<and>
      (\<forall>n<2 ^ 64. mbr b' n \<longleftrightarrow> n = unat i \<or> mbr b n)"
    and del: "ok b \<Longrightarrow> dom_ok b i \<Longrightarrow> \<exists>b'. del b i = Ok b' \<and> ok b' \<and> dom_ok b' = dom_ok b \<and>
      (\<forall>n<2 ^ 64. mbr b' n \<longleftrightarrow> n \<noteq> unat i \<and> mbr b n)"
    and qry: "ok b \<Longrightarrow> dom_ok b i \<Longrightarrow> qry b i = Ok (mbr b (unat i))"
begin

fun apply_ops :: "'b \<Rightarrow> (bool \<times> u64) list \<Rightarrow> 'b res" where
  "apply_ops b [] = Ok b"
| "apply_ops b ((on, i) # ops) =
     rbind (if on then ins b i else del b i) (\<lambda>b'. apply_ops b' ops)"

fun last_op :: "(bool \<times> u64) list \<Rightarrow> u64 \<Rightarrow> bool \<Rightarrow> bool" where
  "last_op [] i v = v"
| "last_op ((on, j) # ops) i v = last_op ops i (if i = j then on else v)"

lemma apply_ops_total:
  "ok b \<Longrightarrow> \<forall>(on, i)\<in>set ops. dom_ok b i \<Longrightarrow>
    \<exists>b'. apply_ops b ops = Ok b' \<and> ok b' \<and> dom_ok b' = dom_ok b \<and>
      (\<forall>j. mbr b' (unat j) = last_op ops j (mbr b (unat j)))"
proof (induction ops arbitrary: b)
  case (Cons p ops)
  obtain on i where p: "p = (on, i)" by force
  have "\<exists>b1. (if on then ins b i else del b i) = Ok b1 \<and> ok b1 \<and> dom_ok b1 = dom_ok b \<and>
      (\<forall>n<2 ^ 64. mbr b1 n \<longleftrightarrow> (if n = unat i then on else mbr b n))"
    using ins [of b i] del [of b i] Cons.prems p by (cases on) auto
  then obtain b1 where b1: "(if on then ins b i else del b i) = Ok b1" "ok b1" "dom_ok b1 = dom_ok b"
      "\<forall>n<2 ^ 64. mbr b1 n \<longleftrightarrow> (if n = unat i then on else mbr b n)" by blast
  moreover obtain b' where "apply_ops b1 ops = Ok b'" "ok b'" "dom_ok b' = dom_ok b1"
      "\<forall>j. mbr b' (unat j) = last_op ops j (mbr b1 (unat j))"
    using Cons.IH [of b1] Cons.prems b1(2,3) by auto
  ultimately show ?case
    using p unat_u64_less by (auto simp: word_unat_eq_iff)
qed simp

lemma qry_after_ops:
  assumes "ok b" and "\<forall>(on, i)\<in>set ops. dom_ok b i" and "dom_ok b j"
  shows "rbind (apply_ops b ops) (\<lambda>b'. qry b' j) = Ok (last_op ops j (mbr b (unat j)))"
  using apply_ops_total [OF assms(1,2)] assms(3) qry by auto

end

definition item_ok :: "bitmap \<Rightarrow> u64 \<Rightarrow> bool" where
  "item_ok b i \<longleftrightarrow> i \<le> bm_elements b"

interpretation bits: item_set bm_inv item_ok tst setBit clearBit isBitSet
proof (standard, goal_cases)
  case (1 b i)
  then show ?case using setBit_tst [of b i] by (auto simp: item_ok_def fun_eq_iff)
next
  case (2 b i)
  then show ?case using clearBit_tst [of b i] by (auto simp: item_ok_def fun_eq_iff)
next
  case (3 b i)
  then show ?case using isBitSet_tst by (simp add: item_ok_def)
qed

section \<open>Properties\<close>

text \<open>
  C35. The single-bit operations implement a set of items: on an item of the bitmap no assertion
  fails, \<open>setBit\<close> adds the item, \<open>clearBit\<close> removes it, no other item changes, \<open>isBitSet\<close>
  tells whether the item is in the set, and \<open>checkSetBit\<close> adds it and tells whether it was
  not there before.
\<close>

theorem bitmap_implements_set:
  assumes "bm_inv b" and "item \<le> bm_elements b"
  shows "\<exists>s c. setBit b item = Ok s \<and> clearBit b item = Ok c \<and> bm_inv s \<and> bm_inv c \<and>
    (\<forall>n<2 ^ 64. (tst s n \<longleftrightarrow> n = unat item \<or> tst b n) \<and> (tst c n \<longleftrightarrow> n \<noteq> unat item \<and> tst b n)) \<and>
    isBitSet b item = Ok (tst b (unat item)) \<and>
    checkSetBit b item = Ok (\<not> tst b (unat item), s)"
  using setBit_tst [OF assms] clearBit_tst [OF assms] isBitSet_tst [OF assms] checkSetBit_eq [OF assms]
  by auto

definition small_bitmap :: bitmap where
  "small_bitmap = bitmap_initialize (\<lambda>i. if i = 1 then 5 else 0) 255 3"

theorem bitmap_implements_set_witness:
  "\<exists>s c. setBit small_bitmap 130 = Ok s \<and> clearBit small_bitmap 130 = Ok c \<and> bm_inv s \<and> bm_inv c \<and>
    (\<forall>n<2 ^ 64. (tst s n \<longleftrightarrow> n = 130 \<or> tst small_bitmap n) \<and>
      (tst c n \<longleftrightarrow> n \<noteq> 130 \<and> tst small_bitmap n)) \<and>
    isBitSet small_bitmap 130 = Ok (tst small_bitmap 130) \<and>
    checkSetBit small_bitmap 130 = Ok (\<not> tst small_bitmap 130, s)"
  using bitmap_implements_set [of small_bitmap 130]
  by (simp add: small_bitmap_def bitmap_initialize_def bm_inv_def)

text \<open>
  C36. \<open>getLastBit\<close> ends without a failed assertion on every item inside the word array, and
  what it reports is the greatest item below the given one whose bit is on, or that there is none.
\<close>

theorem getLastBit_correct:
  assumes "item div 64 \<le> bm_words b"
  shows "\<exists>r. getLastBit b item = Ok r \<and> (case r of
      None \<Rightarrow> \<forall>k<unat item. \<not> tst b k
    | Some j \<Rightarrow> j < item \<and> tst b (unat j) \<and> (\<forall>k. unat j < k \<and> k < unat item \<longrightarrow> \<not> tst b k))"
proof -
  obtain r where r: "getLastBit b item = Ok r" "last_below b (unat item) (map_option unat r)"
    using getLastBit_spec [OF assms] by blast
  then show ?thesis
    by (intro exI [of _ r]) (cases r; simp add: last_below_def word_less_nat_alt)
qed

theorem getLastBit_correct_witness:
  "getLastBit small_bitmap 130 = Ok (Some 66) \<and> 66 < (130 :: u64) \<and> tst small_bitmap 66"
proof -
  have v: "getLastBit small_bitmap 130 = Ok (Some 66)" by code_simp
  have "130 div 64 \<le> bm_words small_bitmap" by code_simp
  from getLastBit_correct [OF this] show ?thesis using v by simp
qed



end
