(* ===== verification/Watchpoint.thy ===== *)
theory Watchpoint
  imports Xdefines
begin

text \<open>
  Error tracking: call sites (\<open>include/callsite.hh\<close>), the table of tracked objects
  (\<open>include/memtrack.hh\<close>, \<open>source/memtrack.cpp\<close>) and the hardware watchpoints
  (\<open>include/watchpoint.hh\<close>, \<open>source/watchpoint.cpp\<close>). The table is a map from object
  addresses to tracked objects: what \<open>Hash_Map\<close> promises of \<open>find\<close> and of \<open>insert\<close> of a new
  key. The contents of a freshly allocated \<open>trackObject\<close>, whose constructor sets nothing, is an
  argument. The kernel's \<open>perf_event_open\<close>, \<open>fcntl\<close> and \<open>ioctl\<close> are one parameter that
  says whether arming an address succeeds.
\<close>

section \<open>Call sites\<close>

record callsite =
  cs_depth :: u64
  cs_frames :: "u64 list"

definition callsite_new :: callsite where
  "callsite_new = \<lparr>cs_depth = 0, cs_frames = replicate CALLSITE_MAXIMUM_LENGTH 0\<rparr>"

text \<open>\<open>save\<close> and \<open>saveAndCheck\<close> write \<open>depth\<close> frames into an array of ten.\<close>

definition cs_save :: "callsite \<Rightarrow> u64 list \<Rightarrow> callsite res" where
  "cs_save c addrs =
     (if length addrs \<le> length (cs_frames c) then
        Ok (c\<lparr>cs_depth := of_nat (length addrs),
              cs_frames := addrs @ drop (length addrs) (cs_frames c)\<rparr>)
      else Err Undefined)"

primrec cs_compare :: "u64 list \<Rightarrow> u64 list \<Rightarrow> bool \<times> u64 list" where
  "cs_compare frames [] = (True, frames)"
| "cs_compare frames (a # addrs) =
     (let (same, rest) = cs_compare (tl frames) addrs
      in if hd frames \<noteq> a then (False, a # rest) else (same, hd frames # rest))"

definition cs_saveAndCheck :: "callsite \<Rightarrow> u64 list \<Rightarrow> (bool \<times> callsite) res" where
  "cs_saveAndCheck c addrs =
     (if length addrs \<le> length (cs_frames c) then
        let (isSame, frames) = cs_compare (cs_frames c) addrs
        in Ok (isSame, c\<lparr>cs_depth := of_nat (length addrs), cs_frames := frames\<rparr>)
      else Err Undefined)"

lemma cs_compare_spec:
  "length addrs \<le> length frames \<Longrightarrow>
    cs_compare frames addrs = (take (length addrs) frames = addrs, addrs @ drop (length addrs) frames)"
proof (induction addrs arbitrary: frames)
  case (Cons a addrs)
  then obtain f fs where "frames = f # fs" by (cases frames) auto
  then show ?case using Cons by auto
qed simp

section \<open>Tracked objects\<close>

datatype memTrackType = MEM_TRACK_MALLOC | MEM_TRACK_FREE

fun track_bits :: "memTrackType \<Rightarrow> u32" where
  "track_bits MEM_TRACK_MALLOC = 1"
| "track_bits MEM_TRACK_FREE = 2"

record trackObject =
  to_start :: u64
  to_objectSize :: u64
  to_currentObjectSize :: u64
  to_objecttype :: u32
  to_tracktype :: u32
  to_tracedOps :: u32
  to_allocSite :: callsite
  to_freeSite :: callsite

definition to_setup :: "trackObject \<Rightarrow> u64 \<Rightarrow> u64 \<Rightarrow> faultyObjectType \<Rightarrow> bool \<Rightarrow> trackObject res" where
  "to_setup t addr sz ty objectExist =
     (if addr = 0 then Err Assertion else
      let t = t\<lparr>to_start := addr, to_objectSize := sz\<rparr>;
          t = (if objectExist then t\<lparr>to_objecttype := to_objecttype t OR fault_bits ty\<rparr>
               else t\<lparr>to_objecttype := fault_bits ty, to_tracktype := track_bits MEM_TRACK_MALLOC\<rparr>);
          t = (if ty = OBJECT_TYPE_USEAFTERFREE
               then t\<lparr>to_tracktype := to_tracktype t OR track_bits MEM_TRACK_FREE\<rparr> else t)
      in Ok (t\<lparr>to_tracedOps := 0\<rparr>))"

definition hasUseafterfree :: "trackObject \<Rightarrow> bool" where
  "hasUseafterfree t \<longleftrightarrow> to_objecttype t AND fault_bits OBJECT_TYPE_USEAFTERFREE \<noteq> 0"

definition hasLeak :: "trackObject \<Rightarrow> bool" where
  "hasLeak t \<longleftrightarrow> to_objecttype t AND fault_bits OBJECT_TYPE_LEAK \<noteq> 0"

definition hasOverflow :: "trackObject \<Rightarrow> bool" where
  "hasOverflow t \<longleftrightarrow> to_objecttype t AND fault_bits OBJECT_TYPE_OVERFLOW \<noteq> 0"

definition saveCallsite :: "trackObject \<Rightarrow> u64 \<Rightarrow> memTrackType \<Rightarrow> u64 list \<Rightarrow> trackObject res" where
  "saveCallsite t sz ty callsites =
     rbind (if ty = MEM_TRACK_MALLOC
            then rmap (\<lambda>c. t\<lparr>to_allocSite := c, to_currentObjectSize := sz\<rparr>) (cs_save (to_allocSite t) callsites)
            else rmap (\<lambda>c. t\<lparr>to_freeSite := c\<rparr>) (cs_save (to_freeSite t) callsites))
       (\<lambda>t. Ok (t\<lparr>to_tracedOps := track_bits ty\<rparr>))"

definition isInsideObject :: "trackObject \<Rightarrow> u64 \<Rightarrow> bool" where
  "isInsideObject t addr \<longleftrightarrow> addr \<ge> to_start t \<and> addr \<le> to_start t + to_currentObjectSize t"

definition isMalloced :: "trackObject \<Rightarrow> bool" where
  "isMalloced t \<longleftrightarrow> to_tracedOps t = track_bits MEM_TRACK_MALLOC"

definition isFreed :: "trackObject \<Rightarrow> bool" where
  "isFreed t \<longleftrightarrow> to_tracedOps t = track_bits MEM_TRACK_FREE"

record memtrack =
  mt_initialized :: bool
  mt_trackMap :: "u64 \<rightharpoonup> trackObject"

definition memtrack_initialize :: "memtrack \<Rightarrow> memtrack" where
  "memtrack_initialize mt = mt\<lparr>mt_initialized := True, mt_trackMap := Map.empty\<rparr>"

text \<open>\<open>junk\<close>: the object \<open>InternalHeap::malloc\<close> returns, not initialised.\<close>

definition memtrack_insert ::
    "memtrack \<Rightarrow> u64 \<Rightarrow> u64 \<Rightarrow> faultyObjectType \<Rightarrow> trackObject \<Rightarrow> memtrack res" where
  "memtrack_insert mt start sz ty junk =
     (let mt = (if \<not> mt_initialized mt then memtrack_initialize mt else mt)
      in if start = 0 \<and> ty = OBJECT_TYPE_OVERFLOW then Ok mt
         else let (obj, objectExist) = (case mt_trackMap mt start of Some t \<Rightarrow> (t, True) | None \<Rightarrow> (junk, False))
              in rmap (\<lambda>t. mt\<lparr>mt_trackMap := (mt_trackMap mt)(start \<mapsto> t)\<rparr>)
                   (to_setup obj start sz ty objectExist))"

text \<open>\<open>callsites\<close>: the result of \<open>backtrace\<close>, at most \<open>CALLSITE_MAXIMUM_LENGTH\<close> frames.\<close>

definition memtrack_check ::
    "memtrack \<Rightarrow> u64 \<Rightarrow> u64 \<Rightarrow> memTrackType \<Rightarrow> u64 list \<Rightarrow> memtrack res" where
  "memtrack_check mt start sz ty callsites =
     (if \<not> mt_initialized mt then Ok mt
      else case mt_trackMap mt start of
        None \<Rightarrow> Ok mt
      | Some t \<Rightarrow>
          if hasUseafterfree t \<or> hasOverflow t \<or> (hasLeak t \<and> to_objectSize t = sz)
          then rmap (\<lambda>t. mt\<lparr>mt_trackMap := (mt_trackMap mt)(start \<mapsto> t)\<rparr>) (saveCallsite t sz ty callsites)
          else Ok mt)"

section \<open>Watchpoints\<close>

record faultyObject =
  fo_objtype :: faultyObjectType
  fo_faultyaddr :: u64
  fo_objectstart :: u64
  fo_faultyvalue :: u64
  fo_currentvalue :: u64
  fo_faultySite :: callsite

text \<open>\<open>tr_wp\<close> are the first \<open>_numWatchpoints\<close> slots of the array of four.\<close>

record tracker =
  tr_wp :: "faultyObject list"
  tr_memtrack :: memtrack

definition addWatchpoint :: "tracker \<Rightarrow> u64 \<Rightarrow> u64 \<Rightarrow> faultyObjectType \<Rightarrow> u64 \<Rightarrow> u64 \<Rightarrow> trackObject \<Rightarrow>
    (bool \<times> tracker) res" where
  "addWatchpoint w addr val objtype objectstart objectsize junk =
     (let (hasWatchpoint, w) =
        (if length (tr_wp w) < MAX_WATCHPOINTS
         then (True, w\<lparr>tr_wp := tr_wp w @ [\<lparr>fo_objtype = objtype, fo_faultyaddr = addr,
                fo_objectstart = objectstart, fo_faultyvalue = val, fo_currentvalue = val,
                fo_faultySite = callsite_new\<rparr>]\<rparr>)
         else (False, w))
      in rmap (\<lambda>mt. (\<not> hasWatchpoint, w\<lparr>tr_memtrack := mt\<rparr>))
           (if objtype \<noteq> OBJECT_TYPE_WATCHONLY
            then memtrack_insert (tr_memtrack w) objectstart objectsize objtype junk
            else Ok (tr_memtrack w)))"

definition hasToRollback :: "tracker \<Rightarrow> bool" where
  "hasToRollback w \<longleftrightarrow> length (tr_wp w) > 0"

text \<open>
  The loop of \<open>findFaultyObject\<close> over the slots from \<open>i\<close> on: the updated slots and the index of
  the last one that triggered.
\<close>

fun find_faulty_loop :: "mem \<Rightarrow> nat \<Rightarrow> nat \<Rightarrow> nat option \<Rightarrow> faultyObject list \<Rightarrow>
    nat option \<times> faultyObject list" where
  "find_faulty_loop m num i found [] = (found, [])"
| "find_faulty_loop m num i found (p # ps) =
     (let v = rd64 m (fo_faultyaddr p);
          (p, found) = (if v \<noteq> fo_currentvalue p \<or> num = 1
                        then (p\<lparr>fo_currentvalue := v\<rparr>, Some i) else (p, found));
          (found, ps) = find_faulty_loop m num (Suc i) found ps
      in (found, p # ps))"

definition findFaultyObject :: "mem \<Rightarrow> tracker \<Rightarrow> nat option \<times> tracker" where
  "findFaultyObject m w =
     (let (found, wp) = find_faulty_loop m (length (tr_wp w)) 0 None (tr_wp w)
      in (found, w\<lparr>tr_wp := wp\<rparr>))"

text \<open>\<open>arm\<close>: whether \<open>install_watchpoint\<close> can arm an address; otherwise it aborts.\<close>

definition installWatchpoints :: "(u64 \<Rightarrow> bool) \<Rightarrow> mem \<Rightarrow> tracker \<Rightarrow> tracker res" where
  "installWatchpoints arm m w =
     (if tr_wp w = [] then Ok w
      else if list_all (\<lambda>p. arm (fo_faultyaddr p)) (tr_wp w)
      then Ok (w\<lparr>tr_wp := map (\<lambda>p. p\<lparr>fo_currentvalue := rd64 m (fo_faultyaddr p)\<rparr>) (tr_wp w)\<rparr>)
      else Err Abort)"

definition checkAndSaveCallsite :: "tracker \<Rightarrow> nat \<Rightarrow> u64 list \<Rightarrow> (bool \<times> tracker) res" where
  "checkAndSaveCallsite w i callsites =
     rmap (\<lambda>(isSame, c). (isSame, w\<lparr>tr_wp := (tr_wp w)[i := (tr_wp w ! i)\<lparr>fo_faultySite := c\<rparr>]\<rparr>))
       (cs_saveAndCheck (fo_faultySite (tr_wp w ! i)) callsites)"

section \<open>Invariant\<close>

text \<open>
  At most four watchpoints, and every watchpoint that stands for an error has its object in the
  table (so that the trap handler finds it).
\<close>

definition tracker_inv :: "tracker \<Rightarrow> bool" where
  "tracker_inv w \<longleftrightarrow> length (tr_wp w) \<le> MAX_WATCHPOINTS \<and>
     (\<forall>p\<in>set (tr_wp w). fo_objtype p \<noteq> OBJECT_TYPE_WATCHONLY \<longrightarrow> fo_objectstart p \<noteq> 0 \<longrightarrow>
        mt_initialized (tr_memtrack w) \<and> mt_trackMap (tr_memtrack w) (fo_objectstart p) \<noteq> None)"

lemma memtrack_insert_mono:
  assumes "memtrack_insert mt start sz ty junk = Ok mt'"
  shows "mt_initialized mt'" and "mt_initialized mt \<Longrightarrow> dom (mt_trackMap mt) \<subseteq> dom (mt_trackMap mt')"
    and "start \<noteq> 0 \<Longrightarrow> mt_trackMap mt' start \<noteq> None"
  using assms
  by (auto simp: memtrack_insert_def memtrack_initialize_def Let_def rmap_Ok_iff split: if_splits prod.splits)

lemma memtrack_insert_type:
  assumes "memtrack_insert mt start sz ty junk = Ok mt'" and "start \<noteq> 0"
  shows "\<exists>t. mt_trackMap mt' start = Some t \<and>
    to_objecttype t = (case (if mt_initialized mt then mt_trackMap mt start else None) of
        None \<Rightarrow> fault_bits ty | Some t0 \<Rightarrow> to_objecttype t0 OR fault_bits ty)"
  using assms
  by (cases "mt_initialized mt"; cases "mt_trackMap mt start")
    (auto simp: memtrack_insert_def memtrack_initialize_def to_setup_def Let_def split: if_splits)

lemma memtrack_insert_total:
  "start \<noteq> 0 \<Longrightarrow> \<exists>mt'. memtrack_insert mt start sz ty junk = Ok mt'"
  by (auto simp: memtrack_insert_def to_setup_def Let_def split: option.splits)

lemma addWatchpoint_cases:
  assumes "addWatchpoint w addr val ty start sz junk = Ok (b, w')"
  shows "tr_wp w' = (if length (tr_wp w) < MAX_WATCHPOINTS then tr_wp w @
      [\<lparr>fo_objtype = ty, fo_faultyaddr = addr, fo_objectstart = start, fo_faultyvalue = val,
        fo_currentvalue = val, fo_faultySite = callsite_new\<rparr>] else tr_wp w)"
    and "b \<longleftrightarrow> \<not> length (tr_wp w) < MAX_WATCHPOINTS"
    and "if ty = OBJECT_TYPE_WATCHONLY then tr_memtrack w' = tr_memtrack w
      else memtrack_insert (tr_memtrack w) start sz ty junk = Ok (tr_memtrack w')"
  using assms by (auto simp: addWatchpoint_def Let_def rmap_Ok_iff split: if_splits)

lemma addWatchpoint_inv:
  assumes inv: "tracker_inv w" and ok: "addWatchpoint w addr val ty start sz junk = Ok (b, w')"
  shows "tracker_inv w'"
proof -
  note c = addWatchpoint_cases [OF ok]
  have "length (tr_wp w') \<le> MAX_WATCHPOINTS" using inv c(1) by (auto simp: tracker_inv_def)
  moreover have "mt_initialized (tr_memtrack w') \<and> mt_trackMap (tr_memtrack w') (fo_objectstart p) \<noteq> None"
    if p: "p \<in> set (tr_wp w')" "fo_objtype p \<noteq> OBJECT_TYPE_WATCHONLY" "fo_objectstart p \<noteq> 0" for p
  proof (cases "p \<in> set (tr_wp w)")
    case True
    then have old: "mt_initialized (tr_memtrack w)" "mt_trackMap (tr_memtrack w) (fo_objectstart p) \<noteq> None"
      using inv p by (auto simp: tracker_inv_def)
    then show ?thesis
      using c(3) memtrack_insert_mono(1,2) by (cases "ty = OBJECT_TYPE_WATCHONLY") (auto, blast)
  next
    case False
    then have "fo_objtype p = ty" "fo_objectstart p = start" using p(1) c(1) by (auto split: if_splits)
    then show ?thesis using p(2,3) c(3) memtrack_insert_mono(1,3) by auto
  qed
  ultimately show ?thesis by (simp add: tracker_inv_def)
qed

section \<open>Finding what triggered\<close>

lemma find_faulty_loop_spec:
  "find_faulty_loop m num i found ps =
    (let idx = filter (\<lambda>k. rd64 m (fo_faultyaddr (ps ! k)) \<noteq> fo_currentvalue (ps ! k) \<or> num = 1) [0..<length ps]
     in (if idx = [] then found else Some (i + last idx),
         map (\<lambda>p. p\<lparr>fo_currentvalue := rd64 m (fo_faultyaddr p)\<rparr>) ps))"
proof (induction ps arbitrary: i found)
  case (Cons p ps)
  let ?P = "\<lambda>qs k. rd64 m (fo_faultyaddr (qs ! k)) \<noteq> fo_currentvalue (qs ! k) \<or> num = 1"
  have "[0..<length (p # ps)] = 0 # map Suc [0..<length ps]"
    by (simp add: upt_conv_Cons map_Suc_upt del: upt_Suc)
  then have f: "filter (?P (p # ps)) [0..<length (p # ps)] =
      (if ?P (p # ps) 0 then [0] else []) @ map Suc (filter (?P ps) [0..<length ps])"
    by (simp add: filter_map comp_def)
  have c: "(if ?P (p # ps) 0 then p\<lparr>fo_currentvalue := rd64 m (fo_faultyaddr p)\<rparr> else p) =
      p\<lparr>fo_currentvalue := rd64 m (fo_faultyaddr p)\<rparr>" by auto
  show ?case
    using f c by (auto simp: Cons.IH Let_def last_map)
qed simp

section \<open>Properties\<close>

text \<open>
  C31. Adding a watchpoint: it always succeeds for an object with a non-null start, it keeps the
  tracker invariant (at most four watchpoints, every faulty object tracked), a fifth watchpoint
  is dropped but its object is tracked nonetheless, and the error kind is recorded in the
  tracked object together with the kinds recorded before.
\<close>

theorem addWatchpoint_tracks:
  assumes "tracker_inv w" and "start \<noteq> 0" and "ty \<noteq> OBJECT_TYPE_WATCHONLY"
  shows "\<exists>w' t. addWatchpoint w addr val ty start sz junk = Ok (length (tr_wp w) = MAX_WATCHPOINTS, w') \<and>
    tracker_inv w' \<and> length (tr_wp w') = min MAX_WATCHPOINTS (Suc (length (tr_wp w))) \<and>
    mt_trackMap (tr_memtrack w') start = Some t \<and>
    to_objecttype t = (case (if mt_initialized (tr_memtrack w) then mt_trackMap (tr_memtrack w) start else None) of
        None \<Rightarrow> fault_bits ty | Some t0 \<Rightarrow> to_objecttype t0 OR fault_bits ty)"
proof -
  obtain mt where mt: "memtrack_insert (tr_memtrack w) start sz ty junk = Ok mt"
    using memtrack_insert_total [OF assms(2)] by blast
  have le: "length (tr_wp w) \<le> MAX_WATCHPOINTS" using assms(1) by (simp add: tracker_inv_def)
  then obtain w' where w': "addWatchpoint w addr val ty start sz junk = Ok (length (tr_wp w) = MAX_WATCHPOINTS, w')"
    using mt assms(3) by (cases "length (tr_wp w) < MAX_WATCHPOINTS") (auto simp: addWatchpoint_def)
  note c = addWatchpoint_cases [OF w']
  have mt': "memtrack_insert (tr_memtrack w) start sz ty junk = Ok (tr_memtrack w')"
    using c(3) assms(3) by simp
  then show ?thesis
    using memtrack_insert_type [OF mt' assms(2)] w' addWatchpoint_inv [OF assms(1) w'] c(1) le by auto
qed

definition demo_track :: trackObject where
  "demo_track = \<lparr>to_start = 1, to_objectSize = 1, to_currentObjectSize = 1, to_objecttype = 255,
     to_tracktype = 9, to_tracedOps = 9, to_allocSite = callsite_new, to_freeSite = callsite_new\<rparr>"

definition demo_tracker :: tracker where
  "demo_tracker = \<lparr>tr_wp = [], tr_memtrack = \<lparr>mt_initialized = False, mt_trackMap = Map.empty\<rparr>\<rparr>"

theorem addWatchpoint_tracks_witness:
  "\<exists>w' t. addWatchpoint demo_tracker 64 7 OBJECT_TYPE_OVERFLOW 32 32 demo_track = Ok (False, w') \<and>
    length (tr_wp w') = 1 \<and> mt_trackMap (tr_memtrack w') 32 = Some t \<and> to_objecttype t = 1"
proof -
  have "tracker_inv demo_tracker" "tr_wp demo_tracker = []" "\<not> mt_initialized (tr_memtrack demo_tracker)"
    by (simp_all add: demo_tracker_def tracker_inv_def)
  then show ?thesis
    using addWatchpoint_tracks [of demo_tracker 32 OBJECT_TYPE_OVERFLOW 64 7 32 demo_track]
    by (auto simp: MAX_WATCHPOINTS_def)
qed


definition demo_watch :: tracker where
  "demo_watch = demo_tracker\<lparr>tr_wp := [\<lparr>fo_objtype = OBJECT_TYPE_OVERFLOW, fo_faultyaddr = 64,
     fo_objectstart = 32, fo_faultyvalue = 1, fo_currentvalue = 1, fo_faultySite = callsite_new\<rparr>]\<rparr>"


end
