(* ===== verification/Sentinel_Map.thy ===== *)
theory Sentinel_Map
  imports Bitmap Object_Header Watchpoint "HOL-Library.Signed_Division"
begin

text \<open>
  The sentinel map of \<open>include/sentinelmap.hh\<close>, which records in the bitmap which heap words
  hold sentinels, and the two operations of \<open>include/xmemory.hh\<close> that write the guard of an
  object and find the object of an address. The heap is the byte memory; a freshly allocated
  tracked object (\<open>Watchpoint\<close>) is an argument of the operations that may add a watchpoint.

  The main results: the check at \<open>free\<close> (\<open>checkObjectOverflow\<close>) is exact, it reports an overflow
  if and only if some guard byte differs from what \<open>setSentinels\<close> wrote, for aligned and for
  non-aligned object sizes; the quick test of the epoch-end scan (\<open>isCorruptedSentinel\<close>) accepts
  every intact guard of more than one byte, and misses some changed ones.
\<close>

section \<open>State\<close>

record sheap =
  sh_mem :: mem
  sh_bitmap :: bitmap
  sh_wordShift :: nat
  sh_itemShift :: nat
  sh_elements :: u64
  sh_totalBytes :: u64
  sh_heapStart :: u64
  sh_lastSentinelAddr :: u64
  sh_trk :: tracker

section \<open>Index computations\<close>

function calc_shift_loop :: "u64 \<Rightarrow> nat \<Rightarrow> nat" where
  "calc_shift_loop sectorsize i =
     (if i < 64 \<and> push_bit i 1 < sectorsize then calc_shift_loop sectorsize (i + 1) else i)"
  by pat_completeness auto
termination by (relation "measure (\<lambda>(s, i). 64 - i)") auto

declare calc_shift_loop.simps [simp del]

definition calcShiftBits :: "u64 \<Rightarrow> nat res" where
  "calcShiftBits sectorsize =
     (let i = calc_shift_loop sectorsize 0 in if push_bit i 1 \<noteq> sectorsize then Err Exit else Ok i)"

definition getBytes :: "u64 \<Rightarrow> u64" where
  "getBytes elements = word_of_int (int_of_ulong elements sdiv 8)"

definition getIndex :: "sheap \<Rightarrow> u64 \<Rightarrow> u64" where
  "getIndex s addr = drop_bit (sh_wordShift s) (addr - sh_heapStart s)"

definition getWordIndex :: "sheap \<Rightarrow> u64 \<Rightarrow> u64" where
  "getWordIndex s index = drop_bit (sh_itemShift s) index"

definition getBitSize :: "sheap \<Rightarrow> u64 \<Rightarrow> u64" where
  "getBitSize s sz = drop_bit (sh_wordShift s) sz"

definition getMapBytes :: "sheap \<Rightarrow> u64 \<Rightarrow> u64 res" where
  "getMapBytes s sz =
     (let nelts = drop_bit (sh_wordShift s) sz; bytes = getBytes nelts
      in if nelts mod 8 = 0 then Ok bytes else Err Assertion)"

definition sm_getMask :: "u64 \<Rightarrow> u64" where
  "sm_getMask bitIndex = push_bit (unat bitIndex) 1"

definition sm_isBitSet :: "u64 \<Rightarrow> u64 \<Rightarrow> bool" where
  "sm_isBitSet word index \<longleftrightarrow> word AND sm_getMask index \<noteq> 0"

definition getHeapAddressFromWordIndex :: "sheap \<Rightarrow> u64 \<Rightarrow> u64" where
  "getHeapAddressFromWordIndex s index = sh_heapStart s + index * 64 * 8"

definition getHeapAddressFromItem :: "sheap \<Rightarrow> u64 \<Rightarrow> u64" where
  "getHeapAddressFromItem s index = sh_heapStart s + index * 8"

fun last_bit_loop :: "u64 \<Rightarrow> nat \<Rightarrow> nat option" where
  "last_bit_loop bits 0 = (if sm_isBitSet bits 0 then Some 0 else None)"
| "last_bit_loop bits (Suc i) =
     (if sm_isBitSet bits (of_nat (Suc i)) then Some (Suc i) else last_bit_loop bits i)"

definition getLastBitIndex :: "mem \<Rightarrow> u64 \<Rightarrow> int \<Rightarrow> nat option" where
  "getLastBitIndex m bitsAddr curIndex =
     (if curIndex < 0 then None else last_bit_loop (rd64 m bitsAddr) (nat curIndex))"

section \<open>Operations\<close>

text \<open>\<open>mmapAllocatePrivate\<close> returns zeroed memory for the bitmap.\<close>

definition sm_initialize :: "u64 \<Rightarrow> u64 \<Rightarrow> sheap \<Rightarrow> sheap res" where
  "sm_initialize addr sz s =
     (if sz mod PageSize \<noteq> 0 then Err Assertion else
      rbind (calcShiftBits 8) (\<lambda>wshift.
      rbind (calcShiftBits 64) (\<lambda>ishift.
        let elements = drop_bit wshift sz in
        Ok (s\<lparr>sh_wordShift := wshift, sh_itemShift := ishift, sh_elements := elements,
              sh_totalBytes := getBytes elements, sh_heapStart := addr,
              sh_bitmap := bitmap_initialize (\<lambda>_. 0) elements (elements div 8),
              sh_lastSentinelAddr := 0\<rparr>))))"

definition sm_cleanup :: "u64 \<Rightarrow> u64 \<Rightarrow> sheap \<Rightarrow> sheap res" where
  "sm_cleanup start sz s =
     rmap (\<lambda>b. s\<lparr>sh_bitmap := b\<rparr>) (clearBits (sh_bitmap s) (getIndex s start) (getBitSize s sz))"

definition hasSentinels :: "u64 \<Rightarrow> u64 \<Rightarrow> sheap \<Rightarrow> bool res option" where
  "hasSentinels addr sz s = hasBitSet (sh_bitmap s) (getIndex s addr) (getBitSize s sz)"

definition tryToSet :: "u64 \<Rightarrow> sheap \<Rightarrow> (bool \<times> sheap) res" where
  "tryToSet addr s = rmap (\<lambda>(r, b). (r, s\<lparr>sh_bitmap := b\<rparr>)) (checkSetBit (sh_bitmap s) (getIndex s addr))"

definition sm_clear :: "u64 \<Rightarrow> sheap \<Rightarrow> sheap res" where
  "sm_clear addr s = rmap (\<lambda>b. s\<lparr>sh_bitmap := b\<rparr>) (clearBit (sh_bitmap s) (getIndex s addr))"

definition put_mem :: "u64 \<Rightarrow> u64 \<Rightarrow> sheap \<Rightarrow> sheap" where
  "put_mem a v s = s\<lparr>sh_mem := wr64 (sh_mem s) a v\<rparr>"

definition setupSentinels :: "u64 \<Rightarrow> u64 \<Rightarrow> sheap \<Rightarrow> sheap res" where
  "setupSentinels ptr objectsize s =
     (let sentinelFirst = ptr - SENTINEL_SIZE; sentinelLast = ptr + objectsize;
          s = put_mem sentinelFirst SENTINEL_WORD s; s = put_mem sentinelLast SENTINEL_WORD s
      in rbind (tryToSet sentinelFirst s) (\<lambda>(_, s). rmap snd (tryToSet sentinelLast s)))"

definition setSentinelAt :: "u64 \<Rightarrow> sheap \<Rightarrow> sheap res" where
  "setSentinelAt ptr s = rmap snd (tryToSet ptr (put_mem ptr SENTINEL_WORD s))"

definition clearSentinelAt :: "u64 \<Rightarrow> sheap \<Rightarrow> sheap res" where
  "clearSentinelAt ptr s = sm_clear ptr s"

definition setMemalignSentinelAt :: "u64 \<Rightarrow> sheap \<Rightarrow> sheap res" where
  "setMemalignSentinelAt ptr s = rmap snd (tryToSet ptr (put_mem ptr MEMALIGN_SENTINEL_WORD s))"

definition markSentinelAt :: "u64 \<Rightarrow> sheap \<Rightarrow> sheap res" where
  "markSentinelAt ptr s = rmap snd (tryToSet ptr s)"

definition checkSentinel :: "u64 \<Rightarrow> sheap \<Rightarrow> bool" where
  "checkSentinel ptr s \<longleftrightarrow> rd64 (sh_mem s) ptr \<noteq> SENTINEL_WORD"

definition checkAndClearSentinel :: "u64 \<Rightarrow> sheap \<Rightarrow> (bool \<times> sheap) res" where
  "checkAndClearSentinel ptr s = rmap (\<lambda>s. (checkSentinel ptr s, s)) (sm_clear ptr s)"

definition sm_isSet :: "u64 \<Rightarrow> sheap \<Rightarrow> bool res" where
  "sm_isSet addr s = isBitSet (sh_bitmap s) (getIndex s addr)"

lemma getLastBit_less: "getLastBit b item = Ok (Some j) \<Longrightarrow> j < item"
proof -
  assume g: "getLastBit b item = Ok (Some j)"
  then have "item div 64 \<le> bm_words b"
    by (auto simp: getLastBit_def getIndexes_def readWord_def rbind_Ok_iff split: if_splits)
  then show "j < item"
    using getLastBit_spec [of item b] g by (auto simp: last_below_def word_less_nat_alt)
qed

function findObjectStart_loop :: "sheap \<Rightarrow> u64 \<Rightarrow> u64 option res" where
  "findObjectStart_loop s item =
     (case getLastBit (sh_bitmap s) item of
        Err e \<Rightarrow> Err e
      | Ok None \<Rightarrow> Ok None
      | Ok (Some startIndex) \<Rightarrow>
          let canaryAddr = getHeapAddressFromItem s startIndex in
          if rd64 (sh_mem s) canaryAddr = SENTINEL_WORD then Ok (Some (canaryAddr + SENTINEL_SIZE))
          else if rd64 (sh_mem s) canaryAddr = MEMALIGN_SENTINEL_WORD then findObjectStart_loop s startIndex
          else Ok None)"
  by pat_completeness auto
termination
  by (relation "measure (\<lambda>(s, i). unat i)") (auto simp: word_less_nat_alt dest: getLastBit_less)

declare findObjectStart_loop.simps [simp del]

definition findObjectStartAddr :: "u64 \<Rightarrow> sheap \<Rightarrow> u64 option res" where
  "findObjectStartAddr addr s = findObjectStart_loop s (getIndex s addr)"

text \<open>
  The loop of \<open>isCorruptedSentinel\<close>, which reads downwards from the top byte of the word as long
  as it sees the magic byte, without a lower bound: the number of magic bytes and the byte below
  them.
\<close>

partial_function (option) magic_run :: "mem \<Rightarrow> u64 \<Rightarrow> int \<Rightarrow> (int \<times> u8) option" where
  "magic_run m a n = (if m a = MAGIC_BYTE_NOT_ALIGNED then magic_run m (a - 1) (n + 1) else Some (n, m a))"

definition isCorruptedSentinel :: "mem \<Rightarrow> u64 \<Rightarrow> bool option" where
  "isCorruptedSentinel m addr =
     map_option (\<lambda>(magicBytesSize, b).
         if magicBytesSize = 0 then True else uint b \<noteq> magicBytesSize \<and> magicBytesSize \<noteq> 1)
       (magic_run m (addr + (WORD_SIZE - 1)) 0)"

definition isOverflow :: "u64 \<Rightarrow> sheap \<Rightarrow> bool res option" where
  "isOverflow addr s =
     obind (hasSentinels addr 8 s) (\<lambda>has.
       if has \<and> rd64 (sh_mem s) addr \<noteq> SENTINEL_WORD \<and> rd64 (sh_mem s) addr \<noteq> MEMALIGN_SENTINEL_WORD
       then map_option Ok (isCorruptedSentinel (sh_mem s) addr)
       else Some (Ok False))"

definition sm_addWatchpoint :: "u64 \<Rightarrow> u64 \<Rightarrow> u64 \<Rightarrow> trackObject \<Rightarrow> sheap \<Rightarrow> sheap res" where
  "sm_addWatchpoint addr ptr sz junk s =
     rmap (\<lambda>(_, w). s\<lparr>sh_trk := w\<rparr>)
       (addWatchpoint (sh_trk s) addr (rd64 (sh_mem s) addr) OBJECT_TYPE_OVERFLOW ptr sz junk)"

text \<open>The test of the guard bytes of a partly used word: \<open>setBytes\<close> of them at \<open>p\<close>.\<close>

definition nonaligned_bad :: "mem \<Rightarrow> u64 \<Rightarrow> u64 \<Rightarrow> bool" where
  "nonaligned_bad m p setBytes \<longleftrightarrow>
     (if setBytes > 1 \<and> uint (m p) = uint (setBytes - 1)
      then list_ex (\<lambda>i. m (p + of_nat i) \<noteq> MAGIC_BYTE_NOT_ALIGNED) [1..<unat setBytes]
      else if setBytes = 1 then m p \<noteq> MAGIC_BYTE_NOT_ALIGNED
      else True)"

definition checkObjectOverflow ::
    "u64 \<Rightarrow> u64 \<Rightarrow> u64 \<Rightarrow> bool \<Rightarrow> trackObject \<Rightarrow> sheap \<Rightarrow> (bool \<times> sheap) res" where
  "checkObjectOverflow ptr blockSize sz cleanSentinels junk s =
     (let offset = blockSize - sz; p = ptr + sz; nonAlignedBytes = sz AND WORD_SIZE_MASK in
      rbind
        (if nonAlignedBytes = 0 then Ok (checkSentinel p s, False, p, s)
         else
           let startp = p - nonAlignedBytes; setBytes = WORD_SIZE - nonAlignedBytes;
               hasOverflow = nonaligned_bad (sh_mem s) p setBytes in
           if offset > WORD_SIZE then
             let nextp = startp + WORD_SIZE in
             rbind (if cleanSentinels then checkAndClearSentinel nextp s else Ok (checkSentinel nextp s, s))
               (\<lambda>(hasOverflowNext, s).
                 if hasOverflowNext
                 then rmap (\<lambda>s. (hasOverflow, True, startp, s)) (sm_addWatchpoint nextp ptr sz junk s)
                 else Ok (hasOverflow, False, startp, s))
           else Ok (hasOverflow, False, startp, s))
        (\<lambda>(hasOverflow, hasOverflowNext, pclean, s).
           rbind (if cleanSentinels then sm_clear pclean s else Ok s) (\<lambda>s.
           rbind (if hasOverflow then sm_addWatchpoint pclean ptr sz junk s else Ok s) (\<lambda>s.
             Ok (hasOverflow \<or> hasOverflowNext, s)))))"

subsection \<open>The epoch-end scan\<close>

text \<open>
  The body of the loop of \<open>checkIntegrityOnBMW\<close> for bit \<open>i\<close>; \<open>checkNonAligned\<close> and
  \<open>hasCorrupted\<close> are the variables the loop carries.
\<close>

definition bmw_step :: "u64 \<Rightarrow> u64 \<Rightarrow> trackObject \<Rightarrow> nat \<Rightarrow> bool \<times> bool \<times> sheap \<Rightarrow>
    (bool \<times> bool \<times> sheap) res option" where
  "bmw_step bits wordIndex junk i = (\<lambda>(checkNonAligned, hasCorrupted, s).
     let address = getHeapAddressFromWordIndex s wordIndex; a = address + of_nat i * 8 in
     if \<not> sm_isBitSet bits (of_nat i) then Some (Ok (checkNonAligned, hasCorrupted, s))
     else if rd64 (sh_mem s) a = SENTINEL_WORD \<or> rd64 (sh_mem s) a = MEMALIGN_SENTINEL_WORD
     then Some (Ok (checkNonAligned, hasCorrupted, s\<lparr>sh_lastSentinelAddr := a\<rparr>))
     else
       obind (Some (if i + 1 < 64 then Ok (if sm_isBitSet bits (of_nat (i + 1)) then True else checkNonAligned)
              else rmap (\<lambda>w. sm_isBitSet w 0) (readWord (sh_bitmap s) (wordIndex + 1))))
       (\<lambda>checkNonAligned.
       obind (if checkNonAligned then map_option Ok (isCorruptedSentinel (sh_mem s) a) else Some (Ok True))
       (\<lambda>isBadSentinel.
       obind (Some (if isBadSentinel then
                rbind (findObjectStartAddr a s) (\<lambda>start.
                  case start of
                    None \<Rightarrow> Ok (hasCorrupted, s)
                  | Some objectStart \<Rightarrow>
                      let obj = objectStart - 16 in
                      checkObjectOverflow objectStart (oh_getSize (sh_mem s) obj)
                        (getObjectSize (sh_mem s) obj) False junk s)
              else Ok (hasCorrupted, s)))
       (\<lambda>(hasCorrupted, s). Some (Ok (checkNonAligned, hasCorrupted, s\<lparr>sh_lastSentinelAddr := a\<rparr>))))))"

primrec bmw_loop :: "u64 \<Rightarrow> u64 \<Rightarrow> trackObject \<Rightarrow> nat list \<Rightarrow> bool \<times> bool \<times> sheap \<Rightarrow>
    (bool \<times> bool \<times> sheap) res option" where
  "bmw_loop bits wordIndex junk [] st = Some (Ok st)"
| "bmw_loop bits wordIndex junk (i # js) st =
     obind (bmw_step bits wordIndex junk i st) (bmw_loop bits wordIndex junk js)"

definition checkIntegrityOnBMW :: "u64 \<Rightarrow> u64 \<Rightarrow> trackObject \<Rightarrow> sheap \<Rightarrow> (bool \<times> sheap) res option" where
  "checkIntegrityOnBMW bits wordIndex junk s =
     obind (bmw_loop bits wordIndex junk [0..<64] (False, False, s)) (\<lambda>(_, c, s). Some (Ok (c, s)))"

primrec heap_integrity_loop :: "nat \<Rightarrow> u64 \<Rightarrow> trackObject \<Rightarrow> bool \<times> sheap \<Rightarrow> (bool \<times> sheap) res option" where
  "heap_integrity_loop 0 index junk st = Some (Ok st)"
| "heap_integrity_loop (Suc words) index junk st =
     (let (hasCorrupted, s) = st in
      obind (Some (readWord (sh_bitmap s) index)) (\<lambda>bitword.
        if bitword \<noteq> 0 then
          obind (checkIntegrityOnBMW bitword index junk s) (\<lambda>(c, s).
            heap_integrity_loop words (index + 1) junk (hasCorrupted \<or> c, s))
        else heap_integrity_loop words (index + 1) junk (hasCorrupted, s)))"

definition checkHeapIntegrity :: "u64 \<Rightarrow> u64 \<Rightarrow> trackObject \<Rightarrow> sheap \<Rightarrow> (bool \<times> sheap) res option" where
  "checkHeapIntegrity begin end' junk s =
     (let sz = end' - begin; s = s\<lparr>sh_lastSentinelAddr := 0\<rparr> in
      obind (Some (getMapBytes s sz)) (\<lambda>bytes.
        heap_integrity_loop (nat (int_of_ulong (bytes div 8))) (getIndex s begin) junk (False, s)))"

section \<open>Writing the guard of an object\<close>

definition write_guard_bytes :: "mem \<Rightarrow> u64 \<Rightarrow> u64 \<Rightarrow> mem" where
  "write_guard_bytes m p setBytes =
     (if setBytes \<ge> 2 then
        fold (\<lambda>i m. m(p + of_nat i := MAGIC_BYTE_NOT_ALIGNED)) [1..<unat setBytes]
          (m(p := ucast (setBytes - 1)))
      else if setBytes = 1 then m(p := MAGIC_BYTE_NOT_ALIGNED)
      else m)"

definition setSentinels :: "u64 \<Rightarrow> u64 \<Rightarrow> u64 \<Rightarrow> sheap \<Rightarrow> sheap res" where
  "setSentinels ptr blockSize sz s =
     (let offset = blockSize - sz; p = ptr + sz; nonAlignedBytes = sz AND WORD_SIZE_MASK in
      if nonAlignedBytes = 0 then setSentinelAt p s
      else
        let startp = p - nonAlignedBytes; setBytes = WORD_SIZE - nonAlignedBytes;
            s = s\<lparr>sh_mem := write_guard_bytes (sh_mem s) p setBytes\<rparr>
        in rbind (markSentinelAt startp s) (\<lambda>s.
             if offset > WORD_SIZE then setSentinelAt (startp + WORD_SIZE) s else Ok s))"

section \<open>Guard bytes\<close>

lemma offset_back: "x = a + of_nat (unat (x - a))" for x a :: u64
  by simp

lemma rd64_differs:
  "rd64 m' a \<noteq> v \<longleftrightarrow> (\<exists>x. x - a < 8 \<and> m' x \<noteq> wr64 m a v x)"
proof -
  have "rd64 m' a = v \<longleftrightarrow> (\<forall>i<8. m' (a + of_nat i) = wr64 m a v (a + of_nat i))"
    by (simp add: rd64_eq_iff wr64_def of_nat_less_8)
  also have "\<dots> \<longleftrightarrow> (\<forall>x. x - a < 8 \<longrightarrow> m' x = wr64 m a v x)"
  proof
    assume h: "\<forall>i<8. m' (a + of_nat i) = wr64 m a v (a + of_nat i)"
    show "\<forall>x. x - a < 8 \<longrightarrow> m' x = wr64 m a v x"
    proof (intro allI impI)
      fix x assume "x - a < 8"
      then have "unat (x - a) < 8" by (simp add: word_less_nat_alt)
      with h have "m' (a + of_nat (unat (x - a))) = wr64 m a v (a + of_nat (unat (x - a)))" by blast
      then show "m' x = wr64 m a v x" by (simp only: offset_back [symmetric])
    qed
  qed (simp add: of_nat_less_8)
  finally show ?thesis by blast
qed

definition guard_byte :: "u64 \<Rightarrow> u64 \<Rightarrow> u8" where
  "guard_byte k i = (if k \<ge> 2 \<and> i = 0 then ucast (k - 1) else MAGIC_BYTE_NOT_ALIGNED)"

lemma fold_put_bytes:
  "fold (\<lambda>i m. m(p + of_nat i := c)) js m x = (if \<exists>i\<in>set js. x = p + of_nat i then c else m x)"
  for p :: u64
  by (induction js arbitrary: m) auto

lemma in_byte_range:
  fixes x p :: u64
  assumes "n \<le> 2 ^ 64"
  shows "(\<exists>i\<in>set [1..<n]. x = p + of_nat i) \<longleftrightarrow> x \<noteq> p \<and> unat (x - p) < n"
proof
  assume "\<exists>i\<in>set [1..<n]. x = p + of_nat i"
  then obtain i where i: "1 \<le> i" "i < n" "x = p + of_nat i" by auto
  then have "unat (x - p) = i" using assms by (simp add: unat_of_nat)
  then show "x \<noteq> p \<and> unat (x - p) < n" using i by auto
next
  assume h: "x \<noteq> p \<and> unat (x - p) < n"
  then have "unat (x - p) \<noteq> 0" by (simp add: unat_eq_zero)
  then show "\<exists>i\<in>set [1..<n]. x = p + of_nat i"
    using h by (intro bexI [of _ "unat (x - p)"]) auto
qed

lemma write_guard_bytes_at:
  assumes "1 \<le> k"
  shows "write_guard_bytes m p k x = (if x - p < k then guard_byte k (x - p) else m x)"
proof (cases "2 \<le> k")
  case True
  have "write_guard_bytes m p k x = (if x \<noteq> p \<and> unat (x - p) < unat k then MAGIC_BYTE_NOT_ALIGNED
      else (m(p := ucast (k - 1))) x)"
    using True in_byte_range [of "unat k" x p] unat_u64_less [of k]
    by (simp add: write_guard_bytes_def fold_put_bytes)
  moreover have "0 < k" using True by (auto simp: word_le_nat_alt word_less_nat_alt)
  ultimately show ?thesis using True by (auto simp: guard_byte_def word_less_nat_alt)
next
  case False
  then have "k = 1" using assms by (auto simp: word_le_nat_alt word_unat_eq_iff)
  moreover have "x - p < 1 \<longleftrightarrow> x = p" by (simp add: word_less_nat_alt unat_eq_zero)
  ultimately show ?thesis by (auto simp: write_guard_bytes_def guard_byte_def)
qed

lemma nonaligned_bad_iff:
  assumes "1 \<le> k" and "k \<le> 8"
  shows "nonaligned_bad m p k \<longleftrightarrow> (\<exists>x. x - p < k \<and> m x \<noteq> guard_byte k (x - p))"
proof (cases "k = 1")
  case True
  moreover have "x - p < 1 \<longleftrightarrow> x = p" for x :: u64 by (simp add: word_less_nat_alt unat_eq_zero)
  moreover have "\<not> (2 :: u64) \<le> 1" by (simp add: word_le_nat_alt)
  ultimately show ?thesis by (simp add: nonaligned_bad_def guard_byte_def)
next
  case False
  then have k: "1 < k" "2 \<le> k" "0 < k" using assms(1) by (auto simp: word_le_nat_alt word_less_nat_alt word_unat_eq_iff)
  have "uint (ucast (k - 1) :: u8) = uint (k - 1)"
  proof -
    have "unat (k - 1) < 256" using assms(2) k unat_dec [of k] by (simp add: word_le_nat_alt)
    then have "int (unat (k - 1)) < 256" by linarith
    then have "uint (k - 1) < 2 ^ 8" by simp
    then have "take_bit 8 (uint (k - 1)) = uint (k - 1)" by (simp add: take_bit_int_eq_self)
    then show ?thesis by (simp add: unsigned_ucast_eq)
  qed
  then have first: "uint (m p) = uint (k - 1) \<longleftrightarrow> m p = ucast (k - 1)" by (metis word_uint_eqI)
  have rest: "list_ex (\<lambda>i. m (p + of_nat i) \<noteq> MAGIC_BYTE_NOT_ALIGNED) [1..<unat k] \<longleftrightarrow>
      (\<exists>x. x \<noteq> p \<and> x - p < k \<and> m x \<noteq> MAGIC_BYTE_NOT_ALIGNED)"
    using in_byte_range [of "unat k" _ p] unat_u64_less [of k]
    unfolding list_ex_iff word_less_nat_alt by (metis less_imp_le)
  show ?thesis
  proof (cases "m p = ucast (k - 1)")
    case True
    then show ?thesis using k first rest by (auto simp: nonaligned_bad_def guard_byte_def)
  next
    case False
    then have "m p \<noteq> guard_byte k (p - p) \<and> p - p < k" using k by (simp add: guard_byte_def)
    then have "\<exists>x. x - p < k \<and> m x \<noteq> guard_byte k (x - p)" by blast
    moreover have "nonaligned_bad m p k" using k first False by (auto simp: nonaligned_bad_def)
    ultimately show ?thesis by blast
  qed
qed

section \<open>The map and the bitmap\<close>

definition sh_ok :: "sheap \<Rightarrow> bool" where
  "sh_ok s \<longleftrightarrow> bm_inv (sh_bitmap s) \<and> sh_wordShift s = 3"

definition in_map :: "sheap \<Rightarrow> u64 \<Rightarrow> bool" where
  "in_map s a \<longleftrightarrow> getIndex s a \<le> bm_elements (sh_bitmap s)"

definition marked :: "sheap \<Rightarrow> u64 \<Rightarrow> bool" where
  "marked s a \<longleftrightarrow> tst (sh_bitmap s) (unat (getIndex s a))"

text \<open>Two heap states with the same map geometry.\<close>

definition same_map :: "sheap \<Rightarrow> sheap \<Rightarrow> bool" where
  "same_map s s' \<longleftrightarrow> sh_ok s' \<and> sh_wordShift s' = sh_wordShift s \<and> sh_heapStart s' = sh_heapStart s \<and>
     bm_elements (sh_bitmap s') = bm_elements (sh_bitmap s)"

lemma same_map_refl: "sh_ok s \<Longrightarrow> same_map s s"
  by (simp add: same_map_def)

lemma same_mapD:
  assumes "same_map s s'"
  shows "sh_ok s'" "in_map s' = in_map s" "getIndex s' = getIndex s"
  using assms by (auto simp: same_map_def in_map_def getIndex_def fun_eq_iff)

lemma same_map_trans: "same_map s s' \<Longrightarrow> same_map s' s'' \<Longrightarrow> same_map s s''"
  by (simp add: same_map_def)

lemma tryToSet_ok:
  assumes "sh_ok s" and "in_map s a"
  shows "\<exists>s'. tryToSet a s = Ok (\<not> marked s a, s') \<and> same_map s s' \<and> sh_mem s' = sh_mem s \<and>
    sh_trk s' = sh_trk s \<and> (\<forall>x. marked s' x \<longleftrightarrow> getIndex s x = getIndex s a \<or> marked s x)"
proof -
  let ?i = "getIndex s a"
  obtain b where b: "setBit (sh_bitmap s) ?i = Ok b" "bm_inv b" "same_shape (sh_bitmap s) b"
      "\<forall>n<2 ^ 64. tst b n \<longleftrightarrow> n = unat ?i \<or> tst (sh_bitmap s) n"
    using setBit_tst [of "sh_bitmap s" ?i] assms by (auto simp: sh_ok_def in_map_def)
  have c: "checkSetBit (sh_bitmap s) ?i = Ok (\<not> marked s a, b)"
    using checkSetBit_eq [of "sh_bitmap s" ?i] assms b(1) by (simp add: sh_ok_def in_map_def marked_def)
  have "marked (s\<lparr>sh_bitmap := b\<rparr>) x \<longleftrightarrow> getIndex s x = getIndex s a \<or> marked s x" for x
    using b(4) [rule_format, OF unat_u64_less, of "getIndex s x"]
    by (simp add: marked_def getIndex_def word_unat_eq_iff)
  then show ?thesis
    using assms b c by (intro exI [of _ "s\<lparr>sh_bitmap := b\<rparr>"]) (simp add: tryToSet_def same_map_def sh_ok_def)
qed

lemma sm_clear_ok:
  assumes "sh_ok s" and "in_map s a"
  shows "\<exists>s'. sm_clear a s = Ok s' \<and> same_map s s' \<and> sh_mem s' = sh_mem s \<and>
    sh_trk s' = sh_trk s \<and> (\<forall>x. marked s' x \<longleftrightarrow> getIndex s x \<noteq> getIndex s a \<and> marked s x)"
proof -
  let ?i = "getIndex s a"
  obtain b where b: "clearBit (sh_bitmap s) ?i = Ok b" "bm_inv b" "same_shape (sh_bitmap s) b"
      "\<forall>n<2 ^ 64. tst b n \<longleftrightarrow> n \<noteq> unat ?i \<and> tst (sh_bitmap s) n"
    using clearBit_tst [of "sh_bitmap s" ?i] assms by (auto simp: sh_ok_def in_map_def)
  have "marked (s\<lparr>sh_bitmap := b\<rparr>) x \<longleftrightarrow> getIndex s x \<noteq> getIndex s a \<and> marked s x" for x
    using b(4) [rule_format, OF unat_u64_less, of "getIndex s x"]
    by (simp add: marked_def getIndex_def word_unat_eq_iff)
  then show ?thesis
    using assms b by (intro exI [of _ "s\<lparr>sh_bitmap := b\<rparr>"]) (simp add: sm_clear_def same_map_def sh_ok_def)
qed

lemma setSentinelAt_ok:
  assumes "sh_ok s" and "in_map s a"
  shows "\<exists>s'. setSentinelAt a s = Ok s' \<and> same_map s s' \<and> sh_mem s' = wr64 (sh_mem s) a SENTINEL_WORD \<and>
    sh_trk s' = sh_trk s \<and> (\<forall>x. marked s' x \<longleftrightarrow> getIndex s x = getIndex s a \<or> marked s x)"
proof -
  let ?s = "put_mem a SENTINEL_WORD s"
  have "sh_ok ?s" "in_map ?s a" "marked ?s = marked s" "getIndex ?s = getIndex s" "same_map s ?s"
    using assms by (auto simp: put_mem_def sh_ok_def in_map_def marked_def getIndex_def same_map_def fun_eq_iff)
  then show ?thesis
    using tryToSet_ok [of ?s a] by (auto simp: setSentinelAt_def put_mem_def same_map_def)
qed

lemma markSentinelAt_ok:
  assumes "sh_ok s" and "in_map s a"
  shows "\<exists>s'. markSentinelAt a s = Ok s' \<and> same_map s s' \<and> sh_mem s' = sh_mem s \<and>
    sh_trk s' = sh_trk s \<and> (\<forall>x. marked s' x \<longleftrightarrow> getIndex s x = getIndex s a \<or> marked s x)"
  using tryToSet_ok [OF assms] by (auto simp: markSentinelAt_def)

lemma addWatchpoint_overflow_ok:
  "\<exists>b w'. addWatchpoint w a v OBJECT_TYPE_OVERFLOW ptr sz junk = Ok (b, w') \<and> tr_wp w' \<noteq> []"
proof -
  have "\<exists>mt. memtrack_insert (tr_memtrack w) ptr sz OBJECT_TYPE_OVERFLOW junk = Ok mt"
    by (cases "ptr = 0") (auto simp: memtrack_insert_total, simp add: memtrack_insert_def Let_def)
  then obtain mt where "memtrack_insert (tr_memtrack w) ptr sz OBJECT_TYPE_OVERFLOW junk = Ok mt" by blast
  then obtain b w' where w': "addWatchpoint w a v OBJECT_TYPE_OVERFLOW ptr sz junk = Ok (b, w')"
    by (cases "length (tr_wp w) < MAX_WATCHPOINTS") (auto simp: addWatchpoint_def)
  then have "tr_wp w' \<noteq> []" using addWatchpoint_cases(1) [OF w'] by (auto simp: MAX_WATCHPOINTS_def)
  then show ?thesis using w' by blast
qed

lemma sm_addWatchpoint_ok:
  "\<exists>w. sm_addWatchpoint a ptr sz junk s = Ok (s\<lparr>sh_trk := w\<rparr>) \<and> hasToRollback w"
  using addWatchpoint_overflow_ok [of "sh_trk s" a "rd64 (sh_mem s) a" ptr sz junk]
  by (auto simp: sm_addWatchpoint_def hasToRollback_def)

lemma set_trk_fields [simp]:
  "sh_ok (s\<lparr>sh_trk := w\<rparr>) = sh_ok s" "in_map (s\<lparr>sh_trk := w\<rparr>) = in_map s"
  "marked (s\<lparr>sh_trk := w\<rparr>) = marked s" "getIndex (s\<lparr>sh_trk := w\<rparr>) = getIndex s"
  "same_map s0 (s\<lparr>sh_trk := w\<rparr>) = same_map s0 s"
  by (auto simp: sh_ok_def in_map_def marked_def getIndex_def same_map_def fun_eq_iff)

section \<open>The guard of an object\<close>

definition guard_len :: "u64 \<Rightarrow> u64 \<Rightarrow> u64" where
  "guard_len blockSize sz = (if sz AND 7 = 0 then 8
     else 8 - (sz AND 7) + (if blockSize - sz > 8 then 8 else 0))"

text \<open>The heap words whose bits the guard sets: the word at the end of the object and the next one.\<close>

definition guard_words :: "u64 \<Rightarrow> u64 \<Rightarrow> u64 \<Rightarrow> u64 list" where
  "guard_words ptr blockSize sz =
     (let q = ptr + sz - (sz AND 7)
      in if sz AND 7 \<noteq> 0 \<and> blockSize - sz > 8 then [q, q + 8] else [q])"

lemma and_7_bounds: "unat (sz AND 7) < 8" for sz :: u64
proof -
  have "sz AND 7 = take_bit 3 sz" by (simp add: take_bit_eq_mask mask_eq_exp_minus_1)
  then have "unat (sz AND 7) = take_bit 3 (unat sz)" by (simp add: unsigned_take_bit_eq)
  then show ?thesis by (simp add: take_bit_eq_mod)
qed

lemma nonaligned_k:
  assumes "sz AND 7 \<noteq> (0 :: u64)"
  shows "1 \<le> 8 - (sz AND 7)" and "8 - (sz AND 7) \<le> 8"
proof -
  have "0 < unat (sz AND 7)" using assms by (simp add: unat_gt_0)
  moreover have "unat (8 - (sz AND 7)) = 8 - unat (sz AND 7)"
    using and_7_bounds [of sz] by (subst unat_sub) (auto simp: word_le_nat_alt)
  ultimately show "1 \<le> 8 - (sz AND 7)" "8 - (sz AND 7) \<le> 8"
    using and_7_bounds [of sz] by (auto simp: word_le_nat_alt)
qed

lemma guard_words_mem:
  "sz AND 7 = 0 \<Longrightarrow> guard_words ptr bs sz = [ptr + sz]"
  "sz AND 7 \<noteq> 0 \<Longrightarrow> \<not> bs - sz > 8 \<Longrightarrow> guard_words ptr bs sz = [ptr + sz - (sz AND 7)]"
  "sz AND 7 \<noteq> 0 \<Longrightarrow> bs - sz > 8 \<Longrightarrow>
     guard_words ptr bs sz = [ptr + sz - (sz AND 7), ptr + sz - (sz AND 7) + 8]"
  by (simp_all add: guard_words_def Let_def)

text \<open>The memory that \<open>setSentinels\<close> leaves.\<close>

definition guarded_mem :: "u64 \<Rightarrow> u64 \<Rightarrow> u64 \<Rightarrow> mem \<Rightarrow> mem" where
  "guarded_mem ptr bs sz m =
     (let p = ptr + sz; k = 8 - (sz AND 7) in
      if sz AND 7 = 0 then wr64 m p SENTINEL_WORD
      else if bs - sz > 8 then wr64 (write_guard_bytes m p k) (p + k) SENTINEL_WORD
      else write_guard_bytes m p k)"

lemma setSentinels_ok:
  assumes ok: "sh_ok s" and map: "\<forall>a\<in>set (guard_words ptr bs sz). in_map s a"
  shows "\<exists>s'. setSentinels ptr bs sz s = Ok s' \<and> same_map s s' \<and>
    sh_mem s' = guarded_mem ptr bs sz (sh_mem s) \<and> sh_trk s' = sh_trk s \<and>
    (\<forall>x. marked s' x \<longleftrightarrow> (\<exists>a\<in>set (guard_words ptr bs sz). getIndex s x = getIndex s a) \<or> marked s x)"
proof (cases "sz AND 7 = 0")
  case True
  then show ?thesis
    using setSentinelAt_ok [OF ok, of "ptr + sz"] map
    by (simp add: setSentinels_def xdefs guarded_mem_def guard_words_mem)
next
  case False
  let ?q = "ptr + sz - (sz AND 7)"
  let ?s = "s\<lparr>sh_mem := write_guard_bytes (sh_mem s) (ptr + sz) (8 - (sz AND 7))\<rparr>"
  have s: "sh_ok ?s" "in_map ?s = in_map s" "marked ?s = marked s" "getIndex ?s = getIndex s"
    "same_map s ?s"
    using ok by (auto simp: sh_ok_def in_map_def marked_def getIndex_def same_map_def fun_eq_iff)
  have "in_map s ?q" using map False by (auto simp: guard_words_def Let_def split: if_splits)
  then obtain s1 where s1: "markSentinelAt ?q ?s = Ok s1" "same_map ?s s1" "sh_mem s1 = sh_mem ?s"
      "sh_trk s1 = sh_trk s" "\<forall>x. marked s1 x \<longleftrightarrow> getIndex s x = getIndex s ?q \<or> marked s x"
    using markSentinelAt_ok [of ?s ?q] s by auto
  note m1 = same_mapD [OF s1(2)]
  show ?thesis
  proof (cases "bs - sz > 8")
    case True
    then have "in_map s1 (?q + 8)" using map False m1 s by (simp add: guard_words_mem)
    then obtain s2 where s2: "setSentinelAt (?q + 8) s1 = Ok s2" "same_map s1 s2"
        "sh_mem s2 = wr64 (sh_mem s1) (?q + 8) SENTINEL_WORD" "sh_trk s2 = sh_trk s1"
        "\<forall>x. marked s2 x \<longleftrightarrow> getIndex s x = getIndex s (?q + 8) \<or> marked s1 x"
      using setSentinelAt_ok [OF m1(1)] m1(3) s(4) by auto
    have "same_map s s2" using same_map_trans [OF s(5) same_map_trans [OF s1(2) s2(2)]] .
    then show ?thesis
      using s1 s2 False True
      by (simp add: setSentinels_def xdefs guarded_mem_def guard_words_mem algebra_simps Let_def) blast
  next
    case False
    have "same_map s s1" using same_map_trans [OF s(5) s1(2)] .
    then show ?thesis
      using s1 False \<open>sz AND 7 \<noteq> 0\<close>
      by (simp add: setSentinels_def xdefs guarded_mem_def guard_words_mem Let_def)
  qed
qed

text \<open>The verdict of the check, as a property of the memory.\<close>

definition guard_bad :: "u64 \<Rightarrow> u64 \<Rightarrow> u64 \<Rightarrow> mem \<Rightarrow> bool" where
  "guard_bad ptr bs sz m \<longleftrightarrow>
     (let p = ptr + sz; k = 8 - (sz AND 7) in
      if sz AND 7 = 0 then rd64 m p \<noteq> SENTINEL_WORD
      else nonaligned_bad m p k \<or> (bs - sz > 8 \<and> rd64 m (p + k) \<noteq> SENTINEL_WORD))"

lemma range_split:
  fixes x p k :: u64
  assumes "k \<le> 8"
  shows "x - p < k + 8 \<longleftrightarrow> x - p < k \<or> x - (p + k) < 8"
proof -
  have kk: "unat k \<le> 8" "unat (k + 8) = unat k + 8"
    using assms by (auto simp: word_le_nat_alt unat_word_ariths)
  have e: "x - (p + k) = (x - p) - k" by simp
  show ?thesis
  proof (cases "x - p < k")
    case True
    then show ?thesis using kk by (simp add: word_less_nat_alt)
  next
    case False
    then have "unat ((x - p) - k) = unat (x - p) - unat k"
      by (intro unat_sub) simp
    then show ?thesis using False kk unfolding e word_less_nat_alt by simp linarith
  qed
qed

lemma guard_bad_iff:
  "guard_bad ptr bs sz m' \<longleftrightarrow>
    (\<exists>x. x - (ptr + sz) < guard_len bs sz \<and> m' x \<noteq> guarded_mem ptr bs sz m x)"
proof (cases "sz AND 7 = 0")
  case True
  then show ?thesis
    using rd64_differs [of m' "ptr + sz" SENTINEL_WORD m] by (simp add: guard_bad_def guard_len_def guarded_mem_def)
next
  case False
  let ?p = "ptr + sz" and ?k = "8 - (sz AND 7)"
  note k = nonaligned_k [OF False]
  let ?w = "write_guard_bytes m ?p ?k"
  have bytes: "nonaligned_bad m' ?p ?k \<longleftrightarrow> (\<exists>x. x - ?p < ?k \<and> m' x \<noteq> ?w x)"
    using nonaligned_bad_iff [OF k] write_guard_bytes_at [OF k(1)] by auto
  show ?thesis
  proof (cases "bs - sz > 8")
    case True
    let ?g = "wr64 ?w (?p + ?k) SENTINEL_WORD"
    have same: "?g x = ?w x" if "x - ?p < ?k" for x
    proof (rule wr64_other)
      have "unat ?k \<le> 8" using k(2) by (simp add: word_le_nat_alt)
      then show "\<not> x - (?p + ?k) < 8"
        using offsets_apart [of x ?p 0 ?k ?k 8] that by auto
    qed
    have "guard_bad ptr bs sz m' \<longleftrightarrow> nonaligned_bad m' ?p ?k \<or> rd64 m' (?p + ?k) \<noteq> SENTINEL_WORD"
      using False True by (simp only: guard_bad_def Let_def if_False simp_thms)
    also have "\<dots> \<longleftrightarrow> (\<exists>x. x - ?p < ?k \<and> m' x \<noteq> ?g x) \<or> (\<exists>x. x - (?p + ?k) < 8 \<and> m' x \<noteq> ?g x)"
      unfolding bytes rd64_differs [of m' "?p + ?k" SENTINEL_WORD ?w] using same by metis
    also have "\<dots> \<longleftrightarrow> (\<exists>x. x - ?p < ?k + 8 \<and> m' x \<noteq> ?g x)"
      unfolding range_split [OF k(2)] by blast
    finally show ?thesis
      using False True by (simp only: guard_len_def guarded_mem_def Let_def if_False if_True)
  next
    case False
    then show ?thesis
      using \<open>sz AND 7 \<noteq> 0\<close> bytes by (simp add: guard_bad_def guard_len_def guarded_mem_def Let_def)
  qed
qed

section \<open>The check at free time\<close>

text \<open>The last two steps of the check: clear the bit, add a watchpoint.\<close>

definition finish_check :: "u64 \<Rightarrow> u64 \<Rightarrow> u64 \<Rightarrow> bool \<Rightarrow> trackObject \<Rightarrow> bool \<Rightarrow> bool \<Rightarrow> sheap \<Rightarrow>
    (bool \<times> sheap) res" where
  "finish_check pclean ptr sz cleanSentinels junk bad badNext s =
     rbind (if cleanSentinels then sm_clear pclean s else Ok s) (\<lambda>s.
     rbind (if bad then sm_addWatchpoint pclean ptr sz junk s else Ok s) (\<lambda>s. Ok (bad \<or> badNext, s)))"

lemma finish_check_ok:
  assumes "sh_ok s" and "in_map s q"
  shows "\<exists>s'. finish_check q ptr sz c junk bad badNext s = Ok (bad \<or> badNext, s') \<and> same_map s s' \<and>
    sh_mem s' = sh_mem s \<and> (bad \<longrightarrow> hasToRollback (sh_trk s')) \<and> (\<not> bad \<longrightarrow> sh_trk s' = sh_trk s) \<and>
    (\<forall>x. marked s' x \<longleftrightarrow> marked s x \<and> (c \<longrightarrow> getIndex s x \<noteq> getIndex s q))"
proof -
  obtain s1 where s1: "(if c then sm_clear q s else Ok s) = Ok s1" "same_map s s1" "sh_mem s1 = sh_mem s"
      "sh_trk s1 = sh_trk s" "\<forall>x. marked s1 x \<longleftrightarrow> marked s x \<and> (c \<longrightarrow> getIndex s x \<noteq> getIndex s q)"
    using sm_clear_ok [OF assms] same_map_refl [OF assms(1)] by (cases c) auto
  obtain w where "sm_addWatchpoint q ptr sz junk s1 = Ok (s1\<lparr>sh_trk := w\<rparr>)" "hasToRollback w"
    using sm_addWatchpoint_ok by blast
  then show ?thesis using s1 by (cases bad) (auto simp: finish_check_def)
qed

lemma checkObjectOverflow_ok:
  assumes ok: "sh_ok s" and map: "\<forall>a\<in>set (guard_words ptr bs sz). in_map s a"
  shows "\<exists>s'. checkObjectOverflow ptr bs sz c junk s = Ok (guard_bad ptr bs sz (sh_mem s), s') \<and>
    same_map s s' \<and> sh_mem s' = sh_mem s \<and>
    (if guard_bad ptr bs sz (sh_mem s) then hasToRollback (sh_trk s') else sh_trk s' = sh_trk s) \<and>
    (\<forall>x. marked s' x \<longleftrightarrow> marked s x \<and>
       (c \<longrightarrow> (\<forall>a\<in>set (guard_words ptr bs sz). getIndex s x \<noteq> getIndex s a)))"
proof (cases "sz AND 7 = 0")
  case True
  have "checkObjectOverflow ptr bs sz c junk s =
      finish_check (ptr + sz) ptr sz c junk (guard_bad ptr bs sz (sh_mem s)) False s"
    using True by (simp add: checkObjectOverflow_def xdefs finish_check_def guard_bad_def checkSentinel_def Let_def)
  then show ?thesis
    using finish_check_ok [OF ok, of "ptr + sz" ptr sz c junk "guard_bad ptr bs sz (sh_mem s)" False] map True
    by (auto simp: guard_words_mem)
next
  case False
  let ?q = "ptr + sz - (sz AND 7)" and ?k = "8 - (sz AND 7)"
  let ?bad = "nonaligned_bad (sh_mem s) (ptr + sz) ?k"
  have q: "in_map s ?q" using map False by (auto simp: guard_words_def Let_def split: if_splits)
  show ?thesis
  proof (cases "bs - sz > 8")
    case False
    have "checkObjectOverflow ptr bs sz c junk s = finish_check ?q ptr sz c junk ?bad False s"
      using False \<open>sz AND 7 \<noteq> 0\<close> by (simp add: checkObjectOverflow_def xdefs finish_check_def Let_def)
    then show ?thesis
      using finish_check_ok [OF ok q, of ptr sz c junk ?bad False] False \<open>sz AND 7 \<noteq> 0\<close>
      by (auto simp: guard_words_mem guard_bad_def)
  next
    case True
    let ?badNext = "rd64 (sh_mem s) (?q + 8) \<noteq> SENTINEL_WORD"
    have n: "in_map s (?q + 8)" using map False True by (simp add: guard_words_mem)
    obtain s1 where s1: "(if c then checkAndClearSentinel (?q + 8) s else Ok (checkSentinel (?q + 8) s, s)) = Ok (?badNext, s1)"
        "same_map s s1" "sh_mem s1 = sh_mem s" "sh_trk s1 = sh_trk s"
        "\<forall>x. marked s1 x \<longleftrightarrow> marked s x \<and> (c \<longrightarrow> getIndex s x \<noteq> getIndex s (?q + 8))"
    proof (cases c)
      case True
      obtain s1 where "sm_clear (?q + 8) s = Ok s1" "same_map s s1" "sh_mem s1 = sh_mem s"
          "sh_trk s1 = sh_trk s" "\<forall>x. marked s1 x \<longleftrightarrow> getIndex s x \<noteq> getIndex s (?q + 8) \<and> marked s x"
        using sm_clear_ok [OF ok n] by blast
      then show ?thesis using that [of s1] True by (auto simp: checkAndClearSentinel_def checkSentinel_def)
    next
      case False
      then show ?thesis using that [of s] same_map_refl [OF ok] by (auto simp: checkSentinel_def)
    qed
    obtain w where w: "sm_addWatchpoint (?q + 8) ptr sz junk s1 = Ok (s1\<lparr>sh_trk := w\<rparr>)" "hasToRollback w"
      using sm_addWatchpoint_ok by blast
    define s2 where "s2 = (if ?badNext then s1\<lparr>sh_trk := w\<rparr> else s1)"
    have s2: "sh_ok s2" "in_map s2 ?q" "same_map s s2" "sh_mem s2 = sh_mem s" "getIndex s2 = getIndex s"
      "marked s2 = marked s1" "?badNext \<longrightarrow> hasToRollback (sh_trk s2)" "\<not> ?badNext \<longrightarrow> sh_trk s2 = sh_trk s"
      using s1 w q same_mapD [OF s1(2)] by (auto simp: s2_def)
    have "checkObjectOverflow ptr bs sz c junk s = finish_check ?q ptr sz c junk ?bad ?badNext s2"
      using False True s1(1) w(1) by (simp add: checkObjectOverflow_def xdefs finish_check_def Let_def s2_def)
    moreover have "guard_bad ptr bs sz (sh_mem s) \<longleftrightarrow> ?bad \<or> ?badNext"
      using False True by (simp add: guard_bad_def algebra_simps Let_def)
    ultimately show ?thesis
      using finish_check_ok [OF s2(1,2), of ptr sz c junk ?bad ?badNext] s1(5) s2(3-8) False True
      by (auto simp: guard_words_mem intro: same_map_trans)
  qed
qed

lemma guarded_mem_frame:
  assumes "\<not> x - (ptr + sz) < guard_len bs sz"
  shows "guarded_mem ptr bs sz m x = m x"
proof (cases "sz AND 7 = 0")
  case True
  then show ?thesis using assms by (simp add: guarded_mem_def guard_len_def wr64_other)
next
  case False
  let ?p = "ptr + sz" and ?k = "8 - (sz AND 7)"
  note k = nonaligned_k [OF False]
  show ?thesis
  proof (cases "bs - sz > 8")
    case True
    then have "\<not> x - ?p < ?k" "\<not> x - (?p + ?k) < 8"
      using assms False range_split [OF k(2), of x ?p] by (simp_all only: guard_len_def if_False if_True de_Morgan_disj simp_thms)
    then have "wr64 (write_guard_bytes m ?p ?k) (?p + ?k) SENTINEL_WORD x = m x"
      using write_guard_bytes_at [OF k(1)] by (simp only: wr64_other if_False simp_thms not_False_eq_True)
    then show ?thesis using False True by (simp only: guarded_mem_def Let_def if_False if_True)
  next
    case n: False
    then have "\<not> x - ?p < ?k" using assms False by (simp only: guard_len_def if_False add_0_right not_False_eq_True)
    then show ?thesis
      using n False write_guard_bytes_at [OF k(1)] by (simp only: guarded_mem_def Let_def if_False)
  qed
qed

interpretation gz: guard_zone "guarded_mem ptr bs sz" "guard_bad ptr bs sz"
  "\<lambda>x. x - (ptr + sz) < guard_len bs sz" for ptr bs sz
  by unfold_locales (rule guard_bad_iff, rule guarded_mem_frame)

section \<open>The quick test\<close>

lemma magic_run_count:
  "(\<forall>i<n. m (a - of_nat i) = MAGIC_BYTE_NOT_ALIGNED) \<Longrightarrow> m (a - of_nat n) \<noteq> MAGIC_BYTE_NOT_ALIGNED \<Longrightarrow>
    magic_run m a c = Some (c + int n, m (a - of_nat n))"
proof (induction n arbitrary: a c)
  case 0
  then show ?case by (subst magic_run.simps) simp
next
  case (Suc n)
  have "m a = MAGIC_BYTE_NOT_ALIGNED" using Suc.prems(1) [rule_format, of 0] by simp
  moreover have "magic_run m (a - 1) (c + 1) = Some (c + 1 + int n, m (a - 1 - of_nat n))"
  proof (rule Suc.IH)
    show "\<forall>i<n. m (a - 1 - of_nat i) = MAGIC_BYTE_NOT_ALIGNED"
    proof (intro allI impI)
      fix i assume "i < n"
      then have "m (a - of_nat (Suc i)) = MAGIC_BYTE_NOT_ALIGNED" using Suc.prems(1) by blast
      then show "m (a - 1 - of_nat i) = MAGIC_BYTE_NOT_ALIGNED" by (simp add: diff_diff_eq)
    qed
    show "m (a - 1 - of_nat n) \<noteq> MAGIC_BYTE_NOT_ALIGNED"
      using Suc.prems(2) by (simp add: diff_diff_eq)
  qed
  ultimately show ?case by (subst magic_run.simps) (simp add: diff_diff_eq)
qed

lemma isCorruptedSentinel_guard:
  assumes "1 \<le> n" "n \<le> 6" "\<forall>i<n. m (q + 7 - of_nat i) = MAGIC_BYTE_NOT_ALIGNED"
    "m (q + 7 - of_nat n) = of_nat n"
  shows "isCorruptedSentinel m q = Some False"
proof -
  have u: "uint (of_nat n :: u8) = int n"
    using assms(1,2) by (simp add: unsigned_of_nat take_bit_nat_eq_self)
  moreover have "uint MAGIC_BYTE_NOT_ALIGNED = 126" by (simp add: MAGIC_BYTE_NOT_ALIGNED_def)
  ultimately have "of_nat n \<noteq> MAGIC_BYTE_NOT_ALIGNED" using assms(2) by auto
  then have "magic_run m (q + 7) 0 = Some (int n, of_nat n)"
    using magic_run_count [of n m "q + 7" 0] assms(3,4) by simp
  then show ?thesis using u assms(1) by (simp add: isCorruptedSentinel_def WORD_SIZE_def)
qed

lemma isCorruptedSentinel_one:
  assumes "m (q + 7) = MAGIC_BYTE_NOT_ALIGNED" and "m (q + 6) \<noteq> MAGIC_BYTE_NOT_ALIGNED"
  shows "isCorruptedSentinel m q = Some False"
proof -
  have "magic_run m (q + 7) 0 = Some (1, m (q + 6))"
    using magic_run_count [of 1 m "q + 7" 0] assms by (simp add: add.commute)
  then show ?thesis by (simp add: isCorruptedSentinel_def WORD_SIZE_def)
qed

section \<open>Finding the object of an address\<close>

definition item_addr :: "sheap \<Rightarrow> nat \<Rightarrow> u64" where
  "item_addr s n = getHeapAddressFromItem s (of_nat n)"

definition object_below :: "sheap \<Rightarrow> nat \<Rightarrow> nat \<Rightarrow> bool" where
  "object_below s n j \<longleftrightarrow> j < n \<and> tst (sh_bitmap s) j \<and>
     (\<forall>k. j < k \<and> k < n \<and> tst (sh_bitmap s) k \<longrightarrow> rd64 (sh_mem s) (item_addr s k) = MEMALIGN_SENTINEL_WORD)"

lemma findObjectStart_loop_spec:
  "item div 64 \<le> bm_words (sh_bitmap s) \<Longrightarrow>
    \<exists>r. findObjectStart_loop s item = Ok r \<and>
      (\<forall>st. r = Some st \<longrightarrow> (\<exists>j. object_below s (unat item) j \<and>
         rd64 (sh_mem s) (item_addr s j) = SENTINEL_WORD \<and> st = item_addr s j + 8))"
proof (induction s item rule: findObjectStart_loop.induct)
  case (1 s item)
  obtain r where r: "getLastBit (sh_bitmap s) item = Ok r"
      "last_below (sh_bitmap s) (unat item) (map_option unat r)"
    using getLastBit_spec [OF "1.prems"] by blast
  show ?case
  proof (cases r)
    case None
    then show ?thesis using r by (subst findObjectStart_loop.simps) simp
  next
    case (Some j)
    have j: "unat j < unat item" "tst (sh_bitmap s) (unat j)"
      "\<And>k. unat j < k \<Longrightarrow> k < unat item \<Longrightarrow> \<not> tst (sh_bitmap s) k"
      using r(2) Some by (auto simp: last_below_def)
    let ?v = "rd64 (sh_mem s) (getHeapAddressFromItem s j)"
    have a: "item_addr s (unat j) = getHeapAddressFromItem s j" by (simp add: item_addr_def)
    have near: "object_below s (unat item) (unat j)" using j by (auto simp: object_below_def)
    consider "?v = SENTINEL_WORD" | "?v \<noteq> SENTINEL_WORD" "?v = MEMALIGN_SENTINEL_WORD"
      | "?v \<noteq> SENTINEL_WORD" "?v \<noteq> MEMALIGN_SENTINEL_WORD" by blast
    then show ?thesis
    proof cases
      case 1
      then have "findObjectStart_loop s item = Ok (Some (item_addr s (unat j) + 8))"
        using r Some a by (subst findObjectStart_loop.simps) (simp add: Let_def xdefs)
      then show ?thesis using near 1 a by auto
    next
      case 2
      then have eq: "findObjectStart_loop s item = findObjectStart_loop s j"
        using r Some by (subst findObjectStart_loop.simps) (simp add: Let_def)
      have "j div 64 \<le> bm_words (sh_bitmap s)"
        using "1.prems" j(1) by (simp add: word_le_nat_alt unat_div)
      then obtain r' where r': "findObjectStart_loop s j = Ok r'"
          "\<forall>st. r' = Some st \<longrightarrow> (\<exists>i. object_below s (unat j) i \<and>
             rd64 (sh_mem s) (item_addr s i) = SENTINEL_WORD \<and> st = item_addr s i + 8)"
        using "1.IH" [of r j] r Some 2 by auto
      have "object_below s (unat item) i" if "object_below s (unat j) i" for i
        unfolding object_below_def
      proof (intro conjI allI impI)
        show "i < unat item" "tst (sh_bitmap s) i" using that j(1) by (auto simp: object_below_def)
        fix k assume k: "i < k \<and> k < unat item \<and> tst (sh_bitmap s) k"
        then have "k < unat j \<or> k = unat j" using j(3) by (meson linorder_neqE_nat)
        then show "rd64 (sh_mem s) (item_addr s k) = MEMALIGN_SENTINEL_WORD"
          using that k 2 a by (auto simp: object_below_def)
      qed
      then show ?thesis using eq r' by metis
    next
      case 3
      then show ?thesis using r Some by (subst findObjectStart_loop.simps) (simp add: Let_def)
    qed
  qed
qed

section \<open>The scan of an intact heap\<close>

text \<open>
  A bitmap word is quiet when each of its marked heap words is a sentinel of either kind, or is
  followed by a marked word and passes the quick test.
\<close>

definition next_marked :: "u64 \<Rightarrow> u64 \<Rightarrow> sheap \<Rightarrow> nat \<Rightarrow> bool" where
  "next_marked bits wordIndex s i \<longleftrightarrow>
     (if i + 1 < 64 then sm_isBitSet bits (of_nat (i + 1))
      else readWord (sh_bitmap s) (wordIndex + 1) = Ok (bm_start (sh_bitmap s) (wordIndex + 1)) \<and>
           sm_isBitSet (bm_start (sh_bitmap s) (wordIndex + 1)) 0)"

definition quiet :: "u64 \<Rightarrow> u64 \<Rightarrow> sheap \<Rightarrow> bool" where
  "quiet bits wordIndex s \<longleftrightarrow>
     (\<forall>i<64. sm_isBitSet bits (of_nat i) \<longrightarrow>
        (let a = getHeapAddressFromWordIndex s wordIndex + of_nat i * 8 in
         rd64 (sh_mem s) a = SENTINEL_WORD \<or> rd64 (sh_mem s) a = MEMALIGN_SENTINEL_WORD \<or>
         (next_marked bits wordIndex s i \<and> isCorruptedSentinel (sh_mem s) a = Some False)))"

lemma bmw_step_quiet:
  assumes "quiet bits wordIndex s" and "i < 64"
  shows "\<exists>c' l. bmw_step bits wordIndex junk i (c, False, s\<lparr>sh_lastSentinelAddr := l0\<rparr>) =
    Some (Ok (c', False, s\<lparr>sh_lastSentinelAddr := l\<rparr>))"
proof -
  let ?a = "getHeapAddressFromWordIndex s wordIndex + of_nat i * 8"
  have a: "getHeapAddressFromWordIndex (s\<lparr>sh_lastSentinelAddr := l0\<rparr>) wordIndex =
      getHeapAddressFromWordIndex s wordIndex"
    by (simp add: getHeapAddressFromWordIndex_def)
  consider "\<not> sm_isBitSet bits (of_nat i)"
    | "sm_isBitSet bits (of_nat i)" "rd64 (sh_mem s) ?a = SENTINEL_WORD \<or> rd64 (sh_mem s) ?a = MEMALIGN_SENTINEL_WORD"
    | "sm_isBitSet bits (of_nat i)" "\<not> (rd64 (sh_mem s) ?a = SENTINEL_WORD \<or> rd64 (sh_mem s) ?a = MEMALIGN_SENTINEL_WORD)"
      "next_marked bits wordIndex s i" "isCorruptedSentinel (sh_mem s) ?a = Some False"
    using assms by (auto simp: quiet_def Let_def)
  then show ?thesis
  proof cases
    case 3
    then show ?thesis
      by (cases "i + 1 < 64") (auto simp: bmw_step_def a next_marked_def Let_def)
  qed (auto simp: bmw_step_def a Let_def)
qed

lemma bmw_loop_quiet:
  "quiet bits wordIndex s \<Longrightarrow> \<forall>i\<in>set js. i < 64 \<Longrightarrow>
    \<exists>c' l. bmw_loop bits wordIndex junk js (c, False, s\<lparr>sh_lastSentinelAddr := l0\<rparr>) =
      Some (Ok (c', False, s\<lparr>sh_lastSentinelAddr := l\<rparr>))"
proof (induction js arbitrary: c l0)
  case Nil
  then show ?case by auto
next
  case (Cons i js)
  obtain c1 l1 where "bmw_step bits wordIndex junk i (c, False, s\<lparr>sh_lastSentinelAddr := l0\<rparr>) =
      Some (Ok (c1, False, s\<lparr>sh_lastSentinelAddr := l1\<rparr>))"
    using bmw_step_quiet [OF Cons.prems(1)] Cons.prems(2) by (meson list.set_intros(1))
  then show ?case using Cons.IH [OF Cons.prems(1), of c1 l1] Cons.prems(2) by simp
qed

section \<open>Properties\<close>

text \<open>
  C11. The overflow check is exact. Once \<open>setSentinels\<close> has guarded an object whose guard words lie
  in the map, then in every later memory \<open>m'\<close> \<open>checkObjectOverflow\<close> ends without a failed
  assertion, leaves the memory alone, and reports an overflow if and only if some guard byte
  differs from the byte \<open>setSentinels\<close> wrote; it then has a watchpoint pending, and otherwise the
  tracker is untouched. This covers object sizes that are and that are not multiples of the word size.
\<close>

theorem sentinel_check_exact:
  assumes "sh_ok s" and "\<forall>a\<in>set (guard_words ptr bs sz). in_map s a"
  shows "\<exists>s1. setSentinels ptr bs sz s = Ok s1 \<and>
    (\<forall>m' c junk. \<exists>s2. checkObjectOverflow ptr bs sz c junk (s1\<lparr>sh_mem := m'\<rparr>) =
        Ok (\<exists>x. x - (ptr + sz) < guard_len bs sz \<and> m' x \<noteq> sh_mem s1 x, s2) \<and> sh_mem s2 = m' \<and>
      (if \<exists>x. x - (ptr + sz) < guard_len bs sz \<and> m' x \<noteq> sh_mem s1 x
       then hasToRollback (sh_trk s2) else sh_trk s2 = sh_trk s))"
proof -
  obtain s1 where s1: "setSentinels ptr bs sz s = Ok s1" "same_map s s1"
      "sh_mem s1 = guarded_mem ptr bs sz (sh_mem s)" "sh_trk s1 = sh_trk s"
    using setSentinels_ok [OF assms] by blast
  have *: "\<exists>s2. checkObjectOverflow ptr bs sz c junk (s1\<lparr>sh_mem := m'\<rparr>) = Ok (guard_bad ptr bs sz m', s2) \<and>
      sh_mem s2 = m' \<and> (if guard_bad ptr bs sz m' then hasToRollback (sh_trk s2) else sh_trk s2 = sh_trk s)"
    for m' c junk
  proof -
    let ?s = "s1\<lparr>sh_mem := m'\<rparr>"
    have "sh_ok ?s" using same_mapD(1) [OF s1(2)] by (simp add: sh_ok_def)
    moreover have "in_map ?s = in_map s1" by (simp add: in_map_def getIndex_def fun_eq_iff)
    then have "\<forall>a\<in>set (guard_words ptr bs sz). in_map ?s a"
      using assms(2) same_mapD(2) [OF s1(2)] by simp
    ultimately show ?thesis using checkObjectOverflow_ok [of ?s ptr bs sz c junk] s1(4) by fastforce
  qed
  show ?thesis
    using * s1(1) unfolding s1(3) [symmetric] guard_bad_iff [where m = "sh_mem s", folded s1(3)] by blast
qed

definition demo_sheap :: sheap where
  "demo_sheap = \<lparr>sh_mem = (\<lambda>_. 0), sh_bitmap = bitmap_initialize (\<lambda>_. 0) 512 64, sh_wordShift = 3,
     sh_itemShift = 6, sh_elements = 512, sh_totalBytes = 64, sh_heapStart = 0x100000000,
     sh_lastSentinelAddr = 0, sh_trk = demo_tracker\<rparr>"

lemma demo_sheap_ok: "sh_ok demo_sheap"
  "\<forall>a\<in>set (guard_words 0x100000020 64 13). in_map demo_sheap a"
proof -
  show "sh_ok demo_sheap" by (simp add: sh_ok_def demo_sheap_def bitmap_initialize_def bm_inv_def)
  show "\<forall>a\<in>set (guard_words 0x100000020 64 13). in_map demo_sheap a" by code_simp
qed

theorem sentinel_check_exact_witness:
  "\<exists>s1. setSentinels 0x100000020 64 13 demo_sheap = Ok s1 \<and>
    (\<exists>s2. checkObjectOverflow 0x100000020 64 13 True demo_track (s1\<lparr>sh_mem := sh_mem s1\<rparr>) = Ok (False, s2))"
proof -
  obtain s1 where "setSentinels 0x100000020 64 13 demo_sheap = Ok s1"
    and "\<exists>s2. checkObjectOverflow 0x100000020 64 13 True demo_track (s1\<lparr>sh_mem := sh_mem s1\<rparr>) =
        Ok (\<exists>x. x - (0x100000020 + 13) < guard_len 64 13 \<and> sh_mem s1 x \<noteq> sh_mem s1 x, s2)"
    using sentinel_check_exact [OF demo_sheap_ok] by blast
  then show ?thesis by (simp only: simp_thms) blast
qed



text \<open>
  Clearing the guard: with \<open>cleanSentinels\<close> the check removes the marks of the guard words
  from the bitmap and no other mark, without it no mark changes.
\<close>

theorem check_clears_guard_marks:
  assumes "sh_ok s" and "\<forall>a\<in>set (guard_words ptr bs sz). in_map s a"
  shows "\<exists>r s'. checkObjectOverflow ptr bs sz c junk s = Ok (r, s') \<and>
    (\<forall>x. marked s' x \<longleftrightarrow> marked s x \<and>
       (c \<longrightarrow> (\<forall>a\<in>set (guard_words ptr bs sz). getIndex s x \<noteq> getIndex s a)))"
  using checkObjectOverflow_ok [OF assms, of c junk] by blast

theorem check_clears_guard_marks_witness:
  "\<exists>r s'. checkObjectOverflow 0x100000020 64 13 True demo_track demo_sheap = Ok (r, s')"
  using check_clears_guard_marks [OF demo_sheap_ok, of True demo_track] by blast

text \<open>
  C15. The quick test of the epoch-end scan: it accepts every intact non-aligned guard of two or
  more bytes; and it accepts a guard of three or more bytes that the free-time check reports, if
  the top byte is still the magic byte and the byte below it is not.
\<close>

theorem quick_test_accepts_and_misses:
  assumes "1 \<le> n" and "n \<le> 6"
  shows "(\<forall>m q. (\<forall>i<n. m (q + 7 - of_nat i) = MAGIC_BYTE_NOT_ALIGNED) \<and>
        m (q + 7 - of_nat n) = of_nat n \<longrightarrow> isCorruptedSentinel m q = Some False) \<and>
    (2 \<le> n \<longrightarrow> (\<forall>m q. m (q + 7) = MAGIC_BYTE_NOT_ALIGNED \<and> m (q + 6) \<noteq> MAGIC_BYTE_NOT_ALIGNED \<longrightarrow>
        isCorruptedSentinel m q = Some False \<and> nonaligned_bad m (q + 7 - of_nat n) (of_nat n + 1)))"
proof (intro conjI impI allI)
  fix m :: mem and q :: u64
  assume "(\<forall>i<n. m (q + 7 - of_nat i) = MAGIC_BYTE_NOT_ALIGNED) \<and> m (q + 7 - of_nat n) = of_nat n"
  then show "isCorruptedSentinel m q = Some False" using isCorruptedSentinel_guard [OF assms] by blast
next
  fix m :: mem and q :: u64
  assume n: "2 \<le> n" and m: "m (q + 7) = MAGIC_BYTE_NOT_ALIGNED \<and> m (q + 6) \<noteq> MAGIC_BYTE_NOT_ALIGNED"
  then show "isCorruptedSentinel m q = Some False" using isCorruptedSentinel_one by blast
  let ?k = "of_nat n + 1 :: u64" and ?p = "q + 7 - of_nat n"
  have uk: "unat ?k = n + 1" using assms(2) by (simp add: unat_word_ariths unat_of_nat)
  then have k: "1 \<le> ?k" "?k \<le> 8" using assms by (auto simp: word_le_nat_alt)
  have d: "(q + 6) - ?p = of_nat (n - 1)" using n by (simp add: of_nat_diff)
  have "unat (of_nat (n - 1) :: u64) = n - 1" using assms(2) by (subst unat_of_nat) simp
  then have "(q + 6) - ?p < ?k" "(q + 6) - ?p \<noteq> 0"
    unfolding d using uk n by (auto simp: word_less_nat_alt unat_eq_zero [symmetric])
  then show "nonaligned_bad m ?p ?k"
    unfolding nonaligned_bad_iff [OF k] using m by (intro exI [of _ "q + 6"]) (simp add: guard_byte_def)
qed

theorem quick_test_accepts_and_misses_witness:
  "isCorruptedSentinel (\<lambda>a. if a = 7 then MAGIC_BYTE_NOT_ALIGNED else 0) 0 = Some False \<and>
    nonaligned_bad (\<lambda>a. if a = 7 then MAGIC_BYTE_NOT_ALIGNED else 0) 5 3"
proof -
  have "MAGIC_BYTE_NOT_ALIGNED \<noteq> 0" by (simp add: MAGIC_BYTE_NOT_ALIGNED_def)
  then show ?thesis
    using quick_test_accepts_and_misses [of 2, THEN conjunct2, rule_format,
        of "\<lambda>a. if a = 7 then MAGIC_BYTE_NOT_ALIGNED else 0" 0] by simp
qed





end
