(* ===== verification/Xheap.thy ===== *)
theory Xheap
  imports Sentinel_Map Record_Entries
begin

text \<open>
  The source heaps and the backup of memory: \<open>include/xmapping.hh\<close> (a region with a backup copy),
  \<open>include/xheap.hh\<close> (the page-wise bump allocator of the application heap),
  \<open>include/sourceinternalheap.hh\<close> (the one of the runtime's own heap), \<open>include/xglobals.hh\<close> (the
  backed-up global regions). All regions and their copies lie in the one byte memory, as in the
  program; \<open>memcpy\<close> moves the bytes. Locks are left out: every operation runs as one step. The
  ranges of the globals come from \<open>/proc/self/maps\<close> and are an argument.

  The locale \<open>bump_heap\<close> is the contract both allocators meet: page-aligned, consecutive and
  disjoint blocks until the region is exhausted, and then \<open>exit\<close>. The results on backup say that
  recovering a region undoes every write made since the backup.
\<close>

section \<open>Mappings\<close>

record xmapping =
  xm_startaddr :: u64
  xm_heapStart :: u64
  xm_startsize :: u64
  xm_endaddr :: u64
  xm_userMemory :: u64
  xm_backupMemory :: u64

definition xm_initialize :: "mmap_fun \<Rightarrow> u64 \<Rightarrow> u64 \<Rightarrow> u64 \<Rightarrow> xmapping \<Rightarrow> xmapping res" where
  "xm_initialize mmap startaddr sz heapstart x =
     (if sz mod PageSize \<noteq> 0 then Err Exit
      else rmap (\<lambda>backup. x\<lparr>xm_backupMemory := backup, xm_heapStart := heapstart, xm_userMemory := startaddr,
        xm_startsize := sz, xm_startaddr := startaddr, xm_endaddr := startaddr + sz\<rparr>)
        (mmapAllocatePrivate mmap sz 0 (- 1)))"

definition xm_base :: "xmapping \<Rightarrow> u64" where "xm_base x = xm_userMemory x"

definition xm_size :: "xmapping \<Rightarrow> u64" where "xm_size x = xm_startsize x"

definition xm_checkHeapOverflow :: "xmapping \<Rightarrow> u64 \<Rightarrow> trackObject \<Rightarrow> sheap \<Rightarrow> (bool \<times> sheap) res option" where
  "xm_checkHeapOverflow x stop junk s =
     (if xm_heapStart x = 0 then Some (Err Assertion) else checkHeapIntegrity (xm_heapStart x) stop junk s)"

definition xm_backup :: "xmapping \<Rightarrow> u64 \<Rightarrow> mem \<Rightarrow> mem" where
  "xm_backup x stop m =
     (let sz = (if xm_heapStart x \<noteq> 0 then stop - xm_base x else xm_size x) in
      memcpy m (xm_backupMemory x) (xm_userMemory x) sz)"

definition xm_commit :: "xmapping \<Rightarrow> u64 \<Rightarrow> u64 \<Rightarrow> mem \<Rightarrow> mem" where
  "xm_commit x start sz m =
     (let offset = start - xm_base x; dest = xm_backupMemory x + offset in memcpy m dest start sz)"

definition xm_recoverMemory :: "xmapping \<Rightarrow> u64 \<Rightarrow> mem \<Rightarrow> mem" where
  "xm_recoverMemory x stop m =
     (let sz = (if xm_heapStart x \<noteq> 0 then stop - xm_base x else xm_size x) in
      memcpy m (xm_userMemory x) (xm_backupMemory x) sz)"

section \<open>The application's source heap\<close>

record xheap =
  xh_map :: xmapping
  xh_start :: u64
  xh_end :: u64
  xh_position :: u64
  xh_remaining :: u64
  xh_positionBackup :: u64
  xh_remainingBackup :: u64
  xh_magic :: u64

definition xheap_initialize :: "mmap_fun \<Rightarrow> u64 \<Rightarrow> u64 \<Rightarrow> xheap \<Rightarrow> (u64 \<times> xheap) res" where
  "xheap_initialize mmap startsize metasize x =
     (let startHeap = USER_HEAP_BASE - metasize in
      rbind (mmapAllocatePrivate mmap (startsize + metasize) startHeap (- 1)) (\<lambda>ptr.
        let start = ptr + metasize;
            x = x\<lparr>xh_start := start, xh_end := start + startsize, xh_position := start,
                   xh_remaining := startsize, xh_magic := 0xCAFEBABE\<rparr>
        in rmap (\<lambda>mp. (ptr, x\<lparr>xh_map := mp\<rparr>)) (xm_initialize mmap ptr (startsize + metasize) start (xh_map x))))"

definition saveHeapMetadata :: "xheap \<Rightarrow> xheap" where
  "saveHeapMetadata x = x\<lparr>xh_positionBackup := xh_position x, xh_remainingBackup := xh_remaining x\<rparr>"

definition recoverHeapMetadata :: "xheap \<Rightarrow> xheap" where
  "recoverHeapMetadata x = x\<lparr>xh_position := xh_positionBackup x, xh_remaining := xh_remainingBackup x\<rparr>"

definition xheap_getHeapStart :: "xheap \<Rightarrow> u64" where "xheap_getHeapStart x = xh_start x"

definition xheap_getHeapEnd :: "xheap \<Rightarrow> u64" where "xheap_getHeapEnd x = xh_end x"

definition xheap_getHeapPosition :: "xheap \<Rightarrow> u64" where "xheap_getHeapPosition x = xh_position x"

definition xheap_malloc :: "u64 \<Rightarrow> xheap \<times> sheap \<Rightarrow> (u64 \<times> xheap \<times> sheap) res" where
  "xheap_malloc sz = (\<lambda>(x, s).
     let sz = PageSize * ((sz + PageSize - 1) div PageSize) in
     if xh_remaining x < sz then Err Exit
     else let p = xh_position x;
              x = x\<lparr>xh_remaining := xh_remaining x - sz, xh_position := xh_position x + sz\<rparr>
       in rmap (\<lambda>s. (p, x, s)) (sm_cleanup p sz s))"

definition xheap_sanityCheck :: "xheap \<Rightarrow> unit res" where
  "xheap_sanityCheck x = (if xh_magic x = 0xCAFEBABE then Ok () else Err Exit)"

definition xheap_free :: "u64 \<Rightarrow> xheap \<Rightarrow> xheap res" where
  "xheap_free ptr x = rbind (xheap_sanityCheck x) (\<lambda>_. Err Abort)"

section \<open>The runtime's own source heap\<close>

record SourceInternalHeap =
  si_start :: u64
  si_end :: u64
  si_position :: u64
  si_remaining :: u64
  si_magic :: u64

definition sih_initialize :: "mmap_fun \<Rightarrow> u64 \<Rightarrow> u64 \<Rightarrow> u64 \<Rightarrow> SourceInternalHeap \<Rightarrow> (u64 \<times> SourceInternalHeap) res" where
  "sih_initialize mmap startaddr initSize metasize h =
     rmap (\<lambda>ptr. let base = ptr + metasize in
       (ptr, h\<lparr>si_start := base, si_end := base + initSize, si_position := base, si_remaining := initSize,
               si_magic := 0xCAFEBABE\<rparr>)) (mmapAllocatePrivate mmap (initSize + metasize) startaddr (- 1))"

definition sih_sanityCheck :: "SourceInternalHeap \<Rightarrow> unit res" where
  "sih_sanityCheck h = (if si_magic h \<noteq> 0xCAFEBABE then Err Abort else Ok ())"

definition sih_malloc :: "u64 \<Rightarrow> SourceInternalHeap \<Rightarrow> (u64 \<times> SourceInternalHeap) res" where
  "sih_malloc sz h =
     rbind (sih_sanityCheck h) (\<lambda>_.
       let sz = PageSize * ((sz + PageSize - 1) div PageSize) in
       if si_remaining h < sz then Err Exit
       else Ok (si_position h, h\<lparr>si_remaining := si_remaining h - sz, si_position := si_position h + sz\<rparr>))"

definition sih_getHeapStart :: "SourceInternalHeap \<Rightarrow> u64" where "sih_getHeapStart h = si_start h"

definition sih_getHeapEnd :: "SourceInternalHeap \<Rightarrow> u64" where "sih_getHeapEnd h = si_end h"

definition sih_getHeapPosition :: "SourceInternalHeap \<Rightarrow> u64" where "sih_getHeapPosition h = si_position h"

definition sih_free :: "u64 \<Rightarrow> SourceInternalHeap \<Rightarrow> SourceInternalHeap res" where
  "sih_free ptr h = rbind (sih_sanityCheck h) (\<lambda>_. Err Abort)"

section \<open>Globals\<close>

text \<open>\<open>_maps\<close> has room for 128 regions; \<open>gs\<close> are the regions that \<open>selfmap\<close> finds.\<close>

record xglobals =
  xg_regions :: "(u64 \<times> u64) list"
  xg_maps :: "xmapping list"

definition blank_map :: xmapping where
  "blank_map = \<lparr>xm_startaddr = 0, xm_heapStart = 0, xm_startsize = 0, xm_endaddr = 0, xm_userMemory = 0,
     xm_backupMemory = 0\<rparr>"

text \<open>Each call of \<open>mmap\<close> has its own result: \<open>mmap i\<close> is what the kernel does in call \<open>i\<close>.\<close>

fun init_maps :: "(nat \<Rightarrow> mmap_fun) \<Rightarrow> nat \<Rightarrow> (u64 \<times> u64) list \<Rightarrow> xmapping list res" where
  "init_maps mmap i [] = Ok []"
| "init_maps mmap i ((start, stop) # gs) =
     rbind (xm_initialize (mmap i) start (stop - start) 0 blank_map) (\<lambda>x. rmap ((#) x) (init_maps mmap (i + 1) gs))"

definition xg_initialize :: "(nat \<Rightarrow> mmap_fun) \<Rightarrow> (u64 \<times> u64) list \<Rightarrow> xglobals res" where
  "xg_initialize mmap gs = rmap (\<lambda>maps. \<lparr>xg_regions = gs, xg_maps = maps\<rparr>) (init_maps mmap 0 gs)"

definition getRegions :: "xglobals \<Rightarrow> nat" where
  "getRegions g = length (xg_regions g)"

definition getGlobalRegion :: "nat \<Rightarrow> xglobals \<Rightarrow> u64 \<times> u64" where
  "getGlobalRegion i g = (if i < length (xg_regions g) then xg_regions g ! i else (0, 0))"

definition xg_recoverMemory :: "xglobals \<Rightarrow> mem \<Rightarrow> mem" where
  "xg_recoverMemory g m = fold (\<lambda>x m. xm_recoverMemory x 0 m) (xg_maps g) m"

definition xg_backup :: "xglobals \<Rightarrow> mem \<Rightarrow> mem" where
  "xg_backup g m = fold (\<lambda>x m. xm_backup x 0 m) (xg_maps g) m"

definition xg_commit :: "u64 \<Rightarrow> u64 \<Rightarrow> nat \<Rightarrow> xglobals \<Rightarrow> mem \<Rightarrow> mem" where
  "xg_commit start sz i g m = xm_commit (xg_maps g ! i) start sz m"

section \<open>Bump allocation\<close>

definition page_up :: "u64 \<Rightarrow> nat" where
  "page_up sz = 4096 * ((unat sz + 4095) div 4096)"

definition fits_page :: "u64 \<Rightarrow> bool" where
  "fits_page sz \<longleftrightarrow> unat sz + 4096 \<le> 2 ^ 64"

text \<open>
  \<open>pos\<close> is the address of the next block and \<open>top\<close> the end of the region.
\<close>

locale bump_heap =
  fixes ok :: "'s \<Rightarrow> bool" and alloc :: "u64 \<Rightarrow> 's \<Rightarrow> (u64 \<times> 's) res" and pos :: "'s \<Rightarrow> nat" and top :: "'s \<Rightarrow> nat"
  assumes alloc_ok: "ok s \<Longrightarrow> fits_page sz \<Longrightarrow> pos s + page_up sz \<le> top s \<Longrightarrow>
      \<exists>p s'. alloc sz s = Ok (p, s') \<and> unat p = pos s \<and> pos s' = pos s + page_up sz \<and> top s' = top s \<and> ok s'"
    and alloc_full: "ok s \<Longrightarrow> fits_page sz \<Longrightarrow> top s < pos s + page_up sz \<Longrightarrow> alloc sz s = Err Exit"
    and aligned: "ok s \<Longrightarrow> 4096 dvd pos s"
    and bounded: "ok s \<Longrightarrow> pos s \<le> top s \<and> top s \<le> 2 ^ 64"
begin

primrec allocs :: "u64 list \<Rightarrow> 's \<Rightarrow> (u64 list \<times> 's) res" where
  "allocs [] s = Ok ([], s)"
| "allocs (sz # szs) s = rbind (alloc sz s) (\<lambda>(p, s). rmap (\<lambda>(ps, s). (p # ps, s)) (allocs szs s))"

text \<open>Blocks follow each other from \<open>lo\<close> on, every one on a page boundary.\<close>

fun in_a_row :: "nat \<Rightarrow> (u64 \<times> u64) list \<Rightarrow> bool" where
  "in_a_row lo [] \<longleftrightarrow> True"
| "in_a_row lo ((p, sz) # r) \<longleftrightarrow> unat p = lo \<and> 4096 dvd unat p \<and> in_a_row (lo + page_up sz) r"

lemma allocs_ok:
  "ok s \<Longrightarrow> list_all fits_page szs \<Longrightarrow> pos s + sum_list (map page_up szs) \<le> top s \<Longrightarrow>
    \<exists>ps s'. allocs szs s = Ok (ps, s') \<and> length ps = length szs \<and> in_a_row (pos s) (zip ps szs) \<and>
      pos s' = pos s + sum_list (map page_up szs) \<and> top s' = top s \<and> ok s'"
proof (induction szs arbitrary: s)
  case (Cons sz szs)
  obtain p t where t: "alloc sz s = Ok (p, t)" "unat p = pos s" "pos t = pos s + page_up sz" "top t = top s" "ok t"
    using alloc_ok [of s sz] Cons.prems by auto
  from Cons.IH [of t] t Cons.prems aligned [of s] show ?case by auto
qed simp

lemma allocs_exhausted:
  "ok s \<Longrightarrow> list_all fits_page szs \<Longrightarrow> top s < pos s + sum_list (map page_up szs) \<Longrightarrow> allocs szs s = Err Exit"
proof (induction szs arbitrary: s)
  case Nil then show ?case using bounded [of s] by simp
next
  case (Cons sz szs)
  show ?case
  proof (cases "pos s + page_up sz \<le> top s")
    case True
    obtain p t where t: "alloc sz s = Ok (p, t)" "pos t = pos s + page_up sz" "top t = top s" "ok t"
      using alloc_ok [of s sz] Cons.prems True by auto
    from Cons.IH [of t] t Cons.prems show ?thesis by simp
  next
    case False
    then show ?thesis using alloc_full [of s sz] Cons.prems by simp
  qed
qed

lemma in_a_row_above: "in_a_row lo r \<Longrightarrow> (q, sz) \<in> set r \<Longrightarrow> lo \<le> unat q"
  by (induction lo r rule: in_a_row.induct) fastforce+

lemma in_a_row_disjoint:
  "in_a_row lo r \<Longrightarrow> i < j \<Longrightarrow> j < length r \<Longrightarrow>
    unat (fst (r ! i)) + page_up (snd (r ! i)) \<le> unat (fst (r ! j))"
proof (induction lo r arbitrary: i j rule: in_a_row.induct)
  case (2 lo p sz r)
  show ?case
  proof (cases i)
    case 0
    obtain k where k: "j = Suc k" using 2(3) by (cases j) auto
    then have "r ! k \<in> set r" using 2(4) by simp
    then have "(fst (r ! k), snd (r ! k)) \<in> set r" by simp
    from in_a_row_above [OF _ this, of "lo + page_up sz"] 2(2) show ?thesis using 0 k by simp
  next
    case (Suc i')
    then show ?thesis using 2 by (cases j) auto
  qed
qed simp

end

lemma page_round:
  assumes "fits_page sz"
  shows "unat (PageSize * ((sz + PageSize - 1) div PageSize)) = page_up sz"
proof -
  have "unat (sz + 4095) = unat sz + 4095" using assms by (simp add: fits_page_def unat_word_ariths)
  moreover have "4096 * ((unat sz + 4095) div 4096) \<le> unat sz + 4095" by simp
  ultimately have "unat (4096 * ((sz + 4095) div 4096)) = 4096 * ((unat sz + 4095) div 4096)"
    using assms by (simp add: unat_word_ariths unat_div fits_page_def)
  then show ?thesis by (simp add: page_up_def xdefs add.commute)
qed

subsection \<open>The sentinel map is cleared for a new block\<close>

lemma unat_drop3: "unat (drop_bit 3 (x :: u64)) = unat x div 8"
  by (simp add: drop_bit_eq_div unat_div)

lemma sm_cleanup_ok:
  assumes s: "sh_ok s" and p: "512 dvd unat (p - sh_heapStart s)" and sz: "512 dvd unat sz" "unat sz \<le> 2 ^ 33"
    and fit: "unat (p - sh_heapStart s) + unat sz < 2 ^ 64"
    and room: "unat (p - sh_heapStart s) div 512 \<le> unat (bm_words (sh_bitmap s))"
  shows "\<exists>s'. sm_cleanup p sz s = Ok s' \<and> same_map s s' \<and> sh_mem s' = sh_mem s \<and> sh_trk s' = sh_trk s \<and>
    bm_words (sh_bitmap s') = bm_words (sh_bitmap s) \<and>
    (\<forall>x. x - sh_heapStart s < p - sh_heapStart s \<longrightarrow> marked s' x = marked s x)"
proof -
  let ?d = "getIndex s p" and ?n = "getBitSize s sz" and ?b = "sh_bitmap s"
  have w: "sh_wordShift s = 3" using s by (simp add: sh_ok_def)
  obtain k where k: "unat (p - sh_heapStart s) = 512 * k" using p by (auto elim: dvdE)
  obtain l where l: "unat sz = 512 * l" using sz(1) by (auto elim: dvdE)
  have d: "unat ?d = 64 * k" "unat ?n = 64 * l"
    using k l by (simp_all add: getIndex_def getBitSize_def w unat_drop3)
  have dn: "unat (?d + ?n) = 64 * (k + l)"
    using fit k l d by (simp add: unat_word_ariths)
  have q: "unat (?d div 64) = k" "unat ((?d + ?n) div 64) = k + l" "?d mod 64 = 0" "(?d + ?n) mod 64 = 0"
    using d dn by (simp_all add: unat_div unat_mod word_unat_eq_iff)
  have "(?d + ?n) div 64 - ?d div 64 = of_nat l"
    using q(1,2) l sz(2) unat_sub_if' [of "(?d + ?n) div 64" "?d div 64"]
    by (simp add: word_unat_eq_iff unat_of_nat)
  then have len: "((?d + ?n) div 64 - ?d div 64) * 64 = of_nat (64 * l)" by simp
  have ul: "unat (of_nat (64 * l) :: u64) = 64 * l"
    using l sz(2) by (simp only: unat_of_nat) simp
  have "64 * l < 2 ^ 31" using l sz(2) by simp
  then have size: "sext32 (((?d + ?n) div 64 - ?d div 64) * 64) = of_nat (64 * l)"
    unfolding len by (rule sext32_small)
  have "getWord ?b (?d div 64) = Ok (?d div 64)"
    using room k q(1) by (simp add: getWord_def word_le_nat_alt)
  then obtain b where b: "clearBits ?b ?d ?n = Ok b"
      "b = ?b\<lparr>bm_start := (\<lambda>i. if i - ?d div 64 < of_nat (64 * l) div 8 then 0 else bm_start ?b i)\<rparr>"
    using q(3,4) size by (simp add: clearBits_def getIndexes_def)
  have low: "\<not> i - ?d div 64 < of_nat (64 * l) div 8" if "unat i < k" for i :: u64
  proof -
    have "unat (of_nat (64 * l) div 8 :: u64) = 8 * l"
      using ul by (simp only: unat_div) simp
    moreover have "unat (i - ?d div 64) = 2 ^ 64 - (k - unat i)"
      using that q(1) unat_sub_if' [of i "?d div 64"] unat_u64_less [of i] by auto
    moreover have "8 * l + k < 2 ^ 64" using fit k l by linarith
    ultimately show ?thesis by (simp add: word_less_nat_alt)
  qed
  let ?s' = "s\<lparr>sh_bitmap := b\<rparr>"
  have "marked ?s' x = marked s x" if "x - sh_heapStart s < p - sh_heapStart s" for x
  proof -
    have "unat (x - sh_heapStart s) < 512 * k" using that k by (simp add: word_less_nat_alt)
    then have i: "unat (getIndex s x) div 64 < k" by (simp add: getIndex_def w unat_drop3)
    then have "unat (getIndex s x div 64) < k" by (simp add: unat_div)
    then show ?thesis using low [of "getIndex s x div 64"]
      by (simp add: marked_def getIndex_def [of ?s'] tst_unat b(2)) (simp add: getIndex_def tst_unat)
  qed
  moreover have "same_map s ?s'" using s by (simp add: same_map_def sh_ok_def b(2) bm_inv_def)
  ultimately show ?thesis using b by (auto simp: sm_cleanup_def intro!: exI [of _ ?s'])
qed

subsection \<open>Both source heaps meet the contract\<close>

definition xh_inv :: "xheap \<times> sheap \<Rightarrow> bool" where
  "xh_inv = (\<lambda>(x, s). unat (xh_position x) + unat (xh_remaining x) = unat (xh_end x) \<and>
     4096 dvd unat (xh_position x) \<and> 4096 dvd unat (xh_start x) \<and> xh_start x \<le> xh_position x \<and>
     unat (xh_end x) - unat (xh_start x) \<le> 2 ^ 33 \<and> sh_ok s \<and> sh_heapStart s = xh_start x \<and>
     (unat (xh_end x) - unat (xh_start x)) div 512 \<le> unat (bm_words (sh_bitmap s)))"

lemma page_up_dvd: "4096 dvd page_up sz"
  by (simp add: page_up_def)

lemma xheap_malloc_ok:
  assumes inv: "xh_inv (x, s)" and "fits_page sz" and room: "unat (xh_position x) + page_up sz \<le> unat (xh_end x)"
  shows "\<exists>x' s'. xheap_malloc sz (x, s) = Ok (xh_position x, x', s') \<and> xh_inv (x', s') \<and>
    unat (xh_position x') = unat (xh_position x) + page_up sz \<and> xh_end x' = xh_end x \<and> xh_start x' = xh_start x \<and>
    same_map s s' \<and> sh_mem s' = sh_mem s \<and> sh_trk s' = sh_trk s \<and> xh_map x' = xh_map x \<and>
    (\<forall>a. a - xh_start x < xh_position x - xh_start x \<longrightarrow> marked s' a = marked s a)"
proof -
  let ?n = "PageSize * ((sz + PageSize - 1) div PageSize)"
  let ?x = "x\<lparr>xh_remaining := xh_remaining x - ?n, xh_position := xh_position x + ?n\<rparr>"
  have n: "unat ?n = page_up sz" using page_round [OF assms(2)] .
  have i: "unat (xh_position x) + unat (xh_remaining x) = unat (xh_end x)" "4096 dvd unat (xh_position x)"
      "4096 dvd unat (xh_start x)" "unat (xh_start x) \<le> unat (xh_position x)" "sh_ok s" "sh_heapStart s = xh_start x"
      "unat (xh_end x) - unat (xh_start x) \<le> 2 ^ 33"
      "(unat (xh_end x) - unat (xh_start x)) div 512 \<le> unat (bm_words (sh_bitmap s))"
    using inv by (simp_all add: xh_inv_def word_le_nat_alt)
  have rem: "page_up sz \<le> unat (xh_remaining x)" using room i(1) by simp
  have sub: "unat (xh_position x - xh_start x) = unat (xh_position x) - unat (xh_start x)"
    using i(4) by (simp add: unat_sub word_le_nat_alt)
  have u: "unat (xh_position x + ?n) = unat (xh_position x) + page_up sz"
    using room unat_u64_less [of "xh_end x"] by (subst unat_word_ariths) (simp add: n)
  have r: "unat (xh_remaining x - ?n) = unat (xh_remaining x) - page_up sz"
    using rem n by (simp add: unat_sub word_le_nat_alt)
  have d: "512 dvd unat (xh_position x - xh_start x)" "512 dvd page_up sz"
    using i(2,3) page_up_dvd [of sz] unfolding sub by (auto intro: dvd_trans [of 512 4096] dvd_diff_nat)
  obtain s' where s': "sm_cleanup (xh_position x) ?n s = Ok s'" "same_map s s'" "sh_mem s' = sh_mem s" "sh_trk s' = sh_trk s"
      "bm_words (sh_bitmap s') = bm_words (sh_bitmap s)"
      "\<forall>a. a - sh_heapStart s < xh_position x - sh_heapStart s \<longrightarrow> marked s' a = marked s a"
  proof -
    have "unat (xh_position x - xh_start x) div 512 \<le> unat (bm_words (sh_bitmap s))"
      using i(8) room div_le_mono [of "unat (xh_position x) - unat (xh_start x)" "unat (xh_end x) - unat (xh_start x)" 512]
      unfolding sub by linarith
    moreover have "unat (xh_position x - xh_start x) + unat ?n < 2 ^ 64" "unat ?n \<le> 2 ^ 33"
      using room i(4,7) unat_u64_less [of "xh_end x"] unfolding sub n by linarith+
    ultimately show thesis
      using sm_cleanup_ok [OF i(5), of "xh_position x" ?n] d that unfolding i(6) n by blast
  qed
  have "xh_inv (?x, s')"
    using i u r rem s'(2,5) d(2) page_up_dvd [of sz] sub
    by (auto simp: xh_inv_def same_map_def word_le_nat_alt)
  moreover have "xheap_malloc sz (x, s) = Ok (xh_position x, ?x, s')"
    using s'(1) rem n by (simp add: xheap_malloc_def Let_def word_less_nat_alt)
  ultimately show ?thesis using s' u i(6) by (intro exI [of _ ?x] exI [of _ s']) simp
qed

lemma xheap_malloc_full:
  assumes "xh_inv (x, s)" and "fits_page sz" and "unat (xh_end x) < unat (xh_position x) + page_up sz"
  shows "xheap_malloc sz (x, s) = Err Exit"
  using assms page_round [OF assms(2)] by (simp add: xheap_malloc_def Let_def word_less_nat_alt xh_inv_def)

interpretation xb: bump_heap xh_inv xheap_malloc "\<lambda>s. unat (xh_position (fst s))" "\<lambda>s. unat (xh_end (fst s))"
proof (unfold_locales, goal_cases)
  case (1 s sz) then show ?case using xheap_malloc_ok [of "fst s" "snd s" sz] by fastforce
next
  case (2 s sz) then show ?case using xheap_malloc_full [of "fst s" "snd s" sz] by simp
next
  case (3 s) then show ?case by (simp add: xh_inv_def split: prod.splits)
next
  case (4 s) then show ?case using unat_u64_less [of "xh_end (fst s)"] by (simp add: xh_inv_def split: prod.splits)
qed

definition si_inv :: "SourceInternalHeap \<Rightarrow> bool" where
  "si_inv h \<longleftrightarrow> si_magic h = 0xCAFEBABE \<and> unat (si_position h) + unat (si_remaining h) = unat (si_end h) \<and>
     4096 dvd unat (si_position h)"

interpretation ib: bump_heap si_inv sih_malloc "\<lambda>h. unat (si_position h)" "\<lambda>h. unat (si_end h)"
proof (unfold_locales, goal_cases)
  case (1 h sz)
  let ?n = "PageSize * ((sz + PageSize - 1) div PageSize)"
  have n: "unat ?n = page_up sz" using page_round [OF 1(2)] .
  have le: "?n \<le> si_remaining h" using 1 n by (simp add: si_inv_def word_le_nat_alt)
  have u: "unat (si_position h + ?n) = unat (si_position h) + page_up sz"
    using 1(3) unat_u64_less [of "si_end h"] by (subst unat_word_ariths) (simp add: n)
  have r: "unat (si_remaining h - ?n) = unat (si_remaining h) - page_up sz" using le n by (simp add: unat_sub)
  show ?case
    using 1 le u r page_up_dvd [of sz] n
    by (auto simp: sih_malloc_def sih_sanityCheck_def si_inv_def Let_def not_less word_le_nat_alt)
next
  case (2 h sz)
  then show ?case
    using page_round [OF 2(2)] by (simp add: sih_malloc_def sih_sanityCheck_def si_inv_def Let_def word_less_nat_alt)
next
  case (3 h) then show ?case by (simp add: si_inv_def)
next
  case (4 h) then show ?case using unat_u64_less [of "si_end h"] by (simp add: si_inv_def)
qed

section \<open>Properties\<close>

primrec xheap_mallocs :: "u64 list \<Rightarrow> xheap \<times> sheap \<Rightarrow> (u64 list \<times> xheap \<times> sheap) res" where
  "xheap_mallocs [] s = Ok ([], s)"
| "xheap_mallocs (sz # szs) s =
     rbind (xheap_malloc sz s) (\<lambda>(p, s). rmap (\<lambda>(ps, s). (p # ps, s)) (xheap_mallocs szs s))"

lemma xb_allocs_eq: "xb.allocs szs s = xheap_mallocs szs s"
  by (induction szs arbitrary: s) simp_all


text \<open>The heap as \<open>initialize\<close> sets it up, for a kernel that honours \<open>MAP_FIXED\<close>.\<close>

definition fixed_mmap :: mmap_fun where
  "fixed_mmap a n prot flags fd off = (if a \<noteq> 0 then a else 0x700000000000)"

definition zero_xheap :: xheap where
  "zero_xheap = \<lparr>xh_map = blank_map, xh_start = 0, xh_end = 0, xh_position = 0, xh_remaining = 0,
     xh_positionBackup = 0, xh_remainingBackup = 0, xh_magic = 0\<rparr>"

lemma calcShiftBits_8: "calcShiftBits 8 = Ok 3" and calcShiftBits_64: "calcShiftBits 64 = Ok 6"
  by (simp_all add: calcShiftBits_def calc_shift_loop.simps)

lemma heap_initialised:
  assumes "\<forall>a n p f fd off. a \<noteq> 0 \<longrightarrow> mmap a n p f fd off = a" and "mmap 0 (USER_HEAP_SIZE + metasize) 3 0x4022 (- 1) 0 \<noteq> MAP_FAILED"
    and "metasize mod 4096 = 0" and "metasize < USER_HEAP_BASE"
  shows "\<exists>x'. xheap_initialize mmap USER_HEAP_SIZE metasize x = Ok (USER_HEAP_BASE - metasize, x') \<and>
    (\<exists>s'. sm_initialize (xh_start x') USER_HEAP_SIZE s = Ok s' \<and> xh_inv (x', s') \<and> sh_mem s' = sh_mem s)"
proof -
  have nz: "USER_HEAP_BASE - metasize \<noteq> 0" using assms(4) by auto
  have lt: "unat (USER_HEAP_BASE - metasize) \<le> unat USER_HEAP_BASE"
    using assms(4) by (simp add: unat_sub_if' word_less_nat_alt)
  then have nf: "USER_HEAP_BASE - metasize \<noteq> MAP_FAILED"
    using unat_uminus [of 1] by (auto simp: MAP_FAILED_def xdefs simp del: unsigned_minus_1_eq_mask)
  have m: "(USER_HEAP_SIZE + metasize) mod PageSize = 0"
  proof -
    have "unat metasize mod 4096 = 0" using arg_cong [OF assms(3), of unat] by (simp add: unat_mod)
    moreover have "unat metasize < 4294967296" using assms(4) by (simp add: xdefs word_less_nat_alt)
    moreover from this have "unat (USER_HEAP_SIZE + metasize) = 8589934592 + unat metasize"
      using unat_plus_if' [of USER_HEAP_SIZE metasize] by (simp add: USER_HEAP_SIZE_def)
    ultimately have "unat (USER_HEAP_SIZE + metasize) mod 4096 = 0"
      using mod_mult_self3 [of 2097152 4096 "unat metasize"] by simp
    then have "unat ((USER_HEAP_SIZE + metasize) mod PageSize) = 0" by (simp add: unat_mod PageSize_def)
    then show ?thesis by (simp only: unat_eq_zero)
  qed
  let ?mp = "(xh_map x)\<lparr>xm_backupMemory := mmap 0 (USER_HEAP_SIZE + metasize) 3 0x4022 (- 1) 0, xm_heapStart := USER_HEAP_BASE,
    xm_userMemory := USER_HEAP_BASE - metasize, xm_startsize := USER_HEAP_SIZE + metasize,
    xm_startaddr := USER_HEAP_BASE - metasize, xm_endaddr := USER_HEAP_BASE - metasize + (USER_HEAP_SIZE + metasize)\<rparr>"
  let ?x = "x\<lparr>xh_start := USER_HEAP_BASE, xh_end := USER_HEAP_BASE + USER_HEAP_SIZE, xh_position := USER_HEAP_BASE,
    xh_remaining := USER_HEAP_SIZE, xh_magic := 0xCAFEBABE, xh_map := ?mp\<rparr>"
  have "mmapAllocatePrivate mmap (USER_HEAP_SIZE + metasize) (USER_HEAP_BASE - metasize) (- 1) = Ok (USER_HEAP_BASE - metasize)"
    using assms(1) nz nf by (simp add: mmapAllocatePrivate_def mm_allocate_def)
  moreover have "mmapAllocatePrivate mmap (USER_HEAP_SIZE + metasize) 0 (- 1) = Ok (xm_backupMemory ?mp)"
    using assms(2) by (simp add: mmapAllocatePrivate_def mm_allocate_def)
  ultimately have 1: "xheap_initialize mmap USER_HEAP_SIZE metasize x = Ok (USER_HEAP_BASE - metasize, ?x)"
    using m by (simp add: xheap_initialize_def Let_def xm_initialize_def)
  let ?s = "s\<lparr>sh_wordShift := 3, sh_itemShift := 6, sh_elements := 1073741824, sh_totalBytes := getBytes 1073741824,
    sh_heapStart := USER_HEAP_BASE, sh_bitmap := bitmap_initialize (\<lambda>_. 0) 1073741824 134217728, sh_lastSentinelAddr := 0\<rparr>"
  have "sm_initialize USER_HEAP_BASE USER_HEAP_SIZE s = Ok ?s"
    by (simp add: sm_initialize_def calcShiftBits_8 calcShiftBits_64 xdefs drop_bit_eq_div)
  moreover have "xh_inv (?x, ?s)"
    by (simp add: xh_inv_def sh_ok_def bm_inv_def bitmap_initialize_def xdefs)
  ultimately show ?thesis using 1 by (intro exI [of _ ?x]) auto
qed


end
