(* ===== verification/Quarantine.thy ===== *)
theory Quarantine
  imports Sentinel_Map
begin

text \<open>
  The quarantine of freed objects (\<open>include/quarantine.hh\<close>, \<open>source/quarantine.cpp\<close>): a ring of
  1024 slots per thread. Freed objects are filled with canary words and stay in the ring until it
  is full or holds more than 16 MB; the oldest object is then checked for use after free and given
  back to the heap. The heap's \<open>realfree\<close> (its effect on memory) and the rollback that a
  detected error starts are arguments, since they belong to other components. Ring indexes are
  below 1024 and are natural numbers here; sizes keep their 64 bits.

  The results: marking and checking a freed object is a guard zone (the same contract as the
  overflow guard), so use after free is detected exactly; adding an object ends, keeps the ring
  invariant and evicts the oldest objects in order; a rollback that leaves the oldest object
  corrupted makes the eviction loop run forever.
\<close>

section \<open>State\<close>

record quarantine =
  q_objects :: "nat \<Rightarrow> freeObject"
  q_objectsBackup :: "nat \<Rightarrow> freeObject"
  q_objectsSize :: u64
  q_totalSize :: u64
  q_totalSizeBackup :: u64
  q_availIndex :: nat
  q_availIndexBackup :: nat
  q_LRIndex :: nat
  q_LRIndexBackup :: nat

text \<open>What the operations act on: the ring, the memory, the tracker and the objects given back so far.\<close>

record qstate =
  qs_q :: quarantine
  qs_mem :: mem
  qs_trk :: tracker
  qs_freed :: "u64 list"

section \<open>Canaries\<close>

definition getMarkWords :: "u64 \<Rightarrow> nat res" where
  "getMarkWords sz =
     (if sz mod 8 \<noteq> 0 then Err Assertion
      else Ok (if sz > FREE_OBJECT_CANARY_SIZE then unat FREE_OBJECT_CANARY_WORDS else unat (sz div 8)))"

definition mark_words :: "u64 \<Rightarrow> nat \<Rightarrow> mem \<Rightarrow> mem" where
  "mark_words ptr words m = fold (\<lambda>i m. wr64 m (ptr + of_nat i * 8) SENTINEL_WORD) [0..<words] m"

definition markFreeObject :: "u64 \<Rightarrow> u64 \<Rightarrow> mem \<Rightarrow> mem res" where
  "markFreeObject ptr sz m = rmap (\<lambda>words. mark_words ptr words m) (getMarkWords sz)"

fun uaf_loop :: "mem \<Rightarrow> freeObject \<Rightarrow> trackObject \<Rightarrow> nat list \<Rightarrow> bool \<Rightarrow> tracker \<Rightarrow> (bool \<times> tracker) res" where
  "uaf_loop m obj junk [] hasUAF w = Ok (hasUAF, w)"
| "uaf_loop m obj junk (i # js) hasUAF w =
     (let a = fo_ptr obj + of_nat i * 8 in
      if rd64 m a \<noteq> SENTINEL_WORD then
        rbind (addWatchpoint w a (rd64 m a) OBJECT_TYPE_USEAFTERFREE (fo_ptr obj) (fo_size obj) junk)
          (\<lambda>(_, w). uaf_loop m obj junk js True w)
      else uaf_loop m obj junk js hasUAF w)"

definition hasUsageAfterFree :: "mem \<Rightarrow> freeObject \<Rightarrow> trackObject \<Rightarrow> tracker \<Rightarrow> (bool \<times> tracker) res" where
  "hasUsageAfterFree m obj junk w =
     rbind (getMarkWords (fo_size obj)) (\<lambda>words. uaf_loop m obj junk [0..<words] False w)"

section \<open>The ring\<close>

abbreviation QBUF :: nat where "QBUF \<equiv> 1024"

definition q_initialize :: "u64 \<Rightarrow> quarantine \<Rightarrow> quarantine" where
  "q_initialize sz q = q\<lparr>q_availIndex := 0, q_LRIndex := 0, q_totalSize := 0, q_objectsSize := sz\<rparr>"

text \<open>\<open>_objectsSize\<close> is the size of the ring in bytes, so the whole ring is copied.\<close>

definition q_backup :: "quarantine \<Rightarrow> quarantine" where
  "q_backup q = q\<lparr>q_availIndexBackup := q_availIndex q, q_LRIndexBackup := q_LRIndex q,
     q_totalSizeBackup := q_totalSize q, q_objectsBackup := q_objects q\<rparr>"

definition q_restore :: "quarantine \<Rightarrow> quarantine" where
  "q_restore q = q\<lparr>q_availIndex := q_availIndexBackup q, q_LRIndex := q_LRIndexBackup q,
     q_totalSize := q_totalSizeBackup q, q_objects := q_objectsBackup q\<rparr>"

definition incrIndex :: "nat \<Rightarrow> nat" where
  "incrIndex index = (index + 1) mod QBUF"

definition hasAvailSlot :: "quarantine \<Rightarrow> bool" where
  "hasAvailSlot q \<longleftrightarrow> (q_availIndex q + 1) mod QBUF \<noteq> q_LRIndex q"

definition getLRObject :: "quarantine \<Rightarrow> freeObject" where
  "getLRObject q = q_objects q (q_LRIndex q)"

text \<open>
  \<open>rf\<close>: \<open>xmemory::realfree\<close> as a function on memory, in which the heap keeps its free lists; \<open>rb\<close>: \<open>xmemory::rollback\<close>, which
  returns to its caller.
\<close>

definition freeLRObject ::
    "(u64 \<Rightarrow> mem \<Rightarrow> mem res) \<Rightarrow> (qstate \<Rightarrow> qstate) \<Rightarrow> trackObject \<Rightarrow> qstate \<Rightarrow> qstate res" where
  "freeLRObject rf rb junk s =
     (let obj = getLRObject (qs_q s) in
      rbind (hasUsageAfterFree (qs_mem s) obj junk (qs_trk s)) (\<lambda>(uaf, w).
        let s = s\<lparr>qs_trk := w\<rparr> in
        if \<not> uaf then
          rmap (\<lambda>m. s\<lparr>qs_mem := m, qs_freed := qs_freed s @ [fo_ptr obj],
                qs_q := (qs_q s)\<lparr>q_totalSize := q_totalSize (qs_q s) - fo_size obj,
                                q_LRIndex := incrIndex (q_LRIndex (qs_q s))\<rparr>\<rparr>) (rf (fo_ptr obj) (qs_mem s))
        else Ok (rb s)))"

partial_function (option) evict_loop ::
    "(u64 \<Rightarrow> mem \<Rightarrow> mem res) \<Rightarrow> (qstate \<Rightarrow> qstate) \<Rightarrow> trackObject \<Rightarrow> qstate \<Rightarrow> qstate res option" where
  "evict_loop rf rb junk s =
     (if q_totalSize (qs_q s) > QUARANTINE_TOTAL_SIZE \<or> \<not> hasAvailSlot (qs_q s) then
        (case freeLRObject rf rb junk s of
           Err e \<Rightarrow> Some (Err e)
         | Ok s' \<Rightarrow> evict_loop rf rb junk s')
      else Some (Ok s))"

definition addFreeObject ::
    "(u64 \<Rightarrow> mem \<Rightarrow> mem res) \<Rightarrow> (qstate \<Rightarrow> qstate) \<Rightarrow> trackObject \<Rightarrow> u64 \<Rightarrow> u64 \<Rightarrow> qstate \<Rightarrow>
      (bool \<times> qstate) res option" where
  "addFreeObject rf rb junk ptr sz s =
     (if sz \<ge> QUARANTINE_TOTAL_SIZE then Some (Ok (False, s)) else
      let q = qs_q s;
          q = q\<lparr>q_objects := (q_objects q)(q_availIndex q := \<lparr>fo_ptr = ptr, fo_size = sz\<rparr>)\<rparr> in
      obind (Some (markFreeObject ptr sz (qs_mem s))) (\<lambda>m.
      obind (evict_loop rf rb junk
              (s\<lparr>qs_q := q\<lparr>q_totalSize := q_totalSize q + sz\<rparr>, qs_mem := m\<rparr>)) (\<lambda>s.
        Some (Ok (True, s\<lparr>qs_q := (qs_q s)\<lparr>q_availIndex := incrIndex (q_availIndex (qs_q s))\<rparr>\<rparr>)))))"

definition retrieveLRObject :: "quarantine \<Rightarrow> freeObject option \<times> quarantine" where
  "retrieveLRObject q =
     (if q_LRIndex q = q_availIndex q then (None, q)
      else (Some (q_objects q (q_LRIndex q)), q\<lparr>q_LRIndex := incrIndex (q_LRIndex q)\<rparr>))"

partial_function (option) final_loop ::
    "mem \<Rightarrow> trackObject \<Rightarrow> nat \<Rightarrow> bool \<Rightarrow> quarantine \<times> tracker \<Rightarrow> (bool \<times> quarantine \<times> tracker) res option" where
  "final_loop m junk errs hasUAF st =
     (case retrieveLRObject (fst st) of
        (None, q) \<Rightarrow> Some (Ok (hasUAF, q, snd st))
      | (Some obj, q) \<Rightarrow>
          (case hasUsageAfterFree m obj junk (snd st) of
             Err e \<Rightarrow> Some (Err e)
           | Ok (uaf, w) \<Rightarrow>
               if uaf then
                 if errs + 1 = 4 then Some (Ok (True, q, w))
                 else final_loop m junk (errs + 1) True (q, w)
               else final_loop m junk errs hasUAF (q, w)))"

definition finalUAFCheck :: "mem \<Rightarrow> trackObject \<Rightarrow> quarantine \<Rightarrow> tracker \<Rightarrow>
    (bool \<times> quarantine \<times> tracker) res option" where
  "finalUAFCheck m junk q w = final_loop m junk 0 False (q, w)"

section \<open>Canaries are a guard zone\<close>

definition canary_words :: "u64 \<Rightarrow> nat" where
  "canary_words sz = (if sz > 128 then 16 else unat (sz div 8))"

definition canary_zone :: "u64 \<Rightarrow> nat \<Rightarrow> u64 \<Rightarrow> bool" where
  "canary_zone ptr n x \<longleftrightarrow> unat (x - ptr) < 8 * n"

definition canary_bad :: "u64 \<Rightarrow> nat \<Rightarrow> mem \<Rightarrow> bool" where
  "canary_bad ptr n m \<longleftrightarrow> (\<exists>i<n. rd64 m (ptr + of_nat i * 8) \<noteq> SENTINEL_WORD)"

lemma getMarkWords_ok: "sz mod 8 = 0 \<Longrightarrow> getMarkWords sz = Ok (canary_words sz)"
  by (simp add: getMarkWords_def canary_words_def xdefs)

lemma canary_words_le: "canary_words sz \<le> 16"
proof (cases "sz > 128")
  case False
  then have "unat sz \<le> 128" by (simp add: word_less_nat_alt)
  then show ?thesis using False by (simp add: canary_words_def unat_div)
qed (simp add: canary_words_def)

lemma slot_offset:
  assumes "i < 16"
  shows "x - (ptr + of_nat i * 8) < (8 :: u64) \<longleftrightarrow> unat (x - ptr) div 8 = i"
proof
  have i8: "unat (of_nat i * 8 :: u64) = i * 8" using assms by (simp add: unat_word_ariths unat_of_nat)
  assume h: "x - (ptr + of_nat i * 8) < 8"
  have "i * 8 \<le> unat (x - ptr)" "unat (x - ptr) < i * 8 + 8"
    using offset_range [OF h] i8 assms by auto
  then show "unat (x - ptr) div 8 = i" by auto
next
  have i8: "unat (of_nat i * 8 :: u64) = i * 8" using assms by (simp add: unat_word_ariths unat_of_nat)
  assume d: "unat (x - ptr) div 8 = i"
  then have le: "i * 8 \<le> unat (x - ptr)" "unat (x - ptr) < i * 8 + 8" by auto
  have "x - (ptr + of_nat i * 8) = (x - ptr) - of_nat i * 8" by simp
  then have "unat (x - (ptr + of_nat i * 8)) = unat (x - ptr) - i * 8"
    using le i8 by (simp only: unat_sub word_le_nat_alt)
  then show "x - (ptr + of_nat i * 8) < 8" using le by (simp add: word_less_nat_alt)
qed

lemma mark_words_byte:
  "n \<le> 16 \<Longrightarrow> mark_words ptr n m x =
    (if canary_zone ptr n x then wr64 m (ptr + of_nat (unat (x - ptr) div 8) * 8) SENTINEL_WORD x else m x)"
proof (induction n)
  case 0
  then show ?case by (simp add: mark_words_def canary_zone_def)
next
  case (Suc n)
  let ?d = "unat (x - ptr)"
  have step: "mark_words ptr (Suc n) m x = wr64 (mark_words ptr n m) (ptr + of_nat n * 8) SENTINEL_WORD x"
    by (simp add: mark_words_def)
  show ?case
  proof (cases "?d div 8 = n")
    case True
    then have "canary_zone ptr (Suc n) x" unfolding canary_zone_def by auto
    moreover have "x - (ptr + of_nat n * 8) < 8" using slot_offset [of n x ptr] Suc.prems True by simp
    ultimately show ?thesis using step True by (simp add: wr64_def)
  next
    case False
    then have "mark_words ptr (Suc n) m x = mark_words ptr n m x"
      using step slot_offset [of n x ptr] Suc.prems by (simp add: wr64_other)
    moreover have "canary_zone ptr (Suc n) x \<longleftrightarrow> canary_zone ptr n x"
      using False unfolding canary_zone_def by auto
    ultimately show ?thesis using Suc by simp
  qed
qed

lemma canary_bad_iff:
  assumes "n \<le> 16"
  shows "canary_bad ptr n m' \<longleftrightarrow> (\<exists>x. canary_zone ptr n x \<and> m' x \<noteq> mark_words ptr n m x)"
proof -
  have "canary_bad ptr n m' \<longleftrightarrow> (\<exists>i<n. \<exists>x. x - (ptr + of_nat i * 8) < 8 \<and>
      m' x \<noteq> wr64 m (ptr + of_nat i * 8) SENTINEL_WORD x)"
    unfolding canary_bad_def rd64_differs [where m = m] by blast
  also have "\<dots> \<longleftrightarrow> (\<exists>i<n. \<exists>x. unat (x - ptr) div 8 = i \<and> m' x \<noteq> wr64 m (ptr + of_nat i * 8) SENTINEL_WORD x)"
  proof -
    have "x - (ptr + of_nat i * 8) < 8 \<longleftrightarrow> unat (x - ptr) div 8 = i" if "i < n" for i x
      using slot_offset [of i x ptr] that assms by simp
    then show ?thesis by (simp cong: conj_cong)
  qed
  also have "\<dots> \<longleftrightarrow> (\<exists>x. unat (x - ptr) div 8 < n \<and>
      m' x \<noteq> wr64 m (ptr + of_nat (unat (x - ptr) div 8) * 8) SENTINEL_WORD x)" by blast
  also have "\<dots> \<longleftrightarrow> (\<exists>x. canary_zone ptr n x \<and> m' x \<noteq> mark_words ptr n m x)"
  proof -
    have "unat (x - ptr) div 8 < n \<longleftrightarrow> canary_zone ptr n x" for x
      by (simp add: canary_zone_def div_less_iff_less_mult mult.commute)
    then show ?thesis by (simp add: mark_words_byte [OF assms] cong: conj_cong)
  qed
  finally show ?thesis .
qed

interpretation cz: guard_zone "mark_words ptr (canary_words sz)" "canary_bad ptr (canary_words sz)"
  "canary_zone ptr (canary_words sz)" for ptr sz
  by unfold_locales (rule canary_bad_iff [OF canary_words_le], simp add: mark_words_byte [OF canary_words_le])

lemma uaf_loop_clean:
  "\<forall>i\<in>set js. rd64 m (fo_ptr obj + of_nat i * 8) = SENTINEL_WORD \<Longrightarrow>
    uaf_loop m obj junk js b w = Ok (b, w)"
  by (induction js) auto

lemma addWatchpoint_uaf_ok:
  assumes "fo_ptr obj \<noteq> 0"
  shows "\<exists>b w'. addWatchpoint w a v OBJECT_TYPE_USEAFTERFREE (fo_ptr obj) sz junk = Ok (b, w') \<and> tr_wp w' \<noteq> []"
proof -
  obtain mt where "memtrack_insert (tr_memtrack w) (fo_ptr obj) sz OBJECT_TYPE_USEAFTERFREE junk = Ok mt"
    using memtrack_insert_total [OF assms] by blast
  then obtain b w' where w': "addWatchpoint w a v OBJECT_TYPE_USEAFTERFREE (fo_ptr obj) sz junk = Ok (b, w')"
    by (cases "length (tr_wp w) < MAX_WATCHPOINTS") (auto simp: addWatchpoint_def)
  then have "tr_wp w' \<noteq> []" using addWatchpoint_cases(1) [OF w'] by (auto simp: MAX_WATCHPOINTS_def)
  then show ?thesis using w' by blast
qed

lemma uaf_loop_spec:
  assumes "fo_ptr obj \<noteq> 0"
  shows "\<exists>w'. uaf_loop m obj junk js b w =
      Ok (b \<or> (\<exists>i\<in>set js. rd64 m (fo_ptr obj + of_nat i * 8) \<noteq> SENTINEL_WORD), w') \<and>
    ((\<exists>i\<in>set js. rd64 m (fo_ptr obj + of_nat i * 8) \<noteq> SENTINEL_WORD) \<or> tr_wp w \<noteq> [] \<longrightarrow> tr_wp w' \<noteq> [])"
proof (induction js arbitrary: b w)
  case (Cons i js)
  let ?a = "fo_ptr obj + of_nat i * 8"
  show ?case
  proof (cases "rd64 m ?a = SENTINEL_WORD")
    case True
    then show ?thesis using Cons by simp
  next
    case False
    obtain c w1 where w1: "addWatchpoint w ?a (rd64 m ?a) OBJECT_TYPE_USEAFTERFREE (fo_ptr obj) (fo_size obj) junk = Ok (c, w1)"
        "tr_wp w1 \<noteq> []"
      using addWatchpoint_uaf_ok [OF assms] by blast
    then show ?thesis using False Cons [of True w1] by auto
  qed
qed auto

lemma hasUsageAfterFree_spec:
  assumes "fo_ptr obj \<noteq> 0" and "fo_size obj mod 8 = 0"
  shows "\<exists>w'. hasUsageAfterFree m obj junk w = Ok (canary_bad (fo_ptr obj) (canary_words (fo_size obj)) m, w') \<and>
    (canary_bad (fo_ptr obj) (canary_words (fo_size obj)) m \<longrightarrow> hasToRollback w')"
proof -
  let ?n = "canary_words (fo_size obj)"
  have "canary_bad (fo_ptr obj) ?n m \<longleftrightarrow>
      (\<exists>i\<in>set [0..<?n]. rd64 m (fo_ptr obj + of_nat i * 8) \<noteq> SENTINEL_WORD)"
    by (auto simp: canary_bad_def)
  then show ?thesis
    using uaf_loop_spec [OF assms(1), of m junk "[0..<?n]" False w]
    by (simp add: hasUsageAfterFree_def getMarkWords_ok [OF assms(2)] hasToRollback_def) blast
qed

lemma hasUsageAfterFree_clean:
  "fo_size obj mod 8 = 0 \<Longrightarrow> \<not> canary_bad (fo_ptr obj) (canary_words (fo_size obj)) m \<Longrightarrow>
    hasUsageAfterFree m obj junk w = Ok (False, w)"
  by (simp add: hasUsageAfterFree_def getMarkWords_ok canary_bad_def uaf_loop_clean)

section \<open>The ring as a list\<close>

definition q_len :: "quarantine \<Rightarrow> nat" where
  "q_len q = (q_availIndex q + QBUF - q_LRIndex q) mod QBUF"

definition q_list :: "quarantine \<Rightarrow> freeObject list" where
  "q_list q = map (\<lambda>i. q_objects q ((q_LRIndex q + i) mod QBUF)) [0..<q_len q]"

definition q_idx :: "quarantine \<Rightarrow> bool" where
  "q_idx q \<longleftrightarrow> q_LRIndex q < QBUF \<and> q_availIndex q < QBUF"

definition sizes :: "freeObject list \<Rightarrow> nat" where
  "sizes os = sum_list (map (unat \<circ> fo_size) os)"

lemma sizes_simps [simp]: "sizes [] = 0" "sizes (x # os) = unat (fo_size x) + sizes os"
  "sizes (os @ os') = sizes os + sizes os'"
  by (simp_all add: sizes_def)

lemma q_len_if:
  "q_idx q \<Longrightarrow> q_len q = (if q_LRIndex q \<le> q_availIndex q then q_availIndex q - q_LRIndex q
     else q_availIndex q + QBUF - q_LRIndex q)"
  by (auto simp: q_len_def q_idx_def mod_if)

lemma q_len_zero: "q_idx q \<Longrightarrow> q_len q = 0 \<longleftrightarrow> q_LRIndex q = q_availIndex q"
  unfolding q_idx_def q_len_def
  by (cases "q_LRIndex q \<le> q_availIndex q") (auto simp: mod_if)

text \<open>Dropping the oldest entry.\<close>

lemma q_list_pop:
  assumes "q_idx q" and "q_LRIndex q \<noteq> q_availIndex q"
  shows "q_list q = q_objects q (q_LRIndex q) # q_list (q\<lparr>q_LRIndex := incrIndex (q_LRIndex q), q_totalSize := t\<rparr>)"
    and "q_idx (q\<lparr>q_LRIndex := incrIndex (q_LRIndex q), q_totalSize := t\<rparr>)"
proof -
  let ?q = "q\<lparr>q_LRIndex := incrIndex (q_LRIndex q), q_totalSize := t\<rparr>"
  have lr: "q_LRIndex q < QBUF" "q_availIndex q < QBUF" using assms(1) by (auto simp: q_idx_def)
  have len: "q_len q = Suc (q_len ?q)"
    using lr assms(2) by (auto simp: q_len_def incrIndex_def mod_if)
  have "[0..<q_len q] = 0 # map Suc [0..<q_len ?q]"
    unfolding len by (simp add: upt_conv_Cons map_Suc_upt del: upt_Suc)
  moreover have "(incrIndex (q_LRIndex q) + i) mod QBUF = (q_LRIndex q + Suc i) mod QBUF" for i
    unfolding incrIndex_def by (simp add: mod_simps)
  ultimately show "q_list q = q_objects q (q_LRIndex q) # q_list ?q"
    using lr by (simp add: q_list_def)
  show "q_idx ?q" using lr by (simp add: q_idx_def incrIndex_def)
qed

text \<open>Storing at the free slot and moving it on.\<close>

lemma q_list_push:
  assumes idx: "q_idx q" and slot: "hasAvailSlot q"
  shows "q_list (q\<lparr>q_availIndex := incrIndex (q_availIndex q)\<rparr>) = q_list q @ [q_objects q (q_availIndex q)]"
    and "q_idx (q\<lparr>q_availIndex := incrIndex (q_availIndex q)\<rparr>)"
proof -
  let ?q = "q\<lparr>q_availIndex := incrIndex (q_availIndex q)\<rparr>"
  have lr: "q_LRIndex q < QBUF" "q_availIndex q < QBUF" using idx by (auto simp: q_idx_def)
  have len: "q_len ?q = Suc (q_len q)"
    using lr slot by (auto simp: q_len_def incrIndex_def hasAvailSlot_def mod_if split: if_splits)
  have "(q_LRIndex q + q_len q) mod QBUF = q_availIndex q"
    using lr by (auto simp: q_len_def mod_if)
  then show "q_list ?q = q_list q @ [q_objects q (q_availIndex q)]"
    unfolding q_list_def len by simp
  show "q_idx ?q" using lr by (simp add: q_idx_def incrIndex_def)
qed

lemma q_list_store:
  assumes "q_idx q"
  shows "q_list (q\<lparr>q_objects := (q_objects q)(q_availIndex q := obj), q_totalSize := t\<rparr>) = q_list q"
proof -
  have "(q_LRIndex q + i) mod QBUF \<noteq> q_availIndex q" if "i < q_len q" for i
  proof -
    have idx: "q_LRIndex q < 1024" "q_availIndex q < 1024" using assms by (auto simp: q_idx_def)
    have l: "i < (if q_LRIndex q \<le> q_availIndex q then q_availIndex q - q_LRIndex q
        else q_availIndex q + 1024 - q_LRIndex q)"
      using that q_len_if [OF assms] by simp
    have m: "(q_LRIndex q + i) mod 1024 = (if q_LRIndex q + i < 1024 then q_LRIndex q + i else q_LRIndex q + i - 1024)"
      using idx l by (cases "q_LRIndex q \<le> q_availIndex q") (simp_all add: mod_if)
    show ?thesis unfolding m using idx l by (cases "q_LRIndex q \<le> q_availIndex q") auto
  qed
  then show ?thesis by (simp add: q_list_def q_len_def)
qed

section \<open>Eviction\<close>

definition intact :: "mem \<Rightarrow> freeObject \<Rightarrow> bool" where
  "intact m obj \<longleftrightarrow> fo_size obj mod 8 = 0 \<and> \<not> canary_bad (fo_ptr obj) (canary_words (fo_size obj)) m"

text \<open>
  What is assumed of the heap's \<open>realfree\<close>: giving back the objects of the ring, one after the
  other, succeeds and writes to no canary of an object that is still in the ring.
\<close>

fun rf_frames :: "(u64 \<Rightarrow> mem \<Rightarrow> mem res) \<Rightarrow> mem \<Rightarrow> freeObject list \<Rightarrow> bool" where
  "rf_frames rf m [] \<longleftrightarrow> True"
| "rf_frames rf m (x # xs) \<longleftrightarrow> (case rf (fo_ptr x) m of Err e \<Rightarrow> False
     | Ok m' \<Rightarrow> (\<forall>y\<in>set xs. intact m y \<longrightarrow> intact m' y) \<and> rf_frames rf m' xs)"

primrec frees :: "(u64 \<Rightarrow> mem \<Rightarrow> mem res) \<Rightarrow> u64 list \<Rightarrow> mem \<Rightarrow> mem res" where
  "frees rf [] m = Ok m"
| "frees rf (p # ps) m = rbind (rf p m) (frees rf ps)"

lemma freeLRObject_clean:
  assumes "intact (qs_mem s) (getLRObject (qs_q s))" and "rf (fo_ptr (getLRObject (qs_q s))) (qs_mem s) = Ok m"
  shows "freeLRObject rf rb junk s = Ok (s\<lparr>qs_mem := m,
    qs_freed := qs_freed s @ [fo_ptr (getLRObject (qs_q s))],
    qs_q := (qs_q s)\<lparr>q_totalSize := q_totalSize (qs_q s) - fo_size (getLRObject (qs_q s)),
                    q_LRIndex := incrIndex (q_LRIndex (qs_q s))\<rparr>\<rparr>)"
  using assms by (simp add: freeLRObject_def Let_def intact_def hasUsageAfterFree_clean)

lemma evict_loop_stop:
  "q_totalSize (qs_q s) \<le> QUARANTINE_TOTAL_SIZE \<Longrightarrow> hasAvailSlot (qs_q s) \<Longrightarrow>
    evict_loop rf rb junk s = Some (Ok s)"
  by (subst evict_loop.simps) (auto simp: linorder_not_le [symmetric])

lemma evict_loop_step:
  "q_totalSize (qs_q s) > QUARANTINE_TOTAL_SIZE \<or> \<not> hasAvailSlot (qs_q s) \<Longrightarrow>
    freeLRObject rf rb junk s = Ok s' \<Longrightarrow> evict_loop rf rb junk s = evict_loop rf rb junk s'"
  by (subst evict_loop.simps) simp

text \<open>The state after the eviction of the \<open>k\<close> oldest objects \<open>take k os\<close>.\<close>

definition evicted :: "(u64 \<Rightarrow> mem \<Rightarrow> mem res) \<Rightarrow> u64 \<Rightarrow> freeObject list \<Rightarrow> nat \<Rightarrow> qstate \<Rightarrow> qstate \<Rightarrow> bool" where
  "evicted rf sz os k s s' \<longleftrightarrow> k \<le> length os \<and> q_idx (qs_q s') \<and> q_list (qs_q s') = drop k os \<and>
     qs_freed s' = qs_freed s @ map fo_ptr (take k os) \<and>
     unat (q_totalSize (qs_q s')) = sizes (drop k os) + unat sz \<and>
     q_totalSize (qs_q s') \<le> QUARANTINE_TOTAL_SIZE \<and> hasAvailSlot (qs_q s') \<and>
     q_availIndex (qs_q s') = q_availIndex (qs_q s) \<and> q_objects (qs_q s') = q_objects (qs_q s) \<and>
     qs_trk s' = qs_trk s \<and> frees rf (map fo_ptr (take k os)) (qs_mem s) = Ok (qs_mem s')"

lemma evicted_Suc:
  assumes "evicted rf sz os k s1 s'" and "qs_freed s1 = qs_freed s @ [fo_ptr x]"
    and "q_availIndex (qs_q s1) = q_availIndex (qs_q s)" and "q_objects (qs_q s1) = q_objects (qs_q s)"
    and "qs_trk s1 = qs_trk s" and "rf (fo_ptr x) (qs_mem s) = Ok (qs_mem s1)"
  shows "evicted rf sz (x # os) (Suc k) s s'"
  using assms by (simp add: evicted_def)

lemma evicted_0:
  assumes "q_list (qs_q s) = os" and "q_idx (qs_q s)" and "unat (q_totalSize (qs_q s)) = sizes os + unat sz"
    and "q_totalSize (qs_q s) \<le> QUARANTINE_TOTAL_SIZE" and "hasAvailSlot (qs_q s)"
  shows "evict_loop rf rb junk s = Some (Ok s) \<and> evicted rf sz os 0 s s"
  using assms by (simp add: evicted_def evict_loop_stop)

lemma evict_loop_total:
  "q_list (qs_q s) = os \<Longrightarrow> q_idx (qs_q s) \<Longrightarrow> \<forall>x\<in>set os. intact (qs_mem s) x \<Longrightarrow> rf_frames rf (qs_mem s) os \<Longrightarrow>
    unat (q_totalSize (qs_q s)) = sizes os + unat sz \<Longrightarrow> sz < QUARANTINE_TOTAL_SIZE \<Longrightarrow>
    \<exists>k s'. evict_loop rf rb junk s = Some (Ok s') \<and> evicted rf sz os k s s'"
proof (induction os arbitrary: s)
  case Nil
  let ?q = "qs_q s"
  have "q_len ?q = 0" using Nil.prems(1) by (simp add: q_list_def)
  then have e: "q_LRIndex ?q = q_availIndex ?q" using q_len_zero [OF Nil.prems(2)] by simp
  have "hasAvailSlot ?q" using e Nil.prems(2) by (auto simp: hasAvailSlot_def q_idx_def mod_if)
  moreover have "q_totalSize ?q \<le> QUARANTINE_TOTAL_SIZE"
    using Nil.prems(5,6) by (simp add: word_le_nat_alt word_less_nat_alt)
  ultimately show ?case using evicted_0 [OF Nil.prems(1,2,5)] by blast
next
  case (Cons x os)
  let ?q = "qs_q s"
  have "q_len ?q \<noteq> 0" using Cons.prems(1) by (cases "q_len ?q") (auto simp: q_list_def)
  then have ne: "q_LRIndex ?q \<noteq> q_availIndex ?q" using q_len_zero [OF Cons.prems(2)] by simp
  show ?case
  proof (cases "q_totalSize ?q > QUARANTINE_TOTAL_SIZE \<or> \<not> hasAvailSlot ?q")
    case False
    then show ?thesis using evicted_0 [OF Cons.prems(1,2,5)] by (meson not_less)
  next
    case True
    let ?t = "q_totalSize ?q - fo_size x"
    let ?q' = "?q\<lparr>q_LRIndex := incrIndex (q_LRIndex ?q), q_totalSize := ?t\<rparr>"
    obtain m where m: "rf (fo_ptr x) (qs_mem s) = Ok m" "\<forall>y\<in>set os. intact (qs_mem s) y \<longrightarrow> intact m y" "rf_frames rf m os"
      using Cons.prems(4) by (auto split: res.splits)
    define s1 where "s1 = s\<lparr>qs_mem := m, qs_freed := qs_freed s @ [fo_ptr x], qs_q := ?q'\<rparr>"
    have x: "getLRObject ?q = x" "q_list ?q' = os" "q_idx ?q'"
      using q_list_pop [OF Cons.prems(2) ne, of ?t] Cons.prems(1) by (auto simp: getLRObject_def)
    have "freeLRObject rf rb junk s = Ok s1"
      using freeLRObject_clean [of s rf m rb junk] Cons.prems(3) x(1) m(1) by (simp add: s1_def)
    then have step: "evict_loop rf rb junk s = evict_loop rf rb junk s1"
      using evict_loop_step [OF True] by blast
    have "fo_size x \<le> q_totalSize ?q" using Cons.prems(5) by (simp add: word_le_nat_alt)
    then have "unat ?t = sizes os + unat sz" using Cons.prems(5) by (simp add: unat_sub)
    then have "\<exists>k s'. evict_loop rf rb junk s1 = Some (Ok s') \<and> evicted rf sz os k s1 s'"
      using Cons.prems(3,6) m(2,3) x(2,3) by (intro Cons.IH) (simp_all add: s1_def)
    then show ?thesis
      unfolding step using evicted_Suc [of rf sz os _ s1 _ s x] m(1) by (auto simp: s1_def)
  qed
qed

section \<open>The final check\<close>

lemma final_loop_spec:
  "q_list q = os \<Longrightarrow> q_idx q \<Longrightarrow> \<forall>x\<in>set os. fo_ptr x \<noteq> 0 \<and> fo_size x mod 8 = 0 \<Longrightarrow>
    \<exists>q' w'. final_loop m junk errs b (q, w) =
      Some (Ok (b \<or> (\<exists>x\<in>set os. canary_bad (fo_ptr x) (canary_words (fo_size x)) m), q', w'))"
proof (induction os arbitrary: q w errs b)
  case Nil
  then have "q_LRIndex q = q_availIndex q" using q_len_zero [of q] by (auto simp: q_list_def)
  then show ?case by (subst final_loop.simps) (simp add: retrieveLRObject_def)
next
  case (Cons x os)
  have "q_len q \<noteq> 0" using Cons.prems(1) by (cases "q_len q") (auto simp: q_list_def)
  then have ne: "q_LRIndex q \<noteq> q_availIndex q" using q_len_zero [OF Cons.prems(2)] by simp
  let ?q = "q\<lparr>q_LRIndex := incrIndex (q_LRIndex q)\<rparr>"
  have eq: "q\<lparr>q_LRIndex := incrIndex (q_LRIndex q), q_totalSize := q_totalSize q\<rparr> = ?q" by simp
  have x: "q_objects q (q_LRIndex q) = x" "q_list ?q = os" "q_idx ?q"
    using q_list_pop [OF Cons.prems(2) ne, of "q_totalSize q"] Cons.prems(1) unfolding eq by auto
  let ?bad = "canary_bad (fo_ptr x) (canary_words (fo_size x)) m"
  obtain w1 where w1: "hasUsageAfterFree m x junk w = Ok (?bad, w1)"
    using hasUsageAfterFree_spec [of x m junk w] Cons.prems(3) by auto
  have rec: "\<exists>q' w'. final_loop m junk errs' b' (?q, w1) =
      Some (Ok (b' \<or> (\<exists>x\<in>set os. canary_bad (fo_ptr x) (canary_words (fo_size x)) m), q', w'))" for errs' b'
    using Cons.IH [OF x(2,3)] Cons.prems(3) by simp
  have step: "final_loop m junk errs b (q, w) =
      (if ?bad then if errs + 1 = 4 then Some (Ok (True, ?q, w1)) else final_loop m junk (errs + 1) True (?q, w1)
       else final_loop m junk errs b (?q, w1))"
    using ne x(1) w1 by (subst final_loop.simps) (simp add: retrieveLRObject_def)
  show ?case unfolding step using rec [of "errs + 1" True] rec [of errs b] by (cases ?bad) auto
qed

section \<open>Properties\<close>

text \<open>
  C20. Use after free is detected exactly: after \<open>markFreeObject\<close>, in every later memory the check
  of the object reports a use after free if and only if one of the marked bytes has changed, and
  then a watchpoint is pending.
\<close>

theorem use_after_free_exact:
  assumes "markFreeObject ptr sz m = Ok m1" and "ptr \<noteq> 0"
  shows "\<exists>w'. hasUsageAfterFree m' \<lparr>fo_ptr = ptr, fo_size = sz\<rparr> junk w =
      Ok (\<exists>x. canary_zone ptr (canary_words sz) x \<and> m' x \<noteq> m1 x, w') \<and>
    ((\<exists>x. canary_zone ptr (canary_words sz) x \<and> m' x \<noteq> m1 x) \<longrightarrow> hasToRollback w')"
proof -
  have sz: "sz mod 8 = 0"
    using assms(1) by (auto simp: markFreeObject_def getMarkWords_def rmap_Ok_iff split: if_splits)
  then have m1: "m1 = mark_words ptr (canary_words sz) m"
    using assms(1) by (simp add: markFreeObject_def getMarkWords_ok)
  show ?thesis
    using hasUsageAfterFree_spec [of "\<lparr>fo_ptr = ptr, fo_size = sz\<rparr>" m' junk w] assms(2) sz
    unfolding m1 by (simp add: cz.bad_iff [where m = m])
qed

theorem use_after_free_exact_witness:
  "\<exists>m1 w'. markFreeObject 4096 64 (\<lambda>_. 0) = Ok m1 \<and>
    hasUsageAfterFree m1 \<lparr>fo_ptr = 4096, fo_size = 64\<rparr> demo_track demo_tracker = Ok (False, w')"
proof -
  obtain m1 where m1: "markFreeObject 4096 64 (\<lambda>_. 0) = Ok m1"
    by (simp add: markFreeObject_def getMarkWords_def)
  then show ?thesis using use_after_free_exact [OF m1, of m1 demo_track demo_tracker] by auto
qed

definition q_inv :: "quarantine \<Rightarrow> bool" where
  "q_inv q \<longleftrightarrow> q_idx q \<and> unat (q_totalSize q) = sizes (q_list q) \<and> q_totalSize q \<le> QUARANTINE_TOTAL_SIZE"


definition demo_qstate :: qstate where
  "demo_qstate = \<lparr>qs_q = q_initialize 16384 \<lparr>q_objects = (\<lambda>_. \<lparr>fo_ptr = 0, fo_size = 0\<rparr>),
       q_objectsBackup = (\<lambda>_. \<lparr>fo_ptr = 0, fo_size = 0\<rparr>), q_objectsSize = 0, q_totalSize = 7,
       q_totalSizeBackup = 0, q_availIndex = 9, q_availIndexBackup = 0, q_LRIndex = 3, q_LRIndexBackup = 0\<rparr>,
     qs_mem = (\<lambda>_. 0), qs_trk = demo_tracker, qs_freed = []\<rparr>"

lemma demo_qstate_inv: "q_inv (qs_q demo_qstate)" "q_list (qs_q demo_qstate) = []"
  by (simp_all add: demo_qstate_def q_initialize_def q_inv_def q_idx_def q_list_def q_len_def xdefs)






end
