(* ===== verification/Xpheap.thy ===== *)
theory Xpheap
  imports Heap_Layers Xheap Quarantine
begin

text \<open>
  The application heap (\<open>include/xpheap.hh\<close>) and the heap of the runtime itself
  (\<open>include/internalheap.hh\<close>): one Kingsley heap per thread on top of a source heap, with an object
  header in front of every object and, in the application heap, sentinels around it. The layers
  are those of \<open>Heap_Layers\<close>, the source heaps those of \<open>Xheap\<close>. \<open>xoneheap\<close>
  (\<open>include/xoneheap.hh\<close>) only forwards to its one instance and has no definition of its own.
  A freed object of the application goes to the quarantine of the thread.
\<close>

section \<open>The two source heaps as template parameters\<close>

definition app_src :: "(xheap \<times> sheap) source_heap" where
  "app_src = \<lparr>src_mem = (\<lambda>(x, s). sh_mem s), src_put = (\<lambda>m (x, s). (x, s\<lparr>sh_mem := m\<rparr>)),
     src_malloc = xheap_malloc, src_chunk = 4194304\<rparr>"

definition int_src :: "(SourceInternalHeap \<times> mem) source_heap" where
  "int_src = \<lparr>src_mem = snd, src_put = (\<lambda>m (h, _). (h, m)),
     src_malloc = (\<lambda>sz (h, m). rmap (\<lambda>(p, h). (p, h, m)) (sih_malloc sz h)), src_chunk = 1048576\<rparr>"

section \<open>Object headers and sentinels\<close>

definition aah_malloc :: "klayout \<Rightarrow> u64 \<Rightarrow> xheap \<times> sheap \<Rightarrow> (u64 \<times> xheap \<times> sheap) res" where
  "aah_malloc lay sz st =
     rbind (zone_malloc app_src lay (sz + 16 + 2 * SENTINEL_SIZE) st) (\<lambda>(ptr, x, s).
       if ptr = 0 then Ok (0, x, s)
       else let s = s\<lparr>sh_mem := objectHeader_new (sh_mem s) ptr sz\<rparr>; newptr = aah_getPointer ptr in
         rbind (setupSentinels newptr sz s) (\<lambda>s.
         rbind (aah_getSize newptr (sh_mem s)) (\<lambda>n.
           if n = sz then Ok (newptr, x, s) else Err Assertion)))"

definition iah_malloc :: "klayout \<Rightarrow> u64 \<Rightarrow> SourceInternalHeap \<times> mem \<Rightarrow> (u64 \<times> SourceInternalHeap \<times> mem) res" where
  "iah_malloc lay sz st =
     rmap (\<lambda>(ptr, h, m). if ptr = 0 then (0, h, m) else (aah_getPointer ptr, h, objectHeader_new m ptr sz))
       (zone_malloc int_src lay (sz + 16 + 2 * SENTINEL_SIZE) st)"

definition iah_getSize :: "u64 \<Rightarrow> mem \<Rightarrow> u64 res" where
  "iah_getSize ptr m = (let sz = oh_getSize m (aah_getObject ptr) in if sz \<noteq> 0 then Ok sz else Err Exit)"

section \<open>One heap per thread\<close>

abbreviation NUM_HEAPS :: int where "NUM_HEAPS \<equiv> 128"

definition pth_malloc :: "(nat \<Rightarrow> klayout) \<Rightarrow> int \<Rightarrow> u64 \<Rightarrow> xheap \<times> sheap \<Rightarrow> (u64 \<times> xheap \<times> sheap) res" where
  "pth_malloc lay ind sz st = ansi_malloc app_src (lay (nat ind)) aah_getSize (aah_malloc (lay (nat ind))) sz st"

definition pth_free :: "(nat \<Rightarrow> klayout) \<Rightarrow> int \<Rightarrow> u64 \<Rightarrow> mem \<Rightarrow> mem res" where
  "pth_free lay ind ptr m = (if ind < NUM_HEAPS then ansi_free aah_getSize (lay (nat ind)) ptr m else Err Exit)"

definition pth_getSize :: "u64 \<Rightarrow> mem \<Rightarrow> u64 res" where
  "pth_getSize ptr m = ansi_getSize aah_getSize ptr m"

definition pth_new :: "(nat \<Rightarrow> klayout) \<Rightarrow> mem \<Rightarrow> mem" where
  "pth_new lay m = fold (\<lambda>i m. kheap_new (lay i) m) [0..<nat NUM_HEAPS] m"

section \<open>The application heap\<close>

record xpheap =
  xp_x :: xheap
  xp_s :: sheap
  xp_lay :: "nat \<Rightarrow> klayout"
  xp_heapStart :: u64
  xp_heapEnd :: u64

text \<open>
  \<open>superSize\<close> is \<open>sizeof(SuperHeap)\<close> and \<open>lay\<close> the compiler's layout of the heaps placed at \<open>base\<close>.
\<close>

definition xp_initialize ::
    "mmap_fun \<Rightarrow> u64 \<Rightarrow> (u64 \<Rightarrow> nat \<Rightarrow> klayout) \<Rightarrow> u64 \<Rightarrow> xpheap \<Rightarrow> (u64 \<times> xpheap) res" where
  "xp_initialize mmap superSize lay heapsize p =
     (let metasize = sext32 (alignup superSize PageSize) in
      rbind (xheap_initialize mmap heapsize metasize (xp_x p)) (\<lambda>(base, x).
        if base = 0 then Err Exit
        else let s = (xp_s p)\<lparr>sh_mem := pth_new (lay base) (sh_mem (xp_s p))\<rparr>;
                 heapStart = xheap_getHeapStart x; heapEnd = xheap_getHeapEnd x
          in rmap (\<lambda>s. (heapStart, p\<lparr>xp_x := x, xp_s := s, xp_lay := lay base, xp_heapStart := heapStart,
                 xp_heapEnd := heapEnd\<rparr>)) (sm_initialize heapStart USER_HEAP_SIZE s)))"

definition xp_checkHeapOverflow :: "trackObject \<Rightarrow> xpheap \<Rightarrow> (bool \<times> xpheap) res option" where
  "xp_checkHeapOverflow junk p =
     (let heapEnd = xheap_getHeapPosition (xp_x p) in
      map_option (rmap (\<lambda>(b, s). (b, p\<lparr>xp_s := s\<rparr>))) (xm_checkHeapOverflow (xh_map (xp_x p)) heapEnd junk (xp_s p)))"

definition xp_recoverMemory :: "xpheap \<Rightarrow> xpheap" where
  "xp_recoverMemory p =
     (let heapEnd = xheap_getHeapPosition (xp_x p) in
      p\<lparr>xp_s := (xp_s p)\<lparr>sh_mem := xm_recoverMemory (xh_map (xp_x p)) heapEnd (sh_mem (xp_s p))\<rparr>\<rparr>)"

definition xp_backup :: "xpheap \<Rightarrow> xpheap" where
  "xp_backup p =
     (let heapEnd = xheap_getHeapPosition (xp_x p) in
      p\<lparr>xp_s := (xp_s p)\<lparr>sh_mem := xm_backup (xh_map (xp_x p)) heapEnd (sh_mem (xp_s p))\<rparr>\<rparr>)"

definition xp_getHeapEnd :: "xpheap \<Rightarrow> u64" where
  "xp_getHeapEnd p = xheap_getHeapPosition (xp_x p)"

text \<open>\<open>tid\<close> is the index of the calling thread.\<close>

definition xp_malloc :: "int \<Rightarrow> u64 \<Rightarrow> xpheap \<Rightarrow> (u64 \<times> xpheap) res" where
  "xp_malloc tid sz p =
     rmap (\<lambda>(ptr, x, s). (ptr, p\<lparr>xp_x := x, xp_s := s\<rparr>)) (pth_malloc (xp_lay p) tid sz (xp_x p, xp_s p))"

definition xp_getSize :: "u64 \<Rightarrow> xpheap \<Rightarrow> u64 res" where
  "xp_getSize ptr p = pth_getSize ptr (sh_mem (xp_s p))"

definition xp_realfree :: "int \<Rightarrow> u64 \<Rightarrow> xpheap \<Rightarrow> xpheap res" where
  "xp_realfree tid ptr p =
     rmap (\<lambda>m. p\<lparr>xp_s := (xp_s p)\<lparr>sh_mem := m\<rparr>\<rparr>) (pth_free (xp_lay p) tid ptr (sh_mem (xp_s p)))"

definition xp_inRange :: "u64 \<Rightarrow> xpheap \<Rightarrow> bool" where
  "xp_inRange addr p \<longleftrightarrow> addr \<ge> xp_heapStart p \<and> addr \<le> xp_heapEnd p"

text \<open>
  The quarantine of the thread works on the same memory and tracker; \<open>rb\<close> is the rollback.
\<close>

definition addThreadQuarantineList ::
    "(u64 \<Rightarrow> mem \<Rightarrow> mem res) \<Rightarrow> (qstate \<Rightarrow> qstate) \<Rightarrow> trackObject \<Rightarrow> u64 \<Rightarrow> u64 \<Rightarrow> quarantine \<times> u64 list \<times> xpheap \<Rightarrow>
      (bool \<times> quarantine \<times> u64 list \<times> xpheap) res option" where
  "addThreadQuarantineList rf rb junk ptr sz = (\<lambda>(q, fr, p).
     map_option (rmap (\<lambda>(ok, s). (ok, qs_q s, qs_freed s, p\<lparr>xp_s := (xp_s p)\<lparr>sh_mem := qs_mem s, sh_trk := qs_trk s\<rparr>\<rparr>)))
       (addFreeObject rf rb junk ptr sz
         \<lparr>qs_q = q, qs_mem = sh_mem (xp_s p), qs_trk = sh_trk (xp_s p), qs_freed = fr\<rparr>))"

definition xp_free ::
    "int \<Rightarrow> (qstate \<Rightarrow> qstate) \<Rightarrow> trackObject \<Rightarrow> u64 \<Rightarrow> quarantine \<times> u64 list \<times> xpheap \<Rightarrow>
      (quarantine \<times> u64 list \<times> xpheap) res option" where
  "xp_free tid rb junk ptr = (\<lambda>(q, fr, p).
     obind (Some (xp_getSize ptr p)) (\<lambda>sz.
     obind (addThreadQuarantineList (pth_free (xp_lay p) tid) rb junk ptr sz (q, fr, p)) (\<lambda>(ok, q, fr, p).
       if \<not> ok then Some (rmap (\<lambda>p. (q, fr, p)) (xp_realfree tid ptr p)) else Some (Ok (q, fr, p)))))"

section \<open>The heap of the runtime\<close>

record perheap =
  ph_src :: SourceInternalHeap
  ph_mem :: mem
  ph_lay :: "nat \<Rightarrow> klayout"
  ph_heapStart :: u64
  ph_heapEnd :: u64

definition ph_initialize :: "mmap_fun \<Rightarrow> u64 \<Rightarrow> (u64 \<Rightarrow> nat \<Rightarrow> klayout) \<Rightarrow> perheap \<Rightarrow> perheap res" where
  "ph_initialize mmap superSize lay p =
     (let metasize = sext32 (alignup superSize PageSize) in
      rbind (sih_initialize mmap INTERNAL_HEAP_BASE INTERNAL_HEAP_SIZE metasize (ph_src p)) (\<lambda>(base, h).
        if base = 0 then Err Exit
        else Ok (p\<lparr>ph_src := h, ph_mem := pth_new (lay base) (ph_mem p), ph_lay := lay base,
               ph_heapStart := sih_getHeapStart h, ph_heapEnd := sih_getHeapEnd h\<rparr>)))"

definition ph_malloc :: "int \<Rightarrow> u64 \<Rightarrow> perheap \<Rightarrow> (u64 \<times> perheap) res" where
  "ph_malloc heapid sz p =
     rmap (\<lambda>(ptr, h, m). (ptr, p\<lparr>ph_src := h, ph_mem := m\<rparr>))
       (ansi_malloc int_src (ph_lay p (nat heapid)) iah_getSize (iah_malloc (ph_lay p (nat heapid))) sz (ph_src p, ph_mem p))"

definition ph_free :: "int \<Rightarrow> u64 \<Rightarrow> perheap \<Rightarrow> perheap res" where
  "ph_free heapid ptr p =
     (if heapid < NUM_HEAPS then rmap (\<lambda>m. p\<lparr>ph_mem := m\<rparr>) (ansi_free iah_getSize (ph_lay p (nat heapid)) ptr (ph_mem p)) else Err Exit)"

definition ph_getSize :: "u64 \<Rightarrow> perheap \<Rightarrow> u64 res" where
  "ph_getSize ptr p = ansi_getSize iah_getSize ptr (ph_mem p)"

definition ph_inRange :: "u64 \<Rightarrow> perheap \<Rightarrow> bool" where
  "ph_inRange addr p \<longleftrightarrow> addr \<ge> ph_heapStart p \<and> addr \<le> ph_heapEnd p"

definition InternalHeap_malloc :: "int \<Rightarrow> u64 \<Rightarrow> perheap \<Rightarrow> (u64 \<times> perheap) res" where
  "InternalHeap_malloc tid sz p =
     rbind (ph_malloc tid sz p) (\<lambda>(ptr, p). if ptr \<noteq> 0 then Ok (ptr, p) else Err Exit)"

definition InternalHeap_free :: "int \<Rightarrow> u64 \<Rightarrow> perheap \<Rightarrow> perheap res" where
  "InternalHeap_free tid ptr p = ph_free tid ptr p"

end
