(* ===== verification/Copies.thy ===== *)
theory Copies
  imports Prelude
begin

text \<open>
  Sequences of \<open>memcpy\<close> calls over one memory: the backup and the recovery of the heap and the globals
  (\<open>Xmemory\<close>) and of the streams of open files (\<open>File_Ops\<close>) are such sequences.
\<close>

text \<open>
  A backup or a recovery of all regions is a sequence of \<open>memcpy\<close> calls, given as destination, source
  and length. When no destination meets another region, the calls do not disturb each other.
\<close>

definition copies :: "(u64 \<times> u64 \<times> u64) list \<Rightarrow> mem \<Rightarrow> mem" where
  "copies cs m = fold (\<lambda>(d, s, n) m. memcpy m d s n) cs m"

definition apart :: "u64 \<Rightarrow> u64 \<Rightarrow> u64 \<Rightarrow> u64 \<Rightarrow> bool" where
  "apart a n b k \<longleftrightarrow> (\<forall>x. \<not> (in_range a n x \<and> in_range b k x))"

fun copies_ok :: "(u64 \<times> u64 \<times> u64) list \<Rightarrow> bool" where
  "copies_ok [] \<longleftrightarrow> True"
| "copies_ok ((d, s, n) # cs) \<longleftrightarrow> copies_ok cs \<and> apart d n s n \<and>
     (\<forall>(d', s', n')\<in>set cs. apart d n d' n' \<and> apart d n s' n' \<and> apart d' n' s n)"

definition same_bytes :: "mem \<Rightarrow> u64 \<Rightarrow> mem \<Rightarrow> u64 \<Rightarrow> u64 \<Rightarrow> bool" where
  "same_bytes m a m' b n \<longleftrightarrow> (\<forall>i<n. m (a + i) = m' (b + i))"

lemma in_range_shift [simp]: "in_range a n (a + i) \<longleftrightarrow> i < n"
  by (simp add: in_range_def)

lemma copies_outside: "\<forall>(d, s, n)\<in>set cs. \<not> in_range d n x \<Longrightarrow> copies cs m x = m x"
  by (induction cs arbitrary: m) (auto simp: copies_def memcpy_def)

lemma apart_sym: "apart a n b k \<Longrightarrow> apart b k a n"
  by (auto simp: apart_def)

lemma apart_nonempty: "0 < n \<Longrightarrow> \<not> apart a n a n"
  using in_range_shift [of a n 0] by (auto simp: apart_def)

lemma apartI: "unat a + unat n \<le> unat b \<Longrightarrow> unat b + unat k \<le> 2 ^ 64 \<Longrightarrow> apart a n b k \<and> apart b k a n"
proof -
  assume ab: "unat a + unat n \<le> unat b" and bk: "unat b + unat k \<le> 2 ^ 64"
  have False if x: "in_range a n x" "in_range b k x" for x
  proof -
    have "x - (0 + a) < n" "x - (0 + b) < k" using x by (simp_all add: in_range_def)
    from offsets_apart [OF this] show False using ab bk unat_u64_less [of b] by linarith
  qed
  then show ?thesis by (auto simp: apart_def)
qed

lemma copies_outsideI: "(\<And>d s n. (d, s, n) \<in> set cs \<Longrightarrow> \<not> in_range d n x) \<Longrightarrow> copies cs m x = m x"
  by (rule copies_outside) auto

lemma copies_inside:
  "copies_ok cs \<Longrightarrow> (d, s, n) \<in> set cs \<Longrightarrow> i < n \<Longrightarrow> copies cs m (d + i) = m (s + i)"
proof (induction cs arbitrary: m)
  case (Cons c cs)
  obtain d' s' n' where c: "c = (d', s', n')" by (cases c)
  have step: "copies (c # cs) m = copies cs (memcpy m d' s' n')" by (simp add: copies_def c)
  show ?case
  proof (cases "(d, s, n) = c")
    case True
    then have "\<forall>(e, _, k)\<in>set cs. \<not> in_range e k (d + i)"
      using Cons.prems c by (fastforce simp: apart_def in_range_shift)
    then have "copies cs (memcpy m d' s' n') (d + i) = memcpy m d' s' n' (d + i)" by (rule copies_outside)
    also have "\<dots> = m (s + i)" using True c Cons.prems(3) by (simp add: memcpy_def in_range_shift)
    finally show ?thesis by (simp add: step)
  next
    case False
    then have "(d, s, n) \<in> set cs" using Cons.prems(2) c by auto
    then have "copies (c # cs) m (d + i) = memcpy m d' s' n' (s + i)"
      using Cons.IH [of "memcpy m d' s' n'"] Cons.prems c step by simp
    moreover have "\<not> in_range d' n' (s + i)"
      using Cons.prems c \<open>(d, s, n) \<in> set cs\<close> by (fastforce simp: apart_def in_range_shift)
    ultimately show ?thesis by (simp add: memcpy_def)
  qed
qed simp

text \<open>
  Copying out, changing anything but the copies, and copying back restores every region. The
  lengths of the copies back may be larger.
\<close>

lemma copy_back:
  assumes "copies_ok (map (\<lambda>(u, b, n, n'). (b, u, n)) rs)" and "copies_ok (map (\<lambda>(u, b, n, n'). (u, b, n')) rs)"
    and "\<forall>(u, b, n, n')\<in>set rs. n \<le> n'" and r: "(u, b, n, n') \<in> set rs" and i: "i < n"
    and keep: "\<forall>(u, b, n, n')\<in>set rs. \<forall>x. in_range b n x \<longrightarrow> m' x = copies (map (\<lambda>(u, b, n, n'). (b, u, n)) rs) m x"
  shows "copies (map (\<lambda>(u, b, n, n'). (u, b, n')) rs) m' (u + i) = m (u + i)"
proof -
  have "(u, b, n') \<in> set (map (\<lambda>(u, b, n, n'). (u, b, n')) rs)" "(b, u, n) \<in> set (map (\<lambda>(u, b, n, n'). (b, u, n)) rs)"
    using r by force+
  moreover have "i < n'" using assms(3) r i by (fastforce intro: order_less_le_trans)
  ultimately have "copies (map (\<lambda>(u, b, n, n'). (u, b, n')) rs) m' (u + i) = m' (b + i)"
    "copies (map (\<lambda>(u, b, n, n'). (b, u, n)) rs) m (b + i) = m (u + i)"
    using copies_inside [OF assms(2)] copies_inside [OF assms(1)] i by blast+
  moreover have "m' (b + i) = copies (map (\<lambda>(u, b, n, n'). (b, u, n)) rs) m (b + i)"
    using keep r i by (fastforce simp: in_range_shift)
  ultimately show ?thesis by simp
qed

text \<open>Two copies to one place are allowed when they bring the same bytes.\<close>

lemma copies_get:
  assumes t: "(d, s, n) \<in> set ts" and i: "i < n"
    and sd: "\<And>d' s' n' d'' s'' n''. (d', s', n') \<in> set ts \<Longrightarrow> (d'', s'', n'') \<in> set ts \<Longrightarrow> apart s' n' d'' n''"
    and dd: "\<And>d' s' n'. (d', s', n') \<in> set ts \<Longrightarrow> (d' = d \<and> n' = n \<and> same_bytes m s' m s n) \<or> apart d' n' d n"
  shows "copies ts m (d + i) = m (s + i)"
  using t sd dd
proof (induction ts rule: rev_induct)
  case (snoc y ts)
  obtain d' s' n' where y: "y = (d', s', n')" by (cases y)
  have step: "copies (ts @ [y]) m (d + i) = memcpy (copies ts m) d' s' n' (d + i)" by (simp add: copies_def y)
  show ?case
  proof (cases "in_range d' n' (d + i)")
    case True
    then have "\<not> apart d' n' d n" using i by (auto simp: apart_def)
    then have e: "d' = d" "n' = n" "same_bytes m s' m s n" using snoc.prems(3) [of d' s' n'] y by auto
    have "copies ts m (s' + i) = m (s' + i)"
    proof (rule copies_outsideI)
      fix d'' s'' n'' assume "(d'', s'', n'') \<in> set ts"
      then have "apart s' n' d'' n''" using snoc.prems(2) [of d' s' n' d'' s'' n''] y by auto
      then show "\<not> in_range d'' n'' (s' + i)" using i e(2) by (auto simp: apart_def)
    qed
    then show ?thesis using e i True by (simp add: step memcpy_def same_bytes_def)
  next
    case False
    then have "y \<noteq> (d, s, n)" using i y by auto
    then have "(d, s, n) \<in> set ts" using snoc.prems(1) by auto
    then have "copies ts m (d + i) = m (s + i)"
    proof (rule snoc.IH)
      show "apart s' n' d'' n''" if "(d', s', n') \<in> set ts" "(d'', s'', n'') \<in> set ts" for d' s' n' d'' s'' n''
        using snoc.prems(2) [of d' s' n' d'' s'' n''] that by simp
      show "d' = d \<and> n' = n \<and> same_bytes m s' m s n \<or> apart d' n' d n" if "(d', s', n') \<in> set ts" for d' s' n'
        using snoc.prems(3) [of d' s' n'] that by simp
    qed
    then show ?thesis using False by (simp add: step memcpy_def)
  qed
qed simp

end
