(* ===== verification/Xmemory.thy ===== *)
theory Xmemory
  imports Xpheap Copies
begin

text \<open>
  The memory manager (\<open>include/xmemory.hh\<close>, \<open>source/xmemory.cpp\<close>): it puts the application heap, the
  globals, the guards behind the objects, the quarantine and the tracker together, answers
  \<open>malloc\<close>, \<open>realloc\<close>, \<open>memalign\<close> and \<open>free\<close>, and saves and restores the memory at epoch boundaries.
  There is one byte memory, the one of the sentinel map; the heap of the runtime works on it too.
  What belongs to other components or to the moment of the call is in \<open>mcontext\<close>: the calling
  thread's flags, its call stack, \<open>xthread::invokeCommit\<close>, the rollback and the kernel's
  debug registers. Signal handling is not modelled.
\<close>

section \<open>State\<close>

record xmemory =
  me_heap :: xpheap
  me_globals :: xglobals
  me_internal :: perheap
  me_heapBegin :: u64
  me_heapEnd :: u64
  me_quarantine :: quarantine
  me_freed :: "u64 list"

record mcontext =
  mc_internalheap :: bool
  mc_index :: int
  mc_isRollback :: bool
  mc_callsites :: "u64 list"
  mc_junk :: trackObject
  mc_invokeCommit :: "xmemory \<Rightarrow> xmemory res"
  mc_rollback :: "qstate \<Rightarrow> qstate"
  mc_arm :: "u64 \<Rightarrow> bool"

definition me_sheap :: "xmemory \<Rightarrow> sheap" where "me_sheap e = xp_s (me_heap e)"

definition me_mem :: "xmemory \<Rightarrow> mem" where "me_mem e = sh_mem (me_sheap e)"

definition set_sheap :: "sheap \<Rightarrow> xmemory \<Rightarrow> xmemory" where
  "set_sheap s e = e\<lparr>me_heap := (me_heap e)\<lparr>xp_s := s\<rparr>\<rparr>"

definition set_mem :: "mem \<Rightarrow> xmemory \<Rightarrow> xmemory" where
  "set_mem m e = set_sheap ((me_sheap e)\<lparr>sh_mem := m\<rparr>) e"

definition getObject :: "u64 \<Rightarrow> u64" where "getObject ptr = ptr - 16"

definition me_initialize ::
    "(nat \<Rightarrow> mmap_fun) \<Rightarrow> u64 \<Rightarrow> (u64 \<Rightarrow> nat \<Rightarrow> klayout) \<Rightarrow> (u64 \<times> u64) list \<Rightarrow> xmemory \<Rightarrow> xmemory res" where
  "me_initialize mmap superSize lay regions e =
     rbind (xp_initialize (mmap 0) superSize lay USER_HEAP_SIZE (me_heap e)) (\<lambda>(heapBegin, h).
     rmap (\<lambda>g. e\<lparr>me_heap := h, me_heapBegin := heapBegin, me_heapEnd := heapBegin + USER_HEAP_SIZE, me_globals := g\<rparr>)
       (xg_initialize (\<lambda>i. mmap (i + 1)) regions))"

section \<open>Allocation\<close>

text \<open>\<open>memtrack::check\<close> on the tracker in the state.\<close>

definition me_check :: "mcontext \<Rightarrow> u64 \<Rightarrow> u64 \<Rightarrow> memTrackType \<Rightarrow> xmemory \<Rightarrow> xmemory res" where
  "me_check c start sz ty e =
     rmap (\<lambda>mt. set_sheap ((me_sheap e)\<lparr>sh_trk := (sh_trk (me_sheap e))\<lparr>tr_memtrack := mt\<rparr>\<rparr>) e)
       (memtrack_check (tr_memtrack (sh_trk (me_sheap e))) start sz ty (mc_callsites c))"

text \<open>The second half of \<open>realmalloc\<close>: the object's size, its guard, and the check of a replay.\<close>

definition finish_malloc :: "mcontext \<Rightarrow> u64 \<Rightarrow> u64 \<Rightarrow> xmemory \<Rightarrow> xmemory res" where
  "finish_malloc c ptr sz e =
     (let obj = getObject ptr; e = set_mem (setObjectSize (me_mem e) obj sz) e; size = oh_getSize (me_mem e) obj in
      if size < sz then Err Assertion
      else rbind (if size > sz then rmap (\<lambda>s. set_sheap s e) (setSentinels ptr size sz (me_sheap e)) else Ok e) (\<lambda>e.
        if mc_isRollback c then me_check c ptr sz MEM_TRACK_MALLOC e else Ok e))"

definition realmalloc :: "mcontext \<Rightarrow> u64 \<Rightarrow> xmemory \<Rightarrow> (u64 \<times> xmemory) res" where
  "realmalloc c sz e =
     (let mysize = sz; sz = (if sz = 0 then 1 else sz); mysize = (if sz < 16 then 16 else mysize);
          mysize = (mysize + 15) AND NOT 15 in
      rbind (xp_malloc (mc_index c) mysize (me_heap e)) (\<lambda>(ptr, h).
        if ptr = 0 then Err Undefined
        else rmap (\<lambda>e. (ptr, e)) (finish_malloc c ptr sz (e\<lparr>me_heap := h\<rparr>))))"

definition me_malloc :: "mcontext \<Rightarrow> u64 \<Rightarrow> xmemory \<Rightarrow> (u64 \<times> xmemory) res" where
  "me_malloc c sz e =
     (if mc_internalheap c then
        rmap (\<lambda>(ptr, p). (ptr, set_mem (ph_mem p) (e\<lparr>me_internal := p\<rparr>)))
          (InternalHeap_malloc (mc_index c) sz ((me_internal e)\<lparr>ph_mem := me_mem e\<rparr>))
      else realmalloc c sz e)"

definition me_calloc :: "mcontext \<Rightarrow> u64 \<Rightarrow> u64 \<Rightarrow> xmemory \<Rightarrow> (u64 \<times> xmemory) res" where
  "me_calloc c nmemb sz e = me_malloc c (nmemb * sz) e"

definition getAlignedAddress :: "u64 \<Rightarrow> u64 \<Rightarrow> u64" where
  "getAlignedAddress ptr boundary =
     (if ptr mod boundary = 0 then ptr else (ptr + boundary) AND NOT (boundary - 1))"

definition memalign :: "mcontext \<Rightarrow> u64 \<Rightarrow> u64 \<Rightarrow> xmemory \<Rightarrow> (u64 \<times> xmemory) res" where
  "memalign c boundary sz e =
     rbind (me_malloc c (boundary + sz) e) (\<lambda>(ptr, e).
       let newptr = getAlignedAddress ptr boundary; offset = newptr - ptr;
           (newptr, offset) = (if offset = 0 then (newptr + boundary, boundary) else (newptr, offset)) in
       if offset < 2 * 8 then Err Assertion
       else rmap (\<lambda>s. (newptr, set_sheap (s\<lparr>sh_mem := wr64 (sh_mem s) (newptr - 2 * 8) ptr\<rparr>) e))
              (setMemalignSentinelAt (newptr - 8) (me_sheap e)))"

section \<open>Release\<close>

definition checkOverflowAndCleanSentinels :: "trackObject \<Rightarrow> u64 \<Rightarrow> xmemory \<Rightarrow> (bool \<times> xmemory) res" where
  "checkOverflowAndCleanSentinels junk ptr e =
     (let obj = getObject ptr; blockSize = oh_getSize (me_mem e) obj; sz = getObjectSize (me_mem e) obj in
      if blockSize < sz then Err Assertion
      else rmap (\<lambda>(b, s). (b, set_sheap s e)) (checkObjectOverflow ptr blockSize sz True junk (me_sheap e)))"

definition getObjectPtrAtFree :: "u64 \<Rightarrow> xmemory \<Rightarrow> (u64 \<times> xmemory) res" where
  "getObjectPtrAtFree ptr e =
     (let prevPtr = ptr - 8 in
      if rd64 (me_mem e) prevPtr = MEMALIGN_SENTINEL_WORD then
        rmap (\<lambda>s. (rd64 (sh_mem s) (ptr - 2 * 8), set_sheap s e)) (clearSentinelAt prevPtr (me_sheap e))
      else Ok (ptr, e))"

definition me_inRange :: "u64 \<Rightarrow> xmemory \<Rightarrow> bool" where
  "me_inRange addr e \<longleftrightarrow> sint addr > sint (me_heapBegin e) \<and> sint addr < sint (me_heapEnd e)"

text \<open>The last part of \<open>free\<close>: into the quarantine or back to the heap, and then marked free.\<close>

definition me_release :: "mcontext \<Rightarrow> u64 \<Rightarrow> xmemory \<Rightarrow> xmemory res option" where
  "me_release c origptr e =
     map_option (rmap (\<lambda>(q, fr, h).
       let e = e\<lparr>me_quarantine := q, me_freed := fr, me_heap := h\<rparr>
       in set_mem (setObjectFree (me_mem e) (getObject origptr)) e))
       (xp_free (mc_index c) (mc_rollback c) (mc_junk c) origptr (me_quarantine e, me_freed e, me_heap e))"

text \<open>A bad sentinel in the header is only reported.\<close>

definition me_free :: "mcontext \<Rightarrow> u64 \<Rightarrow> xmemory \<Rightarrow> xmemory res option" where
  "me_free c ptr e =
     (if \<not> me_inRange ptr e then Some (Ok e)
      else obind (Some (getObjectPtrAtFree ptr e)) (\<lambda>(origptr, e).
        let obj = getObject origptr in
        if \<not> mc_isRollback c then
          obind (Some (checkOverflowAndCleanSentinels (mc_junk c) origptr e)) (\<lambda>(overflow, e).
            if overflow then Some (mc_invokeCommit c e) else me_release c origptr e)
        else
          obind (Some (me_check c ptr (getObjectSize (me_mem e) obj) MEM_TRACK_FREE e)) (me_release c origptr)))"

definition me_realloc :: "mcontext \<Rightarrow> u64 \<Rightarrow> u64 \<Rightarrow> xmemory \<Rightarrow> (u64 \<times> xmemory) res option" where
  "me_realloc c ptr sz e =
     (if ptr = 0 then Some (me_malloc c sz e)
      else if sz = 0 then obind (me_free c ptr e) (\<lambda>e. Some (me_malloc c 1 e))
      else
        let obj = getObject ptr; objSize = getObjectSize (me_mem e) obj; blockSize = oh_getSize (me_mem e) obj in
        if blockSize \<ge> sz then
          Some (rbind (if mc_isRollback c then Ok e
              else rbind (checkOverflowAndCleanSentinels (mc_junk c) ptr e) (\<lambda>(overflow, e).
                if overflow then mc_invokeCommit c e else Ok e)) (\<lambda>e.
            let e = set_mem (setObjectSize (me_mem e) obj sz) e in
            rmap (\<lambda>s. (ptr, set_sheap s e)) (setSentinels ptr blockSize sz (me_sheap e))))
        else
          obind (Some (me_malloc c sz e)) (\<lambda>(buf, e).
            let e = (if buf \<noteq> 0 then set_mem (memcpy (me_mem e) buf ptr (if objSize < sz then objSize else sz)) e else e) in
            obind (me_free c ptr e) (\<lambda>e. Some (Ok (buf, e)))))"

definition me_realfree :: "mcontext \<Rightarrow> u64 \<Rightarrow> xmemory \<Rightarrow> xmemory res" where
  "me_realfree c ptr e = rmap (\<lambda>h. e\<lparr>me_heap := h\<rparr>) (xp_realfree (mc_index c) ptr (me_heap e))"

definition me_getSize :: "u64 \<Rightarrow> xmemory \<Rightarrow> u64 res" where
  "me_getSize ptr e = xp_getSize ptr (me_heap e)"

section \<open>Epochs\<close>

definition me_epochBegin :: "xmemory \<Rightarrow> xmemory" where
  "me_epochBegin e =
     (let h = me_heap e; h = h\<lparr>xp_x := saveHeapMetadata (xp_x h)\<rparr>; h = xp_backup h; e = e\<lparr>me_heap := h\<rparr>
      in set_mem (xg_backup (me_globals e) (me_mem e)) e)"

text \<open>The part that \<open>rollback\<close> and \<open>rollbackonly\<close> share: globals, heap, heap metadata.\<close>

definition me_recover :: "xmemory \<Rightarrow> xmemory" where
  "me_recover e =
     (let e = set_mem (xg_recoverMemory (me_globals e) (me_mem e)) e; h = xp_recoverMemory (me_heap e)
      in e\<lparr>me_heap := h\<lparr>xp_x := recoverHeapMetadata (xp_x h)\<rparr>\<rparr>)"

definition me_rollback :: "mcontext \<Rightarrow> xmemory \<Rightarrow> xmemory res" where
  "me_rollback c e =
     (let e = me_recover e; s = me_sheap e in
      rmap (\<lambda>w. set_sheap (s\<lparr>sh_trk := w\<rparr>) e) (installWatchpoints (mc_arm c) (sh_mem s) (sh_trk s)))"

definition rollbackonly :: "mcontext \<Rightarrow> xmemory \<Rightarrow> xmemory res" where
  "rollbackonly c e =
     (let e = me_recover e; s = me_sheap e in
      rmap (\<lambda>w. set_sheap (s\<lparr>sh_trk := w\<rparr>) e) (installWatchpoints (mc_arm c) (sh_mem s) (sh_trk s)))"

definition checkOverflowBeforehand :: "u64 \<Rightarrow> u64 \<Rightarrow> xmemory \<Rightarrow> bool res option" where
  "checkOverflowBeforehand start sz e =
     (if xp_inRange start (me_heap e) then
        let stop = start + sz in
        if xp_inRange stop (me_heap e) then hasSentinels start sz (me_sheap e) else Some (Ok True)
      else Some (Ok False))"

definition me_checkHeapOverflow :: "mcontext \<Rightarrow> xmemory \<Rightarrow> (bool \<times> xmemory) res option" where
  "me_checkHeapOverflow c e =
     (if mc_isRollback c then Some (Ok (False, e))
      else obind (xp_checkHeapOverflow (mc_junk c) (me_heap e)) (\<lambda>(hasOverflow, h).
        Some (Ok (if \<not> hasOverflow then hasToRollback (sh_trk (xp_s h)) else hasOverflow, e\<lparr>me_heap := h\<rparr>))))"

section \<open>Rollback\<close>

text \<open>
  The regions that an epoch saves, as address, address of the copy, length at the backup and length
  at the recovery: the heap with its metadata up to its position, and the globals.
\<close>

definition me_regions :: "xmemory \<Rightarrow> u64 \<Rightarrow> (u64 \<times> u64 \<times> u64 \<times> u64) list" where
  "me_regions e stop =
     (let x = xp_x (me_heap e); h = xh_map x in
      (xm_userMemory h, xm_backupMemory h, xh_position x - xm_userMemory h, stop - xm_userMemory h) #
      map (\<lambda>g. (xm_userMemory g, xm_backupMemory g, xm_startsize g, xm_startsize g)) (xg_maps (me_globals e)))"

definition save_ok :: "xmemory \<Rightarrow> u64 \<Rightarrow> bool" where
  "save_ok e stop \<longleftrightarrow> xm_heapStart (xh_map (xp_x (me_heap e))) \<noteq> 0 \<and>
     (\<forall>g\<in>set (xg_maps (me_globals e)). xm_heapStart g = 0) \<and>
     (\<forall>(u, b, n, n')\<in>set (me_regions e stop). n \<le> n') \<and>
     copies_ok (map (\<lambda>(u, b, n, n'). (b, u, n)) (me_regions e stop)) \<and>
     copies_ok (map (\<lambda>(u, b, n, n'). (u, b, n')) (me_regions e stop))"

lemma me_sheap_simps [simp]:
  "me_sheap (set_sheap s e) = s" "me_mem (set_mem m e) = m" "me_globals (set_sheap s e) = me_globals e"
  "xp_x (me_heap (set_sheap s e)) = xp_x (me_heap e)" "me_heapBegin (set_sheap s e) = me_heapBegin e"
  "me_heapEnd (set_sheap s e) = me_heapEnd e" "me_globals (set_mem m e) = me_globals e"
  "xp_x (me_heap (set_mem m e)) = xp_x (me_heap e)" "me_heapBegin (set_mem m e) = me_heapBegin e"
  "me_heapEnd (set_mem m e) = me_heapEnd e" "sh_trk (me_sheap (set_mem m e)) = sh_trk (me_sheap e)"
  by (simp_all add: me_sheap_def set_sheap_def me_mem_def set_mem_def)

lemma globals_copies:
  "(\<forall>g\<in>set gs. xm_heapStart g = 0) \<Longrightarrow>
    fold (\<lambda>x m. xm_backup x 0 m) gs m = copies (map (\<lambda>g. (xm_backupMemory g, xm_userMemory g, xm_startsize g)) gs) m \<and>
    fold (\<lambda>x m. xm_recoverMemory x 0 m) gs m =
      copies (map (\<lambda>g. (xm_userMemory g, xm_backupMemory g, xm_startsize g)) gs) m"
  by (induction gs arbitrary: m) (simp_all add: copies_def xm_backup_def xm_recoverMemory_def xm_size_def Let_def)

lemma copies_append: "copies (as @ bs) m = copies bs (copies as m)"
  by (simp add: copies_def)

lemma copies_ok_snoc: "copies_ok (cs @ [c]) \<longleftrightarrow> copies_ok (c # cs)"
proof (induction cs)
  case (Cons a cs)
  then show ?case by (cases a; cases c) (auto simp: apart_def)
qed (cases c, simp)

text \<open>The epoch's backup as copies: the heap first, then the globals; recovery goes the other way round.\<close>

lemma epochBegin_copies:
  assumes "save_ok e stop"
  shows "me_mem (me_epochBegin e) = copies (map (\<lambda>(u, b, n, n'). (b, u, n)) (me_regions e stop)) (me_mem e)"
    and "xp_x (me_heap (me_epochBegin e)) = saveHeapMetadata (xp_x (me_heap e))"
    and "me_globals (me_epochBegin e) = me_globals e"
proof -
  let ?gs = "xg_maps (me_globals e)"
  have gs: "\<forall>g\<in>set ?gs. xm_heapStart g = 0" and hs: "xm_heapStart (xh_map (xp_x (me_heap e))) \<noteq> 0"
    using assms by (auto simp: save_ok_def)
  show "me_mem (me_epochBegin e) = copies (map (\<lambda>(u, b, n, n'). (b, u, n)) (me_regions e stop)) (me_mem e)"
    using globals_copies [OF gs] hs
    by (simp add: me_epochBegin_def me_regions_def Let_def xp_backup_def xm_backup_def xg_backup_def saveHeapMetadata_def
        xheap_getHeapPosition_def xm_base_def me_mem_def me_sheap_def copies_def comp_def set_mem_def set_sheap_def)
  show "xp_x (me_heap (me_epochBegin e)) = saveHeapMetadata (xp_x (me_heap e))" "me_globals (me_epochBegin e) = me_globals e"
    by (simp_all add: me_epochBegin_def Let_def xp_backup_def)
qed

lemma recover_copies:
  assumes "xm_heapStart (xh_map (xp_x (me_heap e))) \<noteq> 0" and "\<forall>g\<in>set (xg_maps (me_globals e)). xm_heapStart g = 0"
    and "r = map (\<lambda>(u, b, n, n'). (u, b, n')) (me_regions e (xh_position (xp_x (me_heap e))))"
  shows "me_mem (me_recover e) = copies (tl r @ [hd r]) (me_mem e)"
    and "xp_x (me_heap (me_recover e)) = recoverHeapMetadata (xp_x (me_heap e))"
proof -
  show "me_mem (me_recover e) = copies (tl r @ [hd r]) (me_mem e)"
    using globals_copies [OF assms(2)] assms(1)
    by (simp add: assms(3) me_recover_def Let_def me_regions_def xp_recoverMemory_def xm_recoverMemory_def xg_recoverMemory_def
        xheap_getHeapPosition_def xm_base_def copies_append comp_def)
      (simp add: me_mem_def me_sheap_def set_mem_def set_sheap_def copies_def)
  show "xp_x (me_heap (me_recover e)) = recoverHeapMetadata (xp_x (me_heap e))"
    by (simp add: me_recover_def Let_def xp_recoverMemory_def)
qed

lemma copies_rotate:
  assumes "copies_ok (c # cs)" and "(d, s, n) \<in> set (c # cs)" and "i < n"
  shows "copies (cs @ [c]) m (d + i) = copies (c # cs) m (d + i)"
proof -
  have "copies (cs @ [c]) m (d + i) = m (s + i)"
    by (rule copies_inside [OF _ _ assms(3)]) (use assms(1,2) copies_ok_snoc in auto)
  then show ?thesis using copies_inside [OF assms] by simp
qed

section \<open>Properties\<close>

text \<open>
  C2. Rollback undoes an epoch. Let an epoch begin in state \<open>e\<close>, and let the run that follows end in
  any state \<open>e2\<close> that has written to no backup copy and has kept the regions and the saved heap
  metadata (its heap position may have grown). After the recovery of \<open>rollback\<close>, the heap position
  and the remaining size are those of \<open>e\<close>, and every byte of the heap below that position, the
  heap metadata and every global region has the value it had when the epoch began.
\<close>

theorem rollback_restores_epoch:
  assumes "save_ok e (xh_position x2)" and x2: "x2 = xp_x (me_heap e2)"
    and kept: "xh_map x2 = xh_map (xp_x (me_heap e))" "xh_positionBackup x2 = xh_position (xp_x (me_heap e))"
      "xh_remainingBackup x2 = xh_remaining (xp_x (me_heap e))" "me_globals e2 = me_globals e"
    and copies_kept: "\<forall>(u, b, n, n')\<in>set (me_regions e (xh_position x2)). \<forall>a. in_range b n a \<longrightarrow>
      me_mem e2 a = me_mem (me_epochBegin e) a"
  shows "xh_position (xp_x (me_heap (me_recover e2))) = xh_position (xp_x (me_heap e)) \<and>
    xh_remaining (xp_x (me_heap (me_recover e2))) = xh_remaining (xp_x (me_heap e)) \<and>
    (\<forall>(u, b, n, n')\<in>set (me_regions e (xh_position x2)). \<forall>a. in_range u n a \<longrightarrow> me_mem (me_recover e2) a = me_mem e a)"
proof -
  let ?rs = "me_regions e (xh_position x2)" and ?f = "\<lambda>(u, b, n, n'). (u, b, n')"
  have ok: "copies_ok (map (\<lambda>(u, b, n, n'). (b, u, n)) ?rs)" "copies_ok (map ?f ?rs)" "\<forall>(u, b, n, n')\<in>set ?rs. n \<le> n'"
    and hs: "xm_heapStart (xh_map x2) \<noteq> 0" "\<forall>g\<in>set (xg_maps (me_globals e2)). xm_heapStart g = 0"
    using assms(1) kept by (auto simp: save_ok_def)
  have same: "map ?f (me_regions e2 (xh_position x2)) = map ?f ?rs"
    using kept x2 by (simp add: me_regions_def Let_def)
  obtain c cs where c: "map ?f ?rs = c # cs" by (simp add: me_regions_def Let_def)
  have rec: "me_mem (me_recover e2) = copies (cs @ [c]) (me_mem e2)"
    using recover_copies(1) [OF hs(1)[unfolded x2] hs(2) refl] same c by (simp add: x2)
  have restored: "me_mem (me_recover e2) a = me_mem e a" if r: "(u, b, n, n') \<in> set ?rs" and a: "in_range u n a" for u b n n' a
  proof -
    have i: "a - u < n" using a by (simp add: in_range_def)
    have "n \<le> n'" using ok(3) r by auto
    with i have i': "a - u < n'" by (rule order_less_le_trans)
    have "(u, b, n') \<in> set (map ?f ?rs)" using r by force
    then have "me_mem (me_recover e2) (u + (a - u)) = copies (map ?f ?rs) (me_mem e2) (u + (a - u))"
      using copies_rotate [of c cs u b n' "a - u" "me_mem e2"] ok(2) c i' rec by simp
    also have "\<dots> = me_mem e (u + (a - u))"
      by (rule copy_back [OF ok r i]) (use copies_kept epochBegin_copies(1) [OF assms(1)] in auto)
    finally show ?thesis by simp
  qed
  moreover have "xp_x (me_heap (me_recover e2)) = recoverHeapMetadata x2"
    using recover_copies(2) [OF hs(1)[unfolded x2] hs(2) refl] x2 by simp
  ultimately show ?thesis using kept by (auto simp: recoverHeapMetadata_def)
qed

text \<open>A heap at 4096 with its position at 12288, one global region, and copies far above.\<close>

definition demo_lay :: "nat \<Rightarrow> klayout" where
  "demo_lay i = \<lparr>kl_bin = (\<lambda>j. 4096 + 8 * of_nat j), kl_sizeRemaining = 4608, kl_currentArena = 4616, kl_pastArenas = 4624\<rparr>"

definition demo_xheap :: xheap where
  "demo_xheap = zero_xheap\<lparr>xh_map := blank_map\<lparr>xm_heapStart := 8192, xm_userMemory := 4096, xm_startsize := 65536,
     xm_backupMemory := 1048576\<rparr>, xh_start := 8192, xh_end := 69632, xh_position := 12288, xh_remaining := 57344\<rparr>"

definition demo_xmemory :: xmemory where
  "demo_xmemory = \<lparr>me_heap = \<lparr>xp_x = demo_xheap, xp_s = demo_sheap, xp_lay = demo_lay, xp_heapStart = 8192, xp_heapEnd = 69632\<rparr>,
     me_globals = \<lparr>xg_regions = [(131072, 135168)], xg_maps = [blank_map\<lparr>xm_userMemory := 131072, xm_startsize := 4096,
       xm_backupMemory := 2097152\<rparr>]\<rparr>,
     me_internal = \<lparr>ph_src = \<lparr>si_start = 0, si_end = 0, si_position = 0, si_remaining = 0, si_magic = 0\<rparr>, ph_mem = (\<lambda>_. 0),
       ph_lay = demo_lay, ph_heapStart = 0, ph_heapEnd = 0\<rparr>,
     me_heapBegin = 8192, me_heapEnd = 69632, me_quarantine = qs_q demo_qstate, me_freed = []\<rparr>"

definition demo_run :: xmemory where
  "demo_run = (let e = me_epochBegin demo_xmemory; m = (me_mem e)(8200 := 7, 131080 := 9); h = me_heap (set_mem m e)
     in e\<lparr>me_heap := h\<lparr>xp_x := (xp_x h)\<lparr>xh_position := 16384\<rparr>\<rparr>\<rparr>)"

lemma demo_save_ok: "save_ok demo_xmemory 16384"
proof -
  note ap = apartI [THEN conjunct1] apartI [THEN conjunct2]
  have "apart 1048576 8192 4096 8192" "apart 2097152 4096 131072 4096" "apart 1048576 8192 2097152 4096"
    "apart 1048576 8192 131072 4096" "apart 2097152 4096 4096 8192"
    "apart 4096 12288 1048576 12288" "apart 131072 4096 2097152 4096" "apart 4096 12288 131072 4096"
    "apart 4096 12288 2097152 4096" "apart 131072 4096 1048576 12288"
    by (rule ap(1); simp; fail | rule ap(2); simp; fail)+
  then show ?thesis
    by (simp add: save_ok_def me_regions_def demo_xmemory_def demo_xheap_def Let_def blank_map_def)
qed

theorem rollback_restores_epoch_witness:
  "me_mem demo_run 8200 = 7 \<and> me_mem demo_run 131080 = 9 \<and> me_mem (me_recover demo_run) 8200 = 0 \<and>
    me_mem (me_recover demo_run) 131080 = 0 \<and> xh_position (xp_x (me_heap (me_recover demo_run))) = 12288"
proof -
  let ?x2 = "xp_x (me_heap demo_run)"
  have x2: "xh_position ?x2 = 16384" "xh_map ?x2 = xh_map demo_xheap" "xh_positionBackup ?x2 = 12288"
      "xh_remainingBackup ?x2 = 57344" "me_globals demo_run = me_globals demo_xmemory"
    and m: "me_mem demo_run = (me_mem (me_epochBegin demo_xmemory))(8200 := 7, 131080 := 9)"
    by (simp_all add: demo_run_def Let_def epochBegin_copies(2,3) [OF demo_save_ok] saveHeapMetadata_def)
      (simp_all add: demo_xmemory_def demo_xheap_def me_mem_def me_sheap_def set_mem_def set_sheap_def)
  have d: "xp_x (me_heap demo_xmemory) = demo_xheap" "xh_position demo_xheap = 12288" "xh_remaining demo_xheap = 57344"
    by (simp_all add: demo_xmemory_def demo_xheap_def)
  have rs: "me_regions demo_xmemory 16384 = [(4096, 1048576, 8192, 12288), (131072, 2097152, 4096, 4096)]"
    by (simp add: me_regions_def demo_xmemory_def demo_xheap_def Let_def blank_map_def)
  have "\<forall>(u, b, n, n')\<in>set (me_regions demo_xmemory 16384). \<forall>a. in_range b n a \<longrightarrow>
      me_mem demo_run a = me_mem (me_epochBegin demo_xmemory) a"
    unfolding rs m by (auto simp: in_range_def)
  from rollback_restores_epoch [OF _ refl, of demo_xmemory demo_run] this demo_save_ok x2 d
  have *: "xh_position (xp_x (me_heap (me_recover demo_run))) = 12288"
      "\<forall>(u, b, n, n')\<in>set (me_regions demo_xmemory 16384). \<forall>a. in_range u n a \<longrightarrow> me_mem (me_recover demo_run) a = me_mem demo_xmemory a"
    by auto
  have "me_mem (me_recover demo_run) 8200 = 0" "me_mem (me_recover demo_run) 131080 = 0"
    using *(2) unfolding rs by (simp_all add: in_range_def demo_xmemory_def me_mem_def me_sheap_def demo_sheap_def)
  then show ?thesis using *(1) m by simp
qed

section \<open>An object from \<open>malloc\<close> to \<open>free\<close>\<close>

lemma me_check_mem:
  "me_check c p n ty e = Ok e' \<Longrightarrow> me_mem e' = me_mem e \<and> me_heapBegin e' = me_heapBegin e \<and> me_heapEnd e' = me_heapEnd e \<and>
    sh_bitmap (me_sheap e') = sh_bitmap (me_sheap e) \<and> sh_wordShift (me_sheap e') = sh_wordShift (me_sheap e) \<and>
    sh_heapStart (me_sheap e') = sh_heapStart (me_sheap e)"
  by (auto simp: me_check_def rmap_Ok_iff me_mem_def)

lemma header_fields_local:
  assumes "\<And>x. x - obj < 16 \<Longrightarrow> m' x = m x"
  shows "oh_getSize m' obj = oh_getSize m obj" and "getObjectSize m' obj = getObjectSize m obj"
    and "rd64 m' (obj + 8) = rd64 m (obj + 8)"
proof -
  have in16: "x - obj < 16" if "x - (obj + i) < n" "unat i + unat n \<le> 16" for x i n :: u64
    using offset_range(2) [OF that(1)] that(2) by (simp add: word_less_nat_alt)
  show "oh_getSize m' obj = oh_getSize m obj"
    unfolding oh_getSize_def using assms in16 [of _ 0 4] by (subst rd32_local [of obj m' m]) auto
  show "getObjectSize m' obj = getObjectSize m obj"
    unfolding getObjectSize_def using assms in16 [of _ 4 4] by (subst rd32_local [of "obj + 4" m' m]) auto
  show "rd64 m' (obj + 8) = rd64 m (obj + 8)"
    using assms in16 [of _ 8 8] by (intro rd64_local) auto
qed

lemma guard_len_le: "unat (guard_len bs sz) \<le> 16"
proof (cases "sz AND 7 = 0")
  case False
  have "unat (8 - (sz AND 7)) \<le> 8" using nonaligned_k(2) [OF False] by (simp add: word_le_nat_alt)
  then show ?thesis using False by (auto simp: guard_len_def unat_plus_if')
qed (simp add: guard_len_def)

text \<open>The guard of an object does not reach back into its header.\<close>

lemma guard_off_header:
  assumes "x - (ptr - 16) < 16" and "16 \<le> unat ptr" and "unat ptr + unat sz + 16 \<le> 2 ^ 64"
  shows "\<not> x - (ptr + sz) < guard_len bs sz"
proof
  assume g: "x - (ptr + sz) < guard_len bs sz"
  have "x - (0 + (ptr - 16)) < 16" "x - (0 + (ptr + sz)) < guard_len bs sz" using assms(1) g by simp_all
  moreover have "unat (ptr - 16) = unat ptr - 16" using assms(2) by (simp add: unat_sub word_le_nat_alt)
  moreover have "unat (ptr + sz) = unat ptr + unat sz" using assms(3) by (simp add: unat_plus_if')
  ultimately show False
    using offsets_apart [of x 0 "ptr - 16" 16 "ptr + sz" "guard_len bs sz"] guard_len_le [of bs sz] assms(2,3) by auto
qed

lemma tryToSet_mem: "tryToSet a s = Ok (b, s') \<Longrightarrow> sh_mem s' = sh_mem s"
  by (auto simp: tryToSet_def rmap_Ok_iff)

lemma setSentinels_mem:
  assumes "setSentinels ptr bs sz s = Ok s'"
  shows "sh_mem s' = guarded_mem ptr bs sz (sh_mem s)"
proof (cases "sz AND 7 = 0")
  case True
  then show ?thesis
    using assms by (auto simp: setSentinels_def xdefs guarded_mem_def setSentinelAt_def rmap_Ok_iff put_mem_def Let_def dest!: tryToSet_mem)
next
  case False
  then show ?thesis
    using assms by (auto simp: setSentinels_def xdefs guarded_mem_def Let_def rbind_Ok_iff rmap_Ok_iff markSentinelAt_def
        setSentinelAt_def put_mem_def algebra_simps dest!: tryToSet_mem split: if_splits)
qed

text \<open>What a successful \<open>realmalloc\<close> leaves: the size in the header and the guard behind the object.\<close>

lemma realmalloc_object:
  assumes "realmalloc c sz e = Ok (ptr, e1)" and "bs = oh_getSize (me_mem e1) (getObject ptr)"
    and "n = (if sz = 0 then 1 else sz)" and "n < bs" and "16 \<le> unat ptr" and "unat ptr + unat n + 16 \<le> 2 ^ 64"
  shows "getObjectSize (me_mem e1) (getObject ptr) = n" and "\<exists>m. me_mem e1 = guarded_mem ptr bs n m"
proof -
  obtain h where "finish_malloc c ptr n (e\<lparr>me_heap := h\<rparr>) = Ok e1"
    using assms(1) unfolding realmalloc_def Let_def assms(3) [symmetric]
    by (cases "xp_malloc (mc_index c) ((if n < 16 then 16 else sz) + 15 AND NOT 15) (me_heap e)")
      (auto simp: rmap_Ok_iff simp del: not_less split: if_splits)
  then obtain u where fm: "finish_malloc c ptr n u = Ok e1" by blast
  define m0 where "m0 = setObjectSize (me_mem u) (getObject ptr) n"
  define e0 where "e0 = set_mem m0 u"
  let ?size = "oh_getSize m0 (getObject ptr)"
  have mem0: "me_mem e0 = m0" by (simp add: e0_def)
  note fm' = fm [unfolded finish_malloc_def Let_def, folded m0_def, folded e0_def, unfolded mem0]
  have ge: "\<not> ?size < n" using fm' by (cases "?size < n") simp_all
  obtain e' where e': "(if ?size > n then rmap (\<lambda>s. set_sheap s e0) (setSentinels ptr ?size n (me_sheap e0)) else Ok e0) = Ok e'"
      "(if mc_isRollback c then me_check c ptr n MEM_TRACK_MALLOC e' else Ok e') = Ok e1"
    using fm' unfolding if_not_P [OF ge] rbind_Ok_iff by blast
  have m1: "me_mem e1 = me_mem e'" using e'(2) me_check_mem by (auto split: if_splits)
  have off: "guarded_mem ptr k n m0 x = m0 x" if "x - getObject ptr < 16" for x k
    using guard_off_header [of x ptr n k] that assms(5,6) by (intro guarded_mem_frame) (simp add: getObject_def)
  show "\<exists>m. me_mem e1 = guarded_mem ptr bs n m" and "getObjectSize (me_mem e1) (getObject ptr) = n"
  proof -
    have lt: "n < ?size"
    proof (rule ccontr)
      assume "\<not> n < ?size"
      then have "me_mem e1 = m0" "?size = n" using e'(1) m1 ge by (auto simp: e0_def)
      then show False using assms(2,4) by simp
    qed
    then obtain s' where s': "setSentinels ptr ?size n (me_sheap e0) = Ok s'" "e' = set_sheap s' e0"
      using e'(1) by (auto simp: rmap_Ok_iff)
    have g: "me_mem e1 = guarded_mem ptr ?size n m0"
      using setSentinels_mem [OF s'(1)] s'(2) m1 mem0 by (simp add: me_mem_def)
    have "bs = ?size" using header_fields_local(1) [of "getObject ptr" "guarded_mem ptr ?size n m0" m0, OF off] assms(2) g by simp
    then show "\<exists>m. me_mem e1 = guarded_mem ptr bs n m" using g by blast
    have "unat ?size < 2 ^ 32" using ucast_u32_less by (simp add: oh_getSize_def)
    then have "unat n < 2 ^ 32" using lt by (simp add: word_less_nat_alt)
    then have "getObjectSize m0 (getObject ptr) = n"
      by (simp add: m0_def getObjectSize_def setObjectSize_def mem_simps ucast_ucast_small)
    then show "getObjectSize (me_mem e1) (getObject ptr) = n" using header_fields_local(2) [of "getObject ptr" "guarded_mem ptr ?size n m0" m0, OF off] g by simp
  qed
qed

text \<open>
  C1. From \<open>malloc\<close> to \<open>free\<close>: let \<open>realmalloc\<close> return an object that is smaller than its block, and let
  the program leave any memory \<open>m'\<close> behind that has the object's header unchanged. Then \<open>free\<close>
  ends its check without a failed assertion and starts the commit, with a watchpoint pending, if
  and only if a guard byte behind the object has changed; otherwise it goes on to release the object.
\<close>

theorem free_detects_overflow:
  assumes alloc: "realmalloc c sz e = Ok (ptr, e1)" and phase: "\<not> mc_isRollback c"
    and bs: "bs = oh_getSize (me_mem e1) (getObject ptr)" and n: "n = (if sz = 0 then 1 else sz)" "n < bs"
    and place: "16 \<le> unat ptr" "unat ptr + unat n + 16 \<le> 2 ^ 64" "me_inRange ptr e1"
    and map: "sh_ok (me_sheap e1)" "\<forall>a\<in>set (guard_words ptr bs n). in_map (me_sheap e1) a"
    and head: "isGoodObject (me_mem e1) (getObject ptr)" "\<forall>x. x - getObject ptr < 16 \<longrightarrow> m' x = me_mem e1 x"
  shows "\<exists>e2. me_mem e2 = m' \<and> (if \<exists>x. x - (ptr + n) < guard_len bs n \<and> m' x \<noteq> me_mem e1 x
    then me_free c ptr (set_mem m' e1) = Some (mc_invokeCommit c e2) \<and> hasToRollback (sh_trk (me_sheap e2))
    else me_free c ptr (set_mem m' e1) = me_release c ptr e2)"
proof -
  let ?e = "set_mem m' e1"
  have hd: "oh_getSize m' (getObject ptr) = bs" "getObjectSize m' (getObject ptr) = n" "rd64 m' (ptr - 8) = SENTINEL_WORD"
    using header_fields_local [of "getObject ptr" m' "me_mem e1"] head(2) bs realmalloc_object(1) [OF alloc bs n place(1,2)]
      head(1) by (auto simp: isGoodObject_def getObject_def)
  obtain m where m: "me_mem e1 = guarded_mem ptr bs n m" using realmalloc_object(2) [OF alloc bs n place(1,2)] by blast
  have ok: "sh_ok (me_sheap ?e)" "\<forall>a\<in>set (guard_words ptr bs n). in_map (me_sheap ?e) a"
    using map by (simp_all add: set_mem_def sh_ok_def in_map_def getIndex_def)
  obtain s2 where s2: "checkObjectOverflow ptr bs n True (mc_junk c) (me_sheap ?e) = Ok (guard_bad ptr bs n m', s2)"
      "sh_mem s2 = m'" "guard_bad ptr bs n m' \<longrightarrow> hasToRollback (sh_trk s2)"
    using checkObjectOverflow_ok [OF ok, of True "mc_junk c"] by (auto simp: set_mem_def split: if_splits)
  let ?e2 = "set_sheap s2 ?e"
  have bad: "guard_bad ptr bs n m' \<longleftrightarrow> (\<exists>x. x - (ptr + n) < guard_len bs n \<and> m' x \<noteq> me_mem e1 x)"
    unfolding m by (rule guard_bad_iff)
  have "checkOverflowAndCleanSentinels (mc_junk c) ptr ?e = Ok (guard_bad ptr bs n m', ?e2)"
    using s2(1) hd(1,2) n(2) by (simp add: checkOverflowAndCleanSentinels_def Let_def)
  moreover have "getObjectPtrAtFree ptr ?e = Ok (ptr, ?e)"
    using hd(3) by (simp add: getObjectPtrAtFree_def Let_def SENTINEL_WORD_def MEMALIGN_SENTINEL_WORD_def)
  moreover have "me_inRange ptr ?e" using place(3) by (simp add: me_inRange_def)
  ultimately have "me_free c ptr ?e = (if guard_bad ptr bs n m' then Some (mc_invokeCommit c ?e2) else me_release c ptr ?e2)"
    using phase by (simp add: me_free_def Let_def)
  then show ?thesis
    unfolding bad [symmetric] using s2(2,3) by (intro exI [of _ ?e2]) (simp add: me_mem_def [of ?e2])
qed

text \<open>A heap whose free list of 16-byte objects has one object, at address 8224.\<close>

definition demo_context :: mcontext where
  "demo_context = \<lparr>mc_internalheap = False, mc_index = 0, mc_isRollback = False, mc_callsites = [], mc_junk = demo_track,
     mc_invokeCommit = Ok, mc_rollback = (\<lambda>s. s), mc_arm = (\<lambda>_. True)\<rparr>"

definition demo_object :: xmemory where
  "demo_object = set_sheap (demo_sheap\<lparr>sh_heapStart := 8192,
     sh_mem := wr64 (objectHeader_new (\<lambda>_. 0) 8208 16) 4104 8224\<rparr>) demo_xmemory"

lemma demo_object_alloc:
  "case realmalloc demo_context 13 demo_object of Err _ \<Rightarrow> False | Ok (ptr, e1) \<Rightarrow> ptr = 8224 \<and>
    oh_getSize (me_mem e1) (getObject 8224) = 16 \<and> me_inRange 8224 e1 \<and> isGoodObject (me_mem e1) (getObject 8224) \<and>
    sh_wordShift (me_sheap e1) = 3 \<and> bm_inv (sh_bitmap (me_sheap e1)) \<and> list_all (in_map (me_sheap e1)) (guard_words 8224 16 13)"
  by code_simp

theorem free_detects_overflow_witness:
  "\<exists>e1 e2. realmalloc demo_context 13 demo_object = Ok (8224, e1) \<and>
    me_free demo_context 8224 (set_mem ((me_mem e1)(8237 := me_mem e1 8237 + 1)) e1) = Some (Ok e2) \<and>
    hasToRollback (sh_trk (me_sheap e2))"
proof -
  obtain e1 where e1: "realmalloc demo_context 13 demo_object = Ok (8224, e1)" "oh_getSize (me_mem e1) (getObject 8224) = 16"
      "me_inRange 8224 e1" "isGoodObject (me_mem e1) (getObject 8224)" "sh_ok (me_sheap e1)"
      "\<forall>a\<in>set (guard_words 8224 16 13). in_map (me_sheap e1) a"
    using demo_object_alloc by (auto simp: sh_ok_def list_all_iff split: res.splits)
  let ?m = "(me_mem e1)(8237 := me_mem e1 8237 + 1)"
  have h: "\<forall>x. x - getObject 8224 < 16 \<longrightarrow> ?m x = me_mem e1 x" by (auto simp: getObject_def)
  have g: "\<exists>x. x - (8224 + 13) < guard_len 16 13 \<and> ?m x \<noteq> me_mem e1 x"
    by (intro exI [of _ 8237]) (simp add: guard_len_def)
  obtain e2 where "me_free demo_context 8224 (set_mem ?m e1) = Some (mc_invokeCommit demo_context e2)"
      "hasToRollback (sh_trk (me_sheap e2))"
    using free_detects_overflow [OF e1(1) _ e1(2)[symmetric], of 13, OF _ _ _ _ _ e1(3,5,6,4) h] g
    by (auto simp: demo_context_def)
  then show ?thesis using e1(1) by (auto simp: demo_context_def)
qed

section \<open>Aligned objects\<close>

lemma below_top: "unat p + 2 ^ Suc k \<le> 2 ^ 64 \<Longrightarrow> unat p + 2 ^ k < 2 ^ 64" for p :: u64
proof -
  assume "unat p + 2 ^ Suc k \<le> 2 ^ 64"
  moreover have "(1 :: nat) \<le> 2 ^ k" by simp
  ultimately show ?thesis unfolding power_Suc by linarith
qed

lemma getAlignedAddress_spec:
  assumes "k < 63" and "unat ptr + 2 ^ Suc k \<le> 2 ^ 64"
  shows "2 ^ k dvd unat (getAlignedAddress ptr (2 ^ k))" and "unat ptr \<le> unat (getAlignedAddress ptr (2 ^ k))"
    and "unat (getAlignedAddress ptr (2 ^ k)) \<le> unat ptr + 2 ^ k"
proof -
  have uk: "unat (2 ^ k :: u64) = 2 ^ k" using assms(1) by (simp add: unat_exp)
  have "2 ^ k dvd unat (getAlignedAddress ptr (2 ^ k)) \<and> unat ptr \<le> unat (getAlignedAddress ptr (2 ^ k)) \<and>
      unat (getAlignedAddress ptr (2 ^ k)) \<le> unat ptr + 2 ^ k"
  proof (cases "ptr mod 2 ^ k = 0")
    case True
    then have "unat (ptr mod 2 ^ k) = 0" by simp
    then have "unat ptr mod 2 ^ k = 0" by (simp only: unat_mod uk)
    then show ?thesis using True by (auto simp: getAlignedAddress_def)
  next
    case False
    have u: "unat (ptr + 2 ^ k) = unat ptr + 2 ^ k" using below_top [OF assms(2)] uk by (simp add: unat_plus_if')
    have v: "unat (getAlignedAddress ptr (2 ^ k)) = 2 ^ k * ((unat ptr + 2 ^ k) div 2 ^ k)"
      using False unat_aligndown [of k "ptr + 2 ^ k"] assms(1) u by (simp add: getAlignedAddress_def aligndown_def)
    have "(unat ptr + 2 ^ k) mod 2 ^ k + 2 ^ k * ((unat ptr + 2 ^ k) div 2 ^ k) = unat ptr + 2 ^ k"
      by (rule mod_mult_div_eq)
    moreover have "(unat ptr + 2 ^ k) mod 2 ^ k < 2 ^ k" by simp
    ultimately have "unat ptr \<le> 2 ^ k * ((unat ptr + 2 ^ k) div 2 ^ k)" "2 ^ k * ((unat ptr + 2 ^ k) div 2 ^ k) \<le> unat ptr + 2 ^ k"
      by linarith+
    then show ?thesis unfolding v by simp
  qed
  then show "2 ^ k dvd unat (getAlignedAddress ptr (2 ^ k))" "unat ptr \<le> unat (getAlignedAddress ptr (2 ^ k))"
    "unat (getAlignedAddress ptr (2 ^ k)) \<le> unat ptr + 2 ^ k" by auto
qed

text \<open>
  C8. Aligned allocation: the address that \<open>memalign\<close> returns for a power of two is a multiple of it,
  lies at least 16 and at most the alignment behind the start of the underlying object, and as long
  as the program keeps the two words in front of it, \<open>free\<close> finds the underlying object again.
\<close>

theorem memalign_roundtrip:
  assumes "memalign c (2 ^ k) sz e = Ok (q, e1)" and malloc: "me_malloc c (2 ^ k + sz) e = Ok (ptr, e0)"
    and "k < 63" and "unat ptr + 2 ^ Suc k \<le> 2 ^ 64"
    and map: "sh_ok (me_sheap e1)" "in_map (me_sheap e1) (q - 8)"
    and kept: "\<forall>x. x - (q - 16) < 16 \<longrightarrow> m' x = me_mem e1 x"
  shows "2 ^ k dvd unat q \<and> unat ptr + 16 \<le> unat q \<and> unat q \<le> unat ptr + 2 ^ k \<and>
    (\<exists>e2. getObjectPtrAtFree q (set_mem m' e1) = Ok (ptr, e2) \<and> me_mem e2 = m')"
proof -
  let ?a = "getAlignedAddress ptr (2 ^ k)"
  note al = getAlignedAddress_spec [OF assms(3,4)]
  let ?q = "if ?a - ptr = 0 then ?a + 2 ^ k else ?a" and ?o = "if ?a - ptr = 0 then 2 ^ k else ?a - ptr"
  obtain s where s: "setMemalignSentinelAt (?q - 8) (me_sheap e0) = Ok s" "\<not> ?o < 16" "q = ?q"
      "e1 = set_sheap (s\<lparr>sh_mem := wr64 (sh_mem s) (?q - 16) ptr\<rparr>) e0"
    using assms(1) malloc by (auto simp: memalign_def Let_def rmap_Ok_iff split: if_splits)
  have uk: "unat (2 ^ k :: u64) = 2 ^ k" using assms(3) by (simp add: unat_exp)
  have q: "2 ^ k dvd unat q" "unat ptr + 16 \<le> unat q" "unat q \<le> unat ptr + 2 ^ k"
  proof -
    have o16: "16 \<le> unat ?o" using s(2) by (simp add: not_less word_le_nat_alt)
    have "2 ^ k dvd unat q \<and> unat ptr + 16 \<le> unat q \<and> unat q \<le> unat ptr + 2 ^ k"
    proof (cases "?a - ptr = 0")
      case True
      then have "unat (ptr + 2 ^ k) = unat ptr + 2 ^ k" "?a = ptr"
        using below_top [OF assms(4)] uk by (simp_all add: unat_plus_if')
      then show ?thesis using al(1) o16 True s(3) uk by simp
    next
      case False
      have "unat (?a - ptr) = unat ?a - unat ptr" using al(2) by (simp add: unat_sub word_le_nat_alt)
      then show ?thesis using al o16 False s(3) by simp
    qed
    then show "2 ^ k dvd unat q" "unat ptr + 16 \<le> unat q" "unat q \<le> unat ptr + 2 ^ k" by auto
  qed
  have m1: "me_mem e1 = wr64 (wr64 (me_mem e0) (q - 8) MEMALIGN_SENTINEL_WORD) (q - 16) ptr"
    using s by (auto simp: setMemalignSentinelAt_def rmap_Ok_iff put_mem_def me_mem_def dest!: tryToSet_mem)
  have sep: "sep64 (q - 8) (q - 16)" by (simp add: sep64_def)
  have in16: "x - (q - 16) < 16" if "x - ((q - 16) + i) < n" "unat i + unat n \<le> 16" for x i n
    using offset_range(2) [OF that(1)] that(2) by (simp add: word_less_nat_alt)
  have "rd64 m' (q - 16) = rd64 (me_mem e1) (q - 16)" "rd64 m' (q - 8) = rd64 (me_mem e1) (q - 8)"
    using kept in16 [of _ 0 8] in16 [of _ 8 8] by (auto intro!: rd64_local)
  then have w: "rd64 m' (q - 16) = ptr" "rd64 m' (q - 8) = MEMALIGN_SENTINEL_WORD"
    unfolding m1 using sep by (simp_all add: mem_simps)
  have "sh_ok (me_sheap (set_mem m' e1))" "in_map (me_sheap (set_mem m' e1)) (q - 8)"
    using map by (simp_all add: set_mem_def sh_ok_def in_map_def getIndex_def)
  then obtain s' where "sm_clear (q - 8) (me_sheap (set_mem m' e1)) = Ok s'" "sh_mem s' = m'"
    using sm_clear_ok [of "me_sheap (set_mem m' e1)" "q - 8"] by (auto simp: set_mem_def)
  then show ?thesis
    using q w by (auto simp: getObjectPtrAtFree_def Let_def clearSentinelAt_def me_mem_def [of "set_sheap _ _"])
qed

definition demo_aligned :: xmemory where
  "demo_aligned = set_sheap (demo_sheap\<lparr>sh_heapStart := 8192,
     sh_mem := wr64 (objectHeader_new (\<lambda>_. 0) 8208 64) 4120 8224\<rparr>) demo_xmemory"

lemma demo_aligned_alloc:
  "case me_malloc demo_context 36 demo_aligned of Err _ \<Rightarrow> False | Ok (ptr, _) \<Rightarrow> ptr = 8224"
  "case memalign demo_context 32 4 demo_aligned of Err _ \<Rightarrow> False | Ok (q, e1) \<Rightarrow> q = 8256 \<and>
    sh_wordShift (me_sheap e1) = 3 \<and> bm_inv (sh_bitmap (me_sheap e1)) \<and> in_map (me_sheap e1) 8248"
  by code_simp+

theorem memalign_roundtrip_witness:
  "\<exists>e1 e2. memalign demo_context 32 4 demo_aligned = Ok (8256, e1) \<and>
    getObjectPtrAtFree 8256 (set_mem (me_mem e1) e1) = Ok (8224, e2)"
proof -
  obtain e0 where e0: "me_malloc demo_context 36 demo_aligned = Ok (8224, e0)"
    using demo_aligned_alloc(1) by (auto split: res.splits)
  obtain e1 where e1: "memalign demo_context 32 4 demo_aligned = Ok (8256, e1)" "sh_ok (me_sheap e1)" "in_map (me_sheap e1) 8248"
    using demo_aligned_alloc(2) by (auto simp: sh_ok_def split: res.splits)
  have "memalign demo_context (2 ^ 5) 4 demo_aligned = Ok (8256, e1)"
    "me_malloc demo_context (2 ^ 5 + 4) demo_aligned = Ok (8224, e0)" "in_map (me_sheap e1) (8256 - 8)"
    using e0 e1 by simp_all
  from memalign_roundtrip [OF this(1,2) _ _ e1(2) this(3), of "me_mem e1"] e1(1) show ?thesis by auto
qed

end
