(* ===== verification/Kingsley_Heap.thy ===== *)
theory Kingsley_Heap
  imports Xpheap
begin

text \<open>
  The correctness of the allocator. The locale \<open>kingsley\<close> states what the layers of \<open>Heap_Layers\<close> need
  from a source heap and from the code that prepares a new object; inside it, an invariant of the
  memory (\<open>kinv\<close>) is shown to be kept by \<open>malloc\<close>, by \<open>free\<close> and by every write of the program
  inside its live objects. The application heap and the heap of the runtime are the two
  interpretations. The result is that live objects never overlap, whatever the program does
  inside them.
\<close>

section \<open>Memories that agree on an interval\<close>

definition agree :: "mem \<Rightarrow> mem \<Rightarrow> nat \<Rightarrow> nat \<Rightarrow> bool" where
  "agree m m' l h \<longleftrightarrow> (\<forall>x. l \<le> unat x \<and> unat x < h \<longrightarrow> m' x = m x)"

lemma agree_refl [simp]: "agree m m l h"
  by (simp add: agree_def)

lemma agree_trans: "agree m m' l h \<Longrightarrow> agree m' m'' l h \<Longrightarrow> agree m m'' l h"
  by (simp add: agree_def)

lemma agree_sub: "agree m m' l h \<Longrightarrow> l \<le> l' \<Longrightarrow> h' \<le> h \<Longrightarrow> agree m m' l' h'"
  by (simp add: agree_def)

lemma word_at:
  fixes x a n :: u64
  assumes "unat a + unat n \<le> 2 ^ 64" and "x - a < n"
  shows "unat a \<le> unat x \<and> unat x < unat a + unat n"
  using offset_range [of x 0 a n] assms by simp

lemma rd64_agree: "agree m m' (unat a) (unat a + 8) \<Longrightarrow> unat a + 8 \<le> 2 ^ 64 \<Longrightarrow> rd64 m' a = rd64 m a"
  using word_at [of a 8] by (intro rd64_local) (auto simp: agree_def)

lemma getSize_agree:
  assumes "agree m m' (unat a) (unat a + 4)" and "unat a + 4 \<le> 2 ^ 64"
  shows "oh_getSize m' a = oh_getSize m a"
proof -
  have "m' x = m x" if "x - a < 4" for x
    using word_at [of a 4 x] that assms by (auto simp: agree_def)
  then show ?thesis using rd32_local [of a m' m] by (simp add: oh_getSize_def)
qed

lemma agree_wr64:
  assumes "unat a + 8 \<le> 2 ^ 64" and "h \<le> unat a \<or> unat a + 8 \<le> l"
  shows "agree m (wr64 m a v) l h"
  unfolding agree_def
proof (intro allI impI)
  fix x :: u64 assume "l \<le> unat x \<and> unat x < h"
  then have "\<not> x - a < 8" using word_at [of a 8 x] assms by auto
  then show "wr64 m a v x = m x" by (rule wr64_other)
qed

section \<open>The invariant\<close>

text \<open>The members of a heap object: the 29 list heads and the three words of the zone.\<close>

definition meta :: "klayout \<Rightarrow> u64 set" where
  "meta lay = kl_bin lay ` {..<29} \<union> {kl_sizeRemaining lay, kl_currentArena lay, kl_pastArenas lay}"

definition apart8 :: "u64 \<Rightarrow> u64 \<Rightarrow> bool" where
  "apart8 a b \<longleftrightarrow> unat a + 8 \<le> unat b \<or> unat b + 8 \<le> unat a"

definition meta_ok :: "klayout \<Rightarrow> nat \<Rightarrow> bool" where
  "meta_ok lay lo \<longleftrightarrow> lo \<le> 2 ^ 64 \<and> inj_on (kl_bin lay) {..<29} \<and> (\<forall>a\<in>meta lay. unat a + 8 \<le> lo) \<and>
     (\<forall>a\<in>meta lay. \<forall>b\<in>meta lay. a \<noteq> b \<longrightarrow> apart8 a b) \<and>
     distinct [kl_sizeRemaining lay, kl_currentArena lay, kl_pastArenas lay] \<and>
     (\<forall>i<29. kl_bin lay i \<notin> {kl_sizeRemaining lay, kl_currentArena lay, kl_pastArenas lay})"

text \<open>A block is an object with its size class; it starts with the header, 16 bytes before the object.\<close>

definition blk_lo :: "u64 \<times> nat \<Rightarrow> nat" where "blk_lo b = unat (fst b) - 16"

definition blk_hi :: "u64 \<times> nat \<Rightarrow> nat" where "blk_hi b = unat (fst b) + 2 ^ (snd b + 3) + 16"

definition blocks_ok :: "mem \<Rightarrow> nat \<Rightarrow> nat \<Rightarrow> (u64 \<times> nat) set \<Rightarrow> bool" where
  "blocks_ok m lo hi B \<longleftrightarrow> hi < 2 ^ 64 \<and>
     (\<forall>b\<in>B. lo + 16 \<le> unat (fst b) \<and> blk_hi b \<le> hi \<and> snd b < 29 \<and> 16 dvd unat (fst b) \<and>
        oh_getSize m (fst b - 16) = class2Size (int (snd b))) \<and>
     (\<forall>b\<in>B. \<forall>b'\<in>B. b \<noteq> b' \<longrightarrow> blk_hi b \<le> blk_lo b' \<or> blk_hi b' \<le> blk_lo b)"

definition off_blocks :: "nat \<Rightarrow> nat \<Rightarrow> (u64 \<times> nat) set \<Rightarrow> bool" where
  "off_blocks l h B \<longleftrightarrow> (\<forall>b\<in>B. blk_hi b \<le> l \<or> h \<le> blk_lo b)"

definition zone_ok :: "mem \<Rightarrow> klayout \<Rightarrow> nat \<Rightarrow> nat \<Rightarrow> (u64 \<times> nat) set \<Rightarrow> bool" where
  "zone_ok m lay lo hi B \<longleftrightarrow>
     (let cur = rd64 m (kl_currentArena lay); space = rd64 m (cur + 8); rem = unat (rd64 m (kl_sizeRemaining lay)) in
      cur \<noteq> 0 \<longrightarrow> lo \<le> unat cur \<and> unat cur + 16 \<le> unat space \<and> 16 dvd unat space \<and> rem < 2 ^ 63 \<and>
        unat space + rem \<le> hi \<and> off_blocks (unat cur) (unat cur + 16) B \<and> off_blocks (unat space) (unat space + rem) B)"

fun sll :: "mem \<Rightarrow> u64 \<Rightarrow> u64 list \<Rightarrow> bool" where
  "sll m h [] \<longleftrightarrow> h = 0"
| "sll m h (p # ps) \<longleftrightarrow> h = p \<and> p \<noteq> 0 \<and> sll m (rd64 m p) ps"

definition free_ok :: "mem \<Rightarrow> klayout \<Rightarrow> (u64 \<times> nat) set \<Rightarrow> (nat \<Rightarrow> u64 list) \<Rightarrow> bool" where
  "free_ok m lay B F \<longleftrightarrow> (\<forall>c<29. sll m (rd64 m (kl_bin lay c)) (F c) \<and> distinct (F c) \<and> (\<forall>p\<in>set (F c). (p, c) \<in> B))"

subsection \<open>Framing\<close>

lemma blocks_ok_bounds:
  assumes "blocks_ok m lo hi B" and "b \<in> B"
  shows "lo + 16 \<le> unat (fst b)" and "unat (fst b - 16) = unat (fst b) - 16" and "unat (fst b) + 24 \<le> blk_hi b"
    and "blk_hi b \<le> 2 ^ 64" and "16 \<le> unat (fst b)"
proof -
  have b: "lo + 16 \<le> unat (fst b)" "blk_hi b \<le> hi" "hi < 2 ^ 64" using assms by (auto simp: blocks_ok_def)
  then show "lo + 16 \<le> unat (fst b)" "blk_hi b \<le> 2 ^ 64" "16 \<le> unat (fst b)" by simp_all
  then show "unat (fst b - 16) = unat (fst b) - 16" by (simp add: unat_sub word_le_nat_alt)
  have "(2 :: nat) ^ 3 \<le> 2 ^ (snd b + 3)" by (rule power_increasing) simp_all
  then show "unat (fst b) + 24 \<le> blk_hi b" by (simp add: blk_hi_def)
qed

lemma blocks_ok_frame:
  assumes "blocks_ok m lo hi B" and "\<forall>b\<in>B. agree m m' (blk_lo b) (blk_lo b + 4)" and "hi \<le> hi'" and "hi' < 2 ^ 64"
  shows "blocks_ok m' lo hi' B"
proof -
  have "oh_getSize m' (fst b - 16) = oh_getSize m (fst b - 16)" if b: "b \<in> B" for b
    using blocks_ok_bounds [OF assms(1) b] assms(2) b by (intro getSize_agree) (auto simp: blk_lo_def)
  then show ?thesis using assms by (fastforce simp: blocks_ok_def)
qed

lemma sll_frame: "sll m h ps \<Longrightarrow> \<forall>p\<in>set ps. rd64 m' p = rd64 m p \<Longrightarrow> sll m' h ps"
  by (induction ps arbitrary: h) auto

lemma free_ok_frame:
  assumes "free_ok m lay B F" and "\<forall>c<29. rd64 m' (kl_bin lay c) = rd64 m (kl_bin lay c)"
    and "\<forall>c<29. \<forall>p\<in>set (F c). rd64 m' p = rd64 m p" and "B \<subseteq> B'"
  shows "free_ok m' lay B' F"
  using assms by (fastforce simp: free_ok_def intro: sll_frame)

lemma zone_ok_frame:
  assumes "zone_ok m lay lo hi B" and "rd64 m' (kl_currentArena lay) = rd64 m (kl_currentArena lay)"
    and "rd64 m' (kl_sizeRemaining lay) = rd64 m (kl_sizeRemaining lay)"
    and "rd64 m (kl_currentArena lay) \<noteq> 0 \<Longrightarrow> rd64 m' (rd64 m (kl_currentArena lay) + 8) = rd64 m (rd64 m (kl_currentArena lay) + 8)"
    and "hi \<le> hi'"
  shows "zone_ok m' lay lo hi' B"
  using assms by (auto simp: zone_ok_def Let_def)

lemma meta_read:
  assumes "meta_ok lay lo" and "a \<in> meta lay" and "b \<in> meta lay" and "a \<noteq> b"
  shows "rd64 (wr64 m b v) a = rd64 m a"
proof (rule rd64_agree)
  have "unat a + 8 \<le> lo" "unat b + 8 \<le> lo" "lo \<le> 2 ^ 64" "apart8 a b" using assms by (auto simp: meta_ok_def)
  then show "agree m (wr64 m b v) (unat a) (unat a + 8)" "unat a + 8 \<le> 2 ^ 64"
    by (auto simp: apart8_def intro!: agree_wr64)
qed

lemma meta_write_high:
  assumes "meta_ok lay lo" and "b \<in> meta lay" and "lo \<le> l"
  shows "agree m (wr64 m b v) l h"
proof -
  have "unat b + 8 \<le> lo" "lo \<le> 2 ^ 64" using assms by (auto simp: meta_ok_def)
  then show ?thesis using assms(3) by (intro agree_wr64) auto
qed

lemma high_write_meta:
  assumes "meta_ok lay lo" and "b \<in> meta lay" and "lo \<le> unat a" and "unat a + 8 \<le> 2 ^ 64"
  shows "rd64 (wr64 m a v) b = rd64 m b"
proof -
  have "unat b + 8 \<le> lo" "lo \<le> 2 ^ 64" using assms by (auto simp: meta_ok_def)
  then show ?thesis using assms(3,4) by (intro rd64_agree agree_wr64) auto
qed

lemma meta_members [simp, intro]:
  "c < 29 \<Longrightarrow> kl_bin lay c \<in> meta lay" "kl_sizeRemaining lay \<in> meta lay" "kl_currentArena lay \<in> meta lay" "kl_pastArenas lay \<in> meta lay"
  by (auto simp: meta_def)

definition kinv :: "mem \<Rightarrow> klayout \<Rightarrow> nat \<Rightarrow> nat \<Rightarrow> (u64 \<times> nat) set \<Rightarrow> (nat \<Rightarrow> u64 list) \<Rightarrow> bool" where
  "kinv m lay lo hi B F \<longleftrightarrow> meta_ok lay lo \<and> lo \<le> hi \<and> blocks_ok m lo hi B \<and> zone_ok m lay lo hi B \<and> free_ok m lay B F"

lemma kinvD:
  assumes "kinv m lay lo hi B F"
  shows "meta_ok lay lo" "lo \<le> hi" "blocks_ok m lo hi B" "zone_ok m lay lo hi B" "free_ok m lay B F"
  using assms by (auto simp: kinv_def)

text \<open>The words of free objects and of the current arena are above the heap's members.\<close>

lemma free_object:
  assumes "kinv m lay lo hi B F" and "c < 29" and "p \<in> set (F c)"
  shows "(p, c) \<in> B" and "lo \<le> unat p" and "unat p + 8 \<le> 2 ^ 64"
proof -
  show b: "(p, c) \<in> B" using kinvD(5) [OF assms(1)] assms(2,3) by (auto simp: free_ok_def)
  from blocks_ok_bounds [OF kinvD(3) [OF assms(1)] b] show "lo \<le> unat p" "unat p + 8 \<le> 2 ^ 64" by auto
qed

lemma arena_word:
  assumes "kinv m lay lo hi B F" and "rd64 m (kl_currentArena lay) \<noteq> 0"
  shows "lo \<le> unat (rd64 m (kl_currentArena lay))" and "unat (rd64 m (kl_currentArena lay)) + 16 \<le> 2 ^ 64"
    and "unat (rd64 m (kl_currentArena lay) + 8) = unat (rd64 m (kl_currentArena lay)) + 8"
proof -
  let ?cur = "rd64 m (kl_currentArena lay)"
  show "lo \<le> unat ?cur" using kinvD(4) [OF assms(1)] assms(2) by (simp add: zone_ok_def Let_def)
  have "unat ?cur + 16 \<le> unat (rd64 m (?cur + 8))" using kinvD(4) [OF assms(1)] assms(2) by (simp add: zone_ok_def Let_def)
  then have "unat ?cur + 16 < 2 ^ 64" using unat_u64_less [of "rd64 m (?cur + 8)"] by linarith
  then show "unat ?cur + 16 \<le> 2 ^ 64" "unat (?cur + 8) = unat ?cur + 8" by (simp_all add: unat_plus_if')
qed

text \<open>A write to one member of the heap changes nothing above the members.\<close>

lemma kinv_meta_write:
  assumes inv: "kinv m lay lo hi B F" and b: "b \<in> meta lay"
  shows "blocks_ok (wr64 m b v) lo hi B" and "\<And>c p. c < 29 \<Longrightarrow> p \<in> set (F c) \<Longrightarrow> rd64 (wr64 m b v) p = rd64 m p"
    and "rd64 m (kl_currentArena lay) \<noteq> 0 \<Longrightarrow>
      rd64 (wr64 m b v) (rd64 m (kl_currentArena lay) + 8) = rd64 m (rd64 m (kl_currentArena lay) + 8)"
proof -
  note hi = meta_write_high [OF kinvD(1) [OF inv] b]
  show "blocks_ok (wr64 m b v) lo hi B"
  proof (rule blocks_ok_frame [OF kinvD(3) [OF inv]])
    show "\<forall>b'\<in>B. agree m (wr64 m b v) (blk_lo b') (blk_lo b' + 4)"
      using blocks_ok_bounds(1) [OF kinvD(3) [OF inv]] by (intro ballI hi) (simp add: blk_lo_def, fastforce)
    show "hi < 2 ^ 64" using kinvD(3) [OF inv] by (simp add: blocks_ok_def)
  qed simp
  show "rd64 (wr64 m b v) p = rd64 m p" if "c < 29" "p \<in> set (F c)" for c p
    using free_object [OF inv that] by (intro rd64_agree hi) auto
  show "rd64 (wr64 m b v) (rd64 m (kl_currentArena lay) + 8) = rd64 m (rd64 m (kl_currentArena lay) + 8)"
    if "rd64 m (kl_currentArena lay) \<noteq> 0"
    using arena_word [OF inv that] by (intro rd64_agree hi) auto
qed

lemma meta_distinct:
  assumes "meta_ok lay lo"
  shows "c < 29 \<Longrightarrow> d < 29 \<Longrightarrow> kl_bin lay c = kl_bin lay d \<longleftrightarrow> c = d"
    and "c < 29 \<Longrightarrow> kl_bin lay c \<noteq> kl_sizeRemaining lay" and "c < 29 \<Longrightarrow> kl_bin lay c \<noteq> kl_currentArena lay"
    and "c < 29 \<Longrightarrow> kl_bin lay c \<noteq> kl_pastArenas lay" and "kl_sizeRemaining lay \<noteq> kl_currentArena lay"
    and "kl_sizeRemaining lay \<noteq> kl_pastArenas lay" and "kl_currentArena lay \<noteq> kl_pastArenas lay"
  using assms by (auto simp: meta_ok_def inj_on_def)

section \<open>Free lists\<close>

lemma kinv_set_bin:
  assumes inv: "kinv m lay lo hi B F" and c: "c < 29"
    and l: "sll m h ps" "distinct ps" "\<forall>p\<in>set ps. (p, c) \<in> B"
  shows "kinv (wr64 m (kl_bin lay c) h) lay lo hi B (F(c := ps))"
proof -
  let ?m = "wr64 m (kl_bin lay c) h"
  note mt = kinvD(1) [OF inv] and w = kinv_meta_write [OF inv meta_members(1) [OF c, of lay], where v = h]
  note md = meta_distinct [OF mt]
  have zone: "zone_ok ?m lay lo hi B"
    by (rule zone_ok_frame [OF kinvD(4) [OF inv]]) (use md(2,3) [OF c] c w(3) meta_read [OF mt] in auto)
  have "sll ?m (rd64 ?m (kl_bin lay d)) ((F(c := ps)) d)" if d: "d < 29" for d
  proof (cases "d = c")
    case True
    have "rd64 ?m p = rd64 m p" if "p \<in> set ps" for p
    proof -
      have "(p, c) \<in> B" using l(3) that by blast
      from blocks_ok_bounds [OF kinvD(3) [OF inv] this] show ?thesis
        by (intro rd64_agree meta_write_high [OF mt meta_members(1) [OF c]]) auto
    qed
    then show ?thesis using True l(1) by (auto simp: mem_simps intro: sll_frame)
  next
    case False
    then have "rd64 ?m (kl_bin lay d) = rd64 m (kl_bin lay d)"
      using md(1) [OF c d] c d by (intro meta_read [OF mt]) auto
    moreover have "sll m (rd64 m (kl_bin lay d)) (F d)" using kinvD(5) [OF inv] d by (auto simp: free_ok_def)
    ultimately show ?thesis using False w(2) [OF d] by (auto intro: sll_frame)
  qed
  then have "free_ok ?m lay B (F(c := ps))" using kinvD(5) [OF inv] l by (auto simp: free_ok_def)
  then show ?thesis using inv w(1) zone by (simp add: kinv_def)
qed

text \<open>A write inside a block that is not on a free list; the four bytes of its size stay.\<close>

lemma kinv_object_write:
  assumes inv: "kinv m lay lo hi B F" and b: "(p, c) \<in> B" "p \<notin> set (F c)"
    and m': "\<And>x. \<not> (blk_lo (p, c) + 4 \<le> unat x \<and> unat x < blk_hi (p, c)) \<Longrightarrow> m' x = m x"
  shows "kinv m' lay lo hi B F"
proof -
  note bk = kinvD(3) [OF inv]
  have outside: "agree m m' l h" if "h \<le> blk_lo (p, c) + 4 \<or> blk_hi (p, c) \<le> l" for l h
    using m' that by (auto simp: agree_def)
  note pb = blocks_ok_bounds [OF bk b(1), simplified]
  have hdr: "agree m m' (blk_lo b') (blk_lo b' + 4)" if "b' \<in> B" for b'
  proof (cases "b' = (p, c)")
    case False
    then have "blk_hi b' \<le> blk_lo (p, c) \<or> blk_hi (p, c) \<le> blk_lo b'" using bk b(1) that by (auto simp: blocks_ok_def)
    then show ?thesis
      using blocks_ok_bounds [OF bk that] pb by (intro outside) (auto simp: blk_hi_def blk_lo_def)
  qed (auto intro: outside)
  have low: "rd64 m' a = rd64 m a" if "a \<in> meta lay" for a
  proof -
    have "unat a + 8 \<le> lo" "lo \<le> 2 ^ 64" using kinvD(1) [OF inv] that by (auto simp: meta_ok_def)
    then show ?thesis using pb(1) by (intro rd64_agree outside) (auto simp: blk_lo_def)
  qed
  have fr: "rd64 m' q = rd64 m q" if d: "d < 29" "q \<in> set (F d)" for d q
  proof -
    note q = free_object [OF inv d]
    have "(q, d) \<noteq> (p, c)" using b(2) d(2) by auto
    then have "blk_hi (q, d) \<le> blk_lo (p, c) \<or> blk_hi (p, c) \<le> blk_lo (q, d)" using bk b(1) q(1) by (auto simp: blocks_ok_def)
    then show ?thesis
      using blocks_ok_bounds [OF bk q(1), simplified] pb
      by (intro rd64_agree outside) (auto simp: blk_hi_def blk_lo_def)
  qed
  have "rd64 m' (rd64 m (kl_currentArena lay) + 8) = rd64 m (rd64 m (kl_currentArena lay) + 8)"
    if cur: "rd64 m (kl_currentArena lay) \<noteq> 0"
  proof -
    note a = arena_word [OF inv cur]
    have "off_blocks (unat (rd64 m (kl_currentArena lay))) (unat (rd64 m (kl_currentArena lay)) + 16) B"
      using kinvD(4) [OF inv] cur by (simp add: zone_ok_def Let_def)
    then have "blk_hi (p, c) \<le> unat (rd64 m (kl_currentArena lay)) \<or> unat (rd64 m (kl_currentArena lay)) + 16 \<le> blk_lo (p, c)"
      using b(1) by (auto simp: off_blocks_def)
    then show ?thesis using a pb by (intro rd64_agree outside) (auto simp: blk_hi_def blk_lo_def)
  qed
  then have "zone_ok m' lay lo hi B" using low by (intro zone_ok_frame [OF kinvD(4) [OF inv]]) auto
  moreover have "blocks_ok m' lo hi B"
    using hdr bk by (intro blocks_ok_frame [OF bk]) (auto simp: blocks_ok_def)
  moreover have "free_ok m' lay B F" using low fr by (intro free_ok_frame [OF kinvD(5) [OF inv]]) auto
  ultimately show ?thesis using inv by (simp add: kinv_def)
qed

lemma ada_malloc_kinv:
  assumes inv: "kinv m lay lo hi B F" and c: "c < 29"
    and gs: "\<And>p m. oh_getSize m (p - 16) \<noteq> 0 \<Longrightarrow> gs p m = Ok (oh_getSize m (p - 16))"
  shows "case F c of [] \<Rightarrow> ada_malloc gs (kl_bin lay c) m = Ok (0, m)
    | p # ps \<Rightarrow> p \<noteq> 0 \<and> (\<exists>v. ada_malloc gs (kl_bin lay c) m = Ok (p, wr64 m (kl_bin lay c) v) \<and>
        kinv (wr64 m (kl_bin lay c) v) lay lo hi B (F(c := ps)))"
proof (cases "F c")
  case Nil
  have "sll m (rd64 m (kl_bin lay c)) (F c)" using kinvD(5) [OF inv] c by (simp add: free_ok_def)
  then have "rd64 m (kl_bin lay c) = 0" using Nil by simp
  then show ?thesis using Nil by (simp add: ada_malloc_def sll_get_def)
next
  case (Cons p ps)
  have l: "rd64 m (kl_bin lay c) = p" "p \<noteq> 0" "sll m (rd64 m p) ps" "distinct ps" "\<forall>q\<in>set (p # ps). (q, c) \<in> B"
    using kinvD(5) [OF inv] c Cons by (auto simp: free_ok_def dest!: spec [of _ c])
  define m' where "m' = wr64 m (kl_bin lay c) (rd64 m p)"
  have k: "kinv m' lay lo hi B (F(c := ps))" unfolding m'_def using l by (intro kinv_set_bin [OF inv c]) auto
  have sz: "oh_getSize m' (p - 16) = class2Size (int c)"
    using kinvD(3) [OF k] l(5) by (auto simp: blocks_ok_def)
  then have "8 \<le> oh_getSize m' (p - 16)" using size2Class_class2Size(4) [of "int c"] c by simp
  moreover from this have "oh_getSize m' (p - 16) \<noteq> 0" by auto
  ultimately have "ada_malloc gs (kl_bin lay c) m = Ok (p, m')"
    using l gs [of m' p] by (simp add: ada_malloc_def sll_get_def m'_def [symmetric])
  then show ?thesis using Cons k l(2) unfolding m'_def by auto
qed

lemma seg_free_kinv:
  assumes inv: "kinv m lay lo hi B F" and b: "(p, c) \<in> B" "p \<notin> set (F c)"
    and gs: "\<And>p m. oh_getSize m (p - 16) \<noteq> 0 \<Longrightarrow> gs p m = Ok (oh_getSize m (p - 16))"
  shows "\<exists>v w. seg_free gs lay p m = Ok (wr64 (wr64 m p v) (kl_bin lay c) w) \<and>
    kinv (wr64 (wr64 m p v) (kl_bin lay c) w) lay lo hi B (F(c := p # F c))"
proof -
  note bk = kinvD(3) [OF inv]
  have c: "c < 29" and sz: "oh_getSize m (p - 16) = class2Size (int c)" using bk b(1) by (auto simp: blocks_ok_def)
  note cl = size2Class_class2Size [of "int c"]
  have "class2Size (int c) \<noteq> 0" using cl(4) c by auto
  then have g: "gs p m = Ok (class2Size (int c))" using gs [of m p] sz by simp
  note pb = blocks_ok_bounds [OF bk b(1), simplified]
  have p0: "p \<noteq> 0" using pb(5) by auto
  have l: "sll m (rd64 m (kl_bin lay c)) (F c)" "distinct (F c)" "\<forall>q\<in>set (F c). (q, c) \<in> B"
    using kinvD(5) [OF inv] c by (auto simp: free_ok_def)
  define m1 where "m1 = wr64 m p (rd64 m (kl_bin lay c))"
  have "unat x < unat p \<or> unat p + 8 \<le> unat x \<Longrightarrow> m1 x = m x" for x
    using agree_wr64 [of p "Suc (unat x)" "unat x"] pb by (auto simp: m1_def agree_def)
  moreover have "(8 :: nat) \<le> 2 ^ (c + 3)" using power_increasing [of 3 "c + 3" "2 :: nat"] by simp
  ultimately have "m1 x = m x" if "\<not> (blk_lo (p, c) + 4 \<le> unat x \<and> unat x < blk_hi (p, c))" for x
    using that pb(3,5) by (cases "unat x < unat p \<or> unat p + 8 \<le> unat x") (auto simp: blk_lo_def)
  then have k1: "kinv m1 lay lo hi B F" by (rule kinv_object_write [OF inv b])
  have bin1: "rd64 m1 (kl_bin lay c) = rd64 m (kl_bin lay c)"
    unfolding m1_def using pb c by (intro high_write_meta [OF kinvD(1) [OF inv]]) auto
  have "sll m1 p (p # F c)" using p0 l(1) kinvD(5) [OF k1] c bin1 by (auto simp: m1_def mem_simps free_ok_def)
  then have k2: "kinv (wr64 m1 (kl_bin lay c) p) lay lo hi B (F(c := p # F c))"
    using l b by (intro kinv_set_bin [OF k1 c]) auto
  have "\<not> maxObjectSize < class2Size (int c)" using cl(3) c by (simp add: not_less)
  then have "seg_free gs lay p m = Ok (wr64 m1 (kl_bin lay c) p)"
    using g cl c p0 by (simp add: seg_free_def Let_def ada_free_def sll_insert_def m1_def)
  then show ?thesis using k2 unfolding m1_def by blast
qed

section \<open>The zone\<close>

text \<open>The invariant without the zone, which a refill changes in several writes.\<close>

definition kcore :: "mem \<Rightarrow> klayout \<Rightarrow> nat \<Rightarrow> nat \<Rightarrow> (u64 \<times> nat) set \<Rightarrow> (nat \<Rightarrow> u64 list) \<Rightarrow> bool" where
  "kcore m lay lo hi B F \<longleftrightarrow> meta_ok lay lo \<and> lo \<le> hi \<and> blocks_ok m lo hi B \<and> free_ok m lay B F"

lemma kinv_kcore: "kinv m lay lo hi B F \<longleftrightarrow> kcore m lay lo hi B F \<and> zone_ok m lay lo hi B"
  by (auto simp: kinv_def kcore_def)

lemma kcore_frame:
  assumes k: "kcore m lay lo hi B F" and m': "\<And>a. a \<in> kl_bin lay ` {..<29} \<Longrightarrow> rd64 m' a = rd64 m a"
    and "\<And>b. b \<in> B \<Longrightarrow> agree m m' (blk_lo b) (blk_hi b)"
  shows "kcore m' lay lo hi B F"
proof -
  have bk: "blocks_ok m lo hi B" and fr: "free_ok m lay B F" using k by (auto simp: kcore_def)
  have "blocks_ok m' lo hi B"
  proof (rule blocks_ok_frame [OF bk])
    show "\<forall>b\<in>B. agree m m' (blk_lo b) (blk_lo b + 4)"
      using assms(3) blocks_ok_bounds(3) [OF bk] by (fastforce simp: blk_lo_def intro: agree_sub)
  qed (use bk in \<open>auto simp: blocks_ok_def\<close>)
  moreover have "rd64 m' p = rd64 m p" if "d < 29" "p \<in> set (F d)" for d p
  proof -
    have "(p, d) \<in> B" using fr that by (auto simp: free_ok_def)
    from agree_sub [OF assms(3) [OF this]] blocks_ok_bounds [OF bk this] show ?thesis
      by (intro rd64_agree) (auto simp: blk_lo_def)
  qed
  ultimately show ?thesis using k m' free_ok_frame [OF fr, of m' B] by (auto simp: kcore_def)
qed

lemma kcore_meta_write:
  assumes k: "kcore m lay lo hi B F" and b: "b \<in> {kl_sizeRemaining lay, kl_currentArena lay, kl_pastArenas lay}"
  shows "kcore (wr64 m b v) lay lo hi B F"
proof (rule kcore_frame [OF k])
  have mt: "meta_ok lay lo" and bk: "blocks_ok m lo hi B" using k by (auto simp: kcore_def)
  have bm: "b \<in> meta lay" using b by auto
  show "rd64 (wr64 m b v) a = rd64 m a" if "a \<in> kl_bin lay ` {..<29}" for a
  proof (rule meta_read [OF mt _ bm])
    show "a \<in> meta lay" using that by auto
    show "a \<noteq> b" using that b meta_distinct(2-4) [OF mt] by auto
  qed
  show "agree m (wr64 m b v) (blk_lo b') (blk_hi b')" if "b' \<in> B" for b'
    using blocks_ok_bounds(1) [OF bk that] by (intro meta_write_high [OF mt bm]) (simp add: blk_lo_def)
qed

lemma kcore_off_write:
  assumes k: "kcore m lay lo hi B F" and a: "lo \<le> unat a" "unat a + 8 \<le> 2 ^ 64" "off_blocks (unat a) (unat a + 8) B"
  shows "kcore (wr64 m a v) lay lo hi B F"
proof (rule kcore_frame [OF k])
  have mt: "meta_ok lay lo" using k by (auto simp: kcore_def)
  show "rd64 (wr64 m a v) b = rd64 m b" if "b \<in> kl_bin lay ` {..<29}" for b
    using that a by (intro high_write_meta [OF mt]) auto
  show "agree m (wr64 m a v) (blk_lo b') (blk_hi b')" if "b' \<in> B" for b'
    using a that by (intro agree_wr64) (auto simp: off_blocks_def)
qed

lemma kcore_mono: "kcore m lay lo hi B F \<Longrightarrow> hi \<le> hi' \<Longrightarrow> hi' < 2 ^ 64 \<Longrightarrow> kcore m lay lo hi' B F"
  by (fastforce simp: kcore_def blocks_ok_def)

lemma off_blocks_above: "blocks_ok m lo hi B \<Longrightarrow> hi \<le> l \<Longrightarrow> off_blocks l h B"
  by (fastforce simp: blocks_ok_def off_blocks_def)

lemma off_blocks_sub: "off_blocks l h B \<Longrightarrow> l \<le> l' \<Longrightarrow> h' \<le> h \<Longrightarrow> off_blocks l' h' B"
  by (fastforce simp: off_blocks_def)

subsection \<open>A new block\<close>

lemma zone_ok_fewer: "zone_ok m lay lo hi (insert b B) \<Longrightarrow> zone_ok m lay lo hi B"
  by (auto simp: zone_ok_def Let_def off_blocks_def)

text \<open>The bytes of a block that belongs to nobody become an object.\<close>

lemma kinv_add_block:
  assumes k: "kcore m lay lo hi B F" and z: "zone_ok m lay lo hi (insert (q, c) B)"
    and q: "lo + 16 \<le> unat q" "blk_hi (q, c) \<le> hi" "c < 29" "16 dvd unat q"
    and off: "off_blocks (blk_lo (q, c)) (blk_hi (q, c)) B"
    and m': "\<And>x. \<not> (blk_lo (q, c) \<le> unat x \<and> unat x < blk_hi (q, c)) \<Longrightarrow> m' x = m x"
    and sz: "oh_getSize m' (q - 16) = class2Size (int c)"
  shows "kinv m' lay lo hi (insert (q, c) B) F"
proof -
  have mt: "meta_ok lay lo" and bk: "blocks_ok m lo hi B" and le: "lo \<le> hi" "hi < 2 ^ 64"
    using k by (auto simp: kcore_def blocks_ok_def)
  have outside: "agree m m' l h" if "h \<le> blk_lo (q, c) \<or> blk_hi (q, c) \<le> l" for l h
    using m' that by (auto simp: agree_def)
  have low: "rd64 m' a = rd64 m a" if "a \<in> meta lay" for a
  proof -
    have "unat a + 8 \<le> lo" using mt that by (auto simp: meta_ok_def)
    then show ?thesis using q(1) le by (intro rd64_agree outside) (auto simp: blk_lo_def)
  qed
  have k': "kcore m' lay lo hi B F"
    using off by (intro kcore_frame [OF k] low outside) (auto simp: off_blocks_def)
  have arena: "rd64 m' (rd64 m (kl_currentArena lay) + 8) = rd64 m (rd64 m (kl_currentArena lay) + 8)"
    if cur: "rd64 m (kl_currentArena lay) \<noteq> 0"
  proof -
    let ?cur = "rd64 m (kl_currentArena lay)"
    have a: "unat ?cur + 16 \<le> unat (rd64 m (?cur + 8))" "off_blocks (unat ?cur) (unat ?cur + 16) (insert (q, c) B)"
      using z cur by (simp_all add: zone_ok_def Let_def)
    have "unat ?cur + 16 < 2 ^ 64" using a(1) unat_u64_less [of "rd64 m (?cur + 8)"] by linarith
    then have "unat (?cur + 8) = unat ?cur + 8" by (simp add: unat_plus_if')
    then show ?thesis using a(2) \<open>unat ?cur + 16 < 2 ^ 64\<close> by (intro rd64_agree outside) (auto simp: off_blocks_def)
  qed
  have "zone_ok m' lay lo hi (insert (q, c) B)" using low arena by (intro zone_ok_frame [OF z]) auto
  moreover have "blocks_ok m' lo hi (insert (q, c) B)"
    using k' q sz off by (auto simp: kcore_def blocks_ok_def off_blocks_def)
  moreover have "free_ok m' lay (insert (q, c) B) F" using k' by (auto simp: kcore_def free_ok_def)
  ultimately show ?thesis using mt le by (simp add: kinv_def)
qed

lemma zone_bump_kinv:
  assumes inv: "kinv m lay lo hi B F" and cur: "rd64 m (kl_currentArena lay) \<noteq> 0"
    and sz: "unat sz \<le> unat (rd64 m (kl_sizeRemaining lay))" "16 dvd unat sz"
    and cr: "c = rd64 m (kl_currentArena lay)" and p: "p = rd64 m (c + 8)"
    and m': "m' = wr64 (wr64 m (kl_sizeRemaining lay) (rd64 m (kl_sizeRemaining lay) - sz)) (c + 8) (p + sz)"
  shows "kcore m' lay lo hi B F" and "lo + 16 \<le> unat p" and "unat p + unat sz \<le> hi" and "16 dvd unat p"
    and "off_blocks (unat p) (unat p + unat sz) B"
    and "\<And>b. blk_lo b = unat p \<Longrightarrow> blk_hi b = unat p + unat sz \<Longrightarrow> zone_ok m' lay lo hi (insert b B)"
    and "unat c + 16 \<le> unat p" and "unat (c + 8) = unat c + 8" and "rd64 m' (kl_currentArena lay) = c"
    and "unat (rd64 m' (c + 8)) = unat p + unat sz" and "unat (rd64 m' (kl_sizeRemaining lay)) = unat (rd64 m (kl_sizeRemaining lay)) - unat sz"
proof -
  let ?r = "rd64 m (kl_sizeRemaining lay)"
  let ?m1 = "wr64 m (kl_sizeRemaining lay) (?r - sz)"
  have k: "kcore m lay lo hi B F" and z: "zone_ok m lay lo hi B" using inv by (auto simp: kinv_kcore)
  have mt: "meta_ok lay lo" and hi: "hi < 2 ^ 64" using k by (auto simp: kcore_def blocks_ok_def)
  have zz: "lo \<le> unat c" "unat c + 16 \<le> unat p" "16 dvd unat p" "unat ?r < 2 ^ 63" "unat p + unat ?r \<le> hi"
      "off_blocks (unat c) (unat c + 16) B" "off_blocks (unat p) (unat p + unat ?r) B"
    using z cur unfolding zone_ok_def Let_def p cr by auto
  have c8: "unat (c + 8) = unat c + 8" and ct: "unat c + 16 \<le> 2 ^ 64"
    using arena_word(2,3) [OF inv cur] by (simp_all add: cr)
  have off8: "off_blocks (unat (c + 8)) (unat (c + 8) + 8) B"
    using off_blocks_sub [OF zz(6), of "unat (c + 8)" "unat (c + 8) + 8"] c8 by simp
  show k': "kcore m' lay lo hi B F"
    unfolding m' using zz(1) c8 ct off8 by (intro kcore_off_write kcore_meta_write [OF k]) auto
  show "lo + 16 \<le> unat p" "unat p + unat sz \<le> hi" "16 dvd unat p" using zz sz by auto
  show "off_blocks (unat p) (unat p + unat sz) B" using off_blocks_sub [OF zz(7)] sz(1) by simp
  have mem: "rd64 m' (kl_currentArena lay) = c" "rd64 m' (kl_sizeRemaining lay) = ?r - sz" "rd64 m' (c + 8) = p + sz"
    using high_write_meta [OF mt, where m = ?m1 and a = "c + 8" and v = "p + sz"] zz(1) c8 ct
      meta_read [OF mt, of "kl_currentArena lay" "kl_sizeRemaining lay"] meta_distinct(5) [OF mt] cr
    by (auto simp: m' mem_simps)
  have u: "unat (p + sz) = unat p + unat sz" "unat (?r - sz) = unat ?r - unat sz"
    using zz(5) hi sz(1) by (simp_all add: unat_plus_if' unat_sub word_le_nat_alt)
  show "unat c + 16 \<le> unat p" "unat (c + 8) = unat c + 8" "rd64 m' (kl_currentArena lay) = c" using zz(2) c8 mem(1) by auto
  show "unat (rd64 m' (c + 8)) = unat p + unat sz" "unat (rd64 m' (kl_sizeRemaining lay)) = unat ?r - unat sz"
    unfolding mem u by simp_all
  show "zone_ok m' lay lo hi (insert b B)" if b: "blk_lo b = unat p" "blk_hi b = unat p + unat sz" for b
    unfolding zone_ok_def Let_def mem u off_blocks_def
    using zz sz b off_blocks_sub [OF zz(7), of "unat p + unat sz" "unat p + unat ?r"] by (auto simp: off_blocks_def)
qed

text \<open>A new arena of \<open>n\<close> bytes at the old end \<open>hi\<close> of the memory in use; the old arena joins the past ones.\<close>

lemma zone_refill_kinv:
  assumes inv: "kinv m lay lo hi B F" and a: "unat a = hi" "16 dvd hi" and n: "unat n < 2 ^ 63"
    and hi': "hi + 16 + unat n \<le> hi'" "hi' < 2 ^ 64"
    and c: "c = rd64 m (kl_currentArena lay)"
    and m1: "m1 = (if c \<noteq> 0 then wr64 (wr64 m c (rd64 m (kl_pastArenas lay))) (kl_pastArenas lay) c else m)"
    and m': "m' = wr64 (wr64 (wr64 (wr64 m1 (kl_currentArena lay) a) (a + 8) (a + 16)) a 0) (kl_sizeRemaining lay) n"
  shows "kinv m' lay lo hi' B F" and "rd64 m' (kl_currentArena lay) = a" and "rd64 m' (kl_sizeRemaining lay) = n" and "a \<noteq> 0"
    and "rd64 m' (a + 8) = a + 16" and "unat (a + 16) = hi + 16" and "unat (a + 8) = hi + 8"
proof -
  have k: "kcore m lay lo hi B F" and z: "zone_ok m lay lo hi B" using inv by (auto simp: kinv_kcore)
  have mt: "meta_ok lay lo" and bk: "blocks_ok m lo hi B" and le: "lo \<le> hi" using k by (auto simp: kcore_def)
  have "unat (kl_pastArenas lay) + 8 \<le> lo" using mt by (auto simp: meta_ok_def)
  then show "a \<noteq> 0" using a le by auto
  have off: "off_blocks l h B" if "hi \<le> l" for l h using off_blocks_above [OF bk that] .
  have u: "unat (a + 8) = hi + 8" "unat (a + 16) = hi + 16" using a(1) hi' by (simp_all add: unat_plus_if')
  have "kcore m1 lay lo hi B F"
  proof (cases "c = 0")
    case False
    note w = arena_word [OF inv False [unfolded c], folded c]
    have "off_blocks (unat c) (unat c + 8) B"
      using z False c off_blocks_sub [of "unat c" "unat c + 16" B "unat c" "unat c + 8"] by (simp add: zone_ok_def Let_def)
    then show ?thesis unfolding m1 if_P [OF False] using w by (intro kcore_meta_write kcore_off_write [OF k]) auto
  qed (use k m1 in simp)
  then have "kcore m1 lay lo hi' B F" by (rule kcore_mono) (use hi' in auto)
  then have k': "kcore m' lay lo hi' B F"
    unfolding m' using a u hi' le by (intro kcore_meta_write kcore_off_write off) auto
  have hw: "rd64 (wr64 x a v) (kl_currentArena lay) = rd64 x (kl_currentArena lay)"
      "rd64 (wr64 x (a + 8) v) (kl_currentArena lay) = rd64 x (kl_currentArena lay)" for x v
    using a u hi' le by (auto intro!: high_write_meta [OF mt])
  have "rd64 (wr64 x (kl_sizeRemaining lay) v) (kl_currentArena lay) = rd64 x (kl_currentArena lay)" for x v
    using meta_distinct(5) [OF mt] by (intro meta_read [OF mt]) auto
  then show cur: "rd64 m' (kl_currentArena lay) = a" unfolding m' by (simp only: hw rd64_wr64_same)
  show rem: "rd64 m' (kl_sizeRemaining lay) = n" unfolding m' by (simp add: mem_simps)
  show "unat (a + 16) = hi + 16" "unat (a + 8) = hi + 8" by (rule u)+
  show sp: "rd64 m' (a + 8) = a + 16"
  proof -
    have "rd64 (wr64 (wr64 x (a + 8) (a + 16)) a 0) (a + 8) = a + 16" for x
      using a u hi' by (subst rd64_agree [OF agree_wr64]) (auto simp: mem_simps)
    moreover have "rd64 (wr64 x (kl_sizeRemaining lay) n) (a + 8) = rd64 x (a + 8)" for x
      using u hi' le by (intro rd64_agree meta_write_high [OF mt]) auto
    ultimately show ?thesis unfolding m' by simp
  qed
  have "zone_ok m' lay lo hi' B"
    unfolding zone_ok_def Let_def cur rem sp using a u n hi' le off by auto
  then show "kinv m' lay lo hi' B F" using k' by (simp add: kinv_kcore)
qed

subsection \<open>What an operation of one heap can touch\<close>

text \<open>
  A heap owns its members, the header and the rest of its current arena. The whole arena, with the
  blocks that were cut from it, is an interval of its own.
\<close>

definition bytes8 :: "u64 \<Rightarrow> nat set" where "bytes8 a = {unat a..<unat a + 8}"

definition meta_reg :: "klayout \<Rightarrow> nat set" where "meta_reg lay = (\<Union>a\<in>meta lay. bytes8 a)"

definition zone_reg :: "mem \<Rightarrow> klayout \<Rightarrow> nat set" where
  "zone_reg m lay =
     (let cur = rd64 m (kl_currentArena lay); space = rd64 m (cur + 8); rem = unat (rd64 m (kl_sizeRemaining lay)) in
      if cur = 0 then {} else {unat cur..<unat cur + 16} \<union> {unat space..<unat space + rem})"

definition arena_reg :: "mem \<Rightarrow> klayout \<Rightarrow> nat set" where
  "arena_reg m lay =
     (let cur = rd64 m (kl_currentArena lay); space = rd64 m (cur + 8); rem = unat (rd64 m (kl_sizeRemaining lay)) in
      if cur = 0 then {} else {unat cur..<unat space + rem})"

definition touches :: "nat set \<Rightarrow> mem \<Rightarrow> mem \<Rightarrow> bool" where
  "touches R m m' \<longleftrightarrow> (\<forall>x. unat x \<notin> R \<longrightarrow> m' x = m x)"

lemma touches_refl [simp]: "touches R m m"
  by (simp add: touches_def)

lemma touches_trans: "touches R m m' \<Longrightarrow> touches R m' m'' \<Longrightarrow> touches R m m''"
  by (simp add: touches_def)

lemma touches_mono: "touches R m m' \<Longrightarrow> R \<subseteq> R' \<Longrightarrow> touches R' m m'"
  by (auto simp: touches_def)

lemma touches_wr64: "unat a + 8 \<le> 2 ^ 64 \<Longrightarrow> bytes8 a \<subseteq> R \<Longrightarrow> touches R m (wr64 m a v)"
  unfolding touches_def
proof (intro allI impI)
  fix x :: u64 assume a: "unat a + 8 \<le> 2 ^ 64" "bytes8 a \<subseteq> R" "unat x \<notin> R"
  then have "\<not> x - a < 8" using word_at [of a 8 x] by (auto simp: bytes8_def)
  then show "wr64 m a v x = m x" by (rule wr64_other)
qed

lemma touches_agree: "touches R m m' \<Longrightarrow> {l..<h} \<inter> R = {} \<Longrightarrow> agree m m' l h"
  by (auto simp: touches_def agree_def)

lemma touches_rd64: "touches R m m' \<Longrightarrow> bytes8 a \<inter> R = {} \<Longrightarrow> unat a + 8 \<le> 2 ^ 64 \<Longrightarrow> rd64 m' a = rd64 m a"
  by (rule rd64_agree) (auto intro!: touches_agree simp: bytes8_def)

definition own :: "mem \<Rightarrow> klayout \<Rightarrow> nat \<Rightarrow> nat set" where
  "own m lay hi = meta_reg lay \<union> zone_reg m lay \<union> {hi..}"

definition stays :: "klayout \<Rightarrow> mem \<Rightarrow> nat \<Rightarrow> mem \<Rightarrow> nat \<Rightarrow> bool" where
  "stays lay m hi m' hi' \<longleftrightarrow> touches (own m lay hi) m m' \<and> own m' lay hi' \<subseteq> own m lay hi \<and>
     arena_reg m' lay \<subseteq> arena_reg m lay \<union> {hi..} \<and> hi \<le> hi'"

lemma stays_trans: "stays lay m hi m' hi' \<Longrightarrow> stays lay m' hi' m'' hi'' \<Longrightarrow> stays lay m hi m'' hi''"
proof -
  assume a: "stays lay m hi m' hi'" "stays lay m' hi' m'' hi''"
  have "touches (own m lay hi) m m''" using a touches_trans touches_mono unfolding stays_def by blast
  moreover have "{hi'..} \<subseteq> {hi..}" using a by (auto simp: stays_def)
  ultimately show ?thesis using a unfolding stays_def by (blast intro: order_trans)
qed

lemma meta_bytes: "a \<in> meta lay \<Longrightarrow> bytes8 a \<subseteq> own m lay hi" "meta_ok lay lo \<Longrightarrow> a \<in> meta lay \<Longrightarrow> unat a + 8 \<le> 2 ^ 64"
  by (auto simp: own_def meta_reg_def meta_ok_def)

lemma zone_bump_stays:
  assumes inv: "kinv m lay lo hi B F" and cur: "rd64 m (kl_currentArena lay) \<noteq> 0"
    and sz: "unat sz \<le> unat (rd64 m (kl_sizeRemaining lay))" "16 dvd unat sz"
    and cr: "c = rd64 m (kl_currentArena lay)" and p: "p = rd64 m (c + 8)"
    and m': "m' = wr64 (wr64 m (kl_sizeRemaining lay) (rd64 m (kl_sizeRemaining lay) - sz)) (c + 8) (p + sz)"
  shows "stays lay m hi m' hi" and "{unat p..<unat p + unat sz} \<subseteq> arena_reg m' lay \<inter> own m lay hi"
proof -
  note z = zone_bump_kinv [OF inv cur sz cr p m'] and mt = kinvD(1) [OF inv]
  have c: "bytes8 (c + 8) \<subseteq> own m lay hi" "unat (c + 8) + 8 \<le> 2 ^ 64"
    using z(8) arena_word(2) [OF inv cur] cur by (auto simp: own_def zone_reg_def Let_def bytes8_def cr)
  have t: "touches (own m lay hi) m m'"
    unfolding m' using c meta_bytes mt by (intro touches_trans [OF touches_wr64 touches_wr64]) auto
  have "zone_reg m' lay \<subseteq> zone_reg m lay" "arena_reg m' lay = arena_reg m lay"
    using z(9-11) sz(1) cur p cr by (auto simp: zone_reg_def arena_reg_def Let_def)
  then show "stays lay m hi m' hi" using t by (auto simp: stays_def own_def)
  show "{unat p..<unat p + unat sz} \<subseteq> arena_reg m' lay \<inter> own m lay hi"
    using z(7,9-11) sz(1) cur p cr by (auto simp: own_def zone_reg_def arena_reg_def Let_def)
qed

lemma zone_refill_stays:
  assumes inv: "kinv m lay lo hi B F" and a: "unat a = hi" "16 dvd hi" and n: "unat n < 2 ^ 63"
    and hi': "hi + 16 + unat n \<le> hi'" "hi' < 2 ^ 64"
    and c: "c = rd64 m (kl_currentArena lay)"
    and m1: "m1 = (if c \<noteq> 0 then wr64 (wr64 m c (rd64 m (kl_pastArenas lay))) (kl_pastArenas lay) c else m)"
    and m': "m' = wr64 (wr64 (wr64 (wr64 m1 (kl_currentArena lay) a) (a + 8) (a + 16)) a 0) (kl_sizeRemaining lay) n"
  shows "stays lay m hi m' hi'"
proof -
  note z = zone_refill_kinv [OF inv a n hi' c m1 m'] and mt = kinvD(1) [OF inv]
  let ?R = "own m lay hi"
  note w = touches_trans [OF _ touches_wr64]
  have "touches ?R m m1"
  proof (cases "c = 0")
    case False
    have "bytes8 c \<subseteq> ?R" "unat c + 8 \<le> 2 ^ 64"
      using arena_word(2) [OF inv] False by (auto simp: own_def zone_reg_def Let_def bytes8_def c)
    then show ?thesis unfolding m1 if_P [OF False] using meta_bytes mt by (intro w touches_refl) auto
  qed (simp add: m1)
  moreover have "bytes8 a \<subseteq> ?R" "unat a + 8 \<le> 2 ^ 64" "bytes8 (a + 8) \<subseteq> ?R" "unat (a + 8) + 8 \<le> 2 ^ 64"
    using a hi' z(7) by (auto simp: own_def bytes8_def)
  ultimately have t: "touches ?R m m'" unfolding m' using meta_bytes mt by (intro w) auto
  have "zone_reg m' lay \<subseteq> {hi..}" "arena_reg m' lay \<subseteq> {hi..}"
    unfolding zone_reg_def arena_reg_def Let_def z(2,3,5) using a z(6) by auto
  then show ?thesis using t hi' by (auto simp: stays_def own_def)
qed

lemma regs_same:
  assumes "rd64 m' (kl_currentArena lay) = rd64 m (kl_currentArena lay)" and "rd64 m' (kl_sizeRemaining lay) = rd64 m (kl_sizeRemaining lay)"
    and "rd64 m (kl_currentArena lay) \<noteq> 0 \<Longrightarrow> rd64 m' (rd64 m (kl_currentArena lay) + 8) = rd64 m (rd64 m (kl_currentArena lay) + 8)"
  shows "zone_reg m' lay = zone_reg m lay" and "arena_reg m' lay = arena_reg m lay"
  using assms by (auto simp: zone_reg_def arena_reg_def Let_def)

lemma meta_word_stays:
  assumes inv: "kinv m lay lo hi B F" and c: "kl_bin lay c \<in> meta lay" "c < 29"
  shows "stays lay m hi (wr64 m (kl_bin lay c) v) hi"
proof -
  note mt = kinvD(1) [OF inv] and md = meta_distinct [OF kinvD(1) [OF inv]]
  have "rd64 (wr64 m (kl_bin lay c) v) (kl_currentArena lay) = rd64 m (kl_currentArena lay)"
      "rd64 (wr64 m (kl_bin lay c) v) (kl_sizeRemaining lay) = rd64 m (kl_sizeRemaining lay)"
    using md(2,3) [OF c(2)] c(1) by (auto intro!: meta_read [OF mt])
  note e = regs_same [OF this kinv_meta_write(3) [OF inv c(1)]]
  have "touches (own m lay hi) m (wr64 m (kl_bin lay c) v)" by (rule touches_wr64 [OF meta_bytes(2) [OF mt c(1)] meta_bytes(1) [OF c(1)]])
  then show ?thesis by (simp add: stays_def own_def e)
qed

lemma block_stays:
  assumes st: "stays lay m hi m1 hi1" and mt: "meta_ok lay lo" and z: "zone_ok m1 lay lo hi1 (insert b B)"
    and b: "lo \<le> blk_lo b" "{blk_lo b..<blk_hi b} \<subseteq> own m lay hi"
    and m': "\<And>x. \<not> (blk_lo b \<le> unat x \<and> unat x < blk_hi b) \<Longrightarrow> m' x = m1 x"
  shows "stays lay m hi m' hi1" and "arena_reg m' lay = arena_reg m1 lay"
proof -
  have t: "touches {blk_lo b..<blk_hi b} m1 m'" using m' by (auto simp: touches_def)
  have low: "rd64 m' a = rd64 m1 a" if "a \<in> meta lay" for a
    using mt that b(1) by (intro touches_rd64 [OF t]) (auto simp: bytes8_def meta_ok_def)
  have ar: "rd64 m' (rd64 m1 (kl_currentArena lay) + 8) = rd64 m1 (rd64 m1 (kl_currentArena lay) + 8)"
    if cur: "rd64 m1 (kl_currentArena lay) \<noteq> 0"
  proof -
    let ?c = "rd64 m1 (kl_currentArena lay)"
    have a: "unat ?c + 16 \<le> unat (rd64 m1 (?c + 8))" "off_blocks (unat ?c) (unat ?c + 16) (insert b B)"
      using z cur by (simp_all add: zone_ok_def Let_def)
    have "unat ?c + 16 < 2 ^ 64" using a(1) unat_u64_less [of "rd64 m1 (?c + 8)"] by linarith
    moreover from this have "unat (?c + 8) = unat ?c + 8" by (simp add: unat_plus_if')
    ultimately show ?thesis using a(2) by (intro touches_rd64 [OF t]) (auto simp: bytes8_def off_blocks_def)
  qed
  note e = regs_same [OF low [OF meta_members(3)] low [OF meta_members(2)] ar]
  show "arena_reg m' lay = arena_reg m1 lay" by (rule e(2))
  show "stays lay m hi m' hi1"
    using st touches_trans [OF _ touches_mono [OF t b(2)]] by (simp add: stays_def own_def e)
qed

section \<open>The layers over a source heap\<close>

lemma sint_small: "unat x < 2 ^ 63 \<Longrightarrow> sint x = uint x" for x :: u64
proof -
  assume "unat x < 2 ^ 63"
  then have "int (unat x) < int (2 ^ 63)" by (simp only: of_nat_less_iff)
  then have "uint x < 2 ^ 63" by simp
  then have "signed_take_bit 63 (uint x) = uint x" using uint_ge_0 [of x] by (intro signed_take_bit_int_eq_self) linarith+
  then show ?thesis by (simp add: sint_uint)
qed

lemma round16: "16 dvd unat sz \<Longrightarrow> unat sz \<le> 2 ^ 32 \<Longrightarrow> (sz + 15) AND NOT 15 = sz" for sz :: u64
proof -
  assume a: "16 dvd unat sz" "unat sz \<le> 2 ^ 32"
  have "unat (sz + 15) = unat sz + 15" using a(2) by (simp add: unat_plus_if')
  moreover have "16 * ((unat sz + 15) div 16) = unat sz" using a(1) by (auto elim!: dvdE)
  ultimately show ?thesis
    using unat_aligndown [of 4 "sz + 15"] by (simp add: aligndown_def word_unat_eq_iff)
qed

definition need :: "'s source_heap \<Rightarrow> u64 \<Rightarrow> u64" where
  "need D sz = (if src_chunk D < sz then sz else src_chunk D)"

lemma class_of_spec:
  assumes "0 < sz" and "sz \<le> MallocMaxSize" and "c = nat (size2Class n)"
    and n: "n = (((if sz < 16 then 16 else sz) + 16 - 1) AND NOT (16 - 1))"
  shows "0 < c" and "c < 29" and "size2Class n = int c" and "\<not> class2Size (int c) < n" and "sz \<le> class2Size (int c)"
proof -
  define t where "t = (if sz < 16 then 16 else sz)"
  have s: "16 \<le> unat t" "unat t \<le> 2147483647" "unat sz \<le> unat t"
    using assms(2) by (auto simp: t_def MallocMaxSize_def word_le_nat_alt word_less_nat_alt)
  have "unat (t + 15) = unat t + 15" using s by (simp add: unat_plus_if')
  then have u: "unat n = 16 * ((unat t + 15) div 16)"
    using unat_aligndown [of 4 "t + 15"] by (simp add: n t_def [symmetric] aligndown_def add.commute)
  moreover have "(unat t + 15) div 16 \<le> (2147483647 + 15) div 16" using s(2) by (intro div_le_mono) simp
  ultimately have b: "16 \<le> unat n" "unat t \<le> unat n" "unat n \<le> 2147483648" using s by simp_all
  note cl = size2Class_spec [of n, simplified, OF b(3)]
  show c: "size2Class n = int c" "c < 29" using cl(1,2) assms(3) by auto
  show "\<not> class2Size (int c) < n" using cl(3) c by simp
  show "sz \<le> class2Size (int c)" using cl(3) c b(2) s(3) by (simp add: word_le_nat_alt)
  show "0 < c"
  proof (rule ccontr)
    assume "\<not> 0 < c"
    then have "unat (class2Size (size2Class n)) = 8" using c by (simp add: unat_class2Size)
    then show False using cl(3) b(1) by (simp add: word_le_nat_alt)
  qed
qed

text \<open>
  What the layers rely on: the source heap hands out pages in a row and leaves the memory alone; the
  size of an object is in its header; and \<open>big\<close>, the code between the free lists and the zone,
  writes inside the bytes it got from the zone and leaves the size in the header.
\<close>

locale kingsley = bump_heap ok "src_malloc D" pos top
  for D :: "'s source_heap" and ok :: "'s \<Rightarrow> bool" and pos :: "'s \<Rightarrow> nat" and top :: "'s \<Rightarrow> nat" +
  fixes base :: "'s \<Rightarrow> nat" and gs :: "u64 \<Rightarrow> mem \<Rightarrow> u64 res" and big :: "klayout \<Rightarrow> u64 \<Rightarrow> 's \<Rightarrow> (u64 \<times> 's) res"
  assumes mem_put [simp]: "src_mem D (src_put D m s) = m"
    and ok_put [simp]: "ok (src_put D m s) = ok s"
    and pos_put [simp]: "pos (src_put D m s) = pos s"
    and top_put [simp]: "top (src_put D m s) = top s"
    and base_put [simp]: "base (src_put D m s) = base s"
    and malloc_keeps: "src_malloc D sz s = Ok (p, s') \<Longrightarrow> src_mem D s' = src_mem D s \<and> base s' = base s"
    and top_word: "ok s \<Longrightarrow> top s < 2 ^ 64"
    and chunk: "unat (src_chunk D) \<le> 2 ^ 32"
    and gs_ok: "oh_getSize m (p - 16) \<noteq> 0 \<Longrightarrow> gs p m = Ok (oh_getSize m (p - 16))"
    and big_err: "zone_malloc D lay (sz + 32) s = Err e \<Longrightarrow> big lay sz s = Err e"
    and big_ok: "zone_malloc D lay (sz + 32) s = Ok (p, s1) \<Longrightarrow> ok s1 \<Longrightarrow> base s1 + 16 \<le> unat p \<Longrightarrow> 16 dvd unat p \<Longrightarrow>
      unat p + unat sz + 32 \<le> pos s1 \<Longrightarrow> 8 \<le> unat sz \<Longrightarrow> unat sz < 2 ^ 32 \<Longrightarrow>
      \<exists>s2. big lay sz s = Ok (p + 16, s2) \<and> ok s2 \<and> pos s2 = pos s1 \<and> top s2 = top s1 \<and> base s2 = base s1 \<and>
        oh_getSize (src_mem D s2) p = sz \<and>
        (\<forall>x. \<not> (unat p \<le> unat x \<and> unat x < unat p + unat sz + 32) \<longrightarrow> src_mem D s2 x = src_mem D s1 x)"
begin

text \<open>The zone handed out \<open>sz\<close> bytes at \<open>p\<close> that belong to no block and to no arena.\<close>

definition placed :: "klayout \<Rightarrow> (u64 \<times> nat) set \<Rightarrow> (nat \<Rightarrow> u64 list) \<Rightarrow> u64 \<Rightarrow> 's \<Rightarrow> u64 \<Rightarrow> 's \<Rightarrow> bool" where
  "placed lay B F sz st p st' \<longleftrightarrow> ok st' \<and> top st' = top st \<and> base st' = base st \<and> pos st \<le> pos st' \<and>
     kcore (src_mem D st') lay (base st) (pos st') B F \<and> base st + 16 \<le> unat p \<and> unat p + unat sz \<le> pos st' \<and>
     16 dvd unat p \<and> off_blocks (unat p) (unat p + unat sz) B \<and>
     (\<forall>b. blk_lo b = unat p \<longrightarrow> blk_hi b = unat p + unat sz \<longrightarrow> zone_ok (src_mem D st') lay (base st) (pos st') (insert b B)) \<and>
     stays lay (src_mem D st) (pos st) (src_mem D st') (pos st') \<and>
     {unat p..<unat p + unat sz} \<subseteq> arena_reg (src_mem D st') lay \<inter> own (src_mem D st) lay (pos st)"

definition heap_inv :: "klayout \<Rightarrow> (u64 \<times> nat) set \<Rightarrow> (nat \<Rightarrow> u64 list) \<Rightarrow> 's \<Rightarrow> bool" where
  "heap_inv lay B F st \<longleftrightarrow> ok st \<and> kinv (src_mem D st) lay (base st) (pos st) B F"

lemma zone_bump_placed:
  assumes inv: "heap_inv lay B F st" and cur: "rd64 (src_mem D st) (kl_currentArena lay) \<noteq> 0"
    and sz: "unat sz \<le> unat (rd64 (src_mem D st) (kl_sizeRemaining lay))" "16 dvd unat sz"
  shows "\<exists>p st'. zone_bump D lay sz st = Ok (p, st') \<and> placed lay B F sz st p st'"
proof -
  let ?m = "src_mem D st"
  let ?c = "rd64 ?m (kl_currentArena lay)"
  let ?p = "rd64 ?m (?c + 8)"
  let ?m1 = "wr64 ?m (kl_sizeRemaining lay) (rd64 ?m (kl_sizeRemaining lay) - sz)"
  have k: "kinv ?m lay (base st) (pos st) B F" using inv by (simp add: heap_inv_def)
  note mt = kinvD(1) [OF k] and z = zone_bump_kinv [OF k cur sz refl refl refl] and y = zone_bump_stays [OF k cur sz refl refl refl]
  have r: "rd64 ?m1 (kl_currentArena lay) = ?c" using meta_distinct(5) [OF mt] by (intro meta_read [OF mt]) auto
  have s: "rd64 ?m1 (?c + 8) = ?p" using kinv_meta_write(3) [OF k _ cur] by auto
  have "?p mod 16 = 0"
  proof -
    have "unat ?p mod 16 = 0" using z(4) by simp
    then show ?thesis by (simp add: word_unat_eq_iff unat_mod)
  qed
  moreover have "?p \<noteq> 0" using z(2) by auto
  ultimately have "zone_bump D lay sz st = Ok (?p, src_put D (wr64 ?m1 (?c + 8) (?p + sz)) st)"
    by (simp add: zone_bump_def Let_def r s)
  moreover have "placed lay B F sz st ?p (src_put D (wr64 ?m1 (?c + 8) (?p + sz)) st)"
    using z(1-6) y inv by (simp add: placed_def heap_inv_def)
  ultimately show ?thesis by blast
qed

lemma zone_refill_ok:
  assumes inv: "heap_inv lay B F st" and sz: "unat sz \<le> 2 ^ 32"
    and room: "pos st + page_up (need D sz + 16) \<le> top st"
  shows "\<exists>st'. zone_refill D lay sz st = Ok (True, st') \<and> heap_inv lay B F st' \<and> top st' = top st \<and> base st' = base st \<and>
    pos st \<le> pos st' \<and> rd64 (src_mem D st') (kl_currentArena lay) \<noteq> 0 \<and> rd64 (src_mem D st') (kl_sizeRemaining lay) = need D sz \<and>
    stays lay (src_mem D st) (pos st) (src_mem D st') (pos st')"
proof -
  let ?m = "src_mem D st" and ?n = "need D sz"
  let ?c = "rd64 ?m (kl_currentArena lay)"
  define m1 where "m1 = (if ?c \<noteq> 0 then wr64 (wr64 ?m ?c (rd64 ?m (kl_pastArenas lay))) (kl_pastArenas lay) ?c else ?m)"
  have i: "ok st" "kinv ?m lay (base st) (pos st) B F" using inv by (simp_all add: heap_inv_def)
  have n: "unat ?n \<le> 2 ^ 32" using sz chunk by (simp add: need_def)
  then have u: "unat (?n + 16) = unat ?n + 16" by (simp add: unat_plus_if')
  then have "fits_page (?n + 16)" using n by (simp add: fits_page_def)
  then obtain a st2 where a: "src_malloc D (?n + 16) (src_put D m1 st) = Ok (a, st2)" "unat a = pos st"
      "pos st2 = pos st + page_up (?n + 16)" "top st2 = top st" "ok st2"
    using alloc_ok [of "src_put D m1 st" "?n + 16"] i(1) room by auto
  have m2: "src_mem D st2 = m1" "base st2 = base st" using malloc_keeps [OF a(1)] by simp_all
  have al: "16 dvd pos st" using aligned [OF i(1)] by (rule dvd_trans [rotated]) simp
  have "unat ?n + 16 \<le> page_up (?n + 16)" unfolding u [symmetric] page_up_def by linarith
  then have hi: "pos st + 16 + unat ?n \<le> pos st2" using a(3) by simp
  have "pos st2 \<le> top st2" using bounded [OF a(5)] by blast
  then have lt: "pos st2 < 2 ^ 64" using top_word [OF a(5)] by simp
  have n63: "unat ?n < 2 ^ 63" using n by simp
  note z = zone_refill_kinv(1-4) [OF i(2) a(2) al n63 hi lt refl m1_def refl]
    and y = zone_refill_stays [OF i(2) a(2) al n63 hi lt refl m1_def refl]
  let ?m' = "wr64 (wr64 (wr64 (wr64 m1 (kl_currentArena lay) a) (a + 8) (a + 16)) a 0) (kl_sizeRemaining lay) ?n"
  have "zone_refill D lay sz st = Ok (True, src_put D ?m' st2)"
    using a(1) z(4) m2 by (simp add: zone_refill_def Let_def need_def [symmetric] m1_def [symmetric])
  then show ?thesis using z y a m2 hi by (simp add: heap_inv_def)
qed

lemma zone_refill_full:
  assumes inv: "heap_inv lay B F st" and sz: "unat sz \<le> 2 ^ 32"
    and full: "top st < pos st + page_up (need D sz + 16)"
  shows "zone_refill D lay sz st = Err Exit"
proof -
  have n: "unat (need D sz) \<le> 2 ^ 32" using sz chunk by (simp add: need_def)
  then have "fits_page (need D sz + 16)" by (simp add: fits_page_def unat_plus_if')
  then have "src_malloc D (need D sz + 16) (src_put D m st) = Err Exit" for m
    using alloc_full [of "src_put D m st" "need D sz + 16"] inv full by (simp add: heap_inv_def)
  then show ?thesis by (simp add: zone_refill_def Let_def need_def [symmetric])
qed

lemma zone_malloc_placed:
  assumes inv: "heap_inv lay B F st" and sz: "unat sz \<le> 2 ^ 32" "16 dvd unat sz"
  shows "(\<exists>p st'. zone_malloc D lay sz st = Ok (p, st') \<and> placed lay B F sz st p st') \<or>
    zone_malloc D lay sz st = Err Exit \<and> top st < pos st + page_up (need D sz + 16)"
proof -
  let ?m = "src_mem D st"
  let ?low = "rd64 ?m (kl_currentArena lay) = 0 \<or> sint (rd64 ?m (kl_sizeRemaining lay)) < sint sz"
  have zm: "zone_malloc D lay sz st = rbind (if ?low then rbind (zone_refill D lay sz st)
      (\<lambda>(got, st). if got then zone_bump D lay sz st else Ok (0, st)) else zone_bump D lay sz st)
      (\<lambda>(ptr, st). if ptr mod 16 = 0 then Ok (ptr, st) else Err Assertion)"
    using round16 [of sz] sz by (simp add: zone_malloc_def zoneMalloc_def Let_def)
  have al: "p mod 16 = 0" if "placed lay B F sz s p s'" for p s s'
  proof -
    have "unat p mod 16 = 0" using that by (simp add: placed_def)
    then show ?thesis by (simp add: word_unat_eq_iff unat_mod)
  qed
  consider (bump) "\<not> ?low" | (refill) ?low "pos st + page_up (need D sz + 16) \<le> top st"
    | (full) ?low "top st < pos st + page_up (need D sz + 16)" by linarith
  then show ?thesis
  proof cases
    case bump
    have "unat (rd64 ?m (kl_sizeRemaining lay)) < 2 ^ 63"
      using kinvD(4) [of ?m lay "base st" "pos st" B F] inv bump by (simp add: heap_inv_def zone_ok_def Let_def)
    then have "unat sz \<le> unat (rd64 ?m (kl_sizeRemaining lay))" using bump sz by (simp add: sint_small not_less word_le_nat_alt [symmetric] word_le_def)
    with zone_bump_placed [OF inv _ this sz(2)] bump al show ?thesis unfolding zm by auto
  next
    case refill
    obtain st1 where r: "zone_refill D lay sz st = Ok (True, st1)" "heap_inv lay B F st1" "top st1 = top st" "base st1 = base st"
        "pos st \<le> pos st1" "rd64 (src_mem D st1) (kl_currentArena lay) \<noteq> 0" "rd64 (src_mem D st1) (kl_sizeRemaining lay) = need D sz"
        "stays lay (src_mem D st) (pos st) (src_mem D st1) (pos st1)"
      using zone_refill_ok [OF inv sz(1) refill(2)] by blast
    have "unat sz \<le> unat (need D sz)" by (simp add: need_def word_less_nat_alt not_less)
    then obtain p st2 where p: "zone_bump D lay sz st1 = Ok (p, st2)" "placed lay B F sz st1 p st2"
      using zone_bump_placed [OF r(2,6) _ sz(2)] r(7) by auto
    have "own (src_mem D st1) lay (pos st1) \<subseteq> own (src_mem D st) lay (pos st)" using r(8) by (simp add: stays_def)
    then have "placed lay B F sz st p st2" using p(2) r(3-5) stays_trans [OF r(8)] unfolding placed_def by (auto simp: le_trans)
    then show ?thesis using r(1) p(1) refill al [OF p(2)] unfolding zm by auto
  next
    case full
    then show ?thesis using zone_refill_full [OF inv sz(1)] unfolding zm by simp
  qed
qed

text \<open>The live objects: the blocks that are on no free list.\<close>

definition live :: "(u64 \<times> nat) set \<Rightarrow> (nat \<Rightarrow> u64 list) \<Rightarrow> (u64 \<times> nat) set" where
  "live B F = {b \<in> B. fst b \<notin> set (F (snd b))}"

text \<open>
  A new object in class \<open>c\<close> was live for nobody before; all other live objects stay. The object was on
  a free list, or it was cut from the arena.
\<close>

definition allocated :: "klayout \<Rightarrow> (u64 \<times> nat) set \<Rightarrow> (nat \<Rightarrow> u64 list) \<Rightarrow> nat \<Rightarrow> 's \<Rightarrow> u64 \<Rightarrow> 's \<Rightarrow> bool" where
  "allocated lay B F c st p st' \<longleftrightarrow> (\<exists>B' F'. heap_inv lay B' F' st' \<and> live B' F' = insert (p, c) (live B F) \<and>
       (\<forall>d. set (F' d) \<subseteq> set (F d)) \<and> (B' = B \<and> p \<in> set (F c) \<or>
         (p, c) \<notin> B \<and> B' = insert (p, c) B \<and> {blk_lo (p, c)..<blk_hi (p, c)} \<subseteq> arena_reg (src_mem D st') lay)) \<and>
     (p, c) \<notin> live B F \<and> top st' = top st \<and> base st' = base st \<and> pos st \<le> pos st' \<and>
     stays lay (src_mem D st) (pos st) (src_mem D st') (pos st')"

lemma big_allocated:
  assumes inv: "heap_inv lay B F st" and c: "0 < c" "c < 29"
  shows "(\<exists>p st'. big lay (class2Size (int c)) st = Ok (p, st') \<and> p \<noteq> 0 \<and> 16 dvd unat p \<and> allocated lay B F c st p st') \<or>
    big lay (class2Size (int c)) st = Err Exit \<and> top st < pos st + page_up (need D (class2Size (int c) + 32) + 16)"
proof -
  let ?sz = "class2Size (int c)"
  have u: "unat ?sz = 2 ^ (c + 3)" using c by (simp add: unat_class2Size nat_add_distrib)
  have pw: "(2 :: nat) ^ 4 \<le> 2 ^ (c + 3)" "(2 :: nat) ^ (c + 3) \<le> 2 ^ 31" using c by (intro power_increasing; simp)+
  have u32: "unat (?sz + 32) = 2 ^ (c + 3) + 32" using u pw by (simp add: unat_plus_if')
  have d: "16 dvd unat (?sz + 32)" using u32 le_imp_power_dvd [of 4 "c + 3" "2 :: nat"] c by simp
  have le: "unat (?sz + 32) \<le> 2 ^ 32" using u32 pw by simp
  from zone_malloc_placed [OF inv le d] show ?thesis
  proof (elim disjE exE conjE)
    fix p st1 assume z: "zone_malloc D lay (?sz + 32) st = Ok (p, st1)" and pl: "placed lay B F (?sz + 32) st p st1"
    note P = pl [unfolded placed_def u32]
    obtain s2 where s2: "big lay ?sz st = Ok (p + 16, s2)" "ok s2" "pos s2 = pos st1" "top s2 = top st1" "base s2 = base st1"
        "oh_getSize (src_mem D s2) p = ?sz"
        "\<forall>x. \<not> (unat p \<le> unat x \<and> unat x < unat p + unat ?sz + 32) \<longrightarrow> src_mem D s2 x = src_mem D st1 x"
      using big_ok [OF z] P pw unfolding u by auto
    have "pos st1 < 2 ^ 64" using bounded [of st1] top_word [of st1] P by auto
    then have up: "unat (p + 16) = unat p + 16" using P by (simp add: unat_plus_if')
    have b: "blk_lo (p + 16, c) = unat p" "blk_hi (p + 16, c) = unat p + (2 ^ (c + 3) + 32)"
      by (simp_all add: blk_lo_def blk_hi_def up)
    have k: "kinv (src_mem D s2) lay (base st) (pos st1) (insert (p + 16, c) B) F"
      using P s2 c b up u by (intro kinv_add_block [where m = "src_mem D st1"]) auto
    have new: "(p + 16, c) \<notin> B"
      using P b pw by (auto simp: off_blocks_def)
    have "live (insert (p + 16, c) B) F = insert (p + 16, c) (live B F)"
      using new kinvD(5) [of "src_mem D st" lay "base st" "pos st" B F] inv c by (auto simp: live_def heap_inv_def free_ok_def)
    moreover have st: "stays lay (src_mem D st) (pos st) (src_mem D s2) (pos s2)" "arena_reg (src_mem D s2) lay = arena_reg (src_mem D st1) lay"
      unfolding s2(3) by (rule block_stays [of lay "src_mem D st" "pos st" "src_mem D st1" "pos st1" "base st" "(p + 16, c)" B];
        use P b s2(7) u kinvD(1) [OF k] in auto)+
    moreover have "{blk_lo (p + 16, c)..<blk_hi (p + 16, c)} \<subseteq> arena_reg (src_mem D s2) lay" using P b st(2) by auto
    ultimately have "allocated lay B F c st (p + 16) s2"
      unfolding allocated_def heap_inv_def using k s2 P new by (auto simp: live_def)
    moreover have "p + 16 \<noteq> 0" using up by auto
    moreover have "16 dvd unat (p + 16)" using up P by simp
    ultimately show ?thesis using s2(1) by blast
  qed (use big_err in blast)
qed

text \<open>The segregated heap under the ANSI wrapper: a size becomes a class, at least class 1.\<close>

definition class_of :: "u64 \<Rightarrow> nat" where
  "class_of sz = nat (size2Class (((if sz < 16 then 16 else sz) + 16 - 1) AND NOT (16 - 1)))"

lemma malloc_ok:
  assumes inv: "heap_inv lay B F st" and sz: "0 < sz" "sz \<le> MallocMaxSize"
  shows "(\<exists>p st'. ansi_malloc D lay gs (big lay) sz st = Ok (p, st') \<and> allocated lay B F (class_of sz) st p st') \<or>
    ansi_malloc D lay gs (big lay) sz st = Err Exit \<and> F (class_of sz) = [] \<and>
      top st < pos st + page_up (need D (class2Size (int (class_of sz)) + 32) + 16)"
proof -
  let ?c = "class_of sz"
  define n where "n = (((if sz < 16 then 16 else sz) + 16 - 1) AND NOT (16 - 1))"
  note cl = class_of_spec [OF sz class_of_def refl, folded n_def]
  let ?r = "class2Size (int ?c)"
  have m: "?r \<le> maxObjectSize" using size2Class_class2Size(3) [of "int ?c"] cl by simp
  have "seg_malloc D lay gs (big lay) n st = rbind (rmap (\<lambda>(p, m). (p, src_put D m st)) (ada_malloc gs (kl_bin lay ?c) (src_mem D st)))
        (\<lambda>(ptr, st). if ptr = 0 then big lay ?r st else Ok (ptr, st))"
    using cl(2-4) m by (simp add: seg_malloc_def Let_def)
  moreover have "\<not> MallocMaxSize < sz" "sz \<noteq> 0" using sz by (auto simp: not_less)
  ultimately have seg: "ansi_malloc D lay gs (big lay) sz st =
      rbind (rbind (rmap (\<lambda>(p, m). (p, src_put D m st)) (ada_malloc gs (kl_bin lay ?c) (src_mem D st)))
        (\<lambda>(ptr, st). if ptr = 0 then big lay ?r st else Ok (ptr, st)))
        (\<lambda>(ptr, st). if ptr mod 16 = 0 then Ok (ptr, st) else Err Assertion)"
    unfolding ansi_malloc_def Let_def n_def [symmetric] by simp
  have k: "kinv (src_mem D st) lay (base st) (pos st) B F" "ok st" using inv by (simp_all add: heap_inv_def)
  have al: "p mod 16 = 0" if "16 dvd unat p" for p :: u64 using that by (simp add: word_unat_eq_iff unat_mod)
  note ada = ada_malloc_kinv [OF k(1) cl(2), of gs, OF gs_ok]
  show ?thesis
  proof (cases "F ?c")
    case Nil
    then have a: "ada_malloc gs (kl_bin lay ?c) (src_mem D st) = Ok (0, src_mem D st)" using ada by simp
    have inv': "heap_inv lay B F (src_put D (src_mem D st) st)" using inv by (simp add: heap_inv_def)
    have "allocated lay B F ?c (src_put D (src_mem D st) st) p st' = allocated lay B F ?c st p st'" for p st'
      by (simp add: allocated_def)
    with big_allocated [OF inv' cl(1,2)] Nil show ?thesis unfolding seg a by (auto simp: al)
  next
    case (Cons p ps)
    then obtain m' where m': "p \<noteq> 0" "ada_malloc gs (kl_bin lay ?c) (src_mem D st) = Ok (p, m')"
        "kinv m' lay (base st) (pos st) B (F(?c := ps))" "stays lay (src_mem D st) (pos st) m' (pos st)"
      using ada meta_word_stays [OF k(1) meta_members(1) [OF cl(2)] cl(2)] by auto
    have d: "p \<notin> set ps" "(p, ?c) \<in> B" using kinvD(5) [OF k(1)] cl(2) Cons by (auto simp: free_ok_def)
    have "live B (F(?c := ps)) = insert (p, ?c) (live B F)" "(p, ?c) \<notin> live B F"
      using d Cons by (auto simp: live_def)
    moreover have "set ((F(?c := ps)) d) \<subseteq> set (F d)" for d using Cons by auto
    ultimately have "allocated lay B F ?c st p (src_put D m' st)"
      unfolding allocated_def heap_inv_def using m'(3,4) k(2) Cons by (auto intro!: exI [of _ B] exI [of _ "F(?c := ps)"] split: if_splits)
    moreover have "16 dvd unat p" using kinvD(3) [OF k(1)] d(2) by (auto simp: blocks_ok_def)
    ultimately show ?thesis unfolding seg m'(2) using m'(1) by (auto simp: al)
  qed
qed

lemma free_ok_live:
  assumes inv: "heap_inv lay B F st" and b: "(p, c) \<in> live B F"
  shows "\<exists>m. ansi_free gs lay p (src_mem D st) = Ok m \<and> heap_inv lay B (F(c := p # F c)) (src_put D m st) \<and>
    live B (F(c := p # F c)) = live B F - {(p, c)} \<and> (\<exists>v w. m = wr64 (wr64 (src_mem D st) p v) (kl_bin lay c) w)"
proof -
  have k: "kinv (src_mem D st) lay (base st) (pos st) B F" "ok st" using inv by (simp_all add: heap_inv_def)
  have b': "(p, c) \<in> B" "p \<notin> set (F c)" using b by (auto simp: live_def)
  note bd = blocks_ok_bounds [OF kinvD(3) [OF k(1)] b'(1)]
  have al: "16 dvd unat p" using kinvD(3) [OF k(1)] b'(1) by (auto simp: blocks_ok_def)
  have "\<not> 16 dvd unat UNIQUE_VALUE" by (simp add: UNIQUE_VALUE_def)
  then have "p \<noteq> UNIQUE_VALUE" "p \<noteq> 0" using al bd(5) by auto
  moreover obtain m where m: "seg_free gs lay p (src_mem D st) = Ok m" "kinv m lay (base st) (pos st) B (F(c := p # F c))"
      "\<exists>v w. m = wr64 (wr64 (src_mem D st) p v) (kl_bin lay c) w"
    using seg_free_kinv [OF k(1) b', of gs, OF gs_ok] by blast
  moreover have "live B (F(c := p # F c)) = live B F - {(p, c)}" by (auto simp: live_def)
  ultimately show ?thesis using k(2) by (intro exI [of _ m]) (simp add: ansi_free_def heap_inv_def)
qed

lemma live_disjoint:
  assumes "heap_inv lay B F st" and "(p, c) \<in> live B F"
  shows "base st + 16 \<le> unat p" and "unat p + 2 ^ (c + 3) + 16 \<le> pos st" and "16 dvd unat p"
    and "(q, d) \<in> live B F \<Longrightarrow> (q, d) \<noteq> (p, c) \<Longrightarrow>
      unat p + 2 ^ (c + 3) + 16 \<le> unat q - 16 \<or> unat q + 2 ^ (d + 3) + 16 \<le> unat p - 16"
  using assms kinvD(3) [of "src_mem D st" lay "base st" "pos st" B F]
  by (fastforce simp: heap_inv_def live_def blocks_ok_def blk_lo_def blk_hi_def)+

lemma live_write:
  assumes inv: "heap_inv lay B F st" and b: "(p, c) \<in> live B F"
    and a: "unat p - 12 \<le> unat a" "unat a < unat p + 2 ^ (c + 3) + 16"
  shows "heap_inv lay B F (src_put D ((src_mem D st)(a := v)) st)"
proof -
  have k: "kinv (src_mem D st) lay (base st) (pos st) B F" "(p, c) \<in> B" "p \<notin> set (F c)"
    using inv b by (auto simp: heap_inv_def live_def)
  note bd = blocks_ok_bounds [OF kinvD(3) [OF k(1)] k(2)]
  have "kinv ((src_mem D st)(a := v)) lay (base st) (pos st) B F"
    by (rule kinv_object_write [OF k]) (use a bd in \<open>auto simp: blk_lo_def blk_hi_def\<close>)
  then show ?thesis using inv by (simp add: heap_inv_def)
qed

end

end
