(* ===== verification/Thread_Heaps.thy ===== *)
theory Thread_Heaps
  imports Kingsley_Heap
begin

text \<open>
  The heaps of all threads together. Every thread has a heap object of its own, with its own free
  lists and its own arena, but all of them take their arenas from one source heap, and a thread may
  release an object that another one allocated: it then lands on a free list of the releasing thread.
  So the blocks belong to all heaps in common, and an operation of one heap must leave the members,
  the arena and the free objects of the others alone.
\<close>

definition fixed_reg :: "mem \<Rightarrow> klayout \<Rightarrow> nat set" where
  "fixed_reg m lay = meta_reg lay \<union> arena_reg m lay"

lemma meta_reg_low: "meta_ok lay lo \<Longrightarrow> meta_reg lay \<subseteq> {..<lo}"
  by (fastforce simp: meta_reg_def meta_ok_def bytes8_def)

lemma off_blocks_disjoint: "off_blocks l h B \<Longrightarrow> b \<in> B \<Longrightarrow> {blk_lo b..<blk_hi b} \<inter> {l..<h} = {}"
  by (fastforce simp: off_blocks_def)

lemma intervals_apart: "l < h \<Longrightarrow> l' < h' \<Longrightarrow> {l..<h} \<inter> {l'..<h'} = {} \<Longrightarrow> h \<le> l' \<or> h' \<le> l" for l :: nat
proof (rule ccontr)
  assume "l < h" "l' < h'" "{l..<h} \<inter> {l'..<h'} = {}" "\<not> (h \<le> l' \<or> h' \<le> l)"
  moreover from this have "max l l' \<in> {l..<h} \<inter> {l'..<h'}" by auto
  ultimately show False by blast
qed

lemma regions:
  assumes "kinv m lay lo hi B F"
  shows "zone_reg m lay \<subseteq> arena_reg m lay" and "arena_reg m lay \<subseteq> {lo..<hi}" and "fixed_reg m lay \<subseteq> {..<hi}"
    and "b \<in> B \<Longrightarrow> {blk_lo b..<blk_hi b} \<inter> own m lay hi = {}"
proof -
  have z: "zone_ok m lay lo hi B" "meta_ok lay lo" "lo \<le> hi" "blocks_ok m lo hi B" using assms by (auto simp: kinv_def)
  show 1: "zone_reg m lay \<subseteq> arena_reg m lay" "arena_reg m lay \<subseteq> {lo..<hi}"
    using z(1) by (auto simp: zone_reg_def arena_reg_def zone_ok_def Let_def)
  have m: "meta_reg lay \<subseteq> {..<lo}" by (rule meta_reg_low [OF z(2)])
  then show "fixed_reg m lay \<subseteq> {..<hi}" using 1 z(3) by (force simp: fixed_reg_def)
  assume b: "b \<in> B"
  have "blk_hi b \<le> hi" "lo \<le> blk_lo b" using z(4) b by (auto simp: blocks_ok_def blk_lo_def)
  moreover have "{blk_lo b..<blk_hi b} \<inter> zone_reg m lay = {}"
  proof (cases "rd64 m (kl_currentArena lay) = 0")
    case False
    let ?c = "rd64 m (kl_currentArena lay)"
    have "off_blocks (unat ?c) (unat ?c + 16) B"
        "off_blocks (unat (rd64 m (?c + 8))) (unat (rd64 m (?c + 8)) + unat (rd64 m (kl_sizeRemaining lay))) B"
      using z(1) False by (simp_all add: zone_ok_def Let_def)
    from this [THEN off_blocks_disjoint, OF b] show ?thesis unfolding zone_reg_def Let_def if_not_P [OF False] by blast
  qed (simp add: zone_reg_def)
  ultimately show "{blk_lo b..<blk_hi b} \<inter> own m lay hi = {}" using m by (force simp: own_def)
qed

lemma arena_header:
  assumes inv: "kinv m lay lo hi B F" and cur: "rd64 m (kl_currentArena lay) \<noteq> 0"
  shows "bytes8 (rd64 m (kl_currentArena lay) + 8) \<subseteq> arena_reg m lay" and "unat (rd64 m (kl_currentArena lay) + 8) + 8 \<le> 2 ^ 64"
proof -
  note w = arena_word [OF inv cur]
  show "unat (rd64 m (kl_currentArena lay) + 8) + 8 \<le> 2 ^ 64" using w by simp
  show "bytes8 (rd64 m (kl_currentArena lay) + 8) \<subseteq> arena_reg m lay"
    using kinvD(4) [OF inv] cur w(3) by (auto simp: arena_reg_def zone_ok_def Let_def bytes8_def)
qed

text \<open>A write into one block changes neither members nor arena of any heap.\<close>

lemma write_regs:
  assumes inv: "kinv m lay lo hi B F" and b: "b \<in> B" and t: "touches {blk_lo b..<blk_hi b} m m'"
  shows "fixed_reg m' lay = fixed_reg m lay"
proof -
  have d: "R \<subseteq> own m lay hi \<Longrightarrow> R \<inter> {blk_lo b..<blk_hi b} = {}" for R using regions(4) [OF inv b] by blast
  have low: "rd64 m' a = rd64 m a" if "a \<in> meta lay" for a
    using that meta_bytes(1) [of a lay m hi] meta_bytes(2) [OF kinvD(1) [OF inv] that] by (intro touches_rd64 [OF t d])
  have "rd64 m' (rd64 m (kl_currentArena lay) + 8) = rd64 m (rd64 m (kl_currentArena lay) + 8)"
    if "rd64 m (kl_currentArena lay) \<noteq> 0"
  proof (rule touches_rd64 [OF t d arena_header(2) [OF inv that]])
    show "bytes8 (rd64 m (kl_currentArena lay) + 8) \<subseteq> own m lay hi"
      using arena_word(3) [OF inv that] that by (auto simp: own_def zone_reg_def Let_def bytes8_def)
  qed
  from regs_same(2) [OF low [OF meta_members(3)] low [OF meta_members(2)] this] show ?thesis by (simp add: fixed_reg_def)
qed

text \<open>What an operation of the heap \<open>li\<close> leaves of the heap \<open>lj\<close>.\<close>

lemma other_heap:
  assumes kj: "kinv m lj lo hi B Fj" and ki: "kinv m li lo hi B Fi" and ki': "kinv m' li lo hi' B' Fi'"
    and st: "stays li m hi m' hi'" and dis: "fixed_reg m li \<inter> fixed_reg m lj = {}"
    and B': "B' = B \<or> (\<exists>b. B' = insert b B \<and> {blk_lo b..<blk_hi b} \<subseteq> arena_reg m' li)"
  shows "kinv m' lj lo hi' B' Fj" and "fixed_reg m' lj = fixed_reg m lj" and "fixed_reg m' li \<inter> fixed_reg m' lj = {}"
proof -
  note ri = regions [OF ki] and rj = regions [OF kj]
  have t: "touches (own m li hi) m m'" and hi: "hi \<le> hi'" and ar: "arena_reg m' li \<subseteq> arena_reg m li \<union> {hi..}"
    using st by (auto simp: stays_def)
  have far: "fixed_reg m lj \<inter> {hi..} = {}" using rj(3) by auto
  have off: "fixed_reg m lj \<inter> own m li hi = {}" using dis ri(1) far unfolding own_def fixed_reg_def by blast
  have word: "rd64 m' a = rd64 m a" if "bytes8 a \<subseteq> fixed_reg m lj" "unat a + 8 \<le> 2 ^ 64" for a
    using that off by (intro touches_rd64 [OF t]) auto
  have low: "rd64 m' a = rd64 m a" if "a \<in> meta lj" for a
    using that meta_bytes(2) [OF kinvD(1) [OF kj] that] by (intro word) (auto simp: fixed_reg_def meta_reg_def)
  have arj: "rd64 m' (rd64 m (kl_currentArena lj) + 8) = rd64 m (rd64 m (kl_currentArena lj) + 8)"
    if "rd64 m (kl_currentArena lj) \<noteq> 0"
    using arena_header [OF kj that] by (intro word) (auto simp: fixed_reg_def)
  note same = regs_same [OF low [OF meta_members(3)] low [OF meta_members(2)] arj]
  show fj: "fixed_reg m' lj = fixed_reg m lj" by (simp add: fixed_reg_def same)
  show "fixed_reg m' li \<inter> fixed_reg m' lj = {}" unfolding fj using dis ar far unfolding fixed_reg_def by blast
  have z: "zone_ok m' lj lo hi' B" by (rule zone_ok_frame [OF kinvD(4) [OF kj]]) (use low arj hi in auto)
  have "zone_ok m' lj lo hi' (insert b B)" if b: "{blk_lo b..<blk_hi b} \<subseteq> arena_reg m' li" for b
  proof -
    have "blk_lo b < blk_hi b" by (simp add: blk_lo_def blk_hi_def)
    moreover have "{blk_lo b..<blk_hi b} \<inter> arena_reg m' lj = {}"
      using b ar dis far fj unfolding fixed_reg_def by blast
    ultimately show ?thesis
    proof (cases "rd64 m' (kl_currentArena lj) = 0")
      case False
      let ?c = "rd64 m' (kl_currentArena lj)"
      let ?e = "unat (rd64 m' (?c + 8)) + unat (rd64 m' (kl_sizeRemaining lj))"
      have "unat ?c + 16 \<le> unat (rd64 m' (?c + 8))" using z False by (simp add: zone_ok_def Let_def)
      moreover from this have "blk_hi b \<le> unat ?c \<or> ?e \<le> blk_lo b"
        using \<open>blk_lo b < blk_hi b\<close> \<open>{blk_lo b..<blk_hi b} \<inter> arena_reg m' lj = {}\<close> False
        by (intro intervals_apart) (auto simp: arena_reg_def Let_def)
      ultimately have "off_blocks (unat ?c) (unat ?c + 16) {b}" "off_blocks (unat (rd64 m' (?c + 8))) ?e {b}"
        by (auto simp: off_blocks_def)
      then show ?thesis using z False by (simp add: zone_ok_def off_blocks_def Let_def)
    qed (simp add: zone_ok_def)
  qed
  then have "zone_ok m' lj lo hi' B'" using z B' by auto
  moreover have "free_ok m' lj B' Fj"
  proof (rule free_ok_frame [OF kinvD(5) [OF kj]])
    show "\<forall>c<29. \<forall>p\<in>set (Fj c). rd64 m' p = rd64 m p"
    proof (intro allI impI ballI)
      fix c p assume c: "c < 29" "p \<in> set (Fj c)"
      note p = free_object [OF kj c]
      have "bytes8 p \<subseteq> {blk_lo (p, c)..<blk_hi (p, c)}"
        using blocks_ok_bounds(3) [OF kinvD(3) [OF kj] p(1)] by (auto simp: bytes8_def blk_lo_def)
      then show "rd64 m' p = rd64 m p" using ri(4) [OF p(1)] p(3) by (intro touches_rd64 [OF t]) auto
    qed
  qed (use low B' in auto)
  ultimately show "kinv m' lj lo hi' B' Fj" using kinvD(1) [OF kj] ki' by (simp add: kinv_def)
qed

lemma object_word:
  assumes "blocks_ok m lo hi B" and "(p, c) \<in> B" and "\<not> (blk_lo (p, c) + 4 \<le> unat x \<and> unat x < blk_hi (p, c))"
  shows "wr64 m p v x = m x"
proof -
  note b = blocks_ok_bounds [OF assms(1,2), simplified]
  have "touches {blk_lo (p, c) + 4..<blk_hi (p, c)} m (wr64 m p v)"
    using b by (intro touches_wr64) (auto simp: bytes8_def blk_lo_def)
  then show ?thesis using assms(3) by (simp add: touches_def)
qed

section \<open>The empty heaps\<close>

definition layouts_ok :: "nat set \<Rightarrow> (nat \<Rightarrow> klayout) \<Rightarrow> nat \<Rightarrow> bool" where
  "layouts_ok I lay lo \<longleftrightarrow> (\<forall>i\<in>I. meta_ok (lay i) lo) \<and> (\<forall>i\<in>I. \<forall>j\<in>I. i \<noteq> j \<longrightarrow> meta_reg (lay i) \<inter> meta_reg (lay j) = {})"

lemma kheap_new_empty:
  assumes mt: "meta_ok l lo"
  shows "c < 29 \<Longrightarrow> rd64 (kheap_new l m) (kl_bin l c) = 0" and "rd64 (kheap_new l m) (kl_currentArena l) = 0"
proof -
  note md = meta_distinct [OF mt]
  let ?f = "\<lambda>n m. fold (\<lambda>i m. sll_clear (kl_bin l i) m) [0..<n] m"
  have bin: "rd64 (?f n m) (kl_bin l c) = (if c < n then 0 else rd64 m (kl_bin l c))" if "n \<le> 29" "c < 29" for n c m
    using that(1)
  proof (induction n)
    case (Suc n)
    show ?case
    proof (cases "c = n")
      case False
      then have "rd64 (wr64 (?f n m) (kl_bin l n) 0) (kl_bin l c) = rd64 (?f n m) (kl_bin l c)"
        using md(1) [of c n] Suc.prems that(2) by (intro meta_read [OF mt]) auto
      then show ?thesis using Suc False by (simp add: sll_clear_def)
    qed (simp add: sll_clear_def mem_simps)
  qed simp
  have cur: "rd64 (?f n m) (kl_currentArena l) = rd64 m (kl_currentArena l)" if "n \<le> 29" for n m
    using that
  proof (induction n)
    case (Suc n)
    have "rd64 (wr64 (?f n m) (kl_bin l n) 0) (kl_currentArena l) = rd64 (?f n m) (kl_currentArena l)"
      using md(3) [of n] Suc.prems by (intro meta_read [OF mt]) auto
    then show ?case using Suc by (simp add: sll_clear_def)
  qed simp
  show "c < 29 \<Longrightarrow> rd64 (kheap_new l m) (kl_bin l c) = 0" using bin [of 29 c] by (simp add: kheap_new_def)
  have "rd64 (zone_new l m) (kl_currentArena l) = 0"
    unfolding zone_new_def using md(7) by (subst meta_read [OF mt]) (auto simp: mem_simps)
  then show "rd64 (kheap_new l m) (kl_currentArena l) = 0" using cur [of 29] by (simp add: kheap_new_def)
qed

lemma kheap_new_touches:
  assumes mt: "meta_ok l lo"
  shows "touches (meta_reg l) m (kheap_new l m)"
proof -
  have w: "touches (meta_reg l) m (wr64 m' a v)" if "touches (meta_reg l) m m'" "a \<in> meta l" for a m' v
    using that meta_bytes(2) [OF mt] by (intro touches_trans [OF that(1) touches_wr64]) (auto simp: meta_reg_def)
  have "touches (meta_reg l) m (fold (\<lambda>i m. sll_clear (kl_bin l i) m) [0..<n] m')" if "touches (meta_reg l) m m'" "n \<le> 29" for n m'
    using that by (induction n) (auto simp: sll_clear_def intro!: w)
  then show ?thesis unfolding kheap_new_def zone_new_def by (simp add: w)
qed

lemma pth_new_empty:
  assumes l: "layouts_ok {..<nat NUM_HEAPS} lay lo" and i: "i < nat NUM_HEAPS"
  shows "c < 29 \<Longrightarrow> rd64 (pth_new lay m) (kl_bin (lay i) c) = 0" and "rd64 (pth_new lay m) (kl_currentArena (lay i)) = 0"
proof -
  have mt: "meta_ok (lay j) lo" if "j < nat NUM_HEAPS" for j using l that by (auto simp: layouts_ok_def)
  have word: "rd64 (kheap_new (lay j) m) a = rd64 m a" if j: "j < nat NUM_HEAPS" "j \<noteq> i" and a: "a \<in> meta (lay i)" for j a m
  proof (rule touches_rd64 [OF kheap_new_touches [OF mt [OF j(1)]]])
    show "bytes8 a \<inter> meta_reg (lay j) = {}" using l i j a unfolding layouts_ok_def meta_reg_def by blast
  qed (rule meta_bytes(2) [OF mt [OF i] a])
  have f: "rd64 (fold (\<lambda>i m. kheap_new (lay i) m) [0..<n] m) a = 0"
    if "i < n" "n \<le> nat NUM_HEAPS" "a \<in> meta (lay i)" "\<And>m. rd64 (kheap_new (lay i) m) a = 0" for n a
    using that(1,2)
  proof (induction n)
    case (Suc n)
    then show ?case using word [of n a] that(3,4) by (cases "i = n") auto
  qed simp
  show "c < 29 \<Longrightarrow> rd64 (pth_new lay m) (kl_bin (lay i) c) = 0" unfolding pth_new_def
    using i kheap_new_empty(1) [OF mt [OF i]] by (intro f) auto
  show "rd64 (pth_new lay m) (kl_currentArena (lay i)) = 0" unfolding pth_new_def
    using i kheap_new_empty(2) [OF mt [OF i]] by (intro f) auto
qed

section \<open>All heaps over one source heap\<close>

context kingsley
begin

definition heaps_inv :: "nat set \<Rightarrow> (nat \<Rightarrow> klayout) \<Rightarrow> (u64 \<times> nat) set \<Rightarrow> (nat \<Rightarrow> nat \<Rightarrow> u64 list) \<Rightarrow> 's \<Rightarrow> bool" where
  "heaps_inv I lay B F st \<longleftrightarrow> (\<forall>i\<in>I. heap_inv (lay i) B (F i) st) \<and>
     (\<forall>i\<in>I. \<forall>j\<in>I. i \<noteq> j \<longrightarrow> (\<forall>c. set (F i c) \<inter> set (F j c) = {}) \<and>
       fixed_reg (src_mem D st) (lay i) \<inter> fixed_reg (src_mem D st) (lay j) = {})"

definition all_live :: "nat set \<Rightarrow> (u64 \<times> nat) set \<Rightarrow> (nat \<Rightarrow> nat \<Rightarrow> u64 list) \<Rightarrow> (u64 \<times> nat) set" where
  "all_live I B F = {b \<in> B. \<forall>i\<in>I. fst b \<notin> set (F i (snd b))}"

lemma heaps_invD:
  assumes "heaps_inv I lay B F st" and "i \<in> I"
  shows "heap_inv (lay i) B (F i) st" and "kinv (src_mem D st) (lay i) (base st) (pos st) B (F i)" and "ok st"
    and "j \<in> I \<Longrightarrow> i \<noteq> j \<Longrightarrow> set (F i c) \<inter> set (F j c) = {}"
    and "j \<in> I \<Longrightarrow> i \<noteq> j \<Longrightarrow> fixed_reg (src_mem D st) (lay i) \<inter> fixed_reg (src_mem D st) (lay j) = {}"
  using assms unfolding heaps_inv_def heap_inv_def by blast+

lemma all_live_sub: "i \<in> I \<Longrightarrow> all_live I B F \<subseteq> live B (F i)"
  by (auto simp: all_live_def live_def)

lemma heaps_invI:
  assumes "\<And>i. i \<in> I \<Longrightarrow> kinv (src_mem D st) (lay i) (base st) (pos st) B (F i)" and "ok st"
    and "\<And>i j c. i \<in> I \<Longrightarrow> j \<in> I \<Longrightarrow> i \<noteq> j \<Longrightarrow> set (F i c) \<inter> set (F j c) = {}"
    and "\<And>i j. i \<in> I \<Longrightarrow> j \<in> I \<Longrightarrow> i \<noteq> j \<Longrightarrow> fixed_reg (src_mem D st) (lay i) \<inter> fixed_reg (src_mem D st) (lay j) = {}"
  shows "heaps_inv I lay B F st"
  using assms by (simp add: heaps_inv_def heap_inv_def)

text \<open>One heap works, the others stay.\<close>

lemma one_heap_works:
  assumes inv: "heaps_inv I lay B F st" and i: "i \<in> I" and hi: "heap_inv (lay i) B' Fi st'" and b: "base st' = base st"
    and st: "stays (lay i) (src_mem D st) (pos st) (src_mem D st') (pos st')"
    and B': "B' = B \<or> (\<exists>b. B' = insert b B \<and> {blk_lo b..<blk_hi b} \<subseteq> arena_reg (src_mem D st') (lay i))"
    and fr: "\<And>j c. j \<in> I \<Longrightarrow> j \<noteq> i \<Longrightarrow> set (Fi c) \<inter> set (F j c) = {}"
  shows "heaps_inv I lay B' (F(i := Fi)) st'"
proof (rule heaps_invI)
  have ki': "kinv (src_mem D st') (lay i) (base st) (pos st') B' Fi" and ok: "ok st'" using hi b by (simp_all add: heap_inv_def)
  show "ok st'" by (rule ok)
  have o: "kinv (src_mem D st') (lay j) (base st) (pos st') B' (F j)"
      "fixed_reg (src_mem D st') (lay j) = fixed_reg (src_mem D st) (lay j)"
      "fixed_reg (src_mem D st') (lay i) \<inter> fixed_reg (src_mem D st') (lay j) = {}" if "j \<in> I" "j \<noteq> i" for j
    using other_heap [OF heaps_invD(2) [OF inv that(1)] heaps_invD(2) [OF inv i] ki' st _ B'] heaps_invD(5) [OF inv i that(1)] that(2) by auto
  show "kinv (src_mem D st') (lay j) (base st') (pos st') B' ((F(i := Fi)) j)" if "j \<in> I" for j
    unfolding b using o(1) [OF that] ki' by (cases "j = i") auto
  show "set ((F(i := Fi)) j c) \<inter> set ((F(i := Fi)) k c) = {}" if "j \<in> I" "k \<in> I" "j \<noteq> k" for j k c
    using fr [of j c] fr [of k c] heaps_invD(4) [OF inv that(1,2,3)] that by (cases "j = i"; cases "k = i") auto
  show "fixed_reg (src_mem D st') (lay j) \<inter> fixed_reg (src_mem D st') (lay k) = {}" if "j \<in> I" "k \<in> I" "j \<noteq> k" for j k
  proof (cases "j = i \<or> k = i")
    case True then show ?thesis using o(3) [of j] o(3) [of k] that by (auto simp: Int_commute)
  next
    case False then show ?thesis using o(2) [of j] o(2) [of k] heaps_invD(5) [OF inv that(1,2,3)] that by auto
  qed
qed

lemma heaps_malloc:
  assumes inv: "heaps_inv I lay B F st" and i: "i \<in> I" and sz: "0 < sz" "sz \<le> MallocMaxSize"
  shows "(\<exists>p st' B' F'. ansi_malloc D (lay i) gs (big (lay i)) sz st = Ok (p, st') \<and> heaps_inv I lay B' F' st' \<and>
      all_live I B' F' = insert (p, class_of sz) (all_live I B F) \<and> (p, class_of sz) \<notin> all_live I B F \<and>
      top st' = top st \<and> base st' = base st \<and> pos st \<le> pos st') \<or>
    ansi_malloc D (lay i) gs (big (lay i)) sz st = Err Exit \<and> top st < pos st + page_up (need D (class2Size (int (class_of sz)) + 32) + 16)"
  using malloc_ok [OF heaps_invD(1) [OF inv i] sz]
proof (elim disjE exE conjE)
  let ?c = "class_of sz"
  fix p st' assume m: "ansi_malloc D (lay i) gs (big (lay i)) sz st = Ok (p, st')" and al: "allocated (lay i) B (F i) ?c st p st'"
  then obtain B' Fi where a: "heap_inv (lay i) B' Fi st'" "live B' Fi = insert (p, ?c) (live B (F i))" "\<And>d. set (Fi d) \<subseteq> set (F i d)"
      "B' = B \<and> p \<in> set (F i ?c) \<or> (p, ?c) \<notin> B \<and> B' = insert (p, ?c) B \<and> {blk_lo (p, ?c)..<blk_hi (p, ?c)} \<subseteq> arena_reg (src_mem D st') (lay i)"
    by (auto simp: allocated_def)
  have k: "(p, ?c) \<notin> live B (F i)" "top st' = top st" "base st' = base st" "pos st \<le> pos st'"
      "stays (lay i) (src_mem D st) (pos st) (src_mem D st') (pos st')" using al by (auto simp: allocated_def)
  have "heaps_inv I lay B' (F(i := Fi)) st'"
    by (rule one_heap_works [OF inv i a(1) k(3,5)]) (use a(3,4) heaps_invD(4) [OF inv i] in blast)+
  moreover have "p \<notin> set (F j ?c)" if "j \<in> I" "j \<noteq> i" for j
  proof -
    have "\<forall>q\<in>set (F j ?c). (q, ?c) \<in> B"
      using kinvD(5) [OF heaps_invD(2) [OF inv that(1)]] class_of_spec(2) [OF sz class_of_def refl] by (simp add: free_ok_def)
    then show ?thesis using a(4) heaps_invD(4) [OF inv i that(1), of ?c] that(2) by blast
  qed
  then have "all_live I B' (F(i := Fi)) = insert (p, ?c) (all_live I B F)"
    using a(2,4) i by (auto simp: all_live_def live_def)
  moreover have "(p, ?c) \<notin> all_live I B F" using k(1) all_live_sub [OF i] by blast
  ultimately show ?thesis using m k(2-4) by blast
qed blast

lemma heaps_free:
  assumes inv: "heaps_inv I lay B F st" and i: "i \<in> I" and p: "(p, c) \<in> all_live I B F"
  shows "\<exists>m F'. ansi_free gs (lay i) p (src_mem D st) = Ok m \<and> heaps_inv I lay B F' (src_put D m st) \<and>
    all_live I B F' = all_live I B F - {(p, c)}"
proof -
  obtain m v w where m: "ansi_free gs (lay i) p (src_mem D st) = Ok m" "heap_inv (lay i) B ((F i)(c := p # F i c)) (src_put D m st)"
      "m = wr64 (wr64 (src_mem D st) p v) (kl_bin (lay i) c) w"
    using free_ok_live [OF heaps_invD(1) [OF inv i]] p all_live_sub [OF i] by blast
  have pB: "(p, c) \<in> B" "\<And>j. j \<in> I \<Longrightarrow> p \<notin> set (F j c)" using p by (auto simp: all_live_def)
  define m1 where "m1 = wr64 (src_mem D st) p v"
  have w: "m1 x = src_mem D st x" if "\<not> (blk_lo (p, c) + 4 \<le> unat x \<and> unat x < blk_hi (p, c))" for x
    unfolding m1_def using object_word [OF kinvD(3) [OF heaps_invD(2) [OF inv i]] pB(1) that] .
  then have t: "touches {blk_lo (p, c)..<blk_hi (p, c)} (src_mem D st) m1" by (auto simp: touches_def)
  have k: "kinv m1 (lay j) (base st) (pos st) B (F j)" "fixed_reg m1 (lay j) = fixed_reg (src_mem D st) (lay j)" if "j \<in> I" for j
    using kinv_object_write [OF heaps_invD(2) [OF inv that] pB(1) pB(2) [OF that]] w write_regs [OF heaps_invD(2) [OF inv that] pB(1) t] by blast+
  have h: "heaps_inv I lay B F (src_put D m1 st)"
    by (rule heaps_invI) (use k heaps_invD(3-5) [OF inv] i in auto)
  have c: "c < 29" using kinvD(3) [OF heaps_invD(2) [OF inv i]] pB(1) by (auto simp: blocks_ok_def)
  have "heaps_inv I lay B (F(i := (F i)(c := p # F i c))) (src_put D m st)"
  proof (rule one_heap_works [OF h i m(2)])
    show "stays (lay i) (src_mem D (src_put D m1 st)) (pos (src_put D m1 st)) (src_mem D (src_put D m st)) (pos (src_put D m st))"
      using meta_word_stays [OF k(1) [OF i] meta_members(1) [OF c] c] by (simp add: m(3) m1_def)
    show "set (((F i)(c := p # F i c)) d) \<inter> set (F j d) = {}" if "j \<in> I" "j \<noteq> i" for j d
      using heaps_invD(4) [OF inv i that(1), of d] that pB(2) [OF that(1)] by auto
  qed simp_all
  moreover have "all_live I B (F(i := (F i)(c := p # F i c))) = all_live I B F - {(p, c)}"
    using i by (auto simp: all_live_def split: if_splits)
  ultimately show ?thesis using m(1) by blast
qed

lemma heaps_write:
  assumes inv: "heaps_inv I lay B F st" and b: "(p, c) \<in> all_live I B F" and i: "i \<in> I"
    and a: "unat p - 12 \<le> unat a" "unat a < unat p + 2 ^ (c + 3) + 16"
  shows "heaps_inv I lay B F (src_put D ((src_mem D st)(a := v)) st)"
proof (rule heaps_invI)
  let ?m = "(src_mem D st)(a := v)"
  have pB: "(p, c) \<in> B" using b by (auto simp: all_live_def)
  have t: "touches {blk_lo (p, c)..<blk_hi (p, c)} (src_mem D st) ?m" using a by (auto simp: touches_def blk_lo_def blk_hi_def)
  have k: "kinv ?m (lay j) (base st) (pos st) B (F j)" "fixed_reg ?m (lay j) = fixed_reg (src_mem D st) (lay j)" if "j \<in> I" for j
  proof -
    show "fixed_reg ?m (lay j) = fixed_reg (src_mem D st) (lay j)" by (rule write_regs [OF heaps_invD(2) [OF inv that] pB t])
    have "(p, c) \<in> live B (F j)" using b all_live_sub [OF that] by blast
    from live_write [OF heaps_invD(1) [OF inv that] this a, of v] show "kinv ?m (lay j) (base st) (pos st) B (F j)" by (simp add: heap_inv_def)
  qed
  fix j assume j: "j \<in> I"
  then show "kinv (src_mem D (src_put D ?m st)) (lay j) (base (src_put D ?m st)) (pos (src_put D ?m st)) B (F j)" using k(1) by simp
  fix l assume l: "l \<in> I" "j \<noteq> l"
  then show "fixed_reg (src_mem D (src_put D ?m st)) (lay j) \<inter> fixed_reg (src_mem D (src_put D ?m st)) (lay l) = {}"
    using k(2) j heaps_invD(5) [OF inv j] by simp
  fix d show "set (F j d) \<inter> set (F l d) = {}" by (rule heaps_invD(4) [OF inv j l])
next
  show "ok (src_put D ((src_mem D st)(a := v)) st)" using heaps_invD(3) [OF inv i] by simp
qed

lemma heaps_disjoint:
  assumes inv: "heaps_inv I lay B F st" and i: "i \<in> I" and p: "(p, c) \<in> all_live I B F"
  shows "base st + 16 \<le> unat p" and "unat p + 2 ^ (c + 3) + 16 \<le> pos st" and "16 dvd unat p"
    and "(q, d) \<in> all_live I B F \<Longrightarrow> (q, d) \<noteq> (p, c) \<Longrightarrow>
      unat p + 2 ^ (c + 3) + 16 \<le> unat q - 16 \<or> unat q + 2 ^ (d + 3) + 16 \<le> unat p - 16"
  using live_disjoint [OF heaps_invD(1) [OF inv i]] p all_live_sub [OF i, of B F] by blast+

lemma heaps_new:
  assumes "ok st" and l: "layouts_ok {..<nat NUM_HEAPS} lay (base st)" and m: "src_mem D st = pth_new lay m" and "base st \<le> pos st"
  shows "heaps_inv {..<nat NUM_HEAPS} lay {} (\<lambda>_ _. []) st"
proof (rule heaps_invI)
  note e = pth_new_empty [OF l, where m = m, folded m]
  have "pos st < 2 ^ 64" using bounded [OF assms(1)] top_word [OF assms(1)] by simp
  then show "kinv (src_mem D st) (lay i) (base st) (pos st) {} (\<lambda>_. [])" if "i \<in> {..<nat NUM_HEAPS}" for i
    using that l e [of i] assms(4) by (auto simp: kinv_def blocks_ok_def zone_ok_def free_ok_def Let_def layouts_ok_def)
  show "fixed_reg (src_mem D st) (lay i) \<inter> fixed_reg (src_mem D st) (lay j) = {}"
    if "i \<in> {..<nat NUM_HEAPS}" "j \<in> {..<nat NUM_HEAPS}" "i \<noteq> j" for i j
    using that l e(2) [of i] e(2) [of j] by (auto simp: fixed_reg_def arena_reg_def layouts_ok_def)
qed (use assms(1) in auto)

end

end
