(* ===== verification/Heap_Safety.thy ===== *)
theory Heap_Safety
  imports Thread_Heaps
begin

text \<open>
  The two heaps of the program as interpretations of \<open>kingsley\<close>: the application heap over
  \<open>xheap\<close> with headers and sentinels (\<open>include/xpheap.hh\<close>) and the heap of the runtime over
  \<open>SourceInternalHeap\<close> (\<open>include/internalheap.hh\<close>); and what a program can rely on that allocates,
  releases and writes into its objects, step by step.
\<close>

lemma app_src_simps [simp]:
  "src_mem app_src st = sh_mem (snd st)" "src_put app_src m st = (fst st, (snd st)\<lparr>sh_mem := m\<rparr>)"
  "src_malloc app_src = xheap_malloc" "src_chunk app_src = 4194304"
  by (simp_all add: app_src_def split: prod.splits)

lemma int_src_simps [simp]:
  "src_mem int_src st = snd st" "src_put int_src m st = (fst st, m)"
  "src_malloc int_src sz st = rmap (\<lambda>(p, h). (p, h, snd st)) (sih_malloc sz (fst st))" "src_chunk int_src = 1048576"
  by (simp_all add: int_src_def split: prod.splits)

section \<open>Headers and sentinels stay inside the new block\<close>

lemma objectHeader_new_size: "unat sz < 2 ^ 32 \<Longrightarrow> oh_getSize (objectHeader_new m p sz) p = sz"
  by (simp add: objectHeader_new_def oh_getSize_def mem_simps ucast_ucast_small)

lemma objectHeader_new_other:
  assumes "unat p + 16 \<le> 2 ^ 64" and "\<not> (unat p \<le> unat x \<and> unat x < unat p + 16)"
  shows "objectHeader_new m p sz x = m x"
proof -
  have no: "\<not> x - (p + i) < n" if "unat i + unat n \<le> 16" for i n :: u64
  proof
    assume "x - (p + i) < n"
    then have "unat (x - p) < 16" using offset_range(2) [of x p i n] that by simp
    then have "x - p < 16" by (simp add: word_less_nat_alt)
    then show False using word_at [of p 16 x] assms by auto
  qed
  from no [of 0 4] no [of 4 4] no [of 8 8] show ?thesis
    by (simp add: objectHeader_new_def wr64_other wr32_other)
qed

lemma tryToSet_words: "tryToSet a s = Ok (b, s') \<Longrightarrow> bm_words (sh_bitmap s') = bm_words (sh_bitmap s)"
  by (auto simp: tryToSet_def checkSetBit_def checkSetBit_at_def Let_def rmap_Ok_iff rbind_Ok_iff put_word_def split: if_splits prod.splits)

lemma setupSentinels_ok:
  assumes "sh_ok s" and "in_map s (p - 8)" and "in_map s (p + n)"
  shows "\<exists>s'. setupSentinels p n s = Ok s' \<and> same_map s s' \<and> bm_words (sh_bitmap s') = bm_words (sh_bitmap s) \<and>
    sh_mem s' = wr64 (wr64 (sh_mem s) (p - 8) SENTINEL_WORD) (p + n) SENTINEL_WORD"
proof -
  let ?s = "put_mem (p + n) SENTINEL_WORD (put_mem (p - 8) SENTINEL_WORD s)"
  have s: "sh_ok ?s" "in_map ?s (p - 8)" "in_map ?s (p + n)"
    using assms by (simp_all add: put_mem_def sh_ok_def in_map_def getIndex_def)
  obtain b1 s1 where 1: "tryToSet (p - 8) ?s = Ok (b1, s1)" "same_map ?s s1" "sh_mem s1 = sh_mem ?s"
    using tryToSet_ok [OF s(1,2)] by blast
  have "sh_ok s1" "in_map s1 (p + n)" using 1(2) s(3) by (auto simp: same_map_def in_map_def getIndex_def)
  then obtain b2 s2 where 2: "tryToSet (p + n) s1 = Ok (b2, s2)" "same_map s1 s2" "sh_mem s2 = sh_mem s1"
    using tryToSet_ok by blast
  have "setupSentinels p n s = Ok s2" using 1 2 by (simp add: setupSentinels_def Let_def xdefs)
  moreover have "same_map s s2" using same_map_trans [OF 1(2) 2(2)] by (simp add: same_map_def put_mem_def)
  ultimately show ?thesis
    using 1 2 tryToSet_words [OF 1(1)] tryToSet_words [OF 2(1)] by (simp add: put_mem_def)
qed

section \<open>The application heap\<close>

text \<open>The sentinel map has an item for every word of the heap.\<close>

definition app_ok :: "xheap \<times> sheap \<Rightarrow> bool" where
  "app_ok st \<longleftrightarrow> xh_inv st \<and>
     (unat (xh_end (fst st)) - unat (xh_start (fst st))) div 8 \<le> unat (bm_elements (sh_bitmap (snd st)))"

lemma app_in_map:
  assumes "app_ok (x, s)" and "unat (xh_start x) \<le> unat a" and "unat a \<le> unat (xh_end x)"
  shows "in_map s a"
proof -
  have s: "sh_wordShift s = 3" "sh_heapStart s = xh_start x" using assms(1) by (auto simp: app_ok_def xh_inv_def sh_ok_def)
  have "unat (a - xh_start x) = unat a - unat (xh_start x)" using assms(2) by (simp add: unat_sub word_le_nat_alt)
  then have "unat (getIndex s a) = (unat a - unat (xh_start x)) div 8" by (simp add: getIndex_def s unat_drop3)
  also have "\<dots> \<le> (unat (xh_end x) - unat (xh_start x)) div 8" using assms(3) by (intro div_le_mono diff_le_mono)
  also have "\<dots> \<le> unat (bm_elements (sh_bitmap s))" using assms(1) by (simp add: app_ok_def)
  finally show ?thesis by (simp add: in_map_def word_le_nat_alt)
qed

lemma aah_malloc_ok:
  assumes z: "zone_malloc app_src lay (sz + 32) st = Ok (p, x, s)" and ok: "app_ok (x, s)"
    and p: "unat (xh_start x) + 16 \<le> unat p" "unat p + unat sz + 32 \<le> unat (xh_position x)" "8 \<le> unat sz" "unat sz < 2 ^ 32"
  shows "\<exists>s2. aah_malloc lay sz st = Ok (p + 16, x, s2) \<and> app_ok (x, s2) \<and> oh_getSize (sh_mem s2) p = sz \<and>
    (\<forall>y. \<not> (unat p \<le> unat y \<and> unat y < unat p + unat sz + 32) \<longrightarrow> sh_mem s2 y = sh_mem s y)"
proof -
  have e: "unat (xh_position x) \<le> unat (xh_end x)" "unat (xh_end x) < 2 ^ 64" "sh_ok s"
    using ok unat_u64_less [of "xh_end x"] by (auto simp: app_ok_def xh_inv_def)
  have u: "unat (p + 8) = unat p + 8" "unat (p + 16) = unat p + 16" "unat (p + 16 + sz) = unat p + 16 + unat sz"
    using p e by (simp_all add: unat_plus_if')
  let ?m = "objectHeader_new (sh_mem s) p sz"
  let ?s = "s\<lparr>sh_mem := ?m\<rparr>"
  have eq: "p + 16 - 8 = p + 8" by simp
  have im: "in_map ?s (p + 16 - 8)" "in_map ?s (p + 16 + sz)"
    using app_in_map [OF ok, of "p + 8"] app_in_map [OF ok, of "p + 16 + sz"] u p e by (simp_all add: in_map_def getIndex_def add.commute)
  obtain s2 where s2: "setupSentinels (p + 16) sz ?s = Ok s2" "same_map ?s s2" "bm_words (sh_bitmap s2) = bm_words (sh_bitmap s)"
      "sh_mem s2 = wr64 (wr64 ?m (p + 8) SENTINEL_WORD) (p + 16 + sz) SENTINEL_WORD"
    using setupSentinels_ok [OF _ im] e(3) eq by (auto simp: sh_ok_def)
  have sz: "oh_getSize (sh_mem s2) p = sz"
  proof -
    have "oh_getSize (sh_mem s2) p = oh_getSize (wr64 ?m (p + 8) SENTINEL_WORD) p"
      unfolding s2(4) using u p e by (intro getSize_agree agree_wr64) auto
    also have "\<dots> = oh_getSize ?m p" by (simp add: oh_getSize_def mem_simps)
    finally show ?thesis using objectHeader_new_size p(4) by simp
  qed
  have out: "sh_mem s2 y = sh_mem s y" if "\<not> (unat p \<le> unat y \<and> unat y < unat p + unat sz + 32)" for y
  proof -
    have "\<not> y - (p + 8) < 8" "\<not> y - (p + 16 + sz) < 8"
      using word_at [of "p + 8" 8 y] word_at [of "p + 16 + sz" 8 y] u p e that by auto
    then show ?thesis using objectHeader_new_other [of p y] that p e by (auto simp: s2(4) wr64_other)
  qed
  have nz: "p \<noteq> 0" "sz \<noteq> 0" using p by auto
  have "app_ok (x, s2)" using ok s2(2,3) by (auto simp: app_ok_def xh_inv_def same_map_def)
  moreover have "aah_malloc lay sz st = Ok (p + 16, x, s2)"
    using z [unfolded add.commute [of sz]] s2(1) sz p nz by (simp add: aah_malloc_def Let_def xdefs aah_getPointer_def aah_getSize_def aah_getObject_def)
  ultimately show ?thesis using sz out by blast
qed

interpretation ak: kingsley app_src app_ok "\<lambda>s. unat (xh_position (fst s))" "\<lambda>s. unat (xh_end (fst s))"
  "\<lambda>s. unat (xh_start (fst s))" aah_getSize aah_malloc
proof (unfold_locales, goal_cases)
  case (1 s sz)
  then show ?case
    using xheap_malloc_ok [of "fst s" "snd s" sz] by (fastforce simp: app_ok_def same_map_def)
next
  case (2 s sz) then show ?case using xheap_malloc_full [of "fst s" "snd s" sz] by (simp add: app_ok_def)
next
  case (3 s) then show ?case using xb.aligned [of s] by (simp add: app_ok_def)
next
  case (4 s) then show ?case using xb.bounded [of s] by (simp add: app_ok_def)
next
  case (10 sz s p s')
  then show ?case by (auto simp: xheap_malloc_def Let_def sm_cleanup_def rmap_Ok_iff split: if_splits prod.splits)
next
  case (11 s) then show ?case using unat_u64_less by blast
next
  case (14 lay sz s e) then show ?case by (simp add: aah_malloc_def xdefs add.commute)
next
  case (15 lay sz s p s1)
  then show ?case using aah_malloc_ok [of lay sz s p "fst s1" "snd s1"] by auto
qed (auto simp: app_ok_def xh_inv_def sh_ok_def aah_getSize_def aah_getObject_def Let_def unat_u64_less split: prod.splits)

section \<open>The heap of the runtime\<close>

interpretation ik: kingsley int_src "\<lambda>s. si_inv (fst s)" "\<lambda>s. unat (si_position (fst s))" "\<lambda>s. unat (si_end (fst s))"
  "\<lambda>s. unat (si_start (fst s))" iah_getSize iah_malloc
proof (unfold_locales, goal_cases)
  case (1 s sz)
  then show ?case using ib.alloc_ok [of "fst s" sz] by fastforce
next
  case (2 s sz) then show ?case using ib.alloc_full [of "fst s" sz] by simp
next
  case (3 s) then show ?case using ib.aligned by simp
next
  case (4 s) then show ?case using ib.bounded by simp
next
  case (10 sz s p s')
  then show ?case by (auto simp: sih_malloc_def Let_def rmap_Ok_iff rbind_Ok_iff split: if_splits prod.splits)
next
  case (11 s) then show ?case using unat_u64_less by blast
next
  case (14 lay sz s e) then show ?case by (simp add: iah_malloc_def xdefs add.commute)
next
  case (15 lay sz s p s1)
  obtain h m where s1: "s1 = (h, m)" by (cases s1)
  have "unat (si_position h) < 2 ^ 64" using unat_u64_less by blast
  then show ?case
    using 15 objectHeader_new_size [of sz m p] objectHeader_new_other [of p _ m sz]
    by (auto simp: s1 iah_malloc_def aah_getPointer_def xdefs add.commute)
qed (auto simp: iah_getSize_def aah_getObject_def Let_def unat_u64_less split: prod.splits)

section \<open>A program that allocates, releases and writes\<close>

text \<open>
  The state is the memory with the heaps of all threads, and the set of live objects with the sizes that
  were asked for. In each step some thread, with the heap number \<open>ind\<close>, allocates, or releases a live
  object of any thread, or the program writes into a live object: anywhere from the object size in
  the header up to 16 bytes behind the object, which covers the guards that the runtime writes there
  and an overflow of the program into them.
\<close>

abbreviation heap_nums :: "nat set" where "heap_nums \<equiv> {..<nat NUM_HEAPS}"

inductive app_step :: "(nat \<Rightarrow> klayout) \<Rightarrow> (xheap \<times> sheap) \<times> (u64 \<times> u64) set \<Rightarrow> (xheap \<times> sheap) \<times> (u64 \<times> u64) set \<Rightarrow> bool"
  for lay where
  Malloc: "0 \<le> ind \<Longrightarrow> ind < NUM_HEAPS \<Longrightarrow> 0 < sz \<Longrightarrow> sz \<le> MallocMaxSize \<Longrightarrow> pth_malloc lay ind sz st = Ok (p, st') \<Longrightarrow>
    app_step lay (st, L) (st', insert (p, sz) L)"
| Free: "0 \<le> ind \<Longrightarrow> ind < NUM_HEAPS \<Longrightarrow> (p, n) \<in> L \<Longrightarrow> pth_free lay ind p (sh_mem s) = Ok m \<Longrightarrow>
    app_step lay ((x, s), L) ((x, s\<lparr>sh_mem := m\<rparr>), L - {(p, n)})"
| Write: "(p, n) \<in> L \<Longrightarrow> unat p - 12 \<le> unat a \<Longrightarrow> unat a < unat p + unat n + 16 \<Longrightarrow>
    app_step lay ((x, s), L) ((x, s\<lparr>sh_mem := (sh_mem s)(a := v)\<rparr>), L)"

inductive_cases app_stepE: "app_step lay (st, L) (st', L')"

definition app_inv :: "(nat \<Rightarrow> klayout) \<Rightarrow> (xheap \<times> sheap) \<times> (u64 \<times> u64) set \<Rightarrow> bool" where
  "app_inv lay = (\<lambda>(st, L). inj_on fst L \<and> (\<exists>B F. ak.heaps_inv heap_nums lay B F st \<and>
     (\<forall>(p, n)\<in>L. \<exists>c. (p, c) \<in> ak.all_live heap_nums B F \<and> unat n \<le> 2 ^ (c + 3))))"

lemma heap_num: "0 \<le> ind \<Longrightarrow> ind < NUM_HEAPS \<Longrightarrow> nat ind \<in> heap_nums"
  by auto

lemma zero_num: "0 \<in> heap_nums"
  by simp

lemma same_object:
  "ak.heaps_inv heap_nums lay B F st \<Longrightarrow> (p, c) \<in> ak.all_live heap_nums B F \<Longrightarrow> (p, d) \<in> ak.all_live heap_nums B F \<Longrightarrow> d = c"
  using ak.heaps_disjoint(4) [of heap_nums lay B F st 0 p c p d] by fastforce

lemma same_size: "inj_on fst L \<Longrightarrow> (p, k) \<in> L \<Longrightarrow> (p, n) \<in> L \<Longrightarrow> k = n"
  using inj_onD [of fst L "(p, k)" "(p, n)"] by simp

lemma class_size: "0 < sz \<Longrightarrow> sz \<le> MallocMaxSize \<Longrightarrow> unat sz \<le> 2 ^ (ak.class_of sz + 3)"
proof -
  assume sz: "0 < sz" "sz \<le> MallocMaxSize"
  note c = class_of_spec [OF sz ak.class_of_def refl]
  have "unat (class2Size (int (ak.class_of sz))) = 2 ^ (ak.class_of sz + 3)"
    using c(2) by (simp add: unat_class2Size nat_add_distrib)
  then show ?thesis using c(5) by (simp add: word_le_nat_alt)
qed

lemma app_inv_malloc:
  assumes inv: "app_inv lay (st, L)" and ind: "0 \<le> ind" "ind < NUM_HEAPS" and sz: "0 < sz" "sz \<le> MallocMaxSize"
  shows "(\<exists>p st'. pth_malloc lay ind sz st = Ok (p, st') \<and> p \<notin> fst ` L \<and> app_inv lay (st', insert (p, sz) L)) \<or>
    pth_malloc lay ind sz st = Err Exit"
proof -
  let ?L = "ak.all_live heap_nums"
  obtain B F where B: "ak.heaps_inv heap_nums lay B F st" "\<forall>(p, n)\<in>L. \<exists>c. (p, c) \<in> ?L B F \<and> unat n \<le> 2 ^ (c + 3)"
      "inj_on fst L" using inv by (auto simp: app_inv_def)
  from ak.heaps_malloc [OF B(1) heap_num [OF ind] sz] show ?thesis
  proof (elim disjE exE conjE)
    fix p st' B' F' assume m: "ansi_malloc app_src (lay (nat ind)) aah_getSize (aah_malloc (lay (nat ind))) sz st = Ok (p, st')"
      and B': "ak.heaps_inv heap_nums lay B' F' st'" "?L B' F' = insert (p, ak.class_of sz) (?L B F)" "(p, ak.class_of sz) \<notin> ?L B F"
    have new: "p \<notin> fst ` L"
    proof
      assume "p \<in> fst ` L"
      then obtain d where "(p, d) \<in> ?L B F" using B(2) by fastforce
      then show False using same_object [OF B'(1), of p "ak.class_of sz" d] B'(2,3) by auto
    qed
    then have "inj_on fst (insert (p, sz) L)" using B(3) by (auto simp: inj_on_def)
    moreover have "\<forall>(q, n)\<in>insert (p, sz) L. \<exists>c. (q, c) \<in> ?L B' F' \<and> unat n \<le> 2 ^ (c + 3)"
      using B(2) B'(2) class_size [OF sz] by fastforce
    ultimately have "app_inv lay (st', insert (p, sz) L)" using B'(1) by (auto simp: app_inv_def)
    then show ?thesis using m new by (auto simp: pth_malloc_def)
  qed (simp add: pth_malloc_def)
qed

lemma app_inv_free:
  assumes inv: "app_inv lay ((x, s), L)" and p: "(p, n) \<in> L" and ind: "0 \<le> ind" "ind < NUM_HEAPS"
  shows "\<exists>m. pth_free lay ind p (sh_mem s) = Ok m \<and> app_inv lay ((x, s\<lparr>sh_mem := m\<rparr>), L - {(p, n)})"
proof -
  let ?L = "ak.all_live heap_nums"
  obtain B F where B: "ak.heaps_inv heap_nums lay B F (x, s)" "\<forall>(p, n)\<in>L. \<exists>c. (p, c) \<in> ?L B F \<and> unat n \<le> 2 ^ (c + 3)"
      "inj_on fst L" using inv by (auto simp: app_inv_def)
  obtain c where c: "(p, c) \<in> ?L B F" using B(2) p by fastforce
  obtain m F' where m: "ansi_free aah_getSize (lay (nat ind)) p (sh_mem s) = Ok m" "ak.heaps_inv heap_nums lay B F' (x, s\<lparr>sh_mem := m\<rparr>)"
      "?L B F' = ?L B F - {(p, c)}"
    using ak.heaps_free [OF B(1) heap_num [OF ind] c] by auto
  have "\<forall>(q, k)\<in>L - {(p, n)}. \<exists>d. (q, d) \<in> ?L B F' \<and> unat k \<le> 2 ^ (d + 3)"
  proof (rule ballI, goal_cases)
    case (1 b)
    obtain q k where b: "b = (q, k)" by (cases b)
    have "q \<noteq> p" using same_size [OF B(3) _ p, of k] 1 b by auto
    then show ?case using 1 b B(2) m(3) by fastforce
  qed
  moreover have "inj_on fst (L - {(p, n)})" using B(3) by (auto simp: inj_on_def)
  ultimately have "app_inv lay ((x, s\<lparr>sh_mem := m\<rparr>), L - {(p, n)})"
    unfolding app_inv_def prod.case using m(2) by blast
  then show ?thesis using m(1) ind by (simp add: pth_free_def)
qed

lemma app_inv_write:
  assumes inv: "app_inv lay ((x, s), L)" and p: "(p, n) \<in> L" and a: "unat p - 12 \<le> unat a" "unat a < unat p + unat n + 16"
  shows "app_inv lay ((x, s\<lparr>sh_mem := (sh_mem s)(a := v)\<rparr>), L)"
proof -
  let ?L = "ak.all_live heap_nums"
  obtain B F where B: "ak.heaps_inv heap_nums lay B F (x, s)" "\<forall>(p, n)\<in>L. \<exists>c. (p, c) \<in> ?L B F \<and> unat n \<le> 2 ^ (c + 3)"
      "inj_on fst L" using inv by (auto simp: app_inv_def)
  obtain c where c: "(p, c) \<in> ?L B F" "unat n \<le> 2 ^ (c + 3)" using B(2) p by fastforce
  show ?thesis using ak.heaps_write [OF B(1) c(1) zero_num a(1), of v] B c a by (auto simp: app_inv_def)
qed

lemma app_step_inv:
  assumes "app_step lay s s'" and "app_inv lay s"
  shows "app_inv lay s'"
  using assms
proof cases
  case (Malloc ind sz st p st' L)
  then show ?thesis using app_inv_malloc [of lay st L ind sz] assms(2) by auto
next
  case (Free ind p n L s m x)
  then show ?thesis using app_inv_free [of lay x s L p n ind] assms(2) by auto
next
  case (Write p n L a x s v)
  then show ?thesis using app_inv_write [of lay x s L p n a v] assms(2) by auto
qed

lemma app_inv_new:
  assumes "app_ok (x, s)" and "layouts_ok heap_nums lay (unat (xh_start x))"
  shows "app_inv lay ((x, s\<lparr>sh_mem := pth_new lay m\<rparr>), {})"
proof -
  have "unat (xh_start x) \<le> unat (xh_position x)" using assms(1) by (simp add: app_ok_def xh_inv_def word_le_nat_alt)
  then have "ak.heaps_inv heap_nums lay {} (\<lambda>_ _. []) (x, s\<lparr>sh_mem := pth_new lay m\<rparr>)"
    using assms by (intro ak.heaps_new [where m = m]) (auto simp: app_ok_def xh_inv_def sh_ok_def)
  then show ?thesis by (auto simp: app_inv_def)
qed

text \<open>
  C3. Safety of the application heap, with all threads. Start with the empty heaps of all threads, and let
  any threads allocate objects, release live ones, also those that another thread allocated, and write
  into live ones in any order. Then all live objects are 16-byte aligned, lie inside the part of the
  heap that was handed out, and no two of them overlap, their headers and guards included. Every
  thread can release every live object, and a further allocation returns an object that is not
  live yet or stops the program because the heap is exhausted.
\<close>

theorem heap_objects_disjoint:
  assumes init: "app_ok (x, s)" "layouts_ok heap_nums lay (unat (xh_start x))" and ind: "0 \<le> ind" "ind < NUM_HEAPS"
    and run: "(app_step lay)\<^sup>*\<^sup>* ((x, s\<lparr>sh_mem := pth_new lay m\<rparr>), {}) ((x', s'), L)"
  shows "(\<forall>(p, n)\<in>L. 16 dvd unat p \<and> unat (xh_start x') + 16 \<le> unat p \<and> unat p + unat n + 16 \<le> unat (xh_position x') \<and>
      (\<exists>m'. pth_free lay ind p (sh_mem s') = Ok m') \<and>
      (\<forall>(q, k)\<in>L. (q, k) = (p, n) \<or> unat p + unat n + 16 \<le> unat q - 16 \<or> unat q + unat k + 16 \<le> unat p - 16)) \<and>
    (\<forall>sz. 0 < sz \<and> sz \<le> MallocMaxSize \<longrightarrow>
      (\<exists>p st. pth_malloc lay ind sz (x', s') = Ok (p, st) \<and> p \<notin> fst ` L) \<or> pth_malloc lay ind sz (x', s') = Err Exit)"
proof -
  have inv: "app_inv lay ((x', s'), L)"
    using run
  proof (induction rule: rtranclp_induct)
    case base show ?case using app_inv_new [OF init] .
  next
    case (step t u) then show ?case using app_step_inv by blast
  qed
  let ?L = "ak.all_live heap_nums"
  obtain B F where B: "ak.heaps_inv heap_nums lay B F (x', s')" "inj_on fst L"
      "\<forall>(p, n)\<in>L. \<exists>c. (p, c) \<in> ?L B F \<and> unat n \<le> 2 ^ (c + 3)" using inv by (auto simp: app_inv_def)
  have one: "16 dvd unat p \<and> unat (xh_start x') + 16 \<le> unat p \<and> unat p + unat n + 16 \<le> unat (xh_position x')"
    if pn: "(p, n) \<in> L" for p n
  proof -
    obtain c where c: "(p, c) \<in> ?L B F" "unat n \<le> 2 ^ (c + 3)" using B(3) pn by fastforce
    show ?thesis using ak.heaps_disjoint(1-3) [OF B(1) zero_num c(1)] c(2) by simp
  qed
  have two: "(q, k) = (p, n) \<or> unat p + unat n + 16 \<le> unat q - 16 \<or> unat q + unat k + 16 \<le> unat p - 16"
    if pn: "(p, n) \<in> L" and qk: "(q, k) \<in> L" for p n q k
  proof (cases "q = p")
    case True then show ?thesis using same_size [OF B(2)] pn qk by blast
  next
    case False
    obtain c where c: "(p, c) \<in> ?L B F" "unat n \<le> 2 ^ (c + 3)" using B(3) pn by fastforce
    obtain d where d: "(q, d) \<in> ?L B F" "unat k \<le> 2 ^ (d + 3)" using B(3) qk by fastforce
    show ?thesis using ak.heaps_disjoint(4) [OF B(1) zero_num c(1) d(1)] False c(2) d(2) by auto
  qed
  show ?thesis
    using one two app_inv_free [OF inv] app_inv_malloc [OF inv ind] ind by fast
qed

text \<open>A heap of 16 MB at address 131072, the members of the threads' heaps from 4096 on, 512 bytes apart.\<close>

definition demo_layout :: "nat \<Rightarrow> klayout" where
  "demo_layout j = \<lparr>kl_bin = (\<lambda>i. of_nat (4096 + 512 * j + 8 * i)), kl_sizeRemaining = of_nat (4096 + 512 * j + 256),
     kl_currentArena = of_nat (4096 + 512 * j + 264), kl_pastArenas = of_nat (4096 + 512 * j + 272)\<rparr>"

definition demo_heap :: "xheap \<times> sheap" where
  "demo_heap = (zero_xheap\<lparr>xh_start := 131072, xh_end := 16908288, xh_position := 131072, xh_remaining := 16777216\<rparr>,
     demo_sheap\<lparr>sh_heapStart := 131072, sh_bitmap := bitmap_initialize (\<lambda>_. 0) 2097152 262144,
       sh_mem := pth_new demo_layout (\<lambda>_. 0)\<rparr>)"

lemma demo_meta:
  assumes "j < 128" and "a \<in> meta (demo_layout j)"
  obtains i where "i \<le> 34" "unat a = 4096 + 512 * j + 8 * i"
proof -
  have u: "unat (of_nat (4096 + 512 * j + 8 * i) :: u64) = 4096 + 512 * j + 8 * i" if "i \<le> 34" for i
    using that assms(1) by (subst unat_of_nat) simp
  have "\<exists>i\<le>34. a = of_nat (4096 + 512 * j + 8 * i)"
  proof -
    have "a \<in> (\<lambda>i. of_nat (4096 + 512 * j + 8 * i)) ` ({..<29} \<union> {32, 33, 34})"
      using assms(2) by (auto simp: meta_def demo_layout_def)
    then obtain i where "i \<in> {..<29} \<union> {32, 33, 34}" "a = of_nat (4096 + 512 * j + 8 * i)" by (elim imageE)
    then show ?thesis by (intro exI [of _ i] conjI) auto
  qed
  then obtain i where i: "i \<le> 34" "a = of_nat (4096 + 512 * j + 8 * i)" by blast
  show ?thesis by (rule that [OF i(1)]) (simp only: i(2) u [OF i(1)])
qed

lemma demo_layouts: "layouts_ok heap_nums demo_layout 131072"
proof -
  have u: "unat (of_nat n :: u64) = n" if "n < 131072" for n using that by (subst unat_of_nat) simp
  have eq: "(of_nat n :: u64) = of_nat k \<longleftrightarrow> n = k" if "n < 131072" "k < 131072" for n k
    using that u by metis
  have "meta_ok (demo_layout j) 131072" if j: "j < 128" for j
  proof -
    have "unat a + 8 \<le> 131072" if "a \<in> meta (demo_layout j)" for a by (rule demo_meta [OF j that]) (use j in auto)
    moreover have "apart8 a b" if ab: "a \<in> meta (demo_layout j)" "b \<in> meta (demo_layout j)" "a \<noteq> b" for a b
    proof -
      have "unat a \<noteq> unat b" using ab(3) by (simp add: word_unat_eq_iff)
      moreover obtain i where i: "unat a = 4096 + 512 * j + 8 * i" using demo_meta [OF j ab(1)] by blast
      moreover obtain k where k: "unat b = 4096 + 512 * j + 8 * k" using demo_meta [OF j ab(2)] by blast
      ultimately show ?thesis unfolding apart8_def by (cases i k rule: linorder_cases) auto
    qed
    moreover have "inj_on (kl_bin (demo_layout j)) {..<29}" using j by (auto simp: inj_on_def demo_layout_def eq simp del: of_nat_add of_nat_mult)
    moreover have "distinct [kl_sizeRemaining (demo_layout j), kl_currentArena (demo_layout j), kl_pastArenas (demo_layout j)]"
      using j by (auto simp: demo_layout_def eq simp del: of_nat_add of_nat_mult)
    moreover have "\<forall>i<29. kl_bin (demo_layout j) i \<notin> {kl_sizeRemaining (demo_layout j), kl_currentArena (demo_layout j), kl_pastArenas (demo_layout j)}"
      using j by (auto simp: demo_layout_def eq simp del: of_nat_add of_nat_mult)
    ultimately show ?thesis by (auto simp: meta_ok_def)
  qed
  moreover have "meta_reg (demo_layout j) \<inter> meta_reg (demo_layout k) = {}" if "j < 128" "k < 128" "j \<noteq> k" for j k
  proof -
    have "meta_reg (demo_layout l) \<subseteq> {4096 + 512 * l..<4096 + 512 * l + 512}" if l: "l < 128" for l
    proof
      fix x assume "x \<in> meta_reg (demo_layout l)"
      then obtain a where a: "a \<in> meta (demo_layout l)" "unat a \<le> x" "x < unat a + 8" by (auto simp: meta_reg_def bytes8_def)
      show "x \<in> {4096 + 512 * l..<4096 + 512 * l + 512}" by (rule demo_meta [OF l a(1)]) (use a in auto)
    qed
    from this [OF that(1)] this [OF that(2)] that(3) show ?thesis by fastforce
  qed
  ultimately show ?thesis by (auto simp: layouts_ok_def)
qed

lemma demo_heap_ok: "app_ok demo_heap"
  by (simp add: app_ok_def demo_heap_def xh_inv_def zero_xheap_def sh_ok_def demo_sheap_def bm_inv_def bitmap_initialize_def word_le_nat_alt)

theorem heap_objects_disjoint_witness:
  "\<exists>p x' s' m. pth_malloc demo_layout 0 100 demo_heap = Ok (p, x', s') \<and> 16 dvd unat p \<and>
    pth_free demo_layout 1 p ((sh_mem s')(p := 1)) = Ok m"
proof -
  obtain x s where h: "demo_heap = (x, s)" by (cases demo_heap)
  have x: "unat (xh_start x) = 131072" "unat (xh_end x) = 16908288" "unat (xh_position x) = 131072"
      "s\<lparr>sh_mem := pth_new demo_layout (\<lambda>_. 0)\<rparr> = s"
    using h by (auto simp: demo_heap_def)
  have init: "app_ok (x, s)" "layouts_ok heap_nums demo_layout (unat (xh_start x))" using demo_heap_ok demo_layouts h x by simp_all
  have "app_inv demo_layout ((x, s), {})" using app_inv_new [OF init, of "\<lambda>_. 0"] x(4) by simp
  then obtain B F where B: "ak.heaps_inv heap_nums demo_layout B F (x, s)" by (auto simp: app_inv_def)
  have "\<not> 4194304 < class2Size (int (ak.class_of 100)) + 32" unfolding ak.class_of_def by code_simp
  then have "need app_src (class2Size (int (ak.class_of 100)) + 32) = 4194304" by (simp add: need_def)
  then obtain p st where p: "pth_malloc demo_layout 0 100 (x, s) = Ok (p, st)"
    using ak.heaps_malloc [OF B zero_num, of 100] x by (auto simp: pth_malloc_def MallocMaxSize_def page_up_def)
  obtain x' s' where st: "st = (x', s')" by (cases st)
  let ?s = "s'\<lparr>sh_mem := (sh_mem s')(p := 1)\<rparr>"
  have 1: "app_step demo_layout ((x, s), {}) ((x', s'), {(p, 100)})"
    using Malloc [of 0 100 demo_layout "(x, s)" p "(x', s')" "{}"] p st by (simp add: MallocMaxSize_def)
  have 2: "app_step demo_layout ((x', s'), {(p, 100)}) ((x', ?s), {(p, 100)})"
    by (rule Write [of p 100]) auto
  have "(app_step demo_layout)\<^sup>*\<^sup>* ((x, s), {}) ((x', ?s), {(p, 100)})"
    by (rule converse_rtranclp_into_rtranclp [OF 1 r_into_rtranclp [of "app_step demo_layout", OF 2]])
  from heap_objects_disjoint [where lay = demo_layout and ind = 1 and x = x and s = s and m = "\<lambda>_. 0", unfolded x(4), OF init _ _ this]
  have "16 dvd unat p" "\<exists>m. pth_free demo_layout 1 p (sh_mem ?s) = Ok m" by auto
  then show ?thesis using p st h by auto
qed

end
