(* ===== verification/Leakcheck.thy ===== *)
theory Leakcheck
  imports Xheap
begin

text \<open>
  The leak detector (\<open>include/leakcheck.hh\<close>, \<open>source/leakcheck.cpp\<close>): a conservative mark phase from
  registers, stack and globals over a list of addresses, and a sweep over the heap that reports the
  objects that are neither freed nor marked. The mark is the lowest bit of the block size in the
  object header. The detector works on the heap with its sentinel map (\<open>sheap\<close>); the lists of
  \<open>std::list\<close> are HOL lists, since the model follows no pointer of theirs.
\<close>

section \<open>Operations\<close>

record leakcheck =
  lc_unexplored :: "u64 list"
  lc_totalLeakageSize :: u64
  lc_nonStartAddrs :: u64
  lc_heapBegin :: u64
  lc_heapEnd :: u64

definition isPossibleHeapPointer :: "u64 \<Rightarrow> leakcheck \<Rightarrow> bool" where
  "isPossibleHeapPointer addr lc \<longleftrightarrow> addr > lc_heapBegin lc \<and> addr < lc_heapEnd lc"

definition checkInsertUnexploredList :: "u64 \<Rightarrow> leakcheck \<Rightarrow> leakcheck" where
  "checkInsertUnexploredList addr lc =
     (if isPossibleHeapPointer addr lc then lc\<lparr>lc_unexplored := lc_unexplored lc @ [addr]\<rparr> else lc)"

partial_function (option) search_loop :: "mem \<Rightarrow> u64 \<Rightarrow> u64 \<Rightarrow> leakcheck \<Rightarrow> leakcheck option" where
  "search_loop m ptr stop lc =
     (if ptr < stop then search_loop m (ptr + 8) stop (checkInsertUnexploredList (rd64 m ptr) lc) else Some lc)"

definition searchHeapPointers :: "mem \<Rightarrow> u64 \<Rightarrow> u64 \<Rightarrow> leakcheck \<Rightarrow> leakcheck res option" where
  "searchHeapPointers m start stop lc =
     (if start mod 8 \<noteq> 0 then Some (Err Assertion)
      else map_option Ok (search_loop m start (aligndown stop 8) lc))"

text \<open>The registers from \<open>REG_R8\<close> (0) to \<open>REG_RCX\<close> (14) of a machine context.\<close>

definition searchHeapPointers_regs :: "(nat \<Rightarrow> u64) \<Rightarrow> leakcheck \<Rightarrow> leakcheck" where
  "searchHeapPointers_regs gregs lc = fold (\<lambda>i. checkInsertUnexploredList (gregs i)) [0..<15] lc"

definition searchHeapPointersInsideStack :: "mem \<Rightarrow> u64 \<Rightarrow> u64 \<Rightarrow> leakcheck \<Rightarrow> leakcheck res option" where
  "searchHeapPointersInsideStack m start stackTop lc = searchHeapPointers m start stackTop lc"

primrec search_globals :: "mem \<Rightarrow> xglobals \<Rightarrow> nat list \<Rightarrow> leakcheck \<Rightarrow> leakcheck res option" where
  "search_globals m g [] lc = Some (Ok lc)"
| "search_globals m g (i # js) lc =
     (let (b, e) = getGlobalRegion i g in
      obind (if b \<noteq> 0 then searchHeapPointers m b e lc else Some (Ok lc)) (search_globals m g js))"

definition searchHeapPointersInsideGlobals :: "mem \<Rightarrow> xglobals \<Rightarrow> leakcheck \<Rightarrow> leakcheck res option" where
  "searchHeapPointersInsideGlobals m g lc = search_globals m g [0..<getRegions g] lc"

definition lc_getObject :: "u64 \<Rightarrow> u64" where
  "lc_getObject ptr = ptr - 16"

text \<open>The first half of \<open>exploreHeapObject\<close>: the object that an address points into, and its start.\<close>

definition object_at :: "sheap \<Rightarrow> u64 \<Rightarrow> (u64 \<times> u64) option res" where
  "object_at s addr =
     (let obj = lc_getObject addr; m = sh_mem s in
      if \<not> isGoodObject m obj then
        rbind (findObjectStartAddr addr s) (\<lambda>r. case r of
          None \<Rightarrow> Ok None
        | Some objectStart \<Rightarrow>
            let obj = lc_getObject objectStart in
            if \<not> isGoodObject m obj \<or> \<not> isValidAddr m obj addr then Ok None else Ok (Some (obj, objectStart)))
      else if isValidAddr m obj addr then Ok (Some (obj, addr)) else Ok None)"

definition exploreHeapObject :: "u64 \<Rightarrow> leakcheck \<times> sheap \<Rightarrow> (leakcheck \<times> sheap) res option" where
  "exploreHeapObject addr = (\<lambda>(lc, s).
     obind (Some (object_at s addr)) (\<lambda>r. case r of
       None \<Rightarrow> Some (Ok (lc, s))
     | Some (obj, objectStart) \<Rightarrow>
         let m = sh_mem s in
         if \<not> isGoodObject m obj \<or> \<not> isValidAddr m obj addr then Some (Err Assertion)
         else if doCheckObject m obj then
           obind (searchHeapPointers m objectStart (objectStart + getObjectSize m obj) lc) (\<lambda>lc.
             Some (Ok (lc, s\<lparr>sh_mem := markObjectChecked m obj\<rparr>)))
         else Some (Ok (lc, s))))"

partial_function (option) traverseUnexploredList :: "leakcheck \<times> sheap \<Rightarrow> (leakcheck \<times> sheap) res option" where
  "traverseUnexploredList st =
     (case lc_unexplored (fst st) of
        [] \<Rightarrow> Some (Ok st)
      | addr # rest \<Rightarrow>
          Option.bind (exploreHeapObject addr ((fst st)\<lparr>lc_unexplored := rest\<rparr>, snd st)) (\<lambda>r.
            case r of Err e \<Rightarrow> Some (Err e) | Ok st \<Rightarrow> traverseUnexploredList st))"

definition insertLeakageMap :: "trackObject \<Rightarrow> u64 \<Rightarrow> u64 \<Rightarrow> u64 \<Rightarrow> leakcheck \<times> sheap \<Rightarrow> (leakcheck \<times> sheap) res" where
  "insertLeakageMap junk ptr sz blocksize = (\<lambda>(lc, s).
     let lc = lc\<lparr>lc_totalLeakageSize := lc_totalLeakageSize lc + blocksize\<rparr>; w = sh_trk s in
     rmap (\<lambda>mt. (lc, s\<lparr>sh_trk := w\<lparr>tr_memtrack := mt\<rparr>\<rparr>)) (memtrack_insert (tr_memtrack w) ptr sz OBJECT_TYPE_LEAK junk))"

text \<open>One header that the sweep finds, with the check of the object and its report.\<close>

definition sweep_object :: "trackObject \<Rightarrow> u64 \<Rightarrow> bool \<times> leakcheck \<times> sheap \<Rightarrow> (bool \<times> leakcheck \<times> sheap) res" where
  "sweep_object junk object = (\<lambda>(hasLeakage, lc, s).
     let (leak, m) = checkLeakageAndClean (sh_mem s) object; s = s\<lparr>sh_mem := m\<rparr> in
     if leak then rmap (\<lambda>st. (True, st))
       (insertLeakageMap junk (getStartPtr object) (getObjectSize m object) (oh_getSize m object) (lc, s))
     else Ok (hasLeakage, lc, s))"

partial_function (option) report_loop ::
    "trackObject \<Rightarrow> u64 \<Rightarrow> u64 \<Rightarrow> bool \<times> leakcheck \<times> sheap \<Rightarrow> (bool \<times> leakcheck \<times> sheap) res option" where
  "report_loop junk ptr stop st =
     (if ptr < stop then
        case (if rd64 (sh_mem (snd (snd st))) ptr = SENTINEL_WORD then sm_isSet ptr (snd (snd st)) else Ok False) of
          Err e \<Rightarrow> Some (Err e)
        | Ok found \<Rightarrow>
            if found then
              case sweep_object junk (lc_getObject (ptr + 8)) st of
                Err e \<Rightarrow> Some (Err e)
              | Ok st \<Rightarrow> report_loop junk (getNextObject (sh_mem (snd (snd st))) (lc_getObject (ptr + 8))) stop st
            else report_loop junk (ptr + 8) stop st
      else Some (Ok st))"

definition reportUnreachableNonfreedObjects :: "trackObject \<Rightarrow> leakcheck \<times> sheap \<Rightarrow> (bool \<times> leakcheck \<times> sheap) res option" where
  "reportUnreachableNonfreedObjects junk = (\<lambda>(lc, s). report_loop junk (lc_heapBegin lc) (lc_heapEnd lc) (False, lc, s))"

text \<open>
  \<open>context\<close> is the address of the machine context on the stack, \<open>gregs\<close> its registers and
  \<open>stackTop\<close> the end of the thread's stack.
\<close>

definition doSlowLeakCheck ::
    "trackObject \<Rightarrow> xglobals \<Rightarrow> u64 \<Rightarrow> (nat \<Rightarrow> u64) \<Rightarrow> u64 \<Rightarrow> u64 \<Rightarrow> u64 \<Rightarrow> leakcheck \<times> sheap \<Rightarrow>
      (bool \<times> leakcheck \<times> sheap) res option" where
  "doSlowLeakCheck junk g ctx gregs stackTop hbegin hend = (\<lambda>(lc, s).
     let lc = lc\<lparr>lc_heapBegin := hbegin + 16, lc_heapEnd := hend, lc_nonStartAddrs := 0, lc_totalLeakageSize := 0\<rparr>;
         lc = searchHeapPointers_regs gregs lc in
     obind (searchHeapPointersInsideStack (sh_mem s) ctx stackTop lc) (\<lambda>lc.
     obind (searchHeapPointersInsideGlobals (sh_mem s) g lc) (\<lambda>lc.
     obind (traverseUnexploredList (lc, s)) (reportUnreachableNonfreedObjects junk))))"

definition doFastLeakCheck ::
    "trackObject \<Rightarrow> xglobals \<Rightarrow> u64 \<Rightarrow> (nat \<Rightarrow> u64) \<Rightarrow> u64 \<Rightarrow> u64 \<Rightarrow> u64 \<Rightarrow> leakcheck \<times> sheap \<Rightarrow>
      (bool \<times> leakcheck \<times> sheap) res option" where
  "doFastLeakCheck junk g ctx gregs stackTop hbegin hend = (\<lambda>(lc, s).
     doSlowLeakCheck junk g ctx gregs stackTop hbegin hend
       (lc\<lparr>lc_heapBegin := hbegin, lc_heapEnd := hend, lc_totalLeakageSize := 0\<rparr>, s))"

section \<open>Searching memory\<close>

definition words_between :: "u64 \<Rightarrow> u64 \<Rightarrow> u64 list" where
  "words_between a b = map (\<lambda>i. a + 8 * of_nat i) [0..<(unat b - unat a) div 8]"

definition pushes :: "leakcheck \<Rightarrow> u64 list \<Rightarrow> u64 list" where
  "pushes lc vs = filter (\<lambda>v. isPossibleHeapPointer v lc) vs"

lemma possible_unexplored [simp]: "isPossibleHeapPointer v (lc\<lparr>lc_unexplored := w\<rparr>) = isPossibleHeapPointer v lc"
  by (simp add: isPossibleHeapPointer_def)

lemma words_between_Nil: "\<not> a < b \<Longrightarrow> words_between a b = []"
  by (simp add: words_between_def word_less_nat_alt)

lemma words_between_Cons:
  assumes "a < b" and "a mod 8 = 0" and "b mod 8 = 0"
  shows "words_between a b = a # words_between (a + 8) b" and "(a + 8) mod 8 = 0"
    and "unat (a + 8) = unat a + 8" and "unat a + 8 \<le> unat b"
proof -
  have d: "8 dvd unat a" "8 dvd unat b" using assms(2,3) by (simp_all add: word_unat_eq_iff unat_mod mod_eq_0_iff_dvd)
  have lt: "unat a < unat b" using assms(1) by (simp add: word_less_nat_alt)
  obtain i j where ij: "unat a = 8 * i" "unat b = 8 * j" using d by (auto elim!: dvdE)
  then show le: "unat a + 8 \<le> unat b" using lt by simp
  have "unat a + 8 < 2 ^ 64" using le unat_u64_less [of b] ij by simp
  then show u: "unat (a + 8) = unat a + 8" by (simp add: unat_plus_if')
  then have "unat (a + 8) mod 8 = 0" using d by (simp add: mod_eq_0_iff_dvd)
  then show "(a + 8) mod 8 = 0" by (simp add: word_unat_eq_iff unat_mod)
  have n: "(unat b - unat a) div 8 = Suc ((unat b - unat (a + 8)) div 8)" using u ij lt by simp
  show "words_between a b = a # words_between (a + 8) b"
  proof -
    have "[0..<Suc k] = 0 # map Suc [0..<k]" for k by (simp add: map_Suc_upt upt_conv_Cons del: upt_Suc)
    then show ?thesis unfolding words_between_def n by (simp add: comp_def algebra_simps del: upt_Suc)
  qed
qed

lemma search_loop_eq:
  "a mod 8 = 0 \<Longrightarrow> b mod 8 = 0 \<Longrightarrow>
    search_loop m a b lc = Some (lc\<lparr>lc_unexplored := lc_unexplored lc @ pushes lc (map (rd64 m) (words_between a b))\<rparr>)"
proof (induction "unat b - unat a" arbitrary: a lc rule: less_induct)
  case less
  show ?case
  proof (cases "a < b")
    case True
    note w = words_between_Cons [OF True less.prems]
    have "unat b - unat (a + 8) < unat b - unat a" using w(3,4) by simp
    from less.hyps [OF this w(2) less.prems(2)] show ?thesis
      by (subst search_loop.simps) (simp add: True w(1) checkInsertUnexploredList_def pushes_def)
  next
    case False
    then show ?thesis by (subst search_loop.simps) (simp add: words_between_Nil pushes_def)
  qed
qed

lemma aligndown_8_mod: "aligndown x 8 mod 8 = 0"
  using unat_aligndown [of 3 x] by (simp add: word_unat_eq_iff unat_mod)

lemma searchHeapPointers_eq:
  "searchHeapPointers m a b lc = (if a mod 8 \<noteq> 0 then Some (Err Assertion)
     else Some (Ok (lc\<lparr>lc_unexplored := lc_unexplored lc @ pushes lc (map (rd64 m) (words_between a (aligndown b 8)))\<rparr>)))"
  by (simp add: searchHeapPointers_def search_loop_eq aligndown_8_mod)

section \<open>The mark phase as a graph search\<close>

text \<open>
  A search with a list of addresses still to be looked at. \<open>obj\<close> is the object an address points
  into, \<open>succs\<close> the addresses found in an object.
\<close>

locale worklist =
  fixes obj :: "'a \<Rightarrow> 'h option" and succs :: "'h \<Rightarrow> 'a list"
  assumes finite_objects: "finite {h. \<exists>v. obj v = Some h}"
begin

inductive_set reach :: "'a set \<Rightarrow> 'h set" for R where
  root: "v \<in> R \<Longrightarrow> obj v = Some h \<Longrightarrow> h \<in> reach R"
| step: "h \<in> reach R \<Longrightarrow> v \<in> set (succs h) \<Longrightarrow> obj v = Some k \<Longrightarrow> k \<in> reach R"

lemma reach_mono: "h \<in> reach R \<Longrightarrow> R \<subseteq> R' \<Longrightarrow> h \<in> reach R'"
  by (induction rule: reach.induct) (auto intro: reach.intros)

lemma reach_absorb: "h \<in> reach (R \<union> set (succs k)) \<Longrightarrow> k \<in> reach R \<Longrightarrow> h \<in> reach R"
  by (induction rule: reach.induct) (auto intro: reach.intros)

partial_function (option) search :: "'h set \<Rightarrow> 'a list \<Rightarrow> 'h set option" where
  "search M W = (case W of [] \<Rightarrow> Some M | w # ws \<Rightarrow>
     (case obj w of None \<Rightarrow> search M ws
      | Some h \<Rightarrow> if h \<in> M then search M ws else search (insert h M) (ws @ succs h)))"

lemma search_induct [consumes 1, case_names Nil None Old New]:
  assumes "search M W = Some M'"
    and "\<And>M. P M [] M"
    and "\<And>M w ws M'. obj w = None \<Longrightarrow> P M ws M' \<Longrightarrow> P M (w # ws) M'"
    and "\<And>M w ws h M'. obj w = Some h \<Longrightarrow> h \<in> M \<Longrightarrow> P M ws M' \<Longrightarrow> P M (w # ws) M'"
    and "\<And>M w ws h M'. obj w = Some h \<Longrightarrow> h \<notin> M \<Longrightarrow> P (insert h M) (ws @ succs h) M' \<Longrightarrow> P M (w # ws) M'"
  shows "P M W M'"
  by (rule search.raw_induct [OF _ assms(1), where P = P])
    (use assms(2-) in \<open>auto split: list.splits option.splits if_splits\<close>)

definition found :: "'h set \<Rightarrow> 'a list \<Rightarrow> 'h set \<Rightarrow> bool" where
  "found M W M' \<longleftrightarrow> M \<subseteq> M' \<and> M' \<subseteq> M \<union> reach (set W) \<and> (\<forall>w\<in>set W. \<forall>h. obj w = Some h \<longrightarrow> h \<in> M') \<and>
     (\<forall>h\<in>M' - M. \<forall>v\<in>set (succs h). \<forall>k. obj v = Some k \<longrightarrow> k \<in> M')"

lemma search_found: "\<exists>M'. search M W = Some M' \<and> found M W M'"
proof (induction "(card ({h. \<exists>v. obj v = Some h} - M), length W)" arbitrary: M W
    rule: wf_induct_rule [OF wf_lex_prod [OF wf_less wf_less]])
  case 1
  show ?case
  proof (cases W)
    case Nil
    then show ?thesis by (subst search.simps) (simp add: found_def)
  next
    case (Cons w ws)
    consider (skip) "obj w = None \<or> (\<exists>h\<in>M. obj w = Some h)" | (new) h where "obj w = Some h" "h \<notin> M"
      by (cases "obj w") auto
    then show ?thesis
    proof cases
      case skip
      have "\<exists>M'. search M ws = Some M' \<and> found M ws M'" by (rule 1) (simp add: Cons)
      then obtain M' where M': "search M ws = Some M'" "found M ws M'" by blast
      then have "found M W M'"
        using skip Cons reach_mono [of _ "set ws" "set W"] by (fastforce simp: found_def)
      moreover have "search M W = Some M'" using skip Cons M'(1) by (subst search.simps) auto
      ultimately show ?thesis by blast
    next
      case new
      have "card ({h. \<exists>v. obj v = Some h} - insert h M) < card ({h. \<exists>v. obj v = Some h} - M)"
        using new finite_objects by (intro psubset_card_mono finite_Diff) blast+
      then have "\<exists>M'. search (insert h M) (ws @ succs h) = Some M' \<and> found (insert h M) (ws @ succs h) M'"
        by (intro 1) (simp add: lex_prod_def)
      then obtain M' where M': "search (insert h M) (ws @ succs h) = Some M'" "found (insert h M) (ws @ succs h) M'" by blast
      have hr: "h \<in> reach (set W)" using new Cons by (auto intro: reach.root)
      have "k \<in> reach (set W)" if "k \<in> reach (set (ws @ succs h))" for k
        using reach_absorb [OF _ hr] reach_mono [OF that, of "set W \<union> set (succs h)"] Cons by auto
      then have "M' \<subseteq> M \<union> reach (set W)" using M'(2) hr unfolding found_def by blast
      note f3 = this and F = M'(2) [unfolded found_def]
      have f: "M \<subseteq> M'" "h \<in> M'" using F by blast+
      have f4: "k \<in> M'" if "w \<in> set ws \<or> w \<in> set (succs h)" "obj w = Some k" for w k
        using F that by (simp only: set_append Un_iff)
      have f6: "j \<in> M'" if "k \<in> M'" "k \<notin> M" "k \<noteq> h" "v \<in> set (succs k)" "obj v = Some j" for k v j
        using F that by blast
      have "j \<in> M'" if "k \<in> M'" "k \<notin> M" "v \<in> set (succs k)" "obj v = Some j" for k v j
        using f4 f6 that by (cases "k = h") blast+
      moreover have "k \<in> M'" if "w' \<in> set W" "obj w' = Some k" for w' k
        using f(2) f4 new(1) that Cons by (cases "w' = w") auto
      ultimately have "found M W M'" unfolding found_def using f(1) f3 by blast
      moreover have "search M W = Some M'" using new Cons M'(1) by (subst search.simps) auto
      ultimately show ?thesis by blast
    qed
  qed
qed

lemma search_reach: "search {} W = Some (reach (set W))"
proof -
  obtain M' where M': "search {} W = Some M'" "found {} W M'" using search_found by blast
  have "h \<in> M'" if "h \<in> reach (set W)" for h
    using that M'(2) by (induction rule: reach.induct) (auto simp: found_def)
  then have "M' = reach (set W)" using M'(2) by (auto simp: found_def)
  then show ?thesis using M'(1) by simp
qed

end

section \<open>Marks\<close>

text \<open>The memory in which exactly the headers at the addresses in \<open>M\<close> have been marked.\<close>

definition marks :: "u64 set \<Rightarrow> mem \<Rightarrow> mem" where
  "marks M m = (\<lambda>x. if x \<in> M then m x OR 1 else m x)"

lemma marks_empty [simp]: "marks {} m = m"
  by (simp add: marks_def)

lemma mark_eq: "markObjectChecked m h = m(h := m h OR 1)"
proof
  fix x
  have lo: "ucast (rd32 m h OR 1) = m h OR 1"
  proof (rule bit_word_eqI)
    fix k assume "k < LENGTH(8)"
    then have k: "k < 8" by simp
    then show "bit (ucast (rd32 m h OR 1) :: u8) k = bit (m h OR 1) k"
      by (auto simp: bit_simps bit_rd32)
  qed
  show "markObjectChecked m h x = (m(h := m h OR 1)) x"
  proof (cases "x - h < 4")
    case True
    define i where "i = unat (x - h)"
    have i: "i < 4" "x = h + of_nat i" using True by (simp_all add: i_def word_less_nat_alt)
    show ?thesis
    proof (cases "i = 0")
      case True
      then show ?thesis using i lo by (simp add: markObjectChecked_def wr32_def)
    next
      case False
      have "ucast (drop_bit (8 * i) (rd32 m h OR 1)) = m x"
      proof (rule bit_word_eqI)
        fix k assume "k < LENGTH(8)"
        then have k: "k < 8" "8 * i + k < 32" "(8 * i + k) div 8 = i" "(8 * i + k) mod 8 = k" "8 * i + k \<noteq> 0" using i(1) False by auto
        then show "bit (ucast (drop_bit (8 * i) (rd32 m h OR 1)) :: u8) k = bit (m x) k"
          using i(2) by (simp add: bit_simps bit_rd32) (use False in simp)
      qed
      moreover have "x \<noteq> h" using False by (auto simp: i_def)
      ultimately show ?thesis using True by (simp add: markObjectChecked_def wr32_def i_def)
    qed
  next
    case False
    then have "x \<noteq> h" by auto
    then show ?thesis using False by (simp add: markObjectChecked_def wr32_other)
  qed
qed

lemma mark_marks: "h \<notin> M \<Longrightarrow> markObjectChecked (marks M m) h = marks (insert h M) m"
  by (auto simp: mark_eq marks_def)

text \<open>A byte that begins a block size in a header is no byte of a sentinel, marked or not.\<close>

definition size_byte :: "u8 \<Rightarrow> bool" where
  "size_byte b \<longleftrightarrow> b \<in> {0, 8, 16, 32, 64, 128}"

definition sentinel_byte :: "u8 \<Rightarrow> bool" where
  "sentinel_byte b \<longleftrightarrow> b \<in> {0xBE, 0xBA, 0xFE, 0xCA, 0xDE, 0xDA}"

lemma size_byte_marked: "size_byte b \<Longrightarrow> \<not> sentinel_byte b \<and> \<not> sentinel_byte (b OR 1) \<and> even b"
  by (auto simp: size_byte_def sentinel_byte_def)

lemma sentinel_bytes:
  assumes "w = SENTINEL_WORD \<or> w = MEMALIGN_SENTINEL_WORD" and "i < 8"
  shows "sentinel_byte (ucast (drop_bit (8 * i) w))"
proof -
  have "i \<in> {0, 1, 2, 3, 4, 5, 6, 7}" using assms(2) by auto
  then show ?thesis using assms(1)
    by (elim insertE disjE emptyE) (simp_all add: SENTINEL_WORD_def MEMALIGN_SENTINEL_WORD_def sentinel_byte_def)
qed

lemma rd64_marks_sentinel:
  assumes "w = SENTINEL_WORD \<or> w = MEMALIGN_SENTINEL_WORD" and M: "\<forall>h\<in>M. size_byte (m h)"
  shows "rd64 (marks M m) a = w \<longleftrightarrow> rd64 m a = w"
proof -
  have "marks M m x = ucast (drop_bit (8 * i) w) \<longleftrightarrow> m x = ucast (drop_bit (8 * i) w)" if "i < 8" for x i
    using sentinel_bytes [OF assms(1) that] M size_byte_marked [of "m x"] by (auto simp: marks_def)
  then show ?thesis by (simp add: rd64_eq_iff)
qed

lemma isGoodObject_marks: "\<forall>h\<in>M. size_byte (m h) \<Longrightarrow> isGoodObject (marks M m) a \<longleftrightarrow> isGoodObject m a"
  by (simp add: isGoodObject_def rd64_marks_sentinel)

lemma findObjectStart_marks:
  assumes "\<forall>h\<in>M. size_byte (sh_mem s h)"
  shows "findObjectStart_loop (s\<lparr>sh_mem := marks M (sh_mem s)\<rparr>) i = findObjectStart_loop s i"
  using assms
proof (induction s i rule: findObjectStart_loop.induct)
  case (1 s i)
  have e: "getHeapAddressFromItem (s\<lparr>sh_mem := marks M (sh_mem s)\<rparr>) j = getHeapAddressFromItem s j" for j
    by (simp add: getHeapAddressFromItem_def)
  show ?case
    using 1 rd64_marks_sentinel [OF _ 1(2)]
    by (subst (1 2) findObjectStart_loop.simps) (auto simp: e Let_def split: res.splits option.splits)
qed

section \<open>The mark phase implements the search\<close>

definition obj_of :: "sheap \<Rightarrow> u64 \<Rightarrow> u64 option" where
  "obj_of s v = (case object_at s v of Ok (Some (h, _)) \<Rightarrow> Some h | _ \<Rightarrow> None)"

definition succs_of :: "leakcheck \<Rightarrow> sheap \<Rightarrow> u64 \<Rightarrow> u64 list" where
  "succs_of lc s h = pushes lc (map (rd64 (sh_mem s)) (words_between (h + 16) (aligndown (h + 16 + getObjectSize (sh_mem s) h) 8)))"

interpretation wl: worklist "obj_of s" "succs_of lc s" for lc s
  by unfold_locales simp

definition objects :: "leakcheck \<Rightarrow> sheap \<Rightarrow> u64 set" where
  "objects lc s = {h. \<exists>v. isPossibleHeapPointer v lc \<and> obj_of s v = Some h}"

text \<open>
  What the detector needs from the heap: the sentinel map covers it, the objects it can see are
  aligned, unmarked, have a power of two as block size, and no header is inside another object.
\<close>

definition leak_heap :: "leakcheck \<Rightarrow> sheap \<Rightarrow> bool" where
  "leak_heap lc s \<longleftrightarrow> (\<forall>v. isPossibleHeapPointer v lc \<longrightarrow> (\<exists>r. object_at s v = Ok r)) \<and>
     (\<forall>h\<in>objects lc s. h mod 8 = 0 \<and> size_byte (sh_mem s h) \<and>
       (\<forall>k\<in>objects lc s. k \<noteq> h \<longrightarrow> \<not> k - h < 16 + getObjectSize (sh_mem s) h))"

lemma object_at_Some:
  assumes "object_at s v = Ok (Some (h, st))"
  shows "st = h + 16" and "isGoodObject (sh_mem s) h" and "isValidAddr (sh_mem s) h v"
proof -
  let ?m = "sh_mem s"
  have "st = h + 16 \<and> isGoodObject ?m h \<and> isValidAddr ?m h v"
  proof (cases "isGoodObject ?m (v - 16)")
    case True
    then show ?thesis
      using assms by (cases "isValidAddr ?m (v - 16) v") (auto simp: object_at_def lc_getObject_def Let_def)
  next
    case False
    then obtain r where "findObjectStartAddr v s = Ok r"
      using assms by (auto simp: object_at_def lc_getObject_def Let_def rbind_Ok_iff)
    then show ?thesis
      using assms False by (cases r) (auto simp: object_at_def lc_getObject_def Let_def split: if_splits)
  qed
  then show "st = h + 16" "isGoodObject ?m h" "isValidAddr ?m h v" by auto
qed

lemma obj_of_Some: "obj_of s v = Some h \<longleftrightarrow> object_at s v = Ok (Some (h, h + 16))"
  using object_at_Some [of s v] by (auto simp: obj_of_def split: res.splits option.splits)

lemma sentinel_size_invalid: "\<not> isValidObjectSize 0xCAFEBABE"
  by (simp add: isValidObjectSize_def)

text \<open>Two headers with intact sentinels never overlap in their first half, since one of them has a valid size.\<close>

lemma headers_apart:
  assumes c: "isGoodObject m c" and x: "isGoodObject m x" "isValidObjectSize (getObjectSize m x)" and "x - c < 8"
  shows "x = c"
proof (rule ccontr)
  assume "x \<noteq> c"
  define i where "i = unat (x - c)"
  have i: "i < 8" "x = c + of_nat i" using assms(4) by (simp_all add: i_def word_less_nat_alt)
  have i0: "i \<noteq> 0" using \<open>x \<noteq> c\<close> by (simp add: i_def unat_eq_zero)
  have sb: "m (c + 8 + of_nat j) = ucast (drop_bit (8 * j) SENTINEL_WORD)" if "j < 8" for j
    using c that unfolding isGoodObject_def rd64_eq_iff by blast
  moreover have "m (x + 8 + of_nat 0) = ucast (drop_bit (8 * 0) SENTINEL_WORD)"
    using x(1) unfolding isGoodObject_def rd64_eq_iff by (rule allE [of _ 0]) simp
  moreover have "c + 8 + of_nat i = x + 8 + of_nat 0" using i(2) by simp
  ultimately have eq: "(ucast (drop_bit (8 * i) SENTINEL_WORD) :: u8) = ucast (drop_bit (8 * 0) SENTINEL_WORD)"
    using i(1) by metis
  have "i \<in> {1, 2, 3, 4, 5, 6, 7}" using i(1) i0 by auto
  then have "i = 4" using eq by (auto simp: SENTINEL_WORD_def)
  then have "getObjectSize m x = ucast (ucast (rd64 m (c + 8)) :: u32)"
    using i(2) by (simp add: getObjectSize_def rd32_def algebra_simps)
  then have "getObjectSize m x = 0xCAFEBABE" using c by (simp add: isGoodObject_def SENTINEL_WORD_def)
  then show False using x(2) sentinel_size_invalid by simp
qed

lemma objects_good:
  assumes "h \<in> objects lc s"
  shows "isGoodObject (sh_mem s) h" and "isValidObjectSize (getObjectSize (sh_mem s) h)" and "getObjectSize (sh_mem s) h \<noteq> 0"
proof -
  obtain v where "object_at s v = Ok (Some (h, h + 16))" using assms by (auto simp: objects_def obj_of_Some)
  from object_at_Some(2,3) [OF this]
  show "isGoodObject (sh_mem s) h" "isValidObjectSize (getObjectSize (sh_mem s) h)" "getObjectSize (sh_mem s) h \<noteq> 0"
    by (auto simp: isValidAddr_def isValidObjectSize_def)
qed

lemma header_marks:
  assumes "isGoodObject (sh_mem s) c" and "M \<subseteq> objects lc s" and "x - c < 8" and "x \<noteq> c"
  shows "marks M (sh_mem s) x = sh_mem s x"
  using headers_apart [OF assms(1) _ _ assms(3)] objects_good(1,2) assms(2,4) by (auto simp: marks_def)

lemma getObjectSize_marks:
  assumes "isGoodObject (sh_mem s) c" and "M \<subseteq> objects lc s"
  shows "getObjectSize (marks M (sh_mem s)) c = getObjectSize (sh_mem s) c"
proof -
  have "marks M (sh_mem s) x = sh_mem s x" if "x - (c + 4) < 4" for x
  proof (rule header_marks [OF assms])
    note r = offset_range [OF that]
    show "x - c < 8" using r by (simp add: word_less_nat_alt)
    show "x \<noteq> c" using r(1) by auto
  qed
  then show ?thesis unfolding getObjectSize_def by (subst rd32_local [of "c + 4" "marks M (sh_mem s)" "sh_mem s"]) auto
qed

lemma size_bytes: "leak_heap lc s \<Longrightarrow> M \<subseteq> objects lc s \<Longrightarrow> \<forall>h\<in>M. size_byte (sh_mem s h)"
  by (auto simp: leak_heap_def)

abbreviation marked_heap :: "sheap \<Rightarrow> u64 set \<Rightarrow> sheap" where
  "marked_heap s M \<equiv> s\<lparr>sh_mem := marks M (sh_mem s)\<rparr>"

lemma isValidAddr_marks:
  "isGoodObject (sh_mem s) c \<Longrightarrow> M \<subseteq> objects lc s \<Longrightarrow> isValidAddr (marks M (sh_mem s)) c v = isValidAddr (sh_mem s) c v"
  by (simp add: isValidAddr_def getObjectSize_marks)

lemma object_at_marks:
  assumes "leak_heap lc s" and "M \<subseteq> objects lc s"
  shows "object_at (marked_heap s M) v = object_at s v"
proof -
  note sb = size_bytes [OF assms]
  have f: "findObjectStartAddr v (marked_heap s M) = findObjectStartAddr v s"
    using findObjectStart_marks [OF sb] by (simp add: findObjectStartAddr_def getIndex_def)
  show ?thesis
    unfolding object_at_def Let_def f
    by (auto simp: isGoodObject_marks [OF sb] isValidAddr_marks [OF _ assms(2)] split: option.splits intro!: arg_cong2 [where f = rbind])
qed

lemma object_words_marks:
  assumes h: "leak_heap lc s" "M \<subseteq> objects lc s" "h \<in> objects lc s"
    and a: "a \<in> set (words_between (h + 16) (aligndown (h + 16 + getObjectSize (sh_mem s) h) 8))"
  shows "rd64 (marks M (sh_mem s)) a = rd64 (sh_mem s) a"
proof (rule rd64_local)
  let ?n = "getObjectSize (sh_mem s) h" and ?b = "aligndown (h + 16 + getObjectSize (sh_mem s) h) 8"
  fix x assume x: "x - a < 8"
  obtain i where i: "a = h + 16 + 8 * of_nat i" "i < (unat ?b - unat (h + 16)) div 8"
    using a by (auto simp: words_between_def)
  have "unat ?b \<le> unat (h + 16 + ?n)" using unat_aligndown [of 3 "h + 16 + ?n"] by simp
  moreover have "unat (h + 16 + ?n) \<le> unat (h + 16) + unat ?n" by (simp add: unat_plus_if')
  ultimately have le: "8 * i + 8 \<le> unat ?n" using i(2) by linarith
  have n: "unat ?n < 2 ^ 32" using ucast_u32_less by (simp add: getObjectSize_def)
  have off: "unat (16 + 8 * of_nat i :: u64) = 16 + 8 * i"
  proof -
    have "(16 + 8 * of_nat i :: u64) = of_nat (16 + 8 * i)" by simp
    then show ?thesis using le n by (simp only: unat_of_nat) simp
  qed
  have "x - (h + (16 + 8 * of_nat i)) < 8" using x i(1) by (simp add: add.assoc)
  note r = offset_range [OF this]
  have r1: "16 + 8 * i \<le> unat (x - h)" "unat (x - h) < 16 + 8 * i + 8" using r off le n by simp_all
  have "unat (16 + ?n) = 16 + unat ?n" using n by (simp add: unat_plus_if')
  then have "x - h < 16 + ?n" using r1(2) le by (simp add: word_less_nat_alt)
  moreover have "x \<noteq> h" using r1(1) by auto
  ultimately have "x \<notin> objects lc s" using h(1,3) by (auto simp: leak_heap_def)
  then show "marks M (sh_mem s) x = sh_mem s x" using h(2) by (auto simp: marks_def)
qed

lemma isObjectChecked_marks: "size_byte (m h) \<Longrightarrow> isObjectChecked (marks M m) h \<longleftrightarrow> h \<in> M"
proof -
  assume "size_byte (m h)"
  then have ev: "even (m h)" using size_byte_marked by blast
  have "isObjectChecked (marks M m) h \<longleftrightarrow> odd (rd32 (marks M m) h)" by (simp add: isObjectChecked_def even_word_bit)
  also have "\<dots> \<longleftrightarrow> bit (marks M m h) 0" using bit_rd32 [of "marks M m" h 0] by (simp add: bit_0)
  also have "\<dots> \<longleftrightarrow> h \<in> M" using ev by (simp add: marks_def bit_0 even_or_iff)
  finally show ?thesis .
qed

lemma doCheckObject_marks:
  assumes h: "leak_heap lc s" "M \<subseteq> objects lc s" "h \<in> objects lc s"
  shows "doCheckObject (marks M (sh_mem s)) h \<longleftrightarrow> h \<notin> M"
proof -
  note g = objects_good [OF h(3)]
  have "getObjectSize (marks M (sh_mem s)) h \<noteq> 0" using getObjectSize_marks [OF g(1) h(2)] g(3) by simp
  then have "\<not> isObjectFree (marks M (sh_mem s)) h" by (auto simp: isObjectFree_def getObjectSize_def)
  moreover have "size_byte (sh_mem s h)" using h(1,3) by (auto simp: leak_heap_def)
  ultimately show ?thesis using isObjectChecked_marks by (simp add: doCheckObject_def)
qed

lemma exploreHeapObject_marks:
  assumes h: "leak_heap lc s" "M \<subseteq> objects lc s" and v: "isPossibleHeapPointer v lc"
  shows "exploreHeapObject v (lc\<lparr>lc_unexplored := ws\<rparr>, marked_heap s M) =
    Some (Ok (case obj_of s v of
        None \<Rightarrow> (lc\<lparr>lc_unexplored := ws\<rparr>, marked_heap s M)
      | Some k \<Rightarrow> if k \<in> M then (lc\<lparr>lc_unexplored := ws\<rparr>, marked_heap s M)
          else (lc\<lparr>lc_unexplored := ws @ succs_of lc s k\<rparr>, marked_heap s (insert k M))))"
proof -
  obtain r where r: "object_at s v = Ok r" using h(1) v by (auto simp: leak_heap_def)
  show ?thesis
  proof (cases r)
    case None
    then show ?thesis using r by (simp add: exploreHeapObject_def object_at_marks [OF h] obj_of_def)
  next
    case (Some p)
    obtain k st where p: "p = (k, st)" by (cases p)
    have o: "object_at s v = Ok (Some (k, st))" using r Some p by simp
    have k: "object_at s v = Ok (Some (k, k + 16))" "obj_of s v = Some k"
      using o unfolding object_at_Some(1) [OF o] by (simp_all add: obj_of_def)
    have ko: "k \<in> objects lc s" using k(2) v by (auto simp: objects_def)
    note g = objects_good [OF ko] and va = object_at_Some(3) [OF k(1)]
    have al: "(k + 16) mod 8 = 0"
    proof -
      have "8 dvd unat k" using h(1) ko by (simp add: leak_heap_def word_unat_eq_iff unat_mod mod_eq_0_iff_dvd)
      then have "8 dvd unat (k + 16)" by (simp add: unat_plus_if' dvd_diff_nat)
      then show ?thesis by (simp add: word_unat_eq_iff unat_mod)
    qed
    have ws: "map (rd64 (marks M (sh_mem s))) (words_between (k + 16) (aligndown (k + 16 + getObjectSize (sh_mem s) k) 8)) =
        map (rd64 (sh_mem s)) (words_between (k + 16) (aligndown (k + 16 + getObjectSize (sh_mem s) k) 8))"
      using object_words_marks [OF h ko] by simp
    show ?thesis
      using k g va al
      by (simp add: ws exploreHeapObject_def object_at_marks [OF h] isGoodObject_marks [OF size_bytes [OF h]] isValidAddr_marks [OF g(1) h(2)]
          Let_def doCheckObject_marks [OF h ko] getObjectSize_marks [OF g(1) h(2)] searchHeapPointers_eq pushes_def succs_of_def mark_marks)
  qed
qed

lemma traverse_search:
  assumes h: "leak_heap lc s"
  shows "wl.search s lc M W = Some M' \<Longrightarrow> M \<subseteq> objects lc s \<Longrightarrow> \<forall>v\<in>set W. isPossibleHeapPointer v lc \<Longrightarrow>
    traverseUnexploredList (lc\<lparr>lc_unexplored := W\<rparr>, marked_heap s M) = Some (Ok (lc\<lparr>lc_unexplored := []\<rparr>, marked_heap s M')) \<and>
    M' \<subseteq> objects lc s"
proof (induction rule: wl.search_induct)
  case (Nil M)
  then show ?case by (subst traverseUnexploredList.simps) simp
next
  case (None M w ws M')
  then show ?case by (subst traverseUnexploredList.simps) (simp add: exploreHeapObject_marks [OF h])
next
  case (Old M w ws k M')
  then show ?case by (subst traverseUnexploredList.simps) (simp add: exploreHeapObject_marks [OF h])
next
  case (New M w ws k M')
  have "k \<in> objects lc s" using New by (auto simp: objects_def)
  moreover have "\<forall>v\<in>set (succs_of lc s k). isPossibleHeapPointer v lc" by (simp add: succs_of_def pushes_def)
  ultimately show ?case using New by (subst traverseUnexploredList.simps) (auto simp: exploreHeapObject_marks [OF h])
qed

section \<open>The sweep\<close>

lemma clean_eq: "cleanObjectChecked m h = m(h := m h AND 0xFE)"
proof
  fix x
  have c: "(0xFFFFFFFE :: u32) = NOT 1" by code_simp
  have e: "(0xFE :: u8) = NOT 1" by code_simp
  show "cleanObjectChecked m h x = (m(h := m h AND 0xFE)) x"
  proof (cases "x - h < 4")
    case True
    define i where "i = unat (x - h)"
    have i: "i < 4" "x = h + of_nat i" "x = h \<longleftrightarrow> i = 0" using True by (auto simp: i_def word_less_nat_alt unat_eq_zero)
    have "ucast (drop_bit (8 * i) (rd32 m h AND NOT 1)) = (if i = 0 then m h AND NOT 1 else m x)"
    proof (rule bit_word_eqI)
      fix k assume "k < LENGTH(8)"
      then have k: "k < 8" "8 * i + k < 32" "(8 * i + k) div 8 = i" "(8 * i + k) mod 8 = k" using i(1) by auto
      then show "bit (ucast (drop_bit (8 * i) (rd32 m h AND NOT 1)) :: u8) k = bit (if i = 0 then m h AND NOT 1 else m x) k"
        using i(2) by (auto simp: bit_simps bit_rd32)
    qed
    then show ?thesis using True i(3) unfolding cleanObjectChecked_def wr32_def c e by (simp add: i_def)
  next
    case False
    then have "x \<noteq> h" by auto
    then show ?thesis using False by (simp add: cleanObjectChecked_def wr32_other)
  qed
qed

lemma size_byte_clean: "size_byte b \<Longrightarrow> (b OR 1) AND 0xFE = b \<and> b AND 0xFE = b"
  by (auto simp: size_byte_def)

lemma clean_marks: "size_byte (m h) \<Longrightarrow> cleanObjectChecked (marks M m) h = marks (M - {h}) m"
  using size_byte_clean [of "m h"] by (auto simp: clean_eq marks_def)

text \<open>
  A word at which the sweep sees a header, and a heap whose headers from \<open>p\<close> on are those of the
  objects in a list, with block sizes that lead from one to the next.
\<close>

definition is_head :: "sheap \<Rightarrow> u64 \<Rightarrow> bool" where
  "is_head s a \<longleftrightarrow> rd64 (sh_mem s) a = SENTINEL_WORD \<and> Sentinel_Map.marked s a"

fun laid_out :: "sheap \<Rightarrow> u64 \<Rightarrow> u64 \<Rightarrow> u64 list \<Rightarrow> bool" where
  "laid_out s p stop [] \<longleftrightarrow> p mod 8 = 0 \<and> list_all (\<lambda>a. \<not> is_head s a) (words_between p stop)"
| "laid_out s p stop (h # hs) \<longleftrightarrow> p mod 8 = 0 \<and> (h + 8) mod 8 = 0 \<and> p \<le> h + 8 \<and> h + 8 < stop \<and>
     list_all (\<lambda>a. \<not> is_head s a) (words_between p (h + 8)) \<and> is_head s (h + 8) \<and> h + 16 \<noteq> 0 \<and> size_byte (sh_mem s h) \<and>
     h + 8 < getNextObject (sh_mem s) h \<and> laid_out s (getNextObject (sh_mem s) h) stop hs"

definition leaked :: "sheap \<Rightarrow> u64 set \<Rightarrow> u64 list \<Rightarrow> u64 set" where
  "leaked s M hs = {h \<in> set hs. getObjectSize (sh_mem s) h \<noteq> 0 \<and> h \<notin> M}"

definition tracked_leak :: "sheap \<Rightarrow> u64 \<Rightarrow> bool" where
  "tracked_leak s p \<longleftrightarrow> mt_initialized (tr_memtrack (sh_trk s)) \<and>
     (\<exists>t. mt_trackMap (tr_memtrack (sh_trk s)) p = Some t \<and> hasLeak t)"

lemma insertLeakageMap_ok:
  assumes "p \<noteq> 0"
  shows "\<exists>lc' w. insertLeakageMap junk p n bs (lc, s) = Ok (lc', s\<lparr>sh_trk := w\<rparr>) \<and>
    tracked_leak (s\<lparr>sh_trk := w\<rparr>) p \<and> (\<forall>q. tracked_leak s q \<longrightarrow> tracked_leak (s\<lparr>sh_trk := w\<rparr>) q)"
proof -
  obtain mt where mt: "memtrack_insert (tr_memtrack (sh_trk s)) p n OBJECT_TYPE_LEAK junk = Ok mt"
    using memtrack_insert_total [OF assms] by blast
  have bits: "(a OR fault_bits OBJECT_TYPE_LEAK) AND fault_bits OBJECT_TYPE_LEAK = fault_bits OBJECT_TYPE_LEAK" for a
    by (auto simp: bit_eq_iff bit_simps)
  obtain t where t: "mt_trackMap mt p = Some t" "hasLeak t"
    using memtrack_insert_type [OF mt assms] bits by (auto simp: hasLeak_def split: option.splits if_splits)
  have i: "mt_initialized mt" and o: "mt_initialized (tr_memtrack (sh_trk s)) \<Longrightarrow> q \<noteq> p \<Longrightarrow> mt_trackMap mt q = mt_trackMap (tr_memtrack (sh_trk s)) q" for q
    using mt by (auto simp: memtrack_insert_def memtrack_initialize_def Let_def rmap_Ok_iff split: if_splits option.splits)
  have "tracked_leak (s\<lparr>sh_trk := (sh_trk s)\<lparr>tr_memtrack := mt\<rparr>\<rparr>) q" if "tracked_leak s q" for q
    using that t i o [of q] by (cases "q = p") (auto simp: tracked_leak_def)
  moreover have "tracked_leak (s\<lparr>sh_trk := (sh_trk s)\<lparr>tr_memtrack := mt\<rparr>\<rparr>) p" using t i by (auto simp: tracked_leak_def)
  ultimately show ?thesis
    using mt by (intro exI [of _ "lc\<lparr>lc_totalLeakageSize := lc_totalLeakageSize lc + bs\<rparr>"] exI [of _ "(sh_trk s)\<lparr>tr_memtrack := mt\<rparr>"])
      (simp add: insertLeakageMap_def Let_def)
qed

abbreviation sweep_heap :: "sheap \<Rightarrow> u64 set \<Rightarrow> tracker \<Rightarrow> sheap" where
  "sweep_heap s M w \<equiv> s\<lparr>sh_mem := marks M (sh_mem s), sh_trk := w\<rparr>"

lemma sheap_update_order: "s\<lparr>sh_trk := w, sh_mem := m\<rparr> = s\<lparr>sh_mem := m, sh_trk := w\<rparr>"
  by simp

lemma block_size_marks:
  assumes "isGoodObject (sh_mem s) h" and "M \<subseteq> objects lc s" and "h \<notin> M"
  shows "rd32 (marks M (sh_mem s)) h = rd32 (sh_mem s) h"
proof (rule rd32_local)
  fix x assume "x - h < 4"
  then have "x - h < 8" by (simp add: word_less_nat_alt)
  then show "marks M (sh_mem s) x = sh_mem s x"
    using header_marks [OF assms(1,2)] assms(3) by (cases "x = h") (auto simp: marks_def)
qed

lemma ucast_u32_0: "(ucast (w :: u32) :: u64) = 0 \<longleftrightarrow> w = 0"
proof -
  have "unat (ucast w :: u64) = unat w"
    using unsigned_less [of w, where ?'a = nat] by (simp add: unsigned_ucast_eq take_bit_nat_eq_self)
  then show ?thesis by (simp add: word_unat_eq_iff)
qed

lemma sweep_object_marks:
  assumes h: "isGoodObject (sh_mem s) h" "size_byte (sh_mem s h)" "h + 16 \<noteq> 0" and M: "M \<subseteq> objects lc0 s"
  shows "\<exists>lc' w'. sweep_object junk h (b, lc, sweep_heap s M w) =
      Ok (b \<or> (getObjectSize (sh_mem s) h \<noteq> 0 \<and> h \<notin> M), lc', sweep_heap s (M - {h}) w') \<and>
    (getObjectSize (sh_mem s) h \<noteq> 0 \<and> h \<notin> M \<longrightarrow> tracked_leak (sweep_heap s M w') (h + 16)) \<and>
    (\<forall>q. tracked_leak (sweep_heap s M w) q \<longrightarrow> tracked_leak (sweep_heap s M w') q)"
proof -
  have sz: "getObjectSize (marks M (sh_mem s)) h = getObjectSize (sh_mem s) h" using getObjectSize_marks [OF h(1) M] .
  then have fr: "isObjectFree (marks M (sh_mem s)) h \<longleftrightarrow> getObjectSize (sh_mem s) h = 0"
    using ucast_u32_0 [of "rd32 (marks M (sh_mem s)) (h + 4)"] by (simp add: isObjectFree_def getObjectSize_def)
  show ?thesis
  proof (cases "getObjectSize (sh_mem s) h \<noteq> 0 \<and> h \<notin> M")
    case False
    then show ?thesis
      using fr isObjectChecked_marks [of "sh_mem s" h M] clean_marks [of "sh_mem s" h M] h(2)
      by (intro exI [of _ lc] exI [of _ w]) (auto simp: sweep_object_def checkLeakageAndClean_def Let_def)
  next
    case True
    then have MM: "M - {h} = M" by blast
    have gs: "getStartPtr h = h + 16" by (simp add: getStartPtr_def xdefs)
    obtain lc' w' where w': "insertLeakageMap junk (h + 16) (getObjectSize (marks M (sh_mem s)) h) (oh_getSize (marks M (sh_mem s)) h)
          (lc, sweep_heap s M w) = Ok (lc', sweep_heap s M w')"
        "tracked_leak (sweep_heap s M w') (h + 16)" "\<forall>q. tracked_leak (sweep_heap s M w) q \<longrightarrow> tracked_leak (sweep_heap s M w') q"
      using insertLeakageMap_ok [OF h(3), of junk _ _ lc "sweep_heap s M w"] by fastforce
    then show ?thesis
      using True fr isObjectChecked_marks [of "sh_mem s" h M] h(2) gs unfolding MM
      by (intro exI [of _ lc'] exI [of _ w']) (simp add: sweep_object_def checkLeakageAndClean_def Let_def sheap_update_order)
  qed
qed

lemma report_loop_skip:
  assumes M: "\<forall>h\<in>M. size_byte (sh_mem s h)" and map: "sh_ok s" "\<forall>a. p0 \<le> a \<and> a < stop \<longrightarrow> in_map s a"
  shows "p mod 8 = 0 \<Longrightarrow> q mod 8 = 0 \<Longrightarrow> p0 \<le> p \<Longrightarrow> p \<le> q \<Longrightarrow> q \<le> stop \<Longrightarrow> list_all (\<lambda>a. \<not> is_head s a) (words_between p q) \<Longrightarrow>
    report_loop junk p stop (b, lc, sweep_heap s M w) = report_loop junk q stop (b, lc, sweep_heap s M w)"
proof (induction "unat q - unat p" arbitrary: p rule: less_induct)
  case less
  show ?case
  proof (cases "p < q")
    case True
    note wb = words_between_Cons [OF True less.prems(1,2)]
    have le: "p0 \<le> p + 8" "p + 8 \<le> q" "p < stop" using wb less.prems True by (auto simp: word_le_nat_alt word_less_nat_alt)
    have nh: "\<not> is_head s p" "list_all (\<lambda>a. \<not> is_head s a) (words_between (p + 8) q)" using less.prems(6) wb(1) by auto
    have "sm_isSet p (sweep_heap s M w) = Ok (Sentinel_Map.marked s p)"
      using isBitSet_tst [of "sh_bitmap s" "getIndex s p"] map less.prems(3) le(3)
      by (auto simp: sm_isSet_def sh_ok_def in_map_def Sentinel_Map.marked_def getIndex_def)
    then have "report_loop junk p stop (b, lc, sweep_heap s M w) = report_loop junk (p + 8) stop (b, lc, sweep_heap s M w)"
      using nh(1) rd64_marks_sentinel [OF _ M, of SENTINEL_WORD p] le(3)
      by (subst report_loop.simps) (simp add: is_head_def)
    also have "\<dots> = report_loop junk q stop (b, lc, sweep_heap s M w)"
      using wb le less.prems nh by (intro less.hyps) auto
    finally show ?thesis .
  next
    case False
    then show ?thesis using less.prems(4) by simp
  qed
qed

lemma report_loop_laid_out:
  assumes map: "sh_ok s" "\<forall>a. p0 \<le> a \<and> a < stop \<longrightarrow> in_map s a" "stop mod 8 = 0"
  shows "laid_out s p stop hs \<Longrightarrow> p0 \<le> p \<Longrightarrow> distinct hs \<Longrightarrow> leak_heap lc0 s \<Longrightarrow> M \<subseteq> objects lc0 s \<Longrightarrow>
    \<exists>lc' w'. report_loop junk p stop (b, lc, sweep_heap s M w) =
        Some (Ok (b \<or> leaked s M hs \<noteq> {}, lc', sweep_heap s (M - set hs) w')) \<and>
      (\<forall>h\<in>leaked s M hs. tracked_leak (sweep_heap s {} w') (h + 16)) \<and>
      (\<forall>q. tracked_leak (sweep_heap s {} w) q \<longrightarrow> tracked_leak (sweep_heap s {} w') q)"
proof (induction hs arbitrary: p b lc w M)
  case Nil
  note sb = size_bytes [OF Nil.prems(4,5)]
  have end_loop: "report_loop junk q stop st = Some (Ok st)" if "\<not> q < stop" for q st
    using that by (subst report_loop.simps) simp
  have "report_loop junk p stop (b, lc, sweep_heap s M w) = Some (Ok (b, lc, sweep_heap s M w))"
  proof (cases "p < stop")
    case True
    then show ?thesis
      using report_loop_skip [OF sb map(1,2), of p stop junk b lc w] Nil.prems map(3) end_loop [of stop] by simp
  qed (rule end_loop)
  then show ?case by (auto simp: leaked_def)
next
  case (Cons h hs)
  note sb = size_bytes [OF Cons.prems(4,5)]
  have l: "p mod 8 = 0" "(h + 8) mod 8 = 0" "p \<le> h + 8" "h + 8 < stop" "list_all (\<lambda>a. \<not> is_head s a) (words_between p (h + 8))"
      "is_head s (h + 8)" "h + 16 \<noteq> 0" "size_byte (sh_mem s h)" "h + 8 < getNextObject (sh_mem s) h"
      "laid_out s (getNextObject (sh_mem s) h) stop hs"
    using Cons.prems(1) by simp_all
  have good: "isGoodObject (sh_mem s) h" using l(6) by (simp add: is_head_def isGoodObject_def)
  have p0: "p0 \<le> h + 8" "p0 \<le> getNextObject (sh_mem s) h" using Cons.prems(2) l(3,9) by (auto simp: word_le_nat_alt word_less_nat_alt)
  obtain lc1 w1 where w1: "sweep_object junk h (b, lc, sweep_heap s M w) =
        Ok (b \<or> (getObjectSize (sh_mem s) h \<noteq> 0 \<and> h \<notin> M), lc1, sweep_heap s (M - {h}) w1)"
      "getObjectSize (sh_mem s) h \<noteq> 0 \<and> h \<notin> M \<longrightarrow> tracked_leak (sweep_heap s M w1) (h + 16)"
      "\<forall>q. tracked_leak (sweep_heap s M w) q \<longrightarrow> tracked_leak (sweep_heap s M w1) q"
    using sweep_object_marks [OF good l(8,7) Cons.prems(5)] by blast
  have sub: "M - {h} \<subseteq> objects lc0 s" using Cons.prems(5) by blast
  have nx: "getNextObject (marks (M - {h}) (sh_mem s)) h = getNextObject (sh_mem s) h"
    using block_size_marks [OF good sub] by (simp add: getNextObject_def)
  have "sm_isSet (h + 8) (sweep_heap s M w) = Ok True"
    using isBitSet_tst [of "sh_bitmap s" "getIndex s (h + 8)"] map p0(1) l(4,6)
    by (auto simp: sm_isSet_def sh_ok_def in_map_def is_head_def Sentinel_Map.marked_def getIndex_def)
  moreover have "rd64 (marks M (sh_mem s)) (h + 8) = SENTINEL_WORD"
    using rd64_marks_sentinel [OF _ sb, of SENTINEL_WORD "h + 8"] l(6) by (simp add: is_head_def)
  ultimately have "report_loop junk (h + 8) stop (b, lc, sweep_heap s M w) = report_loop junk (getNextObject (sh_mem s) h) stop
      (b \<or> (getObjectSize (sh_mem s) h \<noteq> 0 \<and> h \<notin> M), lc1, sweep_heap s (M - {h}) w1)"
    using l(4) w1(1) nx by (subst report_loop.simps) (simp add: lc_getObject_def)
  then have loop: "report_loop junk p stop (b, lc, sweep_heap s M w) = report_loop junk (getNextObject (sh_mem s) h) stop
      (b \<or> (getObjectSize (sh_mem s) h \<noteq> 0 \<and> h \<notin> M), lc1, sweep_heap s (M - {h}) w1)"
    using report_loop_skip [OF sb map(1,2), of p "h + 8" junk b lc w] l Cons.prems(2) by simp
  have lk: "leaked s (M - {h}) hs = leaked s M hs" "leaked s M (h # hs) =
      (if getObjectSize (sh_mem s) h \<noteq> 0 \<and> h \<notin> M then {h} else {}) \<union> leaked s M hs"
    using Cons.prems(3) by (auto simp: leaked_def)
  have tr: "tracked_leak (sweep_heap s X w) q = tracked_leak (sweep_heap s {} w) q" for X w q by (simp add: tracked_leak_def)
  have "distinct hs" using Cons.prems(3) by simp
  from Cons.IH [OF l(10) p0(2) this Cons.prems(4) sub, of "b \<or> (getObjectSize (sh_mem s) h \<noteq> 0 \<and> h \<notin> M)" lc1 w1]
  obtain lc' w' where w': "report_loop junk (getNextObject (sh_mem s) h) stop
        (b \<or> (getObjectSize (sh_mem s) h \<noteq> 0 \<and> h \<notin> M), lc1, sweep_heap s (M - {h}) w1) =
        Some (Ok ((b \<or> (getObjectSize (sh_mem s) h \<noteq> 0 \<and> h \<notin> M)) \<or> leaked s M hs \<noteq> {}, lc', sweep_heap s (M - {h} - set hs) w'))"
      "\<forall>h\<in>leaked s M hs. tracked_leak (sweep_heap s {} w') (h + 16)"
      "\<forall>q. tracked_leak (sweep_heap s {} w1) q \<longrightarrow> tracked_leak (sweep_heap s {} w') q"
    unfolding lk(1) by blast
  have "M - {h} - set hs = M - set (h # hs)" by auto
  moreover have "((b \<or> (getObjectSize (sh_mem s) h \<noteq> 0 \<and> h \<notin> M)) \<or> leaked s M hs \<noteq> {}) = (b \<or> leaked s M (h # hs) \<noteq> {})"
    using lk(2) by auto
  moreover have "\<forall>k\<in>leaked s M (h # hs). tracked_leak (sweep_heap s {} w') (k + 16)"
    using w'(2,3) w1(2) unfolding lk(2) tr [where X = M] by (auto split: if_splits)
  moreover have "\<forall>q. tracked_leak (sweep_heap s {} w) q \<longrightarrow> tracked_leak (sweep_heap s {} w') q"
    using w1(3) w'(3) unfolding tr [where X = M] by blast
  ultimately show ?case unfolding loop w'(1) by (intro exI [of _ lc'] exI [of _ w']) simp
qed

section \<open>The whole check\<close>

definition roots :: "mem \<Rightarrow> xglobals \<Rightarrow> u64 \<Rightarrow> (nat \<Rightarrow> u64) \<Rightarrow> u64 \<Rightarrow> u64 list" where
  "roots m g ctx gregs stackTop = map gregs [0..<15] @ map (rd64 m) (words_between ctx (aligndown stackTop 8)) @
     concat (map (\<lambda>(b, e). if b \<noteq> 0 then map (rd64 m) (words_between b (aligndown e 8)) else []) (xg_regions g))"

lemma pushes_append: "pushes lc (vs @ us) = pushes lc vs @ pushes lc us" "pushes lc [] = []"
  by (simp_all add: pushes_def)

lemma pushes_unexplored [simp]: "pushes (lc\<lparr>lc_unexplored := w\<rparr>) vs = pushes lc vs"
  by (simp add: pushes_def)

lemma regs_eq: "fold (\<lambda>i. checkInsertUnexploredList (gregs i)) is lc =
    lc\<lparr>lc_unexplored := lc_unexplored lc @ pushes lc (map gregs is)\<rparr>" for "is" :: "nat list"
  by (induction "is" arbitrary: lc) (auto simp: checkInsertUnexploredList_def pushes_def)

lemma search_globals_eq:
  assumes "\<forall>(b, e)\<in>set (xg_regions g). b mod 8 = 0"
  shows "\<forall>i\<in>set js. i < length (xg_regions g) \<Longrightarrow> search_globals m g js lc = Some (Ok (lc\<lparr>lc_unexplored := lc_unexplored lc @
    pushes lc (concat (map (\<lambda>i. case xg_regions g ! i of (b, e) \<Rightarrow> if b \<noteq> 0 then map (rd64 m) (words_between b (aligndown e 8)) else []) js))\<rparr>))"
proof (induction js arbitrary: lc)
  case (Cons i js)
  obtain b e where be: "xg_regions g ! i = (b, e)" by (cases "xg_regions g ! i")
  then have "b mod 8 = 0" using assms Cons.prems nth_mem [of i "xg_regions g"] by fastforce
  then show ?case
    using Cons be by (simp add: getGlobalRegion_def searchHeapPointers_eq pushes_append)
qed (simp add: pushes_def)

lemma searchHeapPointersInsideGlobals_eq:
  assumes "\<forall>(b, e)\<in>set (xg_regions g). b mod 8 = 0"
  shows "searchHeapPointersInsideGlobals m g lc = Some (Ok (lc\<lparr>lc_unexplored := lc_unexplored lc @
    pushes lc (concat (map (\<lambda>(b, e). if b \<noteq> 0 then map (rd64 m) (words_between b (aligndown e 8)) else []) (xg_regions g)))\<rparr>))"
proof -
  have "map (\<lambda>i. f (xg_regions g ! i)) [0..<length (xg_regions g)] = map f (xg_regions g)" for f :: "u64 \<times> u64 \<Rightarrow> u64 list"
    by (rule nth_equalityI) simp_all
  from this [of "\<lambda>(b, e). if b \<noteq> 0 then map (rd64 m) (words_between b (aligndown e 8)) else []"]
  show ?thesis
    using search_globals_eq [OF assms, of "[0..<length (xg_regions g)]" m lc]
    by (simp add: searchHeapPointersInsideGlobals_def getRegions_def)
qed

lemma reach_objects: "wl.reach s lc (set (pushes lc vs)) \<subseteq> objects lc s"
proof
  fix h assume "h \<in> wl.reach s lc (set (pushes lc vs))"
  then show "h \<in> objects lc s" by induction (auto simp: objects_def pushes_def succs_of_def)
qed

text \<open>
  The state of the heap and of the roots that the check expects: the sentinel map covers the heap,
  its headers are those of the objects \<open>hs\<close>, and stack and globals are aligned.
\<close>

definition leak_setup :: "leakcheck \<Rightarrow> sheap \<Rightarrow> u64 list \<Rightarrow> xglobals \<Rightarrow> u64 \<Rightarrow> bool" where
  "leak_setup lc s hs g ctx \<longleftrightarrow> leak_heap lc s \<and> sh_ok s \<and> (\<forall>a. lc_heapBegin lc \<le> a \<and> a < lc_heapEnd lc \<longrightarrow> in_map s a) \<and>
     lc_heapEnd lc mod 8 = 0 \<and> laid_out s (lc_heapBegin lc) (lc_heapEnd lc) hs \<and> distinct hs \<and>
     ctx mod 8 = 0 \<and> (\<forall>(b, e)\<in>set (xg_regions g). b mod 8 = 0)"

lemma leak_check_result:
  assumes lc: "lc' = lc\<lparr>lc_heapBegin := hb + 16, lc_heapEnd := he, lc_nonStartAddrs := 0, lc_totalLeakageSize := 0\<rparr>"
      "lc_unexplored lc = []"
    and prep: "leak_setup lc' s hs g ctx"
    and R: "R = wl.reach s lc' (set (pushes lc' (roots (sh_mem s) g ctx gregs stackTop)))" "R \<subseteq> set hs"
  shows "\<exists>lc'' w. doSlowLeakCheck junk g ctx gregs stackTop hb he (lc, s) =
      Some (Ok (leaked s R hs \<noteq> {}, lc'', s\<lparr>sh_trk := w\<rparr>)) \<and>
    (\<forall>h\<in>leaked s R hs. tracked_leak (s\<lparr>sh_trk := w\<rparr>) (h + 16)) \<and> R \<subseteq> objects lc' s"
proof -
  have heap: "leak_heap lc' s" "sh_ok s" "\<forall>a. hb + 16 \<le> a \<and> a < he \<longrightarrow> in_map s a" "he mod 8 = 0"
      "laid_out s (hb + 16) he hs" "distinct hs"
    and aligned: "ctx mod 8 = 0" "\<forall>(b, e)\<in>set (xg_regions g). b mod 8 = 0"
    using prep by (simp_all add: leak_setup_def lc(1))
  let ?W = "pushes lc' (roots (sh_mem s) g ctx gregs stackTop)"
  have se: "wl.search s lc' {} ?W = Some R" using wl.search_reach R(1) by simp
  have tr: "traverseUnexploredList (lc'\<lparr>lc_unexplored := ?W\<rparr>, s) = Some (Ok (lc'\<lparr>lc_unexplored := []\<rparr>, marked_heap s R))"
      and sub: "R \<subseteq> objects lc' s"
    using traverse_search [OF heap(1) se] by (simp_all add: pushes_def)
  let ?l = "lc'\<lparr>lc_unexplored := []\<rparr>"
  obtain lc'' w where w: "report_loop junk (hb + 16) he (False, ?l, sweep_heap s R (sh_trk s)) =
        Some (Ok (leaked s R hs \<noteq> {}, lc'', sweep_heap s (R - set hs) w))"
      "\<forall>h\<in>leaked s R hs. tracked_leak (sweep_heap s {} w) (h + 16)"
    using report_loop_laid_out [OF heap(2,3,4,5) order_refl heap(6) heap(1) sub, of junk False ?l "sh_trk s"] by auto
  have e: "R - set hs = {}" using R(2) by blast
  have "doSlowLeakCheck junk g ctx gregs stackTop hb he (lc, s) =
      obind (traverseUnexploredList (lc'\<lparr>lc_unexplored := ?W\<rparr>, s)) (reportUnreachableNonfreedObjects junk)"
    using lc aligned
    by (simp add: doSlowLeakCheck_def Let_def searchHeapPointers_regs_def regs_eq searchHeapPointersInsideStack_def searchHeapPointers_eq
        searchHeapPointersInsideGlobals_eq roots_def pushes_append)
  also have "\<dots> = Some (Ok (leaked s R hs \<noteq> {}, lc'', s\<lparr>sh_trk := w\<rparr>))"
  proof -
    have "reportUnreachableNonfreedObjects junk (?l, marked_heap s R) = report_loop junk (hb + 16) he (False, ?l, sweep_heap s R (sh_trk s))"
      unfolding reportUnreachableNonfreedObjects_def by (simp add: lc(1))
    then show ?thesis unfolding tr using w(1) by (simp add: e)
  qed
  finally show ?thesis
    using w(2) sub by (intro exI [of _ lc''] exI [of _ w]) (auto simp: tracked_leak_def)
qed


text \<open>
  A heap of two objects: one of 16 bytes at 8224, one of 13 bytes at 8272. Two registers hold the
  addresses of both.
\<close>

definition demo_leak_heap :: sheap where
  "demo_leak_heap = demo_sheap\<lparr>sh_heapStart := 8192, sh_bitmap := bitmap_initialize (\<lambda>i. if i = 0 then 520 else 0) 512 64,
     sh_mem := setObjectSize (objectHeader_new (setObjectSize (objectHeader_new (\<lambda>_. 0) 8208 16) 8208 16) 8256 16) 8256 13\<rparr>"

definition demo_lc :: leakcheck where
  "demo_lc = \<lparr>lc_unexplored = [], lc_totalLeakageSize = 0, lc_nonStartAddrs = 0, lc_heapBegin = 8208, lc_heapEnd = 8312\<rparr>"

definition demo_gregs :: "nat \<Rightarrow> u64" where
  "demo_gregs i = (if i = 0 then 8224 else if i = 1 then 8272 else 0)"

lemma demo_objects_eval1:
  "list_all (\<lambda>i. case findObjectStart_loop demo_leak_heap i of Err _ \<Rightarrow> False | Ok None \<Rightarrow> True | Ok (Some st) \<Rightarrow> st \<in> {8224, 8272})
    (map of_nat [2..<15])"
  by code_simp

lemma demo_objects_eval2:
  "list_all (\<lambda>c. if sh_mem demo_leak_heap (c + 8) = 0xBE then if sh_mem demo_leak_heap (c + 15) = 0xCA then c \<in> {8208, 8256} else True else True)
    (map (\<lambda>i. 8193 + of_nat i) [0..<103])"
  by code_simp

lemma good_bytes:
  assumes "isGoodObject m c"
  shows "m (c + 8) = 0xBE" and "m (c + 15) = 0xCA"
proof -
  have b: "m (c + 8 + of_nat i) = ucast (drop_bit (8 * i) SENTINEL_WORD)" if "i < 8" for i
    using assms that unfolding isGoodObject_def rd64_eq_iff by blast
  have e: "c + 8 + of_nat 7 = c + 15" by simp
  show "m (c + 8) = 0xBE" using b [of 0] by (simp add: SENTINEL_WORD_def)
  show "m (c + 15) = 0xCA" using b [of 7, unfolded e] by (simp add: SENTINEL_WORD_def)
qed

lemma word_in_range:
  fixes a v :: u64
  assumes "a \<le> v" and "unat v < unat a + n"
  shows "v \<in> set (map (\<lambda>i. a + of_nat i) [0..<n])"
proof -
  have "v = a + of_nat (unat (v - a))" by simp
  moreover have "unat (v - a) < n" using assms by (simp add: unat_sub word_le_nat_alt)
  ultimately show ?thesis by (metis (no_types, lifting) atLeastLessThan_iff image_eqI le0 set_map set_upt)
qed

lemma demo_heap_eval:
  "laid_out demo_leak_heap 8208 8312 [8208, 8256]" "size_byte (sh_mem demo_leak_heap 8208)"
  "getObjectSize (sh_mem demo_leak_heap) 8256 = 13"
  by code_simp+

lemma demo_object_at:
  assumes "isPossibleHeapPointer v demo_lc"
  shows "object_at demo_leak_heap v = Ok None \<or> object_at demo_leak_heap v = Ok (Some (8208, 8224))"
proof -
  let ?s = demo_leak_heap
  have v: "8208 < unat v" "unat v < 8312" using assms by (simp_all add: isPossibleHeapPointer_def demo_lc_def word_less_nat_alt)
  have good: "v - 16 \<in> {8208, 8256}" if "isGoodObject (sh_mem ?s) (v - 16)"
  proof -
    have "unat (v - 16) = unat v - 16" using v by (simp add: unat_sub word_le_nat_alt)
    then have "v - 16 \<in> set (map (\<lambda>i. 8193 + of_nat i) [0..<103])" using v by (intro word_in_range) (auto simp: word_le_nat_alt)
    then show ?thesis using demo_objects_eval2 good_bytes [OF that] by (auto simp: list_all_iff)
  qed
  have inv: "\<not> isValidAddr (sh_mem ?s) 8256 x" for x
    using demo_heap_eval(3) by (simp add: isValidAddr_def isValidObjectSize_def)
  show ?thesis
  proof (cases "isGoodObject (sh_mem ?s) (v - 16)")
    case True
    have "v = 8224 \<or> v = 8272" using good [OF True] by (simp add: diff_eq_eq)
    then show ?thesis using True inv by (auto simp: object_at_def lc_getObject_def)
  next
    case False
    have "unat (getIndex ?s v) = (unat v - 8192) div 8"
      using v by (simp add: getIndex_def demo_leak_heap_def demo_sheap_def unat_drop3 unat_sub word_le_nat_alt)
    then have "unat (getIndex ?s v) \<in> set [2..<15]" using v by (simp only: set_upt atLeastLessThan_iff) linarith
    then have "of_nat (unat (getIndex ?s v)) \<in> set (map of_nat [2..<15] :: u64 list)" unfolding set_map by (rule imageI)
    moreover have "of_nat (unat (getIndex ?s v)) = getIndex ?s v" by simp
    ultimately have "getIndex ?s v \<in> set (map of_nat [2..<15])" by (simp only:)
    note ev = bspec [OF demo_objects_eval1 [unfolded list_all_iff] this]
    obtain r where r: "findObjectStartAddr v ?s = Ok r" "r = None \<or> r = Some 8224 \<or> r = Some 8272"
      using ev by (cases "findObjectStart_loop ?s (getIndex ?s v)") (auto simp: findObjectStartAddr_def split: option.splits)
    then show ?thesis using False inv by (auto simp: object_at_def lc_getObject_def Let_def)
  qed
qed

lemma demo_leak_ok:
  "leak_heap demo_lc demo_leak_heap" "objects demo_lc demo_leak_heap \<subseteq> {8208}"
proof -
  have "h = 8208" if h: "h \<in> objects demo_lc demo_leak_heap" for h
  proof -
    obtain v where "isPossibleHeapPointer v demo_lc" "object_at demo_leak_heap v = Ok (Some (h, h + 16))"
      using h by (auto simp: objects_def obj_of_Some)
    then show ?thesis using demo_object_at [of v] by simp
  qed
  then show o: "objects demo_lc demo_leak_heap \<subseteq> {8208}" by blast
  have "\<exists>r. object_at demo_leak_heap v = Ok r" if "isPossibleHeapPointer v demo_lc" for v
    using demo_object_at [OF that] by blast
  moreover have "h mod 8 = 0 \<and> size_byte (sh_mem demo_leak_heap h) \<and>
      (\<forall>k\<in>objects demo_lc demo_leak_heap. k \<noteq> h \<longrightarrow> \<not> k - h < 16 + getObjectSize (sh_mem demo_leak_heap) h)"
    if h: "h \<in> objects demo_lc demo_leak_heap" for h
  proof -
    have e: "h = 8208" using h o by blast
    show ?thesis unfolding e using o demo_heap_eval(2) by auto
  qed
  ultimately show "leak_heap demo_lc demo_leak_heap" by (simp add: leak_heap_def)
qed

definition demo_globals :: xglobals where
  "demo_globals = \<lparr>xg_regions = [], xg_maps = []\<rparr>"

lemma demo_leak_setup:
  "leak_setup demo_lc demo_leak_heap [8208, 8256] demo_globals 0"
  "demo_lc = demo_lc\<lparr>lc_heapBegin := 8192 + 16, lc_heapEnd := 8312, lc_nonStartAddrs := 0, lc_totalLeakageSize := 0\<rparr>"
  "lc_unexplored demo_lc = []"
  "wl.reach demo_leak_heap demo_lc (set (pushes demo_lc vs)) \<subseteq> {8208}"
proof -
  let ?s = demo_leak_heap
  have "\<forall>a. 8208 \<le> a \<and> a < 8312 \<longrightarrow> in_map ?s a"
  proof (intro allI impI)
    fix a :: u64 assume "8208 \<le> a \<and> a < 8312"
    moreover from this have "(unat a - 8192) div 8 \<le> 512" by (simp add: word_le_nat_alt word_less_nat_alt) linarith
    ultimately have "unat (getIndex ?s a) \<le> 512"
      by (simp add: getIndex_def demo_leak_heap_def demo_sheap_def unat_drop3 unat_sub word_le_nat_alt word_less_nat_alt)
    then show "in_map ?s a" by (simp add: in_map_def word_le_nat_alt demo_leak_heap_def bitmap_initialize_def)
  qed
  moreover have "sh_ok ?s" by (simp add: sh_ok_def demo_leak_heap_def demo_sheap_def bitmap_initialize_def bm_inv_def)
  ultimately show "leak_setup demo_lc ?s [8208, 8256] demo_globals 0"
    using demo_leak_ok(1) demo_heap_eval(1) unfolding leak_setup_def
    by (simp add: demo_lc_def demo_globals_def del: laid_out.simps)
  show "demo_lc = demo_lc\<lparr>lc_heapBegin := 8192 + 16, lc_heapEnd := 8312, lc_nonStartAddrs := 0, lc_totalLeakageSize := 0\<rparr>"
    "lc_unexplored demo_lc = []" by (simp_all add: demo_lc_def)
  show "wl.reach ?s demo_lc (set (pushes demo_lc vs)) \<subseteq> {8208}" using reach_objects demo_leak_ok(2) by blast
qed


text \<open>
  C10. A false alarm: an allocated object whose size is not a power of two is reported as leaked
  whatever the registers, the stack, the globals and the other objects contain, because
  \<open>isValidAddr\<close> accepts no address inside such an object.
\<close>

theorem leak_false_alarm:
  assumes lc: "lc' = lc\<lparr>lc_heapBegin := hb + 16, lc_heapEnd := he, lc_nonStartAddrs := 0, lc_totalLeakageSize := 0\<rparr>"
      "lc_unexplored lc = []"
    and prep: "leak_setup lc' s hs g ctx" "objects lc' s \<subseteq> set hs"
    and h: "h \<in> set hs" "getObjectSize (sh_mem s) h \<noteq> 0" "\<forall>k. getObjectSize (sh_mem s) h \<noteq> 2 ^ k"
  shows "\<exists>lc'' w. doSlowLeakCheck junk g ctx gregs stackTop hb he (lc, s) = Some (Ok (True, lc'', s\<lparr>sh_trk := w\<rparr>)) \<and>
    tracked_leak (s\<lparr>sh_trk := w\<rparr>) (h + 16)"
proof -
  let ?R = "wl.reach s lc' (set (pushes lc' (roots (sh_mem s) g ctx gregs stackTop)))"
  have "\<not> isValidObjectSize (getObjectSize (sh_mem s) h)"
    using h(2,3) and_pred_zero [of "getObjectSize (sh_mem s) h"] by (auto simp: isValidObjectSize_def)
  then have "h \<notin> objects lc' s" using objects_good(2) by blast
  note ro = reach_objects [of s lc' "roots (sh_mem s) g ctx gregs stackTop"]
  have l: "h \<in> leaked s ?R hs" using h ro \<open>h \<notin> objects lc' s\<close> by (auto simp: leaked_def)
  have "?R \<subseteq> set hs" using ro prep(2) by blast
  from leak_check_result [OF lc prep(1) refl this, of junk] l
  have "leaked s ?R hs \<noteq> {}" "\<exists>lc'' w. doSlowLeakCheck junk g ctx gregs stackTop hb he (lc, s) =
      Some (Ok (leaked s ?R hs \<noteq> {}, lc'', s\<lparr>sh_trk := w\<rparr>)) \<and> tracked_leak (s\<lparr>sh_trk := w\<rparr>) (h + 16)" by blast+
  then show ?thesis by simp
qed

theorem leak_false_alarm_witness:
  "demo_gregs 1 = 8272 \<and> getObjectSize (sh_mem demo_leak_heap) 8256 = 13 \<and>
    (\<exists>lc' w. doSlowLeakCheck demo_track demo_globals 0 demo_gregs 0 8192 8312 (demo_lc, demo_leak_heap) =
      Some (Ok (True, lc', demo_leak_heap\<lparr>sh_trk := w\<rparr>)) \<and> tracked_leak (demo_leak_heap\<lparr>sh_trk := w\<rparr>) (8256 + 16))"
proof -
  have "(13 :: u64) \<noteq> 2 ^ k" for k
  proof (cases "k < 4")
    case True
    then have "k \<in> {0, 1, 2, 3}" by auto
    then show ?thesis by auto
  next
    case False
    then obtain j where "k = 4 + j" using le_iff_add by (metis not_less)
    then have "(2 :: u64) ^ k = 16 * 2 ^ j" by (simp add: power_add)
    then have "even ((2 :: u64) ^ k)" by simp
    moreover have "odd (13 :: u64)" by simp
    ultimately show ?thesis by metis
  qed
  then have "\<forall>k. getObjectSize (sh_mem demo_leak_heap) 8256 \<noteq> 2 ^ k" "getObjectSize (sh_mem demo_leak_heap) 8256 \<noteq> 0"
    using demo_heap_eval(3) by simp_all
  from leak_false_alarm [OF demo_leak_setup(2,3,1) _ _ this(2,1), where junk = demo_track and gregs = demo_gregs and stackTop = 0]
  have *: "objects demo_lc demo_leak_heap \<subseteq> set [8208, 8256] \<Longrightarrow> ?thesis" using demo_heap_eval(3) by (simp add: demo_gregs_def)
  show ?thesis by (rule *) (use demo_leak_ok(2) in auto)
qed

end
