(* ===== verification/Sys_Record.thy ===== *)
theory Sys_Record
  imports Linked_List Record_Entries
begin

text \<open>
  The record of system calls of one thread (\<open>include/sysrecord.hh\<close>, with the enumeration and
  \<open>SyscallEntry\<close> of \<open>include/threadstruct.hh\<close>). Every recorded call takes one entry of the
  thread's pool; closed files, closed directories and unmapped regions are also chained on lists,
  through the list node at the start of their records, because the real operation is deferred to
  the next epoch. In the replay the entries are read back in order.

  The 60 data bytes of an entry are one struct or another according to the call. The model keeps
  one field for each member of these structs, so a member that was not written since the entry was
  taken has some older value; no result speaks of such a member.

  The results: what was recorded is what the replay returns, call by call, and a replay that asks
  for another call than the recorded one, or for one call too many, fails an assertion; the next
  epoch performs the deferred \<open>munmap\<close> calls in their order and starts with an empty record.
\<close>

section \<open>State\<close>

datatype eRecordSyscall =
  E_SYS_FILE_OPEN | E_SYS_FILE_CLOSE | E_SYS_FILE_DUP | E_SYS_DIR_OPEN | E_SYS_DIR_CLOSE | E_SYS_MMAP
  | E_SYS_MUNMAP | E_SYS_TIME | E_SYS_GETTIMEOFDAY | E_SYS_TIMES | E_SYS_CLONE | E_SYS_MAX

fun sys_num :: "eRecordSyscall \<Rightarrow> nat" where
  "sys_num E_SYS_FILE_OPEN = 0" | "sys_num E_SYS_FILE_CLOSE = 1" | "sys_num E_SYS_FILE_DUP = 2"
| "sys_num E_SYS_DIR_OPEN = 3" | "sys_num E_SYS_DIR_CLOSE = 4" | "sys_num E_SYS_MMAP = 5"
| "sys_num E_SYS_MUNMAP = 6" | "sys_num E_SYS_TIME = 7" | "sys_num E_SYS_GETTIMEOFDAY = 8"
| "sys_num E_SYS_TIMES = 9" | "sys_num E_SYS_CLONE = 10" | "sys_num E_SYS_MAX = 11"

text \<open>\<open>timeval\<close> and \<open>timezone\<close> have two members each, \<open>tms\<close> has four.\<close>

type_synonym timeval = "int \<times> int"
type_synonym timezone = "int \<times> int"
type_synonym tms = "int \<times> int \<times> int \<times> int"

record SyscallEntry =
  sc_syscall :: eRecordSyscall
  file_fd :: int
  file_ret :: int
  mmap_addr :: u64
  munmap_addr :: u64
  munmap_length :: u64
  time_time :: int
  tod_ret :: int
  tod_tvalue :: timeval
  tod_tzone :: timezone
  times_ret :: int
  times_buf :: tms
  clone_ret :: int
  clone_tid :: u64
  dir_dir :: u64

abbreviation SYS_ENTRY_SIZE :: u64 where "SYS_ENTRY_SIZE \<equiv> 64"

text \<open>
  The part of \<open>thread_t\<close> the recorder uses: the pool, the array of list heads at \<open>ts_syslist\<close>
  with all list nodes, and the regions the thread has really unmapped.
\<close>

record systhread =
  ts_syscalls :: "SyscallEntry entries"
  ts_syslist :: u64
  ts_nodes :: lstore
  ts_unmapped :: "(u64 \<times> u64) list"

section \<open>Entries and lists\<close>

text \<open>\<open>entry->data\<close> is 4 bytes behind the entry; a record is found from its data pointer.\<close>

definition entry_of :: "u64 \<Rightarrow> systhread \<Rightarrow> SyscallEntry" where
  "entry_of p t = re_store (ts_syscalls t) (p - 4)"

definition set_entry :: "u64 \<Rightarrow> (SyscallEntry \<Rightarrow> SyscallEntry) \<Rightarrow> systhread \<Rightarrow> systhread" where
  "set_entry p f t = t\<lparr>ts_syscalls := (ts_syscalls t)\<lparr>re_store :=
     (re_store (ts_syscalls t))(p - 4 := f (re_store (ts_syscalls t) (p - 4)))\<rparr>\<rparr>"

definition allocEntry :: "eRecordSyscall \<Rightarrow> systhread \<Rightarrow> (u64 \<times> systhread) res" where
  "allocEntry sc t = rmap (\<lambda>(entry, r).
     (entry + 4, set_entry (entry + 4) (\<lambda>e. e\<lparr>sc_syscall := sc\<rparr>) (t\<lparr>ts_syscalls := r\<rparr>)))
     (re_alloc SYS_ENTRY_SIZE (ts_syscalls t))"

definition retrieveEntry :: "eRecordSyscall \<Rightarrow> systhread \<Rightarrow> (u64 \<times> systhread) res" where
  "retrieveEntry sc t =
     (if sc = E_SYS_MAX then Err Assertion
      else let (entry, r) = retrieveIterEntry SYS_ENTRY_SIZE (ts_syscalls t); t = t\<lparr>ts_syscalls := r\<rparr> in
        if entry = 0 then Err Assertion
        else if sc_syscall (re_store r entry) \<noteq> sc then Err Assertion
        else Ok (entry + 4, t))"

definition getTargetList :: "eRecordSyscall \<Rightarrow> systhread \<Rightarrow> u64" where
  "getTargetList sc t = ts_syslist t + 16 * of_nat (sys_num sc)"

definition retrieveListEntry :: "eRecordSyscall \<Rightarrow> systhread \<Rightarrow> (u64 \<times> systhread) res" where
  "retrieveListEntry sc t =
     (if sc \<in> {E_SYS_FILE_CLOSE, E_SYS_DIR_CLOSE, E_SYS_MUNMAP} then
        let (p, h) = listRetrieveItem (getTargetList sc t) (ts_nodes t) in Ok (p, t\<lparr>ts_nodes := h\<rparr>)
      else Err Assertion)"

definition insertList :: "eRecordSyscall \<Rightarrow> u64 \<Rightarrow> systhread \<Rightarrow> systhread" where
  "insertList sc node t =
     (let head = getTargetList sc t; h = listInit node (ts_nodes t) in
      t\<lparr>ts_nodes := listInsertTail node head h\<rparr>)"

section \<open>Recording and retrieving each call\<close>

definition recordFileOps_ret :: "eRecordSyscall \<Rightarrow> int \<Rightarrow> int \<Rightarrow> systhread \<Rightarrow> systhread res" where
  "recordFileOps_ret sc fd ret t =
     (if sys_num sc \<le> sys_num E_SYS_FILE_DUP then
        rmap (\<lambda>(p, t).
          let t = set_entry p (\<lambda>e. e\<lparr>file_fd := fd\<rparr>) t in
          if sc = E_SYS_FILE_CLOSE then insertList E_SYS_FILE_CLOSE p (set_entry p (\<lambda>e. e\<lparr>file_ret := ret\<rparr>) t)
          else t) (allocEntry sc t)
      else Err Assertion)"

definition recordFileOps :: "eRecordSyscall \<Rightarrow> int \<Rightarrow> systhread \<Rightarrow> systhread res" where
  "recordFileOps sc fd t = recordFileOps_ret sc fd 0 t"

text \<open>The getters take the old values of their output arguments and return the new ones.\<close>

definition getFileOps_ret :: "eRecordSyscall \<Rightarrow> int \<Rightarrow> int \<Rightarrow> systhread \<Rightarrow> (bool \<times> int \<times> int \<times> systhread) res" where
  "getFileOps_ret sc fd ret t =
     (if sys_num sc \<le> sys_num E_SYS_FILE_DUP then
        rmap (\<lambda>(p, t).
          if p \<noteq> 0 then
            if sc = E_SYS_FILE_CLOSE then (True, fd, file_ret (entry_of p t), t)
            else (True, file_fd (entry_of p t), ret, t)
          else (False, fd, ret, t)) (retrieveEntry sc t)
      else Err Assertion)"

definition getFileOps :: "eRecordSyscall \<Rightarrow> int \<Rightarrow> systhread \<Rightarrow> (bool \<times> int \<times> systhread) res" where
  "getFileOps sc fd t = rmap (\<lambda>(found, fd, _, t). (found, fd, t)) (getFileOps_ret sc fd 0 t)"

definition retrieveFCloseList :: "int \<Rightarrow> systhread \<Rightarrow> (bool \<times> int \<times> systhread) res" where
  "retrieveFCloseList fd t =
     rmap (\<lambda>(p, t). if p \<noteq> 0 then (True, file_fd (entry_of p t), t) else (False, fd, t))
       (retrieveListEntry E_SYS_FILE_CLOSE t)"

definition recordDirOps :: "eRecordSyscall \<Rightarrow> u64 \<Rightarrow> systhread \<Rightarrow> systhread res" where
  "recordDirOps sc dir t =
     (if sc = E_SYS_DIR_OPEN \<or> sc = E_SYS_DIR_CLOSE then
        rmap (\<lambda>(p, t).
          let t = set_entry p (\<lambda>e. e\<lparr>dir_dir := dir\<rparr>) t in
          if sc = E_SYS_DIR_CLOSE then insertList E_SYS_DIR_CLOSE p t else t) (allocEntry sc t)
      else Err Assertion)"

definition getDirOps :: "eRecordSyscall \<Rightarrow> u64 \<Rightarrow> systhread \<Rightarrow> (bool \<times> u64 \<times> systhread) res" where
  "getDirOps sc dir t =
     (if sc = E_SYS_DIR_OPEN \<or> sc = E_SYS_DIR_CLOSE then
        rmap (\<lambda>(p, t). if p \<noteq> 0 then (True, dir_dir (entry_of p t), t) else (False, dir, t)) (retrieveEntry sc t)
      else Err Assertion)"

definition retrieveDIRCloseList :: "u64 \<Rightarrow> systhread \<Rightarrow> (bool \<times> u64 \<times> systhread) res" where
  "retrieveDIRCloseList dir t =
     rmap (\<lambda>(p, t). if p \<noteq> 0 then (True, dir_dir (entry_of p t), t) else (False, dir, t))
       (retrieveListEntry E_SYS_DIR_CLOSE t)"

definition recordTimeOps :: "int \<Rightarrow> systhread \<Rightarrow> systhread res" where
  "recordTimeOps time t = rmap (\<lambda>(p, t). set_entry p (\<lambda>e. e\<lparr>time_time := time\<rparr>) t) (allocEntry E_SYS_TIME t)"

definition getTimeOps :: "int \<Rightarrow> systhread \<Rightarrow> (bool \<times> int \<times> systhread) res" where
  "getTimeOps time t =
     rmap (\<lambda>(p, t). if p \<noteq> 0 then (True, time_time (entry_of p t), t) else (False, time, t))
       (retrieveEntry E_SYS_TIME t)"

definition recordMmapOps :: "u64 \<Rightarrow> systhread \<Rightarrow> systhread res" where
  "recordMmapOps addr t = rmap (\<lambda>(p, t). set_entry p (\<lambda>e. e\<lparr>mmap_addr := addr\<rparr>) t) (allocEntry E_SYS_MMAP t)"

definition getMmapOps :: "u64 \<Rightarrow> systhread \<Rightarrow> (bool \<times> u64 \<times> systhread) res" where
  "getMmapOps addr t =
     rmap (\<lambda>(p, t). if p \<noteq> 0 then (True, mmap_addr (entry_of p t), t) else (False, addr, t))
       (retrieveEntry E_SYS_MMAP t)"

definition recordMunmapOps :: "u64 \<Rightarrow> u64 \<Rightarrow> systhread \<Rightarrow> systhread res" where
  "recordMunmapOps addr len t =
     rmap (\<lambda>(p, t). insertList E_SYS_MUNMAP p
       (set_entry p (\<lambda>e. e\<lparr>munmap_length := len\<rparr>) (set_entry p (\<lambda>e. e\<lparr>munmap_addr := addr\<rparr>) t)))
       (allocEntry E_SYS_MUNMAP t)"

definition getMunmapOps :: "systhread \<Rightarrow> systhread res" where
  "getMunmapOps t = rmap snd (retrieveEntry E_SYS_MUNMAP t)"

text \<open>A null pointer argument is \<open>None\<close>.\<close>

definition recordGettimeofdayOps :: "int \<Rightarrow> timeval option \<Rightarrow> timezone option \<Rightarrow> systhread \<Rightarrow> systhread res" where
  "recordGettimeofdayOps ret tv tz t =
     rmap (\<lambda>(p, t).
       let t = (case tv of Some v \<Rightarrow> set_entry p (\<lambda>e. e\<lparr>tod_tvalue := v\<rparr>) t | None \<Rightarrow> t);
           t = (case tz of Some z \<Rightarrow> set_entry p (\<lambda>e. e\<lparr>tod_tzone := z\<rparr>) t | None \<Rightarrow> t)
       in set_entry p (\<lambda>e. e\<lparr>tod_ret := ret\<rparr>) t) (allocEntry E_SYS_GETTIMEOFDAY t)"

definition getGettimeofdayOps ::
    "int \<Rightarrow> timeval option \<Rightarrow> timezone option \<Rightarrow> systhread \<Rightarrow> (bool \<times> int \<times> timeval option \<times> timezone option \<times> systhread) res" where
  "getGettimeofdayOps ret tv tz t =
     rmap (\<lambda>(p, t).
       if p \<noteq> 0 then (True, tod_ret (entry_of p t), map_option (\<lambda>_. tod_tvalue (entry_of p t)) tv,
         map_option (\<lambda>_. tod_tzone (entry_of p t)) tz, t)
       else (False, ret, tv, tz, t)) (retrieveEntry E_SYS_GETTIMEOFDAY t)"

text \<open>\<open>recordTimesOps\<close> reads through \<open>buf\<close> whenever the call succeeded.\<close>

definition recordTimesOps :: "int \<Rightarrow> tms option \<Rightarrow> systhread \<Rightarrow> systhread res" where
  "recordTimesOps ret buf t =
     rbind (allocEntry E_SYS_TIMES t) (\<lambda>(p, t).
       let t = set_entry p (\<lambda>e. e\<lparr>times_ret := ret\<rparr>) t in
       if ret \<noteq> - 1 then (case buf of None \<Rightarrow> Err Undefined | Some b \<Rightarrow> Ok (set_entry p (\<lambda>e. e\<lparr>times_buf := b\<rparr>) t))
       else Ok t)"

definition getTimesOps :: "int \<Rightarrow> tms option \<Rightarrow> systhread \<Rightarrow> (bool \<times> int \<times> tms option \<times> systhread) res" where
  "getTimesOps ret buf t =
     rmap (\<lambda>(p, t).
       if p \<noteq> 0 then (True, times_ret (entry_of p t), map_option (\<lambda>_. times_buf (entry_of p t)) buf, t)
       else (False, ret, buf, t)) (retrieveEntry E_SYS_TIMES t)"

definition recordCloneOps :: "int \<Rightarrow> u64 \<Rightarrow> systhread \<Rightarrow> systhread res" where
  "recordCloneOps ret tid t =
     rmap (\<lambda>(p, t). if p \<noteq> 0 then set_entry p (\<lambda>e. e\<lparr>clone_tid := tid\<rparr>) (set_entry p (\<lambda>e. e\<lparr>clone_ret := ret\<rparr>) t) else t)
       (allocEntry E_SYS_CLONE t)"

definition getCloneOps :: "u64 \<Rightarrow> int \<Rightarrow> systhread \<Rightarrow> (bool \<times> u64 \<times> int \<times> systhread) res" where
  "getCloneOps tid ret t =
     rmap (\<lambda>(p, t). if p \<noteq> 0 then (True, clone_tid (entry_of p t), clone_ret (entry_of p t), t) else (False, tid, ret, t))
       (retrieveEntry E_SYS_CLONE t)"

section \<open>Epochs\<close>

partial_function (option) munmap_loop :: "u64 \<Rightarrow> systhread \<Rightarrow> systhread option" where
  "munmap_loop munmapList t =
     (let (rec, h) = listRetrieveItem munmapList (ts_nodes t); t = t\<lparr>ts_nodes := h\<rparr> in
      if rec = 0 then Some t
      else munmap_loop munmapList (t\<lparr>ts_unmapped := ts_unmapped t @
        [(munmap_addr (entry_of rec t), munmap_length (entry_of rec t))]\<rparr>))"

definition sysrecord_epochBegin :: "systhread \<Rightarrow> systhread option" where
  "sysrecord_epochBegin t =
     (case munmap_loop (getTargetList E_SYS_MUNMAP t) t of
        None \<Rightarrow> None
      | Some t \<Rightarrow> Some (t\<lparr>ts_syscalls := re_cleanup (ts_syscalls t),
          ts_nodes := fold (\<lambda>i h. listInit (ts_syslist t + 16 * of_nat i) h) [0..<sys_num E_SYS_MAX] (ts_nodes t)\<rparr>))"

definition sysrecord_prepareRollback :: "systhread \<Rightarrow> systhread" where
  "sysrecord_prepareRollback t = t\<lparr>ts_syscalls := re_prepareRollback (ts_syscalls t)\<rparr>"

section \<open>The calls of a run\<close>

text \<open>
  A system call with the values that are recorded of it. \<open>record_op\<close> is what the first run does for
  it, \<open>replay_op\<close> what the replay does: it asks for the call and builds the answer from the values
  that come back.
\<close>

datatype sysop =
  SOpen int | SDup int | SClose int int | SDirOpen u64 | SDirClose u64 | STime int | SMmap u64
  | SMunmap u64 u64 | STod int "timeval option" "timezone option" | STimes int "tms option" | SClone int u64

fun record_op :: "sysop \<Rightarrow> systhread \<Rightarrow> systhread res" where
  "record_op (SOpen fd) = recordFileOps E_SYS_FILE_OPEN fd"
| "record_op (SDup fd) = recordFileOps E_SYS_FILE_DUP fd"
| "record_op (SClose fd ret) = recordFileOps_ret E_SYS_FILE_CLOSE fd ret"
| "record_op (SDirOpen dir) = recordDirOps E_SYS_DIR_OPEN dir"
| "record_op (SDirClose dir) = recordDirOps E_SYS_DIR_CLOSE dir"
| "record_op (STime v) = recordTimeOps v"
| "record_op (SMmap a) = recordMmapOps a"
| "record_op (SMunmap a l) = recordMunmapOps a l"
| "record_op (STod ret tv tz) = recordGettimeofdayOps ret tv tz"
| "record_op (STimes ret buf) = recordTimesOps ret buf"
| "record_op (SClone ret tid) = recordCloneOps ret tid"

fun replay_op :: "sysop \<Rightarrow> systhread \<Rightarrow> (sysop \<times> systhread) res" where
  "replay_op (SOpen _) t = rmap (\<lambda>(_, fd, t). (SOpen fd, t)) (getFileOps E_SYS_FILE_OPEN (- 1) t)"
| "replay_op (SDup _) t = rmap (\<lambda>(_, fd, t). (SDup fd, t)) (getFileOps E_SYS_FILE_DUP (- 1) t)"
| "replay_op (SClose fd _) t = rmap (\<lambda>(_, fd, ret, t). (SClose fd ret, t)) (getFileOps_ret E_SYS_FILE_CLOSE fd 0 t)"
| "replay_op (SDirOpen _) t = rmap (\<lambda>(_, dir, t). (SDirOpen dir, t)) (getDirOps E_SYS_DIR_OPEN 0 t)"
| "replay_op (SDirClose _) t = rmap (\<lambda>(_, dir, t). (SDirClose dir, t)) (getDirOps E_SYS_DIR_CLOSE 0 t)"
| "replay_op (STime _) t = rmap (\<lambda>(_, v, t). (STime v, t)) (getTimeOps 0 t)"
| "replay_op (SMmap _) t = rmap (\<lambda>(_, a, t). (SMmap a, t)) (getMmapOps 0 t)"
| "replay_op (SMunmap a l) t = rmap (\<lambda>t. (SMunmap a l, t)) (getMunmapOps t)"
| "replay_op (STod _ tv tz) t = rmap (\<lambda>(_, ret, tv, tz, t). (STod ret tv tz, t))
     (getGettimeofdayOps 0 (map_option (\<lambda>_. (0, 0)) tv) (map_option (\<lambda>_. (0, 0)) tz) t)"
| "replay_op (STimes _ buf) t = rmap (\<lambda>(_, ret, buf, t). (STimes ret buf, t))
     (getTimesOps 0 (map_option (\<lambda>_. (0, 0, 0, 0)) buf) t)"
| "replay_op (SClone _ _) t = rmap (\<lambda>(_, tid, ret, t). (SClone ret tid, t)) (getCloneOps 0 0 t)"

primrec record_ops :: "sysop list \<Rightarrow> systhread \<Rightarrow> systhread res" where
  "record_ops [] t = Ok t"
| "record_ops (x # xs) t = rbind (record_op x t) (record_ops xs)"

primrec replay_ops :: "sysop list \<Rightarrow> systhread \<Rightarrow> (sysop list \<times> systhread) res" where
  "replay_ops [] t = Ok ([], t)"
| "replay_ops (x # xs) t = rbind (replay_op x t) (\<lambda>(y, t). rmap (\<lambda>(ys, t). (y # ys, t)) (replay_ops xs t))"

text \<open>The tag of a call, whether it is chained on a list, and when its record is complete.\<close>

fun op_sc :: "sysop \<Rightarrow> eRecordSyscall" where
  "op_sc (SOpen _) = E_SYS_FILE_OPEN" | "op_sc (SDup _) = E_SYS_FILE_DUP" | "op_sc (SClose _ _) = E_SYS_FILE_CLOSE"
| "op_sc (SDirOpen _) = E_SYS_DIR_OPEN" | "op_sc (SDirClose _) = E_SYS_DIR_CLOSE" | "op_sc (STime _) = E_SYS_TIME"
| "op_sc (SMmap _) = E_SYS_MMAP" | "op_sc (SMunmap _ _) = E_SYS_MUNMAP" | "op_sc (STod _ _ _) = E_SYS_GETTIMEOFDAY"
| "op_sc (STimes _ _) = E_SYS_TIMES" | "op_sc (SClone _ _) = E_SYS_CLONE"

definition chained :: "eRecordSyscall set" where
  "chained = {E_SYS_FILE_CLOSE, E_SYS_DIR_CLOSE, E_SYS_MUNMAP}"

fun complete_op :: "sysop \<Rightarrow> bool" where
  "complete_op (STimes ret buf) \<longleftrightarrow> (ret \<noteq> - 1 \<longleftrightarrow> buf \<noteq> None)"
| "complete_op _ \<longleftrightarrow> True"

fun fill_op :: "sysop \<Rightarrow> SyscallEntry \<Rightarrow> SyscallEntry" where
  "fill_op (SOpen fd) e = e\<lparr>sc_syscall := E_SYS_FILE_OPEN, file_fd := fd\<rparr>"
| "fill_op (SDup fd) e = e\<lparr>sc_syscall := E_SYS_FILE_DUP, file_fd := fd\<rparr>"
| "fill_op (SClose fd ret) e = e\<lparr>sc_syscall := E_SYS_FILE_CLOSE, file_fd := fd, file_ret := ret\<rparr>"
| "fill_op (SDirOpen dir) e = e\<lparr>sc_syscall := E_SYS_DIR_OPEN, dir_dir := dir\<rparr>"
| "fill_op (SDirClose dir) e = e\<lparr>sc_syscall := E_SYS_DIR_CLOSE, dir_dir := dir\<rparr>"
| "fill_op (STime v) e = e\<lparr>sc_syscall := E_SYS_TIME, time_time := v\<rparr>"
| "fill_op (SMmap a) e = e\<lparr>sc_syscall := E_SYS_MMAP, mmap_addr := a\<rparr>"
| "fill_op (SMunmap a l) e = e\<lparr>sc_syscall := E_SYS_MUNMAP, munmap_addr := a, munmap_length := l\<rparr>"
| "fill_op (STod ret tv tz) e = e\<lparr>sc_syscall := E_SYS_GETTIMEOFDAY,
     tod_tvalue := (case tv of Some v \<Rightarrow> v | None \<Rightarrow> tod_tvalue e),
     tod_tzone := (case tz of Some v \<Rightarrow> v | None \<Rightarrow> tod_tzone e), tod_ret := ret\<rparr>"
| "fill_op (STimes ret buf) e = e\<lparr>sc_syscall := E_SYS_TIMES, times_ret := ret,
     times_buf := (case buf of Some b \<Rightarrow> b | None \<Rightarrow> times_buf e)\<rparr>"
| "fill_op (SClone ret tid) e = e\<lparr>sc_syscall := E_SYS_CLONE, clone_ret := ret, clone_tid := tid\<rparr>"

fun read_op :: "sysop \<Rightarrow> SyscallEntry \<Rightarrow> sysop" where
  "read_op (SOpen _) e = SOpen (file_fd e)" | "read_op (SDup _) e = SDup (file_fd e)"
| "read_op (SClose fd _) e = SClose fd (file_ret e)" | "read_op (SDirOpen _) e = SDirOpen (dir_dir e)"
| "read_op (SDirClose _) e = SDirClose (dir_dir e)" | "read_op (STime _) e = STime (time_time e)"
| "read_op (SMmap _) e = SMmap (mmap_addr e)" | "read_op (SMunmap a l) e = SMunmap a l"
| "read_op (STod _ tv tz) e =
     STod (tod_ret e) (map_option (\<lambda>_. tod_tvalue e) tv) (map_option (\<lambda>_. tod_tzone e) tz)"
| "read_op (STimes _ buf) e = STimes (times_ret e) (map_option (\<lambda>_. times_buf e) buf)"
| "read_op (SClone _ _) e = SClone (clone_ret e) (clone_tid e)"

lemma fill_op_facts [simp]: "sc_syscall (fill_op x e) = op_sc x" "read_op x (fill_op x e) = x"
  by (cases x; auto split: option.splits)+

lemma op_sc_proper [simp]: "op_sc x \<noteq> E_SYS_MAX"
  by (cases x) auto

subsection \<open>Recording a call is filling one entry\<close>

lemma sys_entry_pointer:
  assumes "re_ok SYS_ENTRY_SIZE r" and "i < re_total r"
  shows "re_getEntry SYS_ENTRY_SIZE i r + 4 \<noteq> 0"
proof
  let ?p = "re_getEntry SYS_ENTRY_SIZE i r"
  assume *: "?p + 4 = 0"
  have i: "unat i < unat (re_total r)" using assms(2) by (simp add: word_less_nat_alt)
  have "(unat i + 1) * 64 \<le> unat (re_total r) * 64" using i by (intro mult_right_mono) auto
  moreover have "unat (re_start r) + unat (re_total r) * 64 \<le> 2 ^ 64" using assms(1) by (simp add: re_ok_def)
  ultimately have "unat ?p + 4 < 2 ^ 64" using unat_getEntry [OF assms(1) i] by simp
  then have "unat (?p + 4) = unat ?p + 4" by (simp add: unat_word_ariths)
  with * show False by simp
qed

text \<open>The whole effect of \<open>record_op\<close>: one entry is filled and, for the chained calls, its node linked.\<close>

definition chain_op :: "sysop \<Rightarrow> u64 \<Rightarrow> systhread \<Rightarrow> systhread" where
  "chain_op x p t = (if op_sc x \<in> chained then insertList (op_sc x) p t else t)"

lemma set_entry_set_entry [simp]: "set_entry p f (set_entry p g t) = set_entry p (\<lambda>e. f (g e)) t"
  by (simp add: set_entry_def)

lemmas record_defs = recordFileOps_def recordFileOps_ret_def recordDirOps_def recordTimeOps_def recordMmapOps_def
  recordMunmapOps_def recordGettimeofdayOps_def recordTimesOps_def recordCloneOps_def

lemma record_op_eq:
  assumes "re_ok SYS_ENTRY_SIZE (ts_syscalls t)" and "complete_op x"
  shows "record_op x t = rmap (\<lambda>r. chain_op x (re_getEntry SYS_ENTRY_SIZE (re_cur (ts_syscalls t)) (ts_syscalls t) + 4)
    (t\<lparr>ts_syscalls := r\<rparr>)) (re_fill SYS_ENTRY_SIZE (fill_op x) (ts_syscalls t))"
proof (cases "re_cur (ts_syscalls t) < re_total (ts_syscalls t)")
  case True
  define p where "p = re_getEntry SYS_ENTRY_SIZE (re_cur (ts_syscalls t)) (ts_syscalls t)"
  define r where "r = (ts_syscalls t)\<lparr>re_cur := re_cur (ts_syscalls t) + 1\<rparr>"
  have a: "allocEntry sc t = Ok (p + 4, set_entry (p + 4) (\<lambda>e. e\<lparr>sc_syscall := sc\<rparr>) (t\<lparr>ts_syscalls := r\<rparr>))" for sc
    using True by (simp add: allocEntry_def re_alloc_def p_def r_def re_getEntry_def)
  have f: "re_fill SYS_ENTRY_SIZE f (ts_syscalls t) = Ok (r\<lparr>re_store := (re_store r)(p := f (re_store r p))\<rparr>)" for f
    using True by (simp add: re_fill_def re_alloc_def p_def r_def re_getEntry_def)
  have nz: "p + 4 \<noteq> 0" using sys_entry_pointer [OF assms(1) True] by (simp add: p_def)
  show ?thesis
    using nz assms(2) unfolding p_def [symmetric] f
    by (cases x) (auto simp: record_defs a chain_op_def chained_def Let_def set_entry_def split: option.splits)
next
  case False
  then have "allocEntry sc t = Err Abort" for sc by (simp add: allocEntry_def re_alloc_def)
  with False show ?thesis
    by (cases x) (simp_all add: record_defs re_fill_def re_alloc_def)
qed

subsection \<open>Replaying a call is reading one entry\<close>

lemmas replay_defs = getFileOps_def getFileOps_ret_def getDirOps_def getTimeOps_def getMmapOps_def getMunmapOps_def
  getGettimeofdayOps_def getTimesOps_def getCloneOps_def

lemma retrieveEntry_eq:
  assumes "re_ok SYS_ENTRY_SIZE (ts_syscalls t)" and "sc \<noteq> E_SYS_MAX"
    and "re_next SYS_ENTRY_SIZE (ts_syscalls t) = (Some e, r)" and "sc_syscall e = sc"
  shows "\<exists>p. retrieveEntry sc t = Ok (p, t\<lparr>ts_syscalls := r\<rparr>) \<and> p \<noteq> 0 \<and> entry_of p (t\<lparr>ts_syscalls := r\<rparr>) = e"
proof -
  let ?s = "ts_syscalls t"
  have it: "re_iter ?s < re_cur ?s"
    using assms(3) by (auto simp: re_next_def retrieveIterEntry_def split: if_splits)
  then have "re_iter ?s < re_total ?s" using assms(1) by (auto simp: re_ok_def intro: order_less_le_trans)
  note nz = sys_entry_pointer [OF assms(1) this]
  have e: "e = re_store ?s (re_getEntry SYS_ENTRY_SIZE (re_iter ?s) ?s)" "r = ?s\<lparr>re_iter := re_iter ?s + 1\<rparr>"
    "re_getEntry SYS_ENTRY_SIZE (re_iter ?s) ?s \<noteq> 0"
    using assms(3) it by (auto simp: re_next_def retrieveIterEntry_def split: if_splits)
  then show ?thesis
    using it assms(2,4) nz by (auto simp: retrieveEntry_def retrieveIterEntry_def entry_of_def)
qed

lemma replay_op_eq:
  assumes "re_ok SYS_ENTRY_SIZE (ts_syscalls t)" and "re_next SYS_ENTRY_SIZE (ts_syscalls t) = (Some e, r)"
    and "sc_syscall e = op_sc x"
  shows "replay_op x t = Ok (read_op x e, t\<lparr>ts_syscalls := r\<rparr>)"
proof -
  obtain p where "retrieveEntry (op_sc x) t = Ok (p, t\<lparr>ts_syscalls := r\<rparr>)" "p \<noteq> 0"
    "entry_of p (t\<lparr>ts_syscalls := r\<rparr>) = e"
    using retrieveEntry_eq [OF assms(1) _ assms(2,3)] by auto
  then show ?thesis by (cases x) (simp_all add: replay_defs option.map_comp comp_def)
qed

lemma replay_op_fails:
  assumes "retrieveEntry (op_sc x) t = Err Assertion"
  shows "replay_op x t = Err Assertion"
  using assms by (cases x) (simp_all add: replay_defs)

lemma retrieveEntry_fails:
  assumes "re_ok SYS_ENTRY_SIZE (ts_syscalls t)"
    and "case re_next SYS_ENTRY_SIZE (ts_syscalls t) of (None, _) \<Rightarrow> True | (Some e, _) \<Rightarrow> sc_syscall e \<noteq> sc"
  shows "retrieveEntry sc t = Err Assertion"
  using assms(2)
  by (auto simp: retrieveEntry_def re_next_def retrieveIterEntry_def Let_def split: if_splits)

section \<open>The chains\<close>

text \<open>
  The invariant of the recorder: the pool is in order, and the list of a chained call holds exactly
  the entries that record it, in the order in which they were recorded. The list heads are not
  inside the pool.
\<close>

abbreviation entry_node :: "SyscallEntry entries \<Rightarrow> nat \<Rightarrow> u64" where
  "entry_node r i \<equiv> re_getEntry SYS_ENTRY_SIZE (of_nat i) r + 4"

definition chain :: "eRecordSyscall \<Rightarrow> SyscallEntry entries \<Rightarrow> nat list" where
  "chain sc r = [i \<leftarrow> [0..<unat (re_cur r)]. sc_syscall (re_events SYS_ENTRY_SIZE r ! i) = sc]"

definition sys_sep :: "systhread \<Rightarrow> bool" where
  "sys_sep t \<longleftrightarrow> (\<forall>sc\<in>chained. \<forall>i<unat (re_total (ts_syscalls t)). getTargetList sc t \<noteq> entry_node (ts_syscalls t) i)"

definition sys_inv :: "systhread \<Rightarrow> bool" where
  "sys_inv t \<longleftrightarrow> re_ok SYS_ENTRY_SIZE (ts_syscalls t) \<and> sys_sep t \<and>
     (\<forall>sc\<in>chained. is_list (ts_nodes t) (getTargetList sc t) (map (entry_node (ts_syscalls t)) (chain sc (ts_syscalls t))))"

lemma chain_bound: "i \<in> set (chain sc r) \<Longrightarrow> i < unat (re_cur r) \<and> sc_syscall (re_events SYS_ENTRY_SIZE r ! i) = sc"
  by (simp add: chain_def)

lemma getTargetList_inj:
  "sc \<in> chained \<Longrightarrow> sc' \<in> chained \<Longrightarrow> getTargetList sc t = getTargetList sc' t \<longleftrightarrow> sc = sc'"
  by (auto simp: getTargetList_def chained_def)

lemma chain_fill:
  assumes "re_ok SYS_ENTRY_SIZE r" and "re_fill SYS_ENTRY_SIZE (fill_op x) r = Ok r'"
  shows "chain sc r' = chain sc r @ (if op_sc x = sc then [unat (re_cur r)] else [])"
    and "re_start r' = re_start r" and "re_total r' = re_total r" and "re_ok SYS_ENTRY_SIZE r'"
    and "re_cur r < re_total r"
proof -
  show lt: "re_cur r < re_total r"
    using assms(2) by (auto simp: re_fill_def re_alloc_def split: if_splits)
  then have ev: "re_ok SYS_ENTRY_SIZE r'" "re_total r' = re_total r"
    "re_events SYS_ENTRY_SIZE r' = re_events SYS_ENTRY_SIZE r @ [fill_op x (re_stale SYS_ENTRY_SIZE r)]"
    using re_fill_ok [OF assms(1), of "fill_op x"] assms(2) by (auto simp: word_less_nat_alt)
  show "re_ok SYS_ENTRY_SIZE r'" "re_total r' = re_total r" by fact+
  show "re_start r' = re_start r" using assms(2) lt by (auto simp: re_fill_def re_alloc_def)
  have "length (re_events SYS_ENTRY_SIZE r') = Suc (length (re_events SYS_ENTRY_SIZE r))" using ev(3) by simp
  then have c: "unat (re_cur r') = Suc (unat (re_cur r))" by simp
  have "[i \<leftarrow> [0..<unat (re_cur r)]. sc_syscall (re_events SYS_ENTRY_SIZE r' ! i) = sc] = chain sc r"
    unfolding chain_def ev(3) by (rule filter_cong) (auto simp: nth_append)
  moreover have "re_events SYS_ENTRY_SIZE r' ! unat (re_cur r) = fill_op x (re_stale SYS_ENTRY_SIZE r)"
    by (simp add: ev(3) nth_append)
  ultimately show "chain sc r' = chain sc r @ (if op_sc x = sc then [unat (re_cur r)] else [])"
    by (simp add: chain_def c)
qed

lemma entry_node_inj:
  "re_ok SYS_ENTRY_SIZE r \<Longrightarrow> i < unat (re_total r) \<Longrightarrow> j < unat (re_total r) \<Longrightarrow> entry_node r i = entry_node r j \<longleftrightarrow> i = j"
  using getEntry_inj [of SYS_ENTRY_SIZE r i j] by simp

lemma chains_disjoint:
  assumes inv: "sys_inv t" and sc: "sc \<in> chained" "sc' \<in> chained" "sc \<noteq> sc'"
  shows "set (getTargetList sc t # map (entry_node (ts_syscalls t)) (chain sc (ts_syscalls t))) \<inter>
    set (getTargetList sc' t # map (entry_node (ts_syscalls t)) (chain sc' (ts_syscalls t))) = {}"
proof -
  let ?r = "ts_syscalls t"
  have ok: "re_ok SYS_ENTRY_SIZE ?r" "unat (re_cur ?r) \<le> unat (re_total ?r)" using inv by (auto simp: sys_inv_def re_ok_def word_le_nat_alt)
  have bound: "i < unat (re_total ?r)" if "i \<in> set (chain s ?r)" for i s using chain_bound [OF that] ok(2) by linarith
  have "entry_node ?r i \<noteq> entry_node ?r j" if "i \<in> set (chain sc ?r)" "j \<in> set (chain sc' ?r)" for i j
    using chain_bound [OF that(1)] chain_bound [OF that(2)] entry_node_inj [OF ok(1) bound [OF that(1)] bound [OF that(2)]] sc(3) by auto
  moreover have "getTargetList s t \<noteq> entry_node ?r i" if "i \<in> set (chain s' ?r)" "s \<in> chained" for i s s'
    using inv that(2) bound [OF that(1)] unfolding sys_inv_def sys_sep_def by blast
  moreover have "getTargetList sc t \<noteq> getTargetList sc' t" using getTargetList_inj [OF sc(1,2)] sc(3) by simp
  ultimately show ?thesis using sc(1,2) by fastforce
qed

text \<open>Linking the new node keeps the other chains, whose nodes are other entries.\<close>

lemma insertList_chains:
  assumes inv: "sys_inv t" and room: "unat (re_cur (ts_syscalls t)) < unat (re_total (ts_syscalls t))"
    and sc: "sc \<in> chained" "sc' \<in> chained" and h: "h = ts_nodes (insertList sc (entry_node (ts_syscalls t) (unat (re_cur (ts_syscalls t)))) t)"
  shows "is_list h (getTargetList sc' t) (map (entry_node (ts_syscalls t))
    (chain sc' (ts_syscalls t) @ (if sc = sc' then [unat (re_cur (ts_syscalls t))] else [])))"
proof -
  let ?r = "ts_syscalls t" and ?k = "unat (re_cur (ts_syscalls t))"
  let ?n = "entry_node ?r ?k" and ?l = "\<lambda>sc. map (entry_node ?r) (chain sc ?r)"
  have ok: "re_ok SYS_ENTRY_SIZE ?r" using inv by (simp add: sys_inv_def)
  have fresh: "?n \<notin> set (getTargetList s t # ?l s)" if "s \<in> chained" for s
  proof -
    have "?n \<noteq> getTargetList s t" using inv that room unfolding sys_inv_def sys_sep_def by metis
    moreover have "?n \<noteq> entry_node ?r i" if "i \<in> set (chain s ?r)" for i
      using chain_bound [OF that] entry_node_inj [OF ok room, of i] room by simp
    ultimately show ?thesis by auto
  qed
  let ?h0 = "listInit ?n (ts_nodes t)"
  have l0: "is_list ?h0 (getTargetList s t) (?l s)" if "s \<in> chained" for s
  proof (rule is_list_cong)
    show "is_list (ts_nodes t) (getTargetList s t) (?l s)" using inv that by (simp add: sys_inv_def)
    fix a assume "a \<in> set (getTargetList s t # ?l s)"
    with fresh [OF that] have "a \<noteq> ?n" by metis
    then show "nxt (?h0 a) = nxt (ts_nodes t a) \<and> prv (?h0 a) = prv (ts_nodes t a)" by (simp add: listInit_def)
  qed
  have heq: "h = listInsertTail ?n (getTargetList sc t) ?h0"
    by (simp add: h insertList_def Let_def)
  show ?thesis
  proof (cases "sc = sc'")
    case True
    then show ?thesis using is_list_listInsertTail [OF l0 [OF sc(1)] fresh [OF sc(1)]] heq by simp
  next
    case False
    have apart: "a \<notin> set (?n # getTargetList sc t # ?l sc)" if a: "a \<in> set (getTargetList sc' t # ?l sc')" for a
    proof -
      have "a \<noteq> ?n" using fresh [OF sc(2)] a by metis
      moreover have "a \<notin> set (getTargetList sc t # ?l sc)" using chains_disjoint [OF inv sc False] a by blast
      ultimately show ?thesis by simp
    qed
    have "is_list h (getTargetList sc' t) (?l sc')"
      unfolding heq by (rule is_list_same [OF l0 [OF sc(2)]]) (rule listInsertTail_frame [OF l0 [OF sc(1)] apart])
    then show ?thesis using False by simp
  qed
qed

lemma record_op_inv:
  assumes inv: "sys_inv t" and "complete_op x" and room: "length (re_events SYS_ENTRY_SIZE (ts_syscalls t)) < unat (re_total (ts_syscalls t))"
  shows "\<exists>t' e. record_op x t = Ok t' \<and> sys_inv t' \<and> sc_syscall e = op_sc x \<and> read_op x e = x \<and> e \<in> range (fill_op x) \<and>
    re_events SYS_ENTRY_SIZE (ts_syscalls t') = re_events SYS_ENTRY_SIZE (ts_syscalls t) @ [e] \<and>
    re_iter (ts_syscalls t') = re_iter (ts_syscalls t) \<and> re_total (ts_syscalls t') = re_total (ts_syscalls t) \<and>
    ts_syslist t' = ts_syslist t \<and> ts_unmapped t' = ts_unmapped t"
proof -
  let ?r = "ts_syscalls t" and ?k = "unat (re_cur (ts_syscalls t))"
  have ok: "re_ok SYS_ENTRY_SIZE ?r" using inv by (simp add: sys_inv_def)
  obtain r' where r': "re_fill SYS_ENTRY_SIZE (fill_op x) ?r = Ok r'" "re_ok SYS_ENTRY_SIZE r'"
      "re_events SYS_ENTRY_SIZE r' = re_events SYS_ENTRY_SIZE ?r @ [fill_op x (re_stale SYS_ENTRY_SIZE ?r)]"
      "re_iter r' = re_iter ?r" "re_total r' = re_total ?r"
    using re_fill_ok [OF ok, of "fill_op x"] room by auto
  note cf = chain_fill [OF ok r'(1)]
  have en: "re_getEntry SYS_ENTRY_SIZE i r' = re_getEntry SYS_ENTRY_SIZE i ?r" for i by (simp add: re_getEntry_def cf(2))
  define t' where "t' = chain_op x (entry_node ?r ?k) (t\<lparr>ts_syscalls := r'\<rparr>)"
  have f: "ts_syscalls t' = r'" "ts_syslist t' = ts_syslist t" "ts_unmapped t' = ts_unmapped t" "getTargetList sc t' = getTargetList sc t" for sc
    by (auto simp: t'_def chain_op_def insertList_def Let_def getTargetList_def)
  have "is_list (ts_nodes t') (getTargetList sc t) (map (entry_node ?r) (chain sc r'))" if "sc \<in> chained" for sc
  proof (cases "op_sc x \<in> chained")
    case True
    then have "ts_nodes t' = ts_nodes (insertList (op_sc x) (entry_node ?r ?k) t)"
      by (simp add: t'_def chain_op_def insertList_def Let_def getTargetList_def)
    from insertList_chains [OF inv _ True that this] room cf(1) [of sc] show ?thesis by auto
  next
    case False
    then have "ts_nodes t' = ts_nodes t" by (simp add: t'_def chain_op_def)
    moreover have "op_sc x \<noteq> sc" using False that by auto
    ultimately show ?thesis using inv that cf(1) [of sc] by (simp add: sys_inv_def)
  qed
  then have "sys_inv t'"
    using inv r'(2) by (simp add: sys_inv_def f en sys_sep_def cf(3))
  moreover have "record_op x t = Ok t'"
    using record_op_eq [OF ok assms(2)] r'(1) by (simp add: t'_def)
  ultimately show ?thesis using r' f by auto
qed

section \<open>Recording and replaying a run\<close>

lemma record_ops_spec:
  assumes "sys_inv t" and "list_all complete_op xs"
    and "length (re_events SYS_ENTRY_SIZE (ts_syscalls t)) + length xs \<le> unat (re_total (ts_syscalls t))"
  shows "\<exists>t' es. record_ops xs t = Ok t' \<and> sys_inv t' \<and>
    re_events SYS_ENTRY_SIZE (ts_syscalls t') = re_events SYS_ENTRY_SIZE (ts_syscalls t) @ es \<and>
    list_all2 (\<lambda>x e. sc_syscall e = op_sc x \<and> read_op x e = x \<and> e \<in> range (fill_op x)) xs es \<and>
    ts_syslist t' = ts_syslist t \<and> ts_unmapped t' = ts_unmapped t"
  using assms
proof (induction xs arbitrary: t)
  case (Cons x xs)
  obtain u e where u: "record_op x t = Ok u" "sys_inv u" "sc_syscall e = op_sc x" "read_op x e = x" "e \<in> range (fill_op x)"
      "re_events SYS_ENTRY_SIZE (ts_syscalls u) = re_events SYS_ENTRY_SIZE (ts_syscalls t) @ [e]"
      "re_total (ts_syscalls u) = re_total (ts_syscalls t)" "ts_syslist u = ts_syslist t" "ts_unmapped u = ts_unmapped t"
    using record_op_inv [OF Cons.prems(1), of x] Cons.prems by auto
  have "length (re_events SYS_ENTRY_SIZE (ts_syscalls u)) + length xs \<le> unat (re_total (ts_syscalls u))"
    using Cons.prems(3) unfolding u(6,7) by simp
  from Cons.IH [OF u(2) _ this] Cons.prems(2) obtain t' es where
    "record_ops xs u = Ok t' \<and> sys_inv t' \<and>
      re_events SYS_ENTRY_SIZE (ts_syscalls t') = re_events SYS_ENTRY_SIZE (ts_syscalls u) @ es \<and>
      list_all2 (\<lambda>x e. sc_syscall e = op_sc x \<and> read_op x e = x \<and> e \<in> range (fill_op x)) xs es \<and>
      ts_syslist t' = ts_syslist u \<and> ts_unmapped t' = ts_unmapped u" by auto
  with u show ?case by (intro exI [of _ t'] exI [of _ "e # es"]) auto
qed auto

lemma replay_next:
  assumes "re_ok SYS_ENTRY_SIZE r" and "drop (unat (re_iter r)) (re_events SYS_ENTRY_SIZE r) = e # es"
  obtains s where "re_next SYS_ENTRY_SIZE r = (Some e, s)" "re_ok SYS_ENTRY_SIZE s" "re_events SYS_ENTRY_SIZE s = re_events SYS_ENTRY_SIZE r"
    "unat (re_iter s) = Suc (unat (re_iter r))" "drop (unat (re_iter s)) (re_events SYS_ENTRY_SIZE s) = es"
proof -
  have lt: "unat (re_iter r) < length (re_events SYS_ENTRY_SIZE r)" using assms(2) by (metis drop_eq_Nil linorder_not_less list.distinct(1))
  then have "re_events SYS_ENTRY_SIZE r ! unat (re_iter r) = e" "drop (Suc (unat (re_iter r))) (re_events SYS_ENTRY_SIZE r) = es"
    using assms(2) Cons_nth_drop_Suc [OF lt] by auto
  then show ?thesis using pool.next_some [OF assms(1) lt] that by auto
qed

lemma replay_ops_spec:
  assumes "re_ok SYS_ENTRY_SIZE (ts_syscalls t)"
    and "list_all2 (\<lambda>x e. sc_syscall e = op_sc x \<and> read_op x e = x) xs es"
    and "drop (unat (re_iter (ts_syscalls t))) (re_events SYS_ENTRY_SIZE (ts_syscalls t)) = es @ fs"
  shows "\<exists>r. replay_ops xs t = Ok (xs, t\<lparr>ts_syscalls := r\<rparr>) \<and> re_ok SYS_ENTRY_SIZE r \<and>
    re_events SYS_ENTRY_SIZE r = re_events SYS_ENTRY_SIZE (ts_syscalls t) \<and>
    unat (re_iter r) = unat (re_iter (ts_syscalls t)) + length xs"
  using assms
proof (induction xs arbitrary: t es)
  case Nil then show ?case by (intro exI [of _ "ts_syscalls t"]) simp
next
  case (Cons x xs)
  let ?r = "ts_syscalls t" and ?n = "unat (re_iter (ts_syscalls t))"
  obtain e es' where es: "es = e # es'" "sc_syscall e = op_sc x" "read_op x e = x"
      "list_all2 (\<lambda>x e. sc_syscall e = op_sc x \<and> read_op x e = x) xs es'"
    using Cons.prems(2) by (auto simp: list_all2_Cons1)
  have d: "drop ?n (re_events SYS_ENTRY_SIZE ?r) = e # (es' @ fs)" using Cons.prems(3) es(1) by simp
  obtain s where s: "re_next SYS_ENTRY_SIZE ?r = (Some e, s)" "re_ok SYS_ENTRY_SIZE s"
      "re_events SYS_ENTRY_SIZE s = re_events SYS_ENTRY_SIZE ?r" "unat (re_iter s) = Suc ?n" "drop (unat (re_iter s)) (re_events SYS_ENTRY_SIZE s) = es' @ fs"
    by (rule replay_next [OF Cons.prems(1) d])
  have 1: "replay_op x t = Ok (x, t\<lparr>ts_syscalls := s\<rparr>)"
    using replay_op_eq [OF Cons.prems(1) s(1) es(2)] es(3) by simp
  have "\<exists>r. replay_ops xs (t\<lparr>ts_syscalls := s\<rparr>) = Ok (xs, t\<lparr>ts_syscalls := s\<rparr>\<lparr>ts_syscalls := r\<rparr>) \<and>
      re_ok SYS_ENTRY_SIZE r \<and> re_events SYS_ENTRY_SIZE r = re_events SYS_ENTRY_SIZE (ts_syscalls (t\<lparr>ts_syscalls := s\<rparr>)) \<and>
      unat (re_iter r) = unat (re_iter (ts_syscalls (t\<lparr>ts_syscalls := s\<rparr>))) + length xs"
    by (rule Cons.IH [OF _ es(4)]) (use s in simp_all)
  then show ?case using 1 s(3,4) by auto
qed

text \<open>A new epoch: the record is empty and the replay position is at its start.\<close>

definition fresh_epoch :: "systhread \<Rightarrow> bool" where
  "fresh_epoch t \<longleftrightarrow> sys_inv t \<and> re_events SYS_ENTRY_SIZE (ts_syscalls t) = []"

lemma recorded_replayed:
  assumes "fresh_epoch t" and "list_all complete_op xs" and "length xs \<le> unat (re_total (ts_syscalls t))"
  shows "\<exists>t1 es. record_ops xs t = Ok t1 \<and> sys_inv t1 \<and> re_events SYS_ENTRY_SIZE (ts_syscalls t1) = es \<and>
    list_all2 (\<lambda>x e. sc_syscall e = op_sc x \<and> read_op x e = x \<and> e \<in> range (fill_op x)) xs es \<and>
    ts_syslist t1 = ts_syslist t \<and> ts_unmapped t1 = ts_unmapped t"
  using record_ops_spec [of t xs] assms by (auto simp: fresh_epoch_def simp del: length_re_events)

lemma rewound:
  "sys_inv t \<Longrightarrow> re_ok SYS_ENTRY_SIZE (ts_syscalls (sysrecord_prepareRollback t)) \<and>
    re_events SYS_ENTRY_SIZE (ts_syscalls (sysrecord_prepareRollback t)) = re_events SYS_ENTRY_SIZE (ts_syscalls t) \<and>
    re_iter (ts_syscalls (sysrecord_prepareRollback t)) = 0"
  using pool.rewind_ok [of SYS_ENTRY_SIZE "ts_syscalls t"]
  by (auto simp: sysrecord_prepareRollback_def sys_inv_def re_prepareRollback_def)

lemma munmap_loop_spec:
  assumes "re_ok SYS_ENTRY_SIZE (ts_syscalls t)" and "is_list (ts_nodes t) head (map (entry_node (ts_syscalls t)) js)"
    and "\<forall>j\<in>set js. j < unat (re_cur (ts_syscalls t))"
  shows "\<exists>h. munmap_loop head t = Some (t\<lparr>ts_nodes := h, ts_unmapped := ts_unmapped t @
    map (\<lambda>j. let e = re_events SYS_ENTRY_SIZE (ts_syscalls t) ! j in (munmap_addr e, munmap_length e)) js\<rparr>)"
  using assms
proof (induction js arbitrary: t)
  case Nil
  then have "listRetrieveItem head (ts_nodes t) = (0, ts_nodes t)" by (simp add: listRetrieveItem_Nil)
  then show ?case by (intro exI [of _ "ts_nodes t"]) (simp add: munmap_loop.simps)
next
  case (Cons j js)
  let ?r = "ts_syscalls t"
  obtain h where h: "listRetrieveItem head (ts_nodes t) = (entry_node ?r j, h)" "is_list h head (map (entry_node ?r) js)"
    using lq.deq_Cons [of "ts_nodes t" head] Cons.prems(2) by (cases "listRetrieveItem head (ts_nodes t)") auto
  have jt: "of_nat j < re_total ?r" "unat (of_nat j :: u64) = j"
  proof -
    have "j < unat (re_cur ?r)" "unat (re_cur ?r) \<le> unat (re_total ?r)"
      using Cons.prems(1,3) by (auto simp: re_ok_def word_le_nat_alt)
    moreover from this have "j < 2 ^ 64" using unat_u64_less [of "re_cur ?r"] by linarith
    ultimately show "of_nat j < re_total ?r" "unat (of_nat j :: u64) = j"
      by (auto simp: word_less_nat_alt unat_of_nat)
  qed
  have nz: "entry_node ?r j \<noteq> 0" using sys_entry_pointer [OF Cons.prems(1) jt(1)] .
  have ev: "entry_of (entry_node ?r j) (t\<lparr>ts_nodes := h\<rparr>) = re_events SYS_ENTRY_SIZE ?r ! j"
    using Cons.prems(3) by (simp add: entry_of_def re_events_def)
  define u where "u = t\<lparr>ts_nodes := h, ts_unmapped := ts_unmapped t @
    [(munmap_addr (re_events SYS_ENTRY_SIZE ?r ! j), munmap_length (re_events SYS_ENTRY_SIZE ?r ! j))]\<rparr>"
  have "munmap_loop head t = munmap_loop head u"
    using h nz ev by (subst munmap_loop.simps) (simp add: u_def)
  moreover have "\<exists>h. munmap_loop head u = Some (u\<lparr>ts_nodes := h, ts_unmapped := ts_unmapped u @
      map (\<lambda>j. let e = re_events SYS_ENTRY_SIZE (ts_syscalls u) ! j in (munmap_addr e, munmap_length e)) js\<rparr>)"
    by (rule Cons.IH) (use Cons.prems h in \<open>auto simp: u_def\<close>)
  ultimately show ?case by (auto simp: u_def Let_def)
qed

lemma chain_munmaps:
  assumes "list_all2 (\<lambda>x e. sc_syscall e = op_sc x \<and> read_op x e = x \<and> e \<in> range (fill_op x)) xs (re_events SYS_ENTRY_SIZE r)"
  shows "map (\<lambda>j. let e = re_events SYS_ENTRY_SIZE r ! j in (munmap_addr e, munmap_length e)) (chain E_SYS_MUNMAP r) =
    List.map_filter (\<lambda>x. case x of SMunmap a l \<Rightarrow> Some (a, l) | _ \<Rightarrow> None) xs"
proof -
  let ?P = "\<lambda>x e. sc_syscall e = op_sc x \<and> read_op x e = x \<and> e \<in> range (fill_op x)"
  have one: "(if sc_syscall e = E_SYS_MUNMAP then Some (munmap_addr e, munmap_length e) else None) =
      (case x of SMunmap a l \<Rightarrow> Some (a, l) | _ \<Rightarrow> None)" if "?P x e" for x e
    using that by (cases x) auto
  have all: "list_all2 ?P xs es \<Longrightarrow> map (\<lambda>e. (munmap_addr e, munmap_length e)) [e \<leftarrow> es. sc_syscall e = E_SYS_MUNMAP] =
      List.map_filter (\<lambda>x. case x of SMunmap a l \<Rightarrow> Some (a, l) | _ \<Rightarrow> None) xs" for es
  proof (induction rule: list_all2_induct)
    case (Cons x xs e es)
    with one [of e x] show ?case by (auto simp: map_filter_simps split: if_splits option.splits sysop.splits)
  qed (simp add: map_filter_simps)
  have "[e \<leftarrow> re_events SYS_ENTRY_SIZE r. sc_syscall e = E_SYS_MUNMAP] = map (\<lambda>j. re_events SYS_ENTRY_SIZE r ! j) (chain E_SYS_MUNMAP r)"
    using filter_map [of "\<lambda>e. sc_syscall e = E_SYS_MUNMAP" "\<lambda>j. re_events SYS_ENTRY_SIZE r ! j" "[0..<unat (re_cur r)]"]
      map_nth [of "re_events SYS_ENTRY_SIZE r"] by (simp add: chain_def comp_def)
  with all [OF assms] show ?thesis by (simp add: Let_def comp_def)
qed

lemma heads_reset:
  assumes "sc \<in> chained"
  shows "is_list (fold (\<lambda>i h. listInit (base + 16 * of_nat i) h) [0..<sys_num E_SYS_MAX] h) (base + 16 * of_nat (sys_num sc)) []"
proof -
  have u: "[0..<sys_num E_SYS_MAX] = [0, 1, 2, 3, 4, 5, 6, 7, 8, 9, 10]" by (simp add: upt_rec)
  show ?thesis using assms unfolding u by (auto simp: chained_def is_list_def listInit_def)
qed

lemma replay_ops_append:
  "replay_ops (xs @ ys) t =
    rbind (replay_ops xs t) (\<lambda>(us, t). rmap (\<lambda>(vs, t). (us @ vs, t)) (replay_ops ys t))"
proof (induction xs arbitrary: t)
  case Nil show ?case by (cases "replay_ops ys t") auto
next
  case (Cons x xs)
  show ?case
  proof (cases "replay_op x t")
    case (Ok p)
    obtain y u where p: "p = (y, u)" by (cases p)
    show ?thesis
    proof (cases "replay_ops xs u")
      case 2: (Ok q)
      obtain us v where "q = (us, v)" by (cases q)
      then show ?thesis using Cons [of u] Ok p 2 by (cases "replay_ops ys v") auto
    qed (use Cons [of u] Ok p in simp)
  qed simp
qed

section \<open>Properties\<close>


text \<open>A thread whose list heads are at address 4096 and whose pool of sixteen entries is at 65536.\<close>

definition demo_entry :: SyscallEntry where
  "demo_entry = \<lparr>sc_syscall = E_SYS_MAX, file_fd = 0, file_ret = 0, mmap_addr = 0, munmap_addr = 0, munmap_length = 0,
     time_time = 0, tod_ret = 0, tod_tvalue = (0, 0), tod_tzone = (0, 0), times_ret = 0, times_buf = (0, 0, 0, 0),
     clone_ret = 0, clone_tid = 0, dir_dir = 0\<rparr>"

definition demo_systhread :: systhread where
  "demo_systhread = \<lparr>ts_syscalls = \<lparr>re_store = (\<lambda>_. demo_entry), re_start = 65536, re_total = 16, re_cur = 0,
     re_size = 4096, re_iter = 0\<rparr>, ts_syslist = 4096,
     ts_nodes = fold (\<lambda>i h. listInit (4096 + 16 * of_nat i) h) [0..<sys_num E_SYS_MAX] blank_store, ts_unmapped = []\<rparr>"

lemma demo_systhread_fresh: "fresh_epoch demo_systhread"
proof -
  have "getTargetList sc demo_systhread \<noteq> entry_node (ts_syscalls demo_systhread) i" if "sc \<in> chained" "i < 16" for sc i
  proof -
    have "i \<in> {0, 1, 2, 3, 4, 5, 6, 7, 8, 9, 10, 11, 12, 13, 14, 15}"
      using that(2) by (simp only: insert_iff empty_iff simp_thms) presburger
    with that(1) show ?thesis by (auto simp: getTargetList_def demo_systhread_def re_getEntry_def chained_def)
  qed
  then have "sys_sep demo_systhread" by (simp add: sys_sep_def demo_systhread_def)
  moreover have "is_list (ts_nodes demo_systhread) (getTargetList sc demo_systhread) []" if "sc \<in> chained" for sc
    using heads_reset [OF that, of 4096 blank_store] by (simp add: demo_systhread_def getTargetList_def)
  ultimately show ?thesis
    by (simp add: fresh_epoch_def sys_inv_def re_ok_def re_events_def chain_def demo_systhread_def)
qed

lemma demo_systhread_room: "unat (re_total (ts_syscalls demo_systhread)) = 16"
  by (simp add: demo_systhread_def)


text \<open>
  C25. A replay that leaves the recorded run is stopped by an assertion: after a common prefix, a
  call of another kind than the recorded one, or any call beyond the end of the record, fails.
\<close>

theorem sysrecord_divergence_detected:
  assumes "fresh_epoch t" and "list_all complete_op (xs @ ys)"
    and "length (xs @ ys) \<le> unat (re_total (ts_syscalls t))" and "ys = [] \<or> op_sc (hd ys) \<noteq> op_sc z"
  shows "\<exists>t1. record_ops (xs @ ys) t = Ok t1 \<and>
    replay_ops (xs @ z # zs) (sysrecord_prepareRollback t1) = Err Assertion"
proof -
  let ?P = "\<lambda>x e. sc_syscall e = op_sc x \<and> read_op x e = x \<and> e \<in> range (fill_op x)"
  obtain t1 es where t1: "record_ops (xs @ ys) t = Ok t1" "sys_inv t1" "re_events SYS_ENTRY_SIZE (ts_syscalls t1) = es"
      "list_all2 ?P (xs @ ys) es"
    using recorded_replayed [OF assms(1-3)] by blast
  then obtain as bs where es: "es = as @ bs" "list_all2 ?P xs as" "list_all2 ?P ys bs"
    by (auto simp: list_all2_append1)
  have m: "list_all2 (\<lambda>x e. sc_syscall e = op_sc x \<and> read_op x e = x) xs as"
    using es(2) by (rule list_all2_mono) simp
  let ?u = "sysrecord_prepareRollback t1"
  obtain r where r: "replay_ops xs ?u = Ok (xs, ?u\<lparr>ts_syscalls := r\<rparr>)" "re_ok SYS_ENTRY_SIZE r"
      "re_events SYS_ENTRY_SIZE r = as @ bs" "unat (re_iter r) = length as"
    using replay_ops_spec [of ?u xs as bs] rewound [OF t1(2)] m t1(3) es(1) list_all2_lengthD [OF es(2)] by auto
  have "case re_next SYS_ENTRY_SIZE r of (None, _) \<Rightarrow> True | (Some e, _) \<Rightarrow> sc_syscall e \<noteq> op_sc z"
  proof (cases ys)
    case Nil
    then have "bs = []" using es(3) by simp
    then have "length (re_events SYS_ENTRY_SIZE r) \<le> unat (re_iter r)" using r(3,4) by simp
    from pool.next_none [OF r(2) this] show ?thesis by simp
  next
    case (Cons y ys')
    then obtain b bs' where b: "bs = b # bs'" "sc_syscall b = op_sc y" using es(3) by (auto simp: list_all2_Cons1)
    then have "unat (re_iter r) < length (re_events SYS_ENTRY_SIZE r)" unfolding r(3,4) by simp
    from pool.next_some [OF r(2) this] show ?thesis using r(3,4) b assms(4) Cons by (auto simp: nth_append)
  qed
  then have "replay_op z (?u\<lparr>ts_syscalls := r\<rparr>) = Err Assertion"
    using retrieveEntry_fails [of "?u\<lparr>ts_syscalls := r\<rparr>"] r(2) by (intro replay_op_fails) auto
  then show ?thesis using t1(1) r(1) by (auto simp: replay_ops_append)
qed

theorem sysrecord_divergence_detected_witness:
  "\<exists>t1. record_ops [SOpen 3, STime 77] demo_systhread = Ok t1 \<and>
    replay_ops [SOpen 3, SMmap 0] (sysrecord_prepareRollback t1) = Err Assertion"
  using sysrecord_divergence_detected [OF demo_systhread_fresh, of "[SOpen 3]" "[STime 77]" "SMmap 0" "[]"]
  by (simp add: demo_systhread_room del: record_ops.simps replay_ops.simps)

text \<open>
  C26. The next epoch starts by unmapping, in the order of the calls, exactly the regions whose
  \<open>munmap\<close> was deferred since the last one, and then has an empty record and empty lists.
\<close>

theorem sysrecord_epoch_unmaps:
  assumes "fresh_epoch t" and "list_all complete_op xs" and "length xs \<le> unat (re_total (ts_syscalls t))"
  shows "\<exists>t1 t2. record_ops xs t = Ok t1 \<and> sysrecord_epochBegin t1 = Some t2 \<and> fresh_epoch t2 \<and>
    ts_unmapped t2 = ts_unmapped t @ List.map_filter (\<lambda>x. case x of SMunmap a l \<Rightarrow> Some (a, l) | _ \<Rightarrow> None) xs"
proof -
  obtain t1 where t1: "record_ops xs t = Ok t1" "sys_inv t1" "ts_unmapped t1 = ts_unmapped t"
      "list_all2 (\<lambda>x e. sc_syscall e = op_sc x \<and> read_op x e = x \<and> e \<in> range (fill_op x)) xs (re_events SYS_ENTRY_SIZE (ts_syscalls t1))"
    using recorded_replayed [OF assms] by blast
  let ?r = "ts_syscalls t1" and ?head = "getTargetList E_SYS_MUNMAP t1"
  have ok: "re_ok SYS_ENTRY_SIZE ?r" and sep: "sys_sep t1"
    and l: "is_list (ts_nodes t1) ?head (map (entry_node ?r) (chain E_SYS_MUNMAP ?r))"
    using t1(2) by (auto simp: sys_inv_def chained_def)
  have "\<forall>j\<in>set (chain E_SYS_MUNMAP ?r). j < unat (re_cur ?r)" using chain_bound by blast
  from munmap_loop_spec [OF ok l this] chain_munmaps [OF t1(4)] obtain h where
    loop: "munmap_loop ?head t1 = Some (t1\<lparr>ts_nodes := h, ts_unmapped := ts_unmapped t1 @
      List.map_filter (\<lambda>x. case x of SMunmap a l \<Rightarrow> Some (a, l) | _ \<Rightarrow> None) xs\<rparr>)" by auto
  define t2 where "t2 = t1\<lparr>ts_unmapped := ts_unmapped t1 @
      List.map_filter (\<lambda>x. case x of SMunmap a l \<Rightarrow> Some (a, l) | _ \<Rightarrow> None) xs, ts_syscalls := re_cleanup ?r,
    ts_nodes := fold (\<lambda>i h. listInit (ts_syslist t1 + 16 * of_nat i) h) [0..<sys_num E_SYS_MAX] h\<rparr>"
  have "sysrecord_epochBegin t1 = Some t2"
    by (simp add: sysrecord_epochBegin_def loop t2_def del: sys_num.simps)
  moreover have "fresh_epoch t2"
  proof -
    have c: "re_cur (re_cleanup ?r) = 0" by (simp add: re_cleanup_def)
    have "is_list (ts_nodes t2) (getTargetList sc t2) []" if "sc \<in> chained" for sc
      using heads_reset [OF that, of "ts_syslist t1" h] by (simp add: t2_def getTargetList_def del: sys_num.simps)
    moreover have "sys_sep t2"
      using sep by (simp add: sys_sep_def t2_def getTargetList_def re_getEntry_def re_cleanup_def)
    moreover have "chain sc (ts_syscalls t2) = []" for sc by (simp add: chain_def t2_def c)
    moreover have "ts_syscalls t2 = re_cleanup ?r" by (simp add: t2_def)
    ultimately show ?thesis using pool.clear_ok [OF ok] by (simp add: fresh_epoch_def sys_inv_def)
  qed
  moreover have "ts_unmapped t2 = ts_unmapped t @ List.map_filter (\<lambda>x. case x of SMunmap a l \<Rightarrow> Some (a, l) | _ \<Rightarrow> None) xs"
    by (simp add: t2_def t1(3))
  ultimately show ?thesis using t1(1) by blast
qed

theorem sysrecord_epoch_unmaps_witness:
  "\<exists>t1 t2. record_ops [SMunmap 4096 8192, STime 5, SMunmap 0 64] demo_systhread = Ok t1 \<and>
    sysrecord_epochBegin t1 = Some t2 \<and> fresh_epoch t2 \<and> ts_unmapped t2 = [(4096, 8192), (0, 64)]"
  using sysrecord_epoch_unmaps [OF demo_systhread_fresh, of "[SMunmap 4096 8192, STime 5, SMunmap 0 64]"]
  by (simp add: demo_systhread_room map_filter_simps del: record_ops.simps) (simp add: demo_systhread_def)

end
