(* ===== verification/Sync_Events.thy ===== *)
theory Sync_Events
  imports Sys_Record Quarantine
begin

text \<open>
  The record of synchronisations and what a replay does with it: one list of events per
  synchronisation variable (\<open>include/synceventlist.hh\<close>), the registry of the variables and the
  hand-over of turns between threads (\<open>include/xsync.hh\<close>), and the semaphore a thread waits on
  (\<open>include/semaphore.hh\<close>). An event is in two sequences at once: in the pool of the thread that
  performed it and on the list of the variable.

  Objects are reached by pointers, so every kind of object has a store of its own, indexed by
  address; all list nodes are in one store. The list of a \<open>SyncEventList\<close>, a \<open>syncEvent\<close> and a
  \<open>pendingSyncEvent\<close> is the first member, so the address of the node is the address of the object.
  The thread that executes an operation, \<open>current\<close>, is an argument. \<open>lock_thread\<close> and the other
  internal locks have no state: an operation that takes one lock is one atomic step. The heap of
  the runtime is the pair of arguments \<open>im\<close> and \<open>fr\<close>, its \<open>malloc\<close> and \<open>free\<close>.
\<close>

section \<open>Data\<close>

datatype thrSyncCmd =
  E_SYNC_SPAWN | E_SYNC_BARRIER | E_SYNC_MUTEX_LOCK | E_SYNC_MUTEX_TRY_LOCK | E_SYNC_RWLOCK_RDLOCK
  | E_SYNC_RWLOCK_TIMEDRDLOCK | E_SYNC_RWLOCK_TRYRDLOCK | E_SYNC_RWLOCK_WRLOCK | E_SYNC_RWLOCK_TIMEDWRLOCK
  | E_SYNC_RWLOCK_TRYWRLOCK | E_SYNC_COND | E_SYNC_THREAD

datatype thrStatus =
  E_THREAD_STARTING | E_THREAD_RUNNING | E_THREAD_JOINING | E_THREAD_EXITING | E_THREAD_COND_WAITING
  | E_THREAD_ROLLBACK | E_THREAD_WAITFOR_JOINING | E_THREAD_WAITFOR_REAPING

datatype syncVariableType = E_SYNCVAR_THREAD | E_SYNCVAR_COND | E_SYNCVAR_MUTEX | E_SYNCVAR_BARRIER

record syncEvent =
  ev_thread :: u64
  ev_list :: u64
  ev_ret :: int

abbreviation SYNC_EVENT_SIZE :: u64 where "SYNC_EVENT_SIZE \<equiv> 40"

record SyncEventList =
  sl_syncVariable :: u64
  sl_syncCmd :: thrSyncCmd
  sl_curentry :: u64

text \<open>
  The members of \<open>thread_t\<close>, apart from machine state. \<open>t_sys\<close> holds \<open>syscalls\<close> and \<open>syslist\<close>. The contents of the event pool are in the
  store of events below, because other threads reach them by pointers.
\<close>

record thread_t =
  t_available :: bool
  t_internalheap :: bool
  t_disablecheck :: bool
  t_isNewlySpawned :: bool
  t_hasJoined :: bool
  t_isSafe :: bool
  t_index :: int
  t_self :: u64
  t_status :: thrStatus
  t_condwait :: u64
  t_isDetached :: bool
  t_parent :: u64
  t_joiner :: u64
  t_sys :: systhread
  t_syncevents :: "unit entries"
  t_qlist :: quarantine
  t_pendingSyncevents :: u64
  t_sema :: int
  t_startRoutine :: u64
  t_startArg :: u64
  t_result :: u64

record SyncEntry =
  se_type :: syncVariableType
  se_nominal :: u64
  se_real :: u64
  se_syncevents :: u64

record 'h rt =
  r_nodes :: lstore
  r_event :: "u64 \<Rightarrow> syncEvent"
  r_evlist :: "u64 \<Rightarrow> SyncEventList"
  r_thread :: "u64 \<Rightarrow> thread_t"
  r_pe :: "u64 \<Rightarrow> u64"
  r_entry :: "u64 \<Rightarrow> SyncEntry"
  r_newList :: u64
  r_activeList :: u64
  r_delList :: u64
  r_heap :: 'h

definition set_thread :: "u64 \<Rightarrow> (thread_t \<Rightarrow> thread_t) \<Rightarrow> 'h rt \<Rightarrow> 'h rt" where
  "set_thread t f s = s\<lparr>r_thread := (r_thread s)(t := f (r_thread s t))\<rparr>"

definition set_evlist :: "u64 \<Rightarrow> (SyncEventList \<Rightarrow> SyncEventList) \<Rightarrow> 'h rt \<Rightarrow> 'h rt" where
  "set_evlist p f s = s\<lparr>r_evlist := (r_evlist s)(p := f (r_evlist s p))\<rparr>"

definition set_event :: "u64 \<Rightarrow> (syncEvent \<Rightarrow> syncEvent) \<Rightarrow> 'h rt \<Rightarrow> 'h rt" where
  "set_event p f s = s\<lparr>r_event := (r_event s)(p := f (r_event s p))\<rparr>"

definition set_nodes :: "(lstore \<Rightarrow> lstore) \<Rightarrow> 'h rt \<Rightarrow> 'h rt" where
  "set_nodes f s = s\<lparr>r_nodes := f (r_nodes s)\<rparr>"

section \<open>The semaphore of a thread\<close>

text \<open>
  \<open>semop\<close> adds to the value of a semaphore; an addition that would make it negative blocks
  (\<open>None\<close>).
\<close>

definition sema_set :: "int \<Rightarrow> int \<Rightarrow> int option" where
  "sema_set val v = (if v + val < 0 then None else Some (v + val))"

definition sema_wait :: "int \<Rightarrow> int \<Rightarrow> int option" where
  "sema_wait val v = sema_set (0 - val) v"

definition sema_get :: "int \<Rightarrow> int option" where
  "sema_get v = sema_set (- 1) v"

definition sema_put :: "int \<Rightarrow> int option" where
  "sema_put v = sema_set 1 v"

definition createSemaKey :: "u64 \<Rightarrow> u32" where
  "createSemaKey key =
     (let key1 = ucast key; key2 = ucast (drop_bit 16 key AND 0xFFFFFFFF) in key1 + key2)"

text \<open>The keys that are in use are known to the kernel: \<open>semget\<close> without \<open>IPC_CREAT\<close> finds them.\<close>

partial_function (option) sema_free_key :: "(u32 \<Rightarrow> bool) \<Rightarrow> u32 \<Rightarrow> u32 option" where
  "sema_free_key used k = (if \<not> used k then Some k else sema_free_key used (k + 1))"

definition initThreadSemaphore :: "u64 \<Rightarrow> 'h rt \<Rightarrow> 'h rt" where
  "initThreadSemaphore t s = set_thread t (\<lambda>x. x\<lparr>t_sema := 0\<rparr>) s"

definition waitSemaphore :: "u64 \<Rightarrow> 'h rt \<Rightarrow> 'h rt option" where
  "waitSemaphore cur s =
     map_option (\<lambda>v. set_thread cur (\<lambda>x. x\<lparr>t_sema := v\<rparr>) s) (sema_get (t_sema (r_thread s cur)))"

definition signalThread :: "u64 \<Rightarrow> 'h rt \<Rightarrow> 'h rt option" where
  "signalThread t s =
     map_option (\<lambda>v. set_thread t (\<lambda>x. x\<lparr>t_sema := v\<rparr>) s) (sema_put (t_sema (r_thread s t)))"

section \<open>The events of one synchronisation variable\<close>

definition SyncEventList_new :: "u64 \<Rightarrow> u64 \<Rightarrow> thrSyncCmd \<Rightarrow> 'h rt \<Rightarrow> 'h rt" where
  "SyncEventList_new p variable synccmd s =
     set_evlist p (\<lambda>_. \<lparr>sl_syncVariable = variable, sl_syncCmd = synccmd, sl_curentry = 0\<rparr>)
       (set_nodes (listInit p) s)"

definition sel_initialization :: "u64 \<Rightarrow> thrSyncCmd \<Rightarrow> 'h rt \<Rightarrow> 'h rt" where
  "sel_initialization p synccmd s =
     set_evlist p (\<lambda>_. \<lparr>sl_syncVariable = 0, sl_syncCmd = synccmd, sl_curentry = 0\<rparr>)
       (set_nodes (listInit p) s)"

definition getSyncVariable :: "u64 \<Rightarrow> 'h rt \<Rightarrow> u64" where
  "getSyncVariable p s = sl_syncVariable (r_evlist s p)"

definition getSyncCmd :: "u64 \<Rightarrow> 'h rt \<Rightarrow> thrSyncCmd" where
  "getSyncCmd p s = sl_syncCmd (r_evlist s p)"

definition allocSyncEvent :: "u64 \<Rightarrow> 'h rt \<Rightarrow> (u64 \<times> 'h rt) res" where
  "allocSyncEvent cur s =
     rmap (\<lambda>(event, r). (event, set_thread cur (\<lambda>x. x\<lparr>t_syncevents := r\<rparr>) s))
       (re_alloc SYNC_EVENT_SIZE (t_syncevents (r_thread s cur)))"

text \<open>Both branches insert the event; one of them takes the lock of the list first.\<close>

definition recordSyncEvent :: "u64 \<Rightarrow> u64 \<Rightarrow> thrSyncCmd \<Rightarrow> int \<Rightarrow> 'h rt \<Rightarrow> 'h rt res" where
  "recordSyncEvent p cur synccmd ret s =
     rmap (\<lambda>(event, s).
       let s = set_nodes (listInit event) s;
           s = set_event event (\<lambda>e. e\<lparr>ev_thread := cur, ev_list := p, ev_ret := ret\<rparr>) s
       in if synccmd \<noteq> E_SYNC_MUTEX_LOCK then set_nodes (listInsertTail event p) s
          else set_nodes (listInsertTail event p) s) (allocSyncEvent cur s)"

text \<open>A null \<open>curentry\<close> is dereferenced.\<close>

definition advanceSyncEvent :: "u64 \<Rightarrow> 'h rt \<Rightarrow> (u64 \<times> 'h rt) res" where
  "advanceSyncEvent p s =
     (let curentry = sl_curentry (r_evlist s p) in
      if curentry = 0 then Err Undefined
      else let c = (if \<not> isListTail curentry p (r_nodes s) then nextEntry curentry (r_nodes s) else 0)
           in Ok (c, set_evlist p (\<lambda>l. l\<lparr>sl_curentry := c\<rparr>) s))"

definition sel_cleanup :: "u64 \<Rightarrow> 'h rt \<Rightarrow> 'h rt" where
  "sel_cleanup p s = set_nodes (listInit p) s"

definition sel_prepareRollback :: "u64 \<Rightarrow> 'h rt \<Rightarrow> u64 \<times> 'h rt" where
  "sel_prepareRollback p s =
     (if \<not> isListEmpty p (r_nodes s) then
        let c = nextEntry p (r_nodes s) in (c, set_evlist p (\<lambda>l. l\<lparr>sl_curentry := c\<rparr>) s)
      else (0, s))"

section \<open>Handing over a turn\<close>

definition addPendingSyncEvent :: "'h im_fun \<Rightarrow> u64 \<Rightarrow> u64 \<Rightarrow> 'h rt \<Rightarrow> 'h rt res" where
  "addPendingSyncEvent im event t s =
     rmap (\<lambda>(pe, h).
       let s = set_nodes (listInit pe) (s\<lparr>r_heap := h\<rparr>);
           s = s\<lparr>r_pe := (r_pe s)(pe := event)\<rparr>
       in set_nodes (listInsertTail pe (t_pendingSyncevents (r_thread s t))) s) (im 24 (r_heap s))"

definition isThreadNextEvent :: "u64 \<Rightarrow> u64 \<Rightarrow> 'h rt \<Rightarrow> bool" where
  "isThreadNextEvent event t s \<longleftrightarrow> event = firstIterEntry SYNC_EVENT_SIZE (t_syncevents (r_thread s t))"

definition signalNextThread :: "'h im_fun \<Rightarrow> u64 \<Rightarrow> 'h rt \<Rightarrow> 'h rt res option" where
  "signalNextThread im event s =
     (let t = ev_thread (r_event s event) in
      if isThreadNextEvent event t s then map_option Ok (signalThread t s)
      else Some (addPendingSyncEvent im event t s))"

definition advanceThreadSyncList :: "u64 \<Rightarrow> 'h rt \<Rightarrow> 'h rt" where
  "advanceThreadSyncList cur s = set_thread cur (\<lambda>x. x\<lparr>t_syncevents := advanceEntry (t_syncevents x)\<rparr>) s"

partial_function (option) pending_search :: "'h fr_fun \<Rightarrow> u64 \<Rightarrow> u64 \<Rightarrow> u64 \<Rightarrow> u64 \<Rightarrow> 'h rt \<Rightarrow> 'h rt res option" where
  "pending_search fr eventlist event t pe s =
     (if r_pe s pe = event then
        let s = set_nodes (listRemoveNode pe) s in
        case fr pe (r_heap s) of
          Err e \<Rightarrow> Some (Err e)
        | Ok h \<Rightarrow> map_option Ok (signalThread t (s\<lparr>r_heap := h\<rparr>))
      else if isListTail pe eventlist (r_nodes s) then Some (Ok s)
      else pending_search fr eventlist event t (nextEntry pe (r_nodes s)) s)"

definition signalCurrentThread :: "'h fr_fun \<Rightarrow> u64 \<Rightarrow> 'h rt \<Rightarrow> 'h rt res option" where
  "signalCurrentThread fr event s =
     (let t = ev_thread (r_event s event); eventlist = t_pendingSyncevents (r_thread s t) in
      if \<not> isListEmpty eventlist (r_nodes s) then
        pending_search fr eventlist event t (nextEntry eventlist (r_nodes s)) s
      else Some (Ok s))"

text \<open>
  A thread whose next event is missing or belongs to another variable spins for ever (or, when it is
  missing and the log level asks for the message, crashes while it prints it).
\<close>

definition peekSyncEvent :: "'h fr_fun \<Rightarrow> u64 \<Rightarrow> u64 \<Rightarrow> 'h rt \<Rightarrow> (int \<times> 'h rt) res option" where
  "peekSyncEvent fr tlist cur s =
     (let event = re_peek SYNC_EVENT_SIZE (t_syncevents (r_thread s cur)); e = r_event s event in
      if event = 0 \<or> ev_thread e \<noteq> cur \<or> ev_list e \<noteq> tlist then None
      else obind (signalCurrentThread fr event s) (\<lambda>s. Some (Ok (ev_ret (r_event s event), s))))"

definition prepareEventListRollback :: "'h im_fun \<Rightarrow> u64 \<Rightarrow> 'h rt \<Rightarrow> 'h rt res option" where
  "prepareEventListRollback im eventlist s =
     (let (event, s) = sel_prepareRollback eventlist s in
      if event \<noteq> 0 then signalNextThread im event s else Some (Ok s))"

section \<open>The registry of synchronisation variables\<close>

text \<open>
  The three list nodes of a \<open>SyncEntry\<close> are its first members: \<open>listactive\<close> at offset 0, \<open>listnew\<close>
  at 16 and \<open>listdel\<close> at 32.
\<close>

definition new_insertTail :: "u64 \<Rightarrow> 'h rt \<Rightarrow> 'h rt" where
  "new_insertTail entry s = set_nodes (listInsertTail (entry + 16) (r_newList s)) s"

definition new_getSyncEntry :: "u64 \<Rightarrow> u64" where
  "new_getSyncEntry listentry = listentry - 16"

definition new_cleanup :: "'h rt \<Rightarrow> 'h rt" where
  "new_cleanup s = set_nodes (listInit (r_newList s)) s"

partial_function (option) retrieve_loop ::
    "syncVariableType \<Rightarrow> u64 \<Rightarrow> u64 \<Rightarrow> u64 \<Rightarrow> 'h rt \<Rightarrow> (u64 \<times> 'h rt) option" where
  "retrieve_loop type nominal lst next s =
     (let entry = new_getSyncEntry next in
      if se_type (r_entry s entry) = type \<and> se_nominal (r_entry s entry) = nominal then
        Some (entry, new_insertTail entry (set_nodes (listRemoveNode (entry + 16)) s))
      else if next = lst then Some (0, s)
      else retrieve_loop type nominal lst (nextEntry next (r_nodes s)) s)"

definition retrieveSyncEntry :: "syncVariableType \<Rightarrow> u64 \<Rightarrow> 'h rt \<Rightarrow> (u64 \<times> 'h rt) res option" where
  "retrieveSyncEntry type nominal s =
     (let last = prevEntry (r_newList s) (r_nodes s) in
      if isListEmpty (r_newList s) (r_nodes s) then Some (Err Assertion)
      else map_option (\<lambda>(target, s). if target = 0 then Err Assertion else Ok (target, s))
        (retrieve_loop type nominal last (nextEntry (r_newList s) (r_nodes s)) s))"

definition xsync_initialize :: "'h rt \<Rightarrow> 'h rt" where
  "xsync_initialize s =
     set_nodes (listInit (r_newList s)) (set_nodes (listInit (r_delList s)) (set_nodes (listInit (r_activeList s)) s))"

definition recordSyncVar :: "'h im_fun \<Rightarrow> syncVariableType \<Rightarrow> u64 \<Rightarrow> u64 \<Rightarrow> u64 \<Rightarrow> 'h rt \<Rightarrow> (u64 \<times> 'h rt) res" where
  "recordSyncVar im type nominal real lst s =
     rmap (\<lambda>(entry, h).
       let s = s\<lparr>r_heap := h, r_entry := (r_entry s)(entry :=
             \<lparr>se_type = type, se_nominal = nominal, se_real = real, se_syncevents = lst\<rparr>)\<rparr>;
           s = set_nodes (listInsertTail entry (r_activeList s)) s
       in (entry, new_insertTail entry s)) (im 80 (r_heap s))"

definition freeSyncEntry :: "'h fr_fun \<Rightarrow> u64 \<Rightarrow> 'h rt \<Rightarrow> 'h rt res" where
  "freeSyncEntry fr entry s = rmap (\<lambda>h. s\<lparr>r_heap := h\<rparr>) (fr entry (r_heap s))"

definition xsync_deferSync :: "u64 \<Rightarrow> 'h rt \<Rightarrow> 'h rt" where
  "xsync_deferSync entry s = set_nodes (listInsertTail (entry + 32) (r_delList s)) s"

definition getSyncEntryDellist :: "u64 \<Rightarrow> u64" where
  "getSyncEntryDellist listentry = listentry - 16 - 16"

definition removeFromDellist :: "u64 \<Rightarrow> 'h rt \<Rightarrow> 'h rt" where
  "removeFromDellist entry s = set_nodes (listRemoveNode (entry + 32)) s"

definition removeFromAlllist :: "u64 \<Rightarrow> 'h rt \<Rightarrow> 'h rt" where
  "removeFromAlllist entry s = set_nodes (listRemoveNode entry) s"

definition retrieveRealSyncEntry :: "syncVariableType \<Rightarrow> u64 \<Rightarrow> 'h rt \<Rightarrow> (u64 \<times> 'h rt) res option" where
  "retrieveRealSyncEntry type nominal s =
     obind (retrieveSyncEntry type nominal s) (\<lambda>(entry, s). Some (Ok (se_real (r_entry s entry), s)))"

partial_function (option) del_loop :: "'h fr_fun \<Rightarrow> u64 \<Rightarrow> u64 \<Rightarrow> 'h rt \<Rightarrow> 'h rt res option" where
  "del_loop fr lst now s =
     (let next = nextEntry now (r_nodes s); entry = getSyncEntryDellist now in
      case freeSyncEntry fr entry (removeFromAlllist entry (removeFromDellist entry s)) of
        Err e \<Rightarrow> Some (Err e)
      | Ok s \<Rightarrow> if now = lst then Some (Ok s) else del_loop fr lst next s)"

partial_function (option) active_loop :: "u64 \<Rightarrow> u64 \<Rightarrow> 'h rt \<Rightarrow> 'h rt option" where
  "active_loop lst now s =
     (let next = nextEntry now (r_nodes s);
          s = sel_cleanup (se_syncevents (r_entry s now)) s in
      if now = lst then Some s else active_loop lst next s)"

definition xsync_epochBegin :: "'h fr_fun \<Rightarrow> 'h rt \<Rightarrow> 'h rt res option" where
  "xsync_epochBegin fr s =
     obind (if \<not> isListEmpty (r_delList s) (r_nodes s) then
              del_loop fr (prevEntry (r_delList s) (r_nodes s)) (nextEntry (r_delList s) (r_nodes s)) s
            else Some (Ok s)) (\<lambda>s.
       let s = new_cleanup s in
       if \<not> isListEmpty (r_activeList s) (r_nodes s) then
         map_option Ok (active_loop (prevEntry (r_activeList s) (r_nodes s)) (nextEntry (r_activeList s) (r_nodes s)) s)
       else Some (Ok s))"

partial_function (option) rollback_loop :: "'h im_fun \<Rightarrow> u64 \<Rightarrow> u64 \<Rightarrow> 'h rt \<Rightarrow> 'h rt res option" where
  "rollback_loop im lst next s =
     (case prepareEventListRollback im (se_syncevents (r_entry s next)) s of
        None \<Rightarrow> None
      | Some (Err e) \<Rightarrow> Some (Err e)
      | Some (Ok s) \<Rightarrow> if next = lst then Some (Ok s) else rollback_loop im lst (nextEntry next (r_nodes s)) s)"

definition xsync_prepareRollback :: "'h im_fun \<Rightarrow> 'h rt \<Rightarrow> 'h rt res option" where
  "xsync_prepareRollback im s =
     (let last = prevEntry (r_activeList s) (r_nodes s) in
      if isListEmpty (r_activeList s) (r_nodes s) then Some (Ok s)
      else rollback_loop im last (nextEntry (r_activeList s) (r_nodes s)) s)"

section \<open>What the epochs do to a thread\<close>

text \<open>
  At the beginning of an epoch a thread has no pending events and empty records. The deferred calls of
  \<open>munmap\<close> are performed here; \<open>None\<close> if their loop does not end.
\<close>

definition xthread_epochBegin :: "u64 \<Rightarrow> 'h rt \<Rightarrow> 'h rt option" where
  "xthread_epochBegin t s =
     (let s = set_nodes (listInit (t_pendingSyncevents (r_thread s t))) s;
          s = set_thread t (\<lambda>x. x\<lparr>t_qlist := q_restore (t_qlist x)\<rparr>) s;
          s = set_thread t (\<lambda>x. x\<lparr>t_syncevents := re_cleanup (t_syncevents x)\<rparr>) s
      in map_option (\<lambda>y. set_thread t (\<lambda>x. x\<lparr>t_sys := y\<rparr>) s) (sysrecord_epochBegin (t_sys (r_thread s t))))"

text \<open>
  Before a rollback the semaphores of all living threads are set up and their records rewound. The
  pool of the system calls is rewound twice.
\<close>

definition prepareRollbackThread :: "u64 \<Rightarrow> 'h rt \<Rightarrow> 'h rt" where
  "prepareRollbackThread t s =
     (let s = initThreadSemaphore t s;
          s = set_thread t (\<lambda>x. x\<lparr>t_sys := (t_sys x)\<lparr>ts_syscalls := re_prepareRollback (ts_syscalls (t_sys x))\<rparr>\<rparr>) s;
          s = set_thread t (\<lambda>x. x\<lparr>t_syncevents := re_prepareRollback (t_syncevents x)\<rparr>) s
      in set_thread t (\<lambda>x. x\<lparr>t_sys := sysrecord_prepareRollback (t_sys x)\<rparr>) s)"

definition prepareRollbackAlivethreads :: "u64 list \<Rightarrow> 'h rt \<Rightarrow> 'h rt" where
  "prepareRollbackAlivethreads ts s = fold prepareRollbackThread ts s"

end
