(* ===== verification/Replay_Protocol.thy ===== *)
theory Replay_Protocol
  imports Main
begin

text \<open>
  The protocol behind the replay of synchronisations, without pointers. A trace is the sequence of
  acquisitions and releases of one epoch, each by one thread on one variable. In the replay
  every thread runs its own part of the trace again; a thread acquires a variable when the token of
  its event reaches its semaphore. The token of an event is given out when the event before it on
  the same variable is released, and waits with the thread when the thread is not there yet.
  The events are named by their positions in the trace.

  The results: in every interleaving the acquisitions of a variable happen in the order of the trace,
  and as long as the replay is not complete some thread can go on.
\<close>

section \<open>Traces\<close>

datatype 'v act = Acq 'v | Rel 'v

type_synonym ('t, 'v) trace = "('t \<times> 'v act) list"

fun is_acq :: "'v act \<Rightarrow> bool" where
  "is_acq (Acq v) \<longleftrightarrow> True" | "is_acq (Rel v) \<longleftrightarrow> False"

text \<open>A variable is acquired only when it is free and released only by the thread that holds it.\<close>

fun can :: "'t \<times> 'v act \<Rightarrow> ('v \<Rightarrow> 't option) \<Rightarrow> bool" where
  "can (t, Acq v) h \<longleftrightarrow> h v = None" | "can (t, Rel v) h \<longleftrightarrow> h v = Some t"

fun upd :: "'t \<times> 'v act \<Rightarrow> ('v \<Rightarrow> 't option) \<Rightarrow> 'v \<Rightarrow> 't option" where
  "upd (t, Acq v) h = h(v := Some t)" | "upd (t, Rel v) h = h(v := None)"

primrec lawful :: "('t, 'v) trace \<Rightarrow> ('v \<Rightarrow> 't option) \<Rightarrow> bool" where
  "lawful [] h \<longleftrightarrow> True"
| "lawful (x # tr) h \<longleftrightarrow> can x h \<and> lawful tr (upd x h)"

definition th :: "('t, 'v) trace \<Rightarrow> nat \<Rightarrow> 't" where "th tr p = fst (tr ! p)"
definition ac :: "('t, 'v) trace \<Rightarrow> nat \<Rightarrow> 'v act" where "ac tr p = snd (tr ! p)"

definition acqs :: "('t, 'v) trace \<Rightarrow> 'v \<Rightarrow> nat list" where
  "acqs tr v = filter (\<lambda>p. ac tr p = Acq v) [0..<length tr]"

definition rels :: "('t, 'v) trace \<Rightarrow> 'v \<Rightarrow> nat list" where
  "rels tr v = filter (\<lambda>p. ac tr p = Rel v) [0..<length tr]"

definition prog :: "('t, 'v) trace \<Rightarrow> 't \<Rightarrow> nat list" where
  "prog tr t = filter (\<lambda>p. th tr p = t) [0..<length tr]"

section \<open>The protocol\<close>

text \<open>
  Where a thread is in its next operation: \<open>Peeked\<close> before it waits on its semaphore, \<open>Got\<close> behind
  that, \<open>Sig p\<close> in a release, about to give out the token of \<open>p\<close>.
\<close>

datatype phase = Ready | Peeked | Got | Sig nat

record ('t, 'v) rst =
  rem :: "'t \<Rightarrow> nat list"
  ph :: "'t \<Rightarrow> phase"
  pnd :: "'t \<Rightarrow> nat list"
  sem :: "'t \<Rightarrow> nat"
  cur :: "'v \<Rightarrow> nat"
  log :: "nat list"

definition nxa :: "('t, 'v) trace \<Rightarrow> nat list \<Rightarrow> nat option" where
  "nxa tr ps = List.find (\<lambda>p. is_acq (ac tr p)) ps"

inductive rstep :: "('t, 'v) trace \<Rightarrow> ('t, 'v) rst \<Rightarrow> ('t, 'v) rst \<Rightarrow> bool" for tr where
  peek_pending: "ph s t = Ready \<Longrightarrow> rem s t = p # ps \<Longrightarrow> ac tr p = Acq v \<Longrightarrow> p \<in> set (pnd s t) \<Longrightarrow>
    rstep tr s (s\<lparr>ph := (ph s)(t := Peeked), pnd := (pnd s)(t := remove1 p (pnd s t)), sem := (sem s)(t := Suc (sem s t))\<rparr>)"
| peek: "ph s t = Ready \<Longrightarrow> rem s t = p # ps \<Longrightarrow> ac tr p = Acq v \<Longrightarrow> p \<notin> set (pnd s t) \<Longrightarrow>
    rstep tr s (s\<lparr>ph := (ph s)(t := Peeked)\<rparr>)"
| wait: "ph s t = Peeked \<Longrightarrow> rem s t = p # ps \<Longrightarrow> sem s t = Suc n \<Longrightarrow>
    rstep tr s (s\<lparr>ph := (ph s)(t := Got), sem := (sem s)(t := n), log := log s @ [p]\<rparr>)"
| adv: "ph s t = Got \<Longrightarrow> rem s t = p # ps \<Longrightarrow>
    rstep tr s (s\<lparr>ph := (ph s)(t := Ready), rem := (rem s)(t := ps)\<rparr>)"
| rel_last: "ph s t = Ready \<Longrightarrow> rem s t = p # ps \<Longrightarrow> ac tr p = Rel v \<Longrightarrow> Suc (cur s v) = length (acqs tr v) \<Longrightarrow>
    rstep tr s (s\<lparr>rem := (rem s)(t := ps), cur := (cur s)(v := Suc (cur s v))\<rparr>)"
| rel: "ph s t = Ready \<Longrightarrow> rem s t = p # ps \<Longrightarrow> ac tr p = Rel v \<Longrightarrow> Suc (cur s v) < length (acqs tr v) \<Longrightarrow>
    rstep tr s (s\<lparr>ph := (ph s)(t := Sig (acqs tr v ! Suc (cur s v))), cur := (cur s)(v := Suc (cur s v))\<rparr>)"
| sig_next: "ph s t = Sig e \<Longrightarrow> rem s t = p # ps \<Longrightarrow> nxa tr (rem s (th tr e)) = Some e \<Longrightarrow>
    rstep tr s (s\<lparr>ph := (ph s)(t := Ready), rem := (rem s)(t := ps), sem := (sem s)(th tr e := Suc (sem s (th tr e)))\<rparr>)"
| sig_later: "ph s t = Sig e \<Longrightarrow> rem s t = p # ps \<Longrightarrow> nxa tr (rem s (th tr e)) \<noteq> Some e \<Longrightarrow>
    rstep tr s (s\<lparr>ph := (ph s)(t := Ready), rem := (rem s)(t := ps), pnd := (pnd s)(th tr e := pnd s (th tr e) @ [e])\<rparr>)"

text \<open>The start: every variable has given the token of its first event to the thread of that event.\<close>

definition first :: "('t, 'v) trace \<Rightarrow> nat \<Rightarrow> bool" where
  "first tr p \<longleftrightarrow> (\<exists>v. acqs tr v \<noteq> [] \<and> p = acqs tr v ! 0)"

definition starts :: "('t, 'v) trace \<Rightarrow> ('t, 'v) rst \<Rightarrow> bool" where
  "starts tr s \<longleftrightarrow> (\<forall>t. rem s t = prog tr t \<and> ph s t = Ready \<and> distinct (pnd s t) \<and>
       set (pnd s t) = {p. first tr p \<and> th tr p = t \<and> nxa tr (prog tr t) \<noteq> Some p} \<and>
       sem s t = (if \<exists>p. first tr p \<and> nxa tr (prog tr t) = Some p then 1 else 0)) \<and>
     (\<forall>v. cur s v = 0) \<and> log s = []"

section \<open>The order of a trace\<close>

lemma lawful_snoc: "lawful (tr @ [x]) h \<longleftrightarrow> lawful tr h \<and> can x (fold upd tr h)"
  by (induction tr arbitrary: h) auto

lemma th_append [simp]: "p < length tr \<Longrightarrow> th (tr @ xs) p = th tr p" "th (tr @ [x]) (length tr) = fst x"
  by (simp_all add: th_def nth_append)

lemma ac_append [simp]: "p < length tr \<Longrightarrow> ac (tr @ xs) p = ac tr p" "ac (tr @ [x]) (length tr) = snd x"
  by (simp_all add: ac_def nth_append)

lemma acqs_snoc: "acqs (tr @ [x]) v = acqs tr v @ (if snd x = Acq v then [length tr] else [])"
  by (auto simp: acqs_def intro!: filter_cong)

lemma rels_snoc: "rels (tr @ [x]) v = rels tr v @ (if snd x = Rel v then [length tr] else [])"
  by (auto simp: rels_def intro!: filter_cong)

lemma prog_snoc: "prog (tr @ [x]) t = prog tr t @ (if fst x = t then [length tr] else [])"
  by (auto simp: prog_def intro!: filter_cong)

lemma acqs_less: "j < length (acqs tr v) \<Longrightarrow> acqs tr v ! j < length tr"
  using nth_mem [of j "acqs tr v"] by (auto simp: acqs_def)

lemma rels_less: "j < length (rels tr v) \<Longrightarrow> rels tr v ! j < length tr"
  using nth_mem [of j "rels tr v"] by (auto simp: rels_def)

lemma acqs_ac: "j < length (acqs tr v) \<Longrightarrow> ac tr (acqs tr v ! j) = Acq v"
  using nth_mem [of j "acqs tr v"] by (auto simp: acqs_def)

lemma rels_ac: "j < length (rels tr v) \<Longrightarrow> ac tr (rels tr v ! j) = Rel v"
  using nth_mem [of j "rels tr v"] by (auto simp: rels_def)

lemma trace_distinct [simp]: "distinct (acqs tr v)" "distinct (rels tr v)" "distinct (prog tr t)" "sorted (prog tr t)"
  by (simp_all add: acqs_def rels_def prog_def sorted_wrt_filter)

lemma in_acqs: "p < length tr \<Longrightarrow> ac tr p = Acq v \<Longrightarrow> \<exists>j<length (acqs tr v). acqs tr v ! j = p"
proof -
  assume "p < length tr" and "ac tr p = Acq v"
  then have "p \<in> set (acqs tr v)" by (simp add: acqs_def)
  then show ?thesis by (simp add: in_set_conv_nth)
qed

lemma in_rels: "p < length tr \<Longrightarrow> ac tr p = Rel v \<Longrightarrow> \<exists>j<length (rels tr v). rels tr v ! j = p"
proof -
  assume "p < length tr" and "ac tr p = Rel v"
  then have "p \<in> set (rels tr v)" by (simp add: rels_def)
  then show ?thesis by (simp add: in_set_conv_nth)
qed

text \<open>The acquisitions and releases of a variable alternate, release by release of the same thread.\<close>

lemma lawful_order:
  assumes "lawful tr (\<lambda>_. None)"
  shows "(\<forall>j<length (rels tr v). j < length (acqs tr v) \<and> th tr (rels tr v ! j) = th tr (acqs tr v ! j) \<and> acqs tr v ! j < rels tr v ! j) \<and>
    (\<forall>j. Suc j < length (acqs tr v) \<longrightarrow> j < length (rels tr v) \<and> rels tr v ! j < acqs tr v ! Suc j) \<and>
    (case fold upd tr (\<lambda>_. None) v of None \<Rightarrow> length (acqs tr v) = length (rels tr v)
      | Some t \<Rightarrow> length (acqs tr v) = Suc (length (rels tr v)) \<and> th tr (last (acqs tr v)) = t)"
  using assms
proof (induction tr rule: rev_induct)
  case Nil
  show ?case by (simp add: acqs_def rels_def)
next
  case (snoc x tr)
  obtain t a where x: "x = (t, a)" by fastforce
  have IH: "(\<forall>j<length (rels tr v). j < length (acqs tr v) \<and> th tr (rels tr v ! j) = th tr (acqs tr v ! j) \<and> acqs tr v ! j < rels tr v ! j)"
    "(\<forall>j. Suc j < length (acqs tr v) \<longrightarrow> j < length (rels tr v) \<and> rels tr v ! j < acqs tr v ! Suc j)"
    "(case fold upd tr (\<lambda>_. None) v of None \<Rightarrow> length (acqs tr v) = length (rels tr v)
      | Some t \<Rightarrow> length (acqs tr v) = Suc (length (rels tr v)) \<and> th tr (last (acqs tr v)) = t)"
    and law: "can x (fold upd tr (\<lambda>_. None))"
    using snoc by (auto simp: lawful_snoc)
  show ?case
  proof (cases a)
    case (Acq w)
    show ?thesis
    proof (cases "w = v")
      case True
      then have "length (acqs tr v) = length (rels tr v)" using IH(3) law Acq by (auto simp: x)
      then show ?thesis using IH(1,2) Acq True acqs_less [of _ tr v] rels_less [of _ tr v]
        by (auto simp: x acqs_snoc rels_snoc nth_append less_Suc_eq)
    next
      case False
      have "th (tr @ [x]) (last (acqs tr v)) = th tr (last (acqs tr v))" if h: "length (acqs tr v) = Suc n" for n
        using acqs_less [of n tr v] h by (cases "acqs tr v" rule: rev_cases) auto
      then show ?thesis using False IH Acq acqs_less [of _ tr v] rels_less [of _ tr v]
        by (auto simp: x acqs_snoc rels_snoc split: option.splits)
    qed
  next
    case (Rel w)
    show ?thesis
    proof (cases "w = v")
      case True
      then have l: "length (acqs tr v) = Suc (length (rels tr v))" "th tr (last (acqs tr v)) = t"
        using IH(3) law Rel by (auto simp: x)
      moreover have "last (acqs tr v) = acqs tr v ! length (rels tr v)" using l(1) by (cases "acqs tr v" rule: rev_cases) (auto simp: nth_append)
      ultimately show ?thesis
        using IH(1,2) Rel True acqs_less [of _ tr v] rels_less [of _ tr v]
        by (auto simp: x acqs_snoc rels_snoc nth_append less_Suc_eq split: option.splits)
    next
      case False
      have "th (tr @ [x]) (last (acqs tr v)) = th tr (last (acqs tr v))" if h: "length (acqs tr v) = Suc n" for n
        using acqs_less [of n tr v] h by (cases "acqs tr v" rule: rev_cases) auto
      then show ?thesis using False IH Rel acqs_less [of _ tr v] rels_less [of _ tr v]
        by (auto simp: x acqs_snoc rels_snoc split: option.splits)
    qed
  qed
qed

lemma lawfulD:
  assumes "lawful tr (\<lambda>_. None)"
  shows rel_acq: "j < length (rels tr v) \<Longrightarrow> j < length (acqs tr v) \<and> th tr (rels tr v ! j) = th tr (acqs tr v ! j) \<and> acqs tr v ! j < rels tr v ! j"
    and acq_rel: "Suc j < length (acqs tr v) \<Longrightarrow> j < length (rels tr v) \<and> rels tr v ! j < acqs tr v ! Suc j"
  using lawful_order [OF assms, of v] by blast+

section \<open>The invariant\<close>

text \<open>An acquisition has happened behind \<open>wait\<close>, a release from its first step on.\<close>

definition past :: "('t, 'v) trace \<Rightarrow> ('t, 'v) rst \<Rightarrow> nat \<Rightarrow> bool" where
  "past tr s p \<longleftrightarrow> p \<notin> set (rem s (th tr p)) \<or>
     (\<exists>ps. rem s (th tr p) = p # ps) \<and> ph s (th tr p) \<noteq> Ready \<and> ph s (th tr p) \<noteq> Peeked"

text \<open>The number of acquisitions of a variable so far, and the event whose turn it is.\<close>

definition got :: "('t, 'v) trace \<Rightarrow> ('t, 'v) rst \<Rightarrow> 'v \<Rightarrow> nat" where
  "got tr s v = length (filter (\<lambda>p. ac tr p = Acq v) (log s))"

definition turn :: "('t, 'v) trace \<Rightarrow> ('t, 'v) rst \<Rightarrow> nat \<Rightarrow> bool" where
  "turn tr s p \<longleftrightarrow> (\<exists>v. cur s v < length (acqs tr v) \<and> p = acqs tr v ! cur s v \<and> got tr s v = cur s v)"

definition at_sem :: "('t, 'v) trace \<Rightarrow> ('t, 'v) rst \<Rightarrow> nat \<Rightarrow> bool" where
  "at_sem tr s p \<longleftrightarrow> nxa tr (rem s (th tr p)) = Some p \<and> sem s (th tr p) = 1"

definition at_pnd :: "('t, 'v) trace \<Rightarrow> ('t, 'v) rst \<Rightarrow> nat \<Rightarrow> bool" where
  "at_pnd tr s p \<longleftrightarrow> p \<in> set (pnd s (th tr p))"

definition at_sig :: "('t, 'v) rst \<Rightarrow> nat \<Rightarrow> bool" where
  "at_sig s p \<longleftrightarrow> (\<exists>t. ph s t = Sig p)"

text \<open>Threads are somewhere in their programs, in a phase that fits the next action.\<close>

definition thread_ok :: "('t, 'v) trace \<Rightarrow> 't \<Rightarrow> nat list \<Rightarrow> phase \<Rightarrow> nat list \<Rightarrow> bool" where
  "thread_ok tr t r x pn \<longleftrightarrow> (\<exists>k. r = drop k (prog tr t)) \<and>
     (case x of Ready \<Rightarrow> True | Sig e \<Rightarrow> (\<exists>p ps v. r = p # ps \<and> ac tr p = Rel v)
      | _ \<Rightarrow> (\<exists>p ps v. r = p # ps \<and> ac tr p = Acq v)) \<and>
     (x = Peeked \<longrightarrow> hd r \<notin> set pn)"

definition threads_ok :: "('t, 'v) trace \<Rightarrow> ('t, 'v) rst \<Rightarrow> bool" where
  "threads_ok tr s \<longleftrightarrow> (\<forall>t. thread_ok tr t (rem s t) (ph s t) (pnd s t))"

text \<open>The actions of a variable happen in order.\<close>

definition order_ok :: "('t, 'v) trace \<Rightarrow> ('t, 'v) rst \<Rightarrow> bool" where
  "order_ok tr s \<longleftrightarrow> (\<forall>v. cur s v \<le> got tr s v \<and> got tr s v \<le> Suc (cur s v) \<and> got tr s v \<le> length (acqs tr v) \<and>
     filter (\<lambda>p. ac tr p = Acq v) (log s) = take (got tr s v) (acqs tr v) \<and>
     (\<forall>j<length (acqs tr v). past tr s (acqs tr v ! j) \<longleftrightarrow> j < got tr s v) \<and>
     (\<forall>j<length (rels tr v). past tr s (rels tr v ! j) \<longleftrightarrow> j < cur s v))"

text \<open>Exactly the events whose turn it is have a token, and it is at one place.\<close>

definition tokens_ok :: "('t, 'v) trace \<Rightarrow> ('t, 'v) rst \<Rightarrow> bool" where
  "tokens_ok tr s \<longleftrightarrow>
     (\<forall>p. turn tr s p \<longrightarrow> at_sem tr s p \<or> at_pnd tr s p \<or> at_sig s p) \<and>
     (\<forall>t p. p \<in> set (pnd s t) \<longrightarrow> th tr p = t \<and> turn tr s p) \<and> (\<forall>p. at_sig s p \<longrightarrow> turn tr s p) \<and>
     (\<forall>t. sem s t \<noteq> 0 \<longrightarrow> (\<exists>p. nxa tr (rem s t) = Some p \<and> turn tr s p \<and> sem s t = 1)) \<and>
     (\<forall>p. \<not> (at_sem tr s p \<and> at_pnd tr s p) \<and> \<not> (at_sem tr s p \<and> at_sig s p) \<and> \<not> (at_pnd tr s p \<and> at_sig s p)) \<and>
     (\<forall>t. distinct (pnd s t)) \<and> (\<forall>t t' p. ph s t = Sig p \<longrightarrow> ph s t' = Sig p \<longrightarrow> t = t')"

definition rinv :: "('t, 'v) trace \<Rightarrow> ('t, 'v) rst \<Rightarrow> bool" where
  "rinv tr s \<longleftrightarrow> threads_ok tr s \<and> order_ok tr s \<and> tokens_ok tr s"

lemma rinvD:
  assumes "rinv tr s"
  shows "\<exists>k. rem s t = drop k (prog tr t)"
    and "ph s t = Peeked \<Longrightarrow> \<exists>p ps v. rem s t = p # ps \<and> ac tr p = Acq v"
    and "ph s t = Got \<Longrightarrow> \<exists>p ps v. rem s t = p # ps \<and> ac tr p = Acq v"
    and "ph s t = Sig e \<Longrightarrow> \<exists>p ps v. rem s t = p # ps \<and> ac tr p = Rel v"
    and "ph s t = Peeked \<Longrightarrow> hd (rem s t) \<notin> set (pnd s t)"
    and "order_ok tr s" and "tokens_ok tr s"
  using assms unfolding rinv_def threads_ok_def thread_ok_def by (auto dest!: spec [of _ t])

lemma orderD:
  assumes "order_ok tr s"
  shows "cur s v \<le> got tr s v" and "got tr s v \<le> Suc (cur s v)" and "got tr s v \<le> length (acqs tr v)"
    and "filter (\<lambda>p. ac tr p = Acq v) (log s) = take (got tr s v) (acqs tr v)"
    and "j < length (acqs tr v) \<Longrightarrow> past tr s (acqs tr v ! j) \<longleftrightarrow> j < got tr s v"
    and "j < length (rels tr v) \<Longrightarrow> past tr s (rels tr v ! j) \<longleftrightarrow> j < cur s v"
  using assms unfolding order_ok_def by auto

lemma tokensD:
  assumes "tokens_ok tr s"
  shows "turn tr s p \<Longrightarrow> at_sem tr s p \<or> at_pnd tr s p \<or> at_sig s p"
    and "p \<in> set (pnd s t) \<Longrightarrow> th tr p = t" and "p \<in> set (pnd s t) \<Longrightarrow> turn tr s p"
    and "at_sig s p \<Longrightarrow> turn tr s p"
    and "sem s t \<noteq> 0 \<Longrightarrow> \<exists>p. nxa tr (rem s t) = Some p \<and> turn tr s p \<and> sem s t = 1"
    and "at_sem tr s p \<Longrightarrow> \<not> at_pnd tr s p \<and> \<not> at_sig s p" and "at_pnd tr s p \<Longrightarrow> \<not> at_sem tr s p \<and> \<not> at_sig s p"
    and "at_sig s p \<Longrightarrow> \<not> at_sem tr s p \<and> \<not> at_pnd tr s p"
    and "distinct (pnd s t)" and "ph s t = Sig p \<Longrightarrow> ph s t' = Sig p \<Longrightarrow> t = t'"
  using assms unfolding tokens_ok_def by blast+

lemma tokensI:
  assumes "\<And>p. turn tr s p \<Longrightarrow> at_sem tr s p \<or> at_pnd tr s p \<or> at_sig s p"
    and "\<And>t p. p \<in> set (pnd s t) \<Longrightarrow> th tr p = t" and "\<And>p. at_pnd tr s p \<Longrightarrow> turn tr s p"
    and "\<And>p. at_sig s p \<Longrightarrow> turn tr s p"
    and "\<And>t. sem s t \<noteq> 0 \<Longrightarrow> \<exists>p. nxa tr (rem s t) = Some p \<and> turn tr s p \<and> sem s t = 1"
    and "\<And>p. at_sem tr s p \<Longrightarrow> \<not> at_pnd tr s p \<and> \<not> at_sig s p" and "\<And>p. at_pnd tr s p \<Longrightarrow> \<not> at_sig s p"
    and "\<And>t. distinct (pnd s t)" and "\<And>t t' p. ph s t = Sig p \<Longrightarrow> ph s t' = Sig p \<Longrightarrow> t = t'"
  shows "tokens_ok tr s"
proof -
  have "turn tr s p" if h: "p \<in> set (pnd s t)" for p t using assms(2) [OF h] assms(3) [of p] h by (simp add: at_pnd_def)
  with assms show ?thesis unfolding tokens_ok_def by (intro conjI allI impI) blast+
qed

lemma rem_facts:
  assumes "rinv tr s"
  shows "distinct (rem s t)" and "sorted (rem s t)" and "p \<in> set (rem s t) \<Longrightarrow> p < length tr \<and> th tr p = t"
    and "p < length tr \<Longrightarrow> th tr p = t \<Longrightarrow> rem s t = q # ps \<Longrightarrow> p < q \<Longrightarrow> p \<notin> set (rem s t)"
proof -
  obtain k where k: "rem s t = drop k (prog tr t)" using rinvD(1) [OF assms] by blast
  show "distinct (rem s t)" "sorted (rem s t)" by (simp_all add: k sorted_wrt_drop)
  show "p \<in> set (rem s t) \<Longrightarrow> p < length tr \<and> th tr p = t" by (auto simp: k prog_def dest!: in_set_dropD)
  show "p < length tr \<Longrightarrow> th tr p = t \<Longrightarrow> rem s t = q # ps \<Longrightarrow> p < q \<Longrightarrow> p \<notin> set (rem s t)"
    using \<open>sorted (rem s t)\<close> by auto
qed

lemma nxa_Cons: "nxa tr (p # ps) = (if is_acq (ac tr p) then Some p else nxa tr ps)"
  by (simp add: nxa_def)

lemma nxa_Some: "nxa tr ps = Some p \<Longrightarrow> p \<in> set ps \<and> is_acq (ac tr p)"
  by (auto simp: nxa_def find_Some_iff)

lemma is_acqE: "is_acq a \<Longrightarrow> (\<And>v. a = Acq v \<Longrightarrow> P) \<Longrightarrow> P"
  by (cases a) auto

lemma turn_not_past:
  assumes "order_ok tr s" and "turn tr s p"
  shows "\<not> past tr s p" and "p < length tr" and "\<exists>v. ac tr p = Acq v"
  using assms orderD(5) [OF assms(1)] unfolding turn_def by (auto simp: acqs_less acqs_ac)

lemma turn_Acq: "turn tr s p \<Longrightarrow> ac tr p = Acq v \<Longrightarrow> p = acqs tr v ! cur s v \<and> cur s v < length (acqs tr v) \<and> got tr s v = cur s v"
  using acqs_ac by (fastforce simp: turn_def)

lemma nth_acqs_eq: "j < length (acqs tr v) \<Longrightarrow> k < length (acqs tr w) \<Longrightarrow> acqs tr v ! j = acqs tr w ! k \<longleftrightarrow> v = w \<and> j = k"
  using acqs_ac [of j tr v] acqs_ac [of k tr w] by (auto simp: nth_eq_iff_index_eq)

lemma nth_rels_eq: "j < length (rels tr v) \<Longrightarrow> k < length (rels tr w) \<Longrightarrow> rels tr v ! j = rels tr w ! k \<longleftrightarrow> v = w \<and> j = k"
  using rels_ac [of j tr v] rels_ac [of k tr w] by (auto simp: nth_eq_iff_index_eq)

lemma rels_acqs_neq: "j < length (rels tr v) \<Longrightarrow> k < length (acqs tr w) \<Longrightarrow> rels tr v ! j \<noteq> acqs tr w ! k"
  using rels_ac [of j tr v] acqs_ac [of k tr w] by auto

text \<open>A semaphore that is up belongs to the next event of its thread.\<close>

lemma sem_up:
  assumes "rinv tr s" and "sem s t \<noteq> 0"
  obtains p where "nxa tr (rem s t) = Some p" "turn tr s p" "sem s t = 1" "at_sem tr s p" "th tr p = t"
proof -
  obtain p where p: "nxa tr (rem s t) = Some p" "turn tr s p" "sem s t = 1"
    using tokensD(5) [OF rinvD(7) [OF assms(1)] assms(2)] by blast
  moreover have "th tr p = t" using nxa_Some [OF p(1)] rem_facts(3) [OF assms(1)] by blast
  ultimately show thesis using that by (auto simp: at_sem_def)
qed

lemma at_sig_upd:
  "ph s' = (ph s)(t := x) \<Longrightarrow> (\<And>e. ph s t \<noteq> Sig e) \<Longrightarrow> (\<And>e. x \<noteq> Sig e) \<Longrightarrow> at_sig s' q \<longleftrightarrow> at_sig s q"
  by (auto simp: at_sig_def) (metis fun_upd_other)

section \<open>The invariant is kept\<close>

text \<open>Taking a token out of the pending list and raising the semaphore.\<close>

lemma rinv_peek_pending:
  assumes i: "rinv tr s" and h: "ph s t = Ready" "rem s t = p # ps" "ac tr p = Acq v" "p \<in> set (pnd s t)"
    and s': "s' = s\<lparr>ph := (ph s)(t := Peeked), pnd := (pnd s)(t := remove1 p (pnd s t)), sem := (sem s)(t := Suc (sem s t))\<rparr>"
  shows "rinv tr s'"
proof -
  note tk = tokensD [OF rinvD(7) [OF i]]
  have tp: "th tr p = t" and tn: "turn tr s p" using tk(2,3) [OF h(4)] by auto
  have n: "nxa tr (rem s t) = Some p" using h by (simp add: nxa_Cons)
  have z: "sem s t = 0"
  proof (rule ccontr)
    assume "sem s t \<noteq> 0"
    then show False using sem_up [OF i] n tk(6) [of p] h(4) tp by (metis at_pnd_def option.inject)
  qed
  have past: "past tr s' q = past tr s q" for q using h by (auto simp: s' past_def)
  have got: "got tr s' w = got tr s w" for w by (simp add: s' got_def)
  have turn: "turn tr s' q = turn tr s q" for q by (simp add: turn_def got) (simp add: s')
  have sg: "at_sig s' q = at_sig s q" for q using h by (intro at_sig_upd) (auto simp: s')
  have pd: "set (pnd s' u) = (if u = t then set (pnd s t) - {p} else set (pnd s u))" for u
    using tk(9) [of t] by (simp add: s')
  have pn: "at_pnd tr s' q \<longleftrightarrow> at_pnd tr s q \<and> q \<noteq> p" for q using tp by (auto simp: at_pnd_def pd)
  have sm: "at_sem tr s' q \<longleftrightarrow> at_sem tr s q \<or> q = p" for q
    using z n tp by (auto simp: s' at_sem_def)
  have "threads_ok tr s'"
    using i h tk(9) [of t] rinvD(1) [OF i, of t] by (auto simp: rinv_def threads_ok_def s' thread_ok_def [of tr t])
  moreover have "order_ok tr s'"
    using rinvD(6) [OF i] unfolding order_ok_def past got by (simp add: s')
  moreover have "tokens_ok tr s'"
  proof (rule tokensI, unfold turn sg pn sm, goal_cases)
    case (2 u q) then show ?case using tk(2) by (auto simp: pd split: if_splits)
  next
    case (5 u) then show ?case using n z tn tk(5) [of u] by (cases "u = t") (auto simp: s')
  next
    case (6 q) then show ?case using tk(6) [of q] tk(7) [of p] h(4) tp by (auto simp: at_pnd_def)
  next
    case (8 u) then show ?case using tk(9) by (simp add: s')
  next
    case (9 u u' q) then show ?case using tk(10) by (auto simp: s' split: if_splits)
  next
    case (1 q) then show ?case using tk(1) by blast
  next
    case (3 q) then show ?case using tk(3) by (auto simp: at_pnd_def)
  qed (use tk(4,7) in blast)+
  ultimately show ?thesis by (simp add: rinv_def)
qed

lemma rinv_peek:
  assumes i: "rinv tr s" and h: "ph s t = Ready" "rem s t = p # ps" "ac tr p = Acq v" "p \<notin> set (pnd s t)"
    and s': "s' = s\<lparr>ph := (ph s)(t := Peeked)\<rparr>"
  shows "rinv tr s'"
proof -
  have past: "past tr s' q = past tr s q" for q using h by (auto simp: s' past_def)
  have got: "got tr s' w = got tr s w" for w by (simp add: s' got_def)
  have turn: "turn tr s' q = turn tr s q" for q by (simp add: turn_def got) (simp add: s')
  have sg: "at_sig s' q = at_sig s q" for q using h by (intro at_sig_upd) (auto simp: s')
  have pn: "at_pnd tr s' q \<longleftrightarrow> at_pnd tr s q" for q by (simp add: s' at_pnd_def)
  have sm: "at_sem tr s' q \<longleftrightarrow> at_sem tr s q" for q by (simp add: s' at_sem_def)
  have "threads_ok tr s'"
    using i h rinvD(1) [OF i, of t] by (auto simp: rinv_def threads_ok_def s' thread_ok_def [of tr t])
  moreover have "order_ok tr s'"
    using rinvD(6) [OF i] unfolding order_ok_def past got by (simp add: s')
  moreover have "tokens_ok tr s'"
    using rinvD(7) [OF i] h unfolding tokens_ok_def turn sg pn sm by (auto simp: s')
  ultimately show ?thesis by (simp add: rinv_def)
qed

lemma take_Suc_filter:
  "k < length xs \<Longrightarrow> filter P l = take k xs \<Longrightarrow> P (xs ! k) \<Longrightarrow> filter P (l @ [xs ! k]) = take (Suc k) xs"
  by (simp add: take_Suc_conv_app_nth)

lemma rinv_wait:
  assumes i: "rinv tr s" and h: "ph s t = Peeked" "rem s t = p # ps" "sem s t = Suc n"
    and s': "s' = s\<lparr>ph := (ph s)(t := Got), sem := (sem s)(t := n), log := log s @ [p]\<rparr>"
  shows "rinv tr s'"
proof -
  note tk = tokensD [OF rinvD(7) [OF i]] and ord = orderD [OF rinvD(6) [OF i]]
  obtain v where v: "ac tr p = Acq v" using rinvD(2) [OF i h(1)] h(2) by auto
  have nx: "nxa tr (rem s t) = Some p" using h v by (simp add: nxa_Cons)
  have p: "turn tr s p" "sem s t = 1" "at_sem tr s p" "th tr p = t" "n = 0"
    using sem_up [OF i, of t] nx h(3) by (metis Zero_not_Suc option.inject, metis Zero_not_Suc, metis Zero_not_Suc option.inject,
      metis Zero_not_Suc option.inject, metis One_nat_def Zero_not_Suc nat.inject)
  have c: "p = acqs tr v ! cur s v" "cur s v < length (acqs tr v)" "got tr s v = cur s v" using turn_Acq [OF p(1) v] by auto
  have past: "past tr s' q \<longleftrightarrow> past tr s q \<or> q = p" for q using h p(4) rem_facts(3) [OF i, of _ t] by (auto simp: s' past_def)
  have got: "got tr s' w = (if w = v then Suc (cur s v) else got tr s w)" for w
    using c v by (simp add: s' got_def)
  have cr: "cur s' = cur s" by (simp add: s')
  have turn: "turn tr s' q \<longleftrightarrow> turn tr s q \<and> q \<noteq> p" for q
    using c(2,3) by (auto simp: turn_def got cr c(1) nth_acqs_eq [OF _ c(2)])
  have sg: "at_sig s' q = at_sig s q" for q using h by (intro at_sig_upd) (auto simp: s')
  have pn: "at_pnd tr s' q \<longleftrightarrow> at_pnd tr s q" for q by (simp add: s' at_pnd_def)
  have sm: "at_sem tr s' q \<longleftrightarrow> at_sem tr s q \<and> q \<noteq> p" for q
    using nx p by (auto simp: s' at_sem_def)
  have "threads_ok tr s'"
    using i h v rinvD(1) [OF i, of t] by (auto simp: rinv_def threads_ok_def s' thread_ok_def [of tr t])
  moreover have "filter (\<lambda>p. ac tr p = Acq w) (log s') = take (got tr s' w) (acqs tr w)" for w
  proof (cases "w = v")
    case True
    then show ?thesis using take_Suc_filter [OF c(2), of "\<lambda>p. ac tr p = Acq v" "log s"] ord(4) [of v] c v
      by (simp add: got) (simp add: s')
  next
    case False
    then show ?thesis using ord(4) [of w] v by (simp add: got) (simp add: s')
  qed
  then have "order_ok tr s'"
    using ord(1,2,3,5,6) c(2,3) nth_acqs_eq [OF _ c(2)] rels_acqs_neq [OF _ c(2)] unfolding order_ok_def past got cr c(1)
    by (auto simp: less_Suc_eq)
  moreover have "tokens_ok tr s'"
  proof (rule tokensI, unfold turn sg pn sm, goal_cases)
    case (2 u q) then show ?case using tk(2) by (simp add: s')
  next
    case (3 q) then show ?case using tk(3) [of q] tk(6) [OF p(3)] by (auto simp: at_pnd_def)
  next
    case (4 q) then show ?case using tk(4) [of q] tk(6) [OF p(3)] by auto
  next
    case (5 u) then show ?case using tk(5) [of u] p(4,5) rem_facts(3) [OF i] nxa_Some
      by (cases "u = t") (fastforce simp: s')+
  next
    case (8 u) then show ?case using tk(9) by (simp add: s')
  next
    case (9 u u' q) then show ?case using tk(10) by (auto simp: s' split: if_splits)
  next
    case (1 q) then show ?case using tk(1) by blast
  qed (use tk(6,7) in blast)+
  ultimately show ?thesis by (simp add: rinv_def)
qed

text \<open>Going on to the next action moves no token.\<close>

lemma drop_Cons_tl: "\<exists>k. p # ps = drop k xs \<Longrightarrow> \<exists>k. ps = drop k xs"
  by (metis drop_Suc list.sel(3) tl_drop)

lemma thread_ok_tl: "rinv tr s \<Longrightarrow> rem s t = p # ps \<Longrightarrow> thread_ok tr t ps Ready pn"
  using rinvD(1) [of tr s t] drop_Cons_tl [of p ps "prog tr t"] by (simp add: thread_ok_def)

lemma past_next:
  assumes i: "rinv tr s" and "rem s t = p # ps" and "ph s t = Got \<or> (\<exists>e. ph s t = Sig e)"
    and "rem s' = (rem s)(t := ps)" and "ph s' = (ph s)(t := Ready)"
  shows "past tr s' q = past tr s q"
proof (cases "th tr q = t")
  case True
  have "p \<notin> set ps" using rem_facts(1) [OF i, of t] assms(2) by simp
  with True assms(2-) show ?thesis by (auto simp: past_def)
qed (use assms(4,5) in \<open>simp add: past_def\<close>)

lemma rinv_adv:
  assumes i: "rinv tr s" and h: "ph s t = Got" "rem s t = p # ps"
    and s': "s' = s\<lparr>ph := (ph s)(t := Ready), rem := (rem s)(t := ps)\<rparr>"
  shows "rinv tr s'"
proof -
  note tk = tokensD [OF rinvD(7) [OF i]]
  obtain v where v: "ac tr p = Acq v" using rinvD(3) [OF i h(1)] h(2) by auto
  have tp: "th tr p = t" using rem_facts(3) [OF i, of p t] h(2) by simp
  have nx: "nxa tr (rem s t) = Some p" using h v by (simp add: nxa_Cons)
  have "past tr s p" using h tp by (simp add: past_def)
  then have z: "sem s t = 0"
    using sem_up [OF i, of t] nx turn_not_past(1) [OF rinvD(6) [OF i], of p] by (metis option.inject)
  have past: "past tr s' q = past tr s q" for q by (rule past_next [OF i h(2)]) (use h(1) in \<open>simp_all add: s'\<close>)
  have got: "got tr s' w = got tr s w" for w by (simp add: s' got_def)
  have turn: "turn tr s' q = turn tr s q" for q by (simp add: turn_def got) (simp add: s')
  have sg: "at_sig s' q = at_sig s q" for q using h by (intro at_sig_upd) (auto simp: s')
  have pn: "at_pnd tr s' q \<longleftrightarrow> at_pnd tr s q" for q by (simp add: s' at_pnd_def)
  have sm: "at_sem tr s' q \<longleftrightarrow> at_sem tr s q" for q using z by (simp add: s' at_sem_def)
  have "threads_ok tr s'"
    using i thread_ok_tl [OF i h(2)] h(1) by (simp add: rinv_def threads_ok_def s')
  moreover have "order_ok tr s'"
    using rinvD(6) [OF i] unfolding order_ok_def past got by (simp add: s')
  moreover have "tokens_ok tr s'"
  proof (rule tokensI, unfold turn sg pn sm, goal_cases)
    case (5 u) then show ?case using z tk(5) [of u] by (cases "u = t") (auto simp: s')
  next
    case (9 u u' q) then show ?case using tk(10) by (auto simp: s' split: if_splits)
  next
    case (3 q) then show ?case using tk(3) by (simp add: at_pnd_def)
  qed (use tk(1,2,4,6,7,9) in \<open>simp_all add: s'\<close>)
  ultimately show ?thesis by (simp add: rinv_def)
qed

text \<open>A thread releases what it holds: the acquisition whose turn it was last.\<close>

lemma release_turn:
  assumes law: "lawful tr (\<lambda>_. None)" and i: "rinv tr s"
    and h: "ph s t = Ready" "rem s t = p # ps" "ac tr p = Rel v"
  shows "p = rels tr v ! cur s v" and "cur s v < length (rels tr v)" and "got tr s v = Suc (cur s v)"
proof -
  note ord = orderD [OF rinvD(6) [OF i], where v = v]
  have p: "p < length tr" "th tr p = t" using rem_facts(3) [OF i, of p t] h(2) by auto
  obtain j where j: "j < length (rels tr v)" "rels tr v ! j = p" using in_rels [OF p(1) h(3)] by blast
  have "\<not> past tr s p" using h p by (auto simp: past_def)
  then have ge: "cur s v \<le> j" using ord(6) [OF j(1)] j(2) by simp
  note ra = rel_acq [OF law j(1)]
  have "acqs tr v ! j \<notin> set (rem s t)"
    using rem_facts(4) [OF i _ _ h(2)] ra j(2) p(2) acqs_less [of j tr v] by auto
  then have "past tr s (acqs tr v ! j)" using ra j(2) p(2) by (auto simp: past_def)
  then have "j < got tr s v" using ord(5) ra by blast
  then have "j = cur s v" "got tr s v = Suc (cur s v)" using ge ord(2) by linarith+
  with j show "p = rels tr v ! cur s v" "cur s v < length (rels tr v)" "got tr s v = Suc (cur s v)"
    by auto
qed

lemma order_release:
  assumes i: "rinv tr s" and p: "cur s v < length (rels tr v)" "got tr s v = Suc (cur s v)"
    and past: "\<And>q. past tr s' q \<longleftrightarrow> past tr s q \<or> q = rels tr v ! cur s v"
    and s': "log s' = log s" "cur s' = (cur s)(v := Suc (cur s v))"
  shows "order_ok tr s'"
proof -
  have got: "got tr s' w = got tr s w" for w by (simp add: s' got_def)
  show ?thesis
    using orderD [OF rinvD(6) [OF i]] p nth_rels_eq [OF _ p(1)] rels_acqs_neq [OF p(1), THEN not_sym]
    unfolding order_ok_def past got s' by (auto simp: less_Suc_eq)
qed

lemma turn_release:
  assumes "got tr s v = Suc (cur s v)" and s': "log s' = log s" "cur s' = (cur s)(v := Suc (cur s v))"
  shows "turn tr s' q \<longleftrightarrow> turn tr s q \<or> Suc (cur s v) < length (acqs tr v) \<and> q = acqs tr v ! Suc (cur s v)"
proof -
  have got: "got tr s' w = got tr s w" for w by (simp add: s' got_def)
  have "\<exists>w. w \<noteq> v \<and> cur s w < length (acqs tr w) \<and> q = acqs tr w ! cur s w \<and> got tr s w = cur s w" if "turn tr s q"
    using that assms(1) unfolding turn_def by (metis n_not_Suc_n)
  then show ?thesis using assms(1) unfolding turn_def got s' by (auto split: if_splits)
qed

lemma rinv_rel_last:
  assumes law: "lawful tr (\<lambda>_. None)" and i: "rinv tr s"
    and h: "ph s t = Ready" "rem s t = p # ps" "ac tr p = Rel v" "Suc (cur s v) = length (acqs tr v)"
    and s': "s' = s\<lparr>rem := (rem s)(t := ps), cur := (cur s)(v := Suc (cur s v))\<rparr>"
  shows "rinv tr s'"
proof -
  note tk = tokensD [OF rinvD(7) [OF i]] and r = release_turn [OF law i h(1-3)]
  have tp: "th tr p = t" using rem_facts(3) [OF i, of p t] h(2) by simp
  have past: "past tr s' q \<longleftrightarrow> past tr s q \<or> q = p" for q
    using h tp rem_facts(1) [OF i, of t] by (auto simp: s' past_def)
  have got: "got tr s' w = got tr s w" for w by (simp add: s' got_def)
  have turn: "turn tr s' q = turn tr s q" for q
    using h(4) by (subst turn_release [OF r(3)]) (simp_all add: s')
  have sg: "at_sig s' q = at_sig s q" for q by (simp add: s' at_sig_def)
  have pn: "at_pnd tr s' q \<longleftrightarrow> at_pnd tr s q" for q by (simp add: s' at_pnd_def)
  have nx: "nxa tr (rem s' u) = nxa tr (rem s u)" for u using h by (simp add: s' nxa_Cons)
  have sm: "at_sem tr s' q \<longleftrightarrow> at_sem tr s q" for q by (simp add: at_sem_def nx) (simp add: s')
  have "threads_ok tr s'"
    using i thread_ok_tl [OF i h(2)] h(1) by (simp add: rinv_def threads_ok_def s')
  moreover have "order_ok tr s'"
    by (rule order_release [OF i r(2,3)]) (use past r(1) in \<open>simp_all add: s'\<close>)
  moreover have "tokens_ok tr s'"
  proof (rule tokensI, unfold turn sg pn sm nx, goal_cases)
    case (3 q) then show ?case using tk(3) by (simp add: at_pnd_def)
  next
    case (9 u u' q) then show ?case using tk(10) by (simp add: s')
  qed (use tk(1,2,4,5,6,7,9) in \<open>simp_all add: s'\<close>)
  ultimately show ?thesis by (simp add: rinv_def)
qed

lemma no_token:
  assumes "rinv tr s" and "\<not> turn tr s p"
  shows "\<not> at_sem tr s p" and "\<not> at_pnd tr s p" and "\<not> at_sig s p"
proof -
  note tk = tokensD [OF rinvD(7) [OF assms(1)]]
  show "\<not> at_pnd tr s p" "\<not> at_sig s p" using tk(3,4) assms(2) by (auto simp: at_pnd_def)
  show "\<not> at_sem tr s p" using tk(5) [of "th tr p"] assms(2) by (auto simp: at_sem_def)
qed

lemma rinv_rel:
  assumes law: "lawful tr (\<lambda>_. None)" and i: "rinv tr s"
    and h: "ph s t = Ready" "rem s t = p # ps" "ac tr p = Rel v" "Suc (cur s v) < length (acqs tr v)"
    and s': "s' = s\<lparr>ph := (ph s)(t := Sig (acqs tr v ! Suc (cur s v))), cur := (cur s)(v := Suc (cur s v))\<rparr>"
  shows "rinv tr s'"
proof -
  let ?e = "acqs tr v ! Suc (cur s v)"
  note tk = tokensD [OF rinvD(7) [OF i]] and r = release_turn [OF law i h(1-3)]
  have tp: "th tr p = t" using rem_facts(3) [OF i, of p t] h(2) by simp
  have past: "past tr s' q \<longleftrightarrow> past tr s q \<or> q = p" for q
    using h tp rem_facts(1) [OF i, of t] rem_facts(3) [OF i, of q t] by (auto simp: s' past_def)
  have got: "got tr s' w = got tr s w" for w by (simp add: s' got_def)
  have turn: "turn tr s' q \<longleftrightarrow> turn tr s q \<or> q = ?e" for q
    using h(4) by (subst turn_release [OF r(3)]) (simp_all add: s')
  have nt: "\<not> turn tr s ?e" using turn_Acq [of tr s ?e v] acqs_ac [OF h(4)] r(3) by auto
  note no = no_token [OF i nt]
  have sg: "at_sig s' q \<longleftrightarrow> at_sig s q \<or> q = ?e" for q
  proof -
    have "\<exists>u. u \<noteq> t \<and> ph s u = Sig q" if "ph s u = Sig q" for u using that h(1) by (intro exI [of _ u]) auto
    then show ?thesis by (auto simp: s' at_sig_def)
  qed
  have pn: "at_pnd tr s' q \<longleftrightarrow> at_pnd tr s q" for q by (simp add: s' at_pnd_def)
  have sm: "at_sem tr s' q \<longleftrightarrow> at_sem tr s q" for q by (simp add: s' at_sem_def)
  have "threads_ok tr s'"
    using i h rinvD(1) [OF i, of t] by (auto simp: rinv_def threads_ok_def s' thread_ok_def [of tr t])
  moreover have "order_ok tr s'"
    by (rule order_release [OF i r(2,3)]) (use past r(1) in \<open>simp_all add: s'\<close>)
  moreover have "tokens_ok tr s'"
  proof (rule tokensI, unfold turn sg pn sm, goal_cases)
    case (1 q) then show ?case using tk(1) by blast
  next
    case (3 q) then show ?case using tk(3) by (simp add: at_pnd_def)
  next
    case (4 q) then show ?case using tk(4) by blast
  next
    case (5 u) then show ?case using tk(5) [of u] by (auto simp: s')
  next
    case (6 q) then show ?case using tk(6) [of q] no by blast
  next
    case (7 q) then show ?case using tk(7) [of q] no by blast
  next
    case (9 u u' q) then show ?case using tk(10) [of u q u'] no(3) by (auto simp: s' at_sig_def split: if_splits)
  qed (use tk(2,9) in \<open>simp_all add: s'\<close>)
  ultimately show ?thesis by (simp add: rinv_def)
qed

text \<open>Giving out a token.\<close>

lemma sig_facts:
  assumes i: "rinv tr s" and h: "ph s t = Sig e" "rem s t = p # ps"
  shows "turn tr s e" and "\<not> at_sem tr s e" and "\<not> at_pnd tr s e" and "nxa tr ps = nxa tr (p # ps)"
proof -
  note tk = tokensD [OF rinvD(7) [OF i]]
  have "at_sig s e" using h(1) by (auto simp: at_sig_def)
  then show "turn tr s e" "\<not> at_sem tr s e" "\<not> at_pnd tr s e" using tk(4,8) by auto
  show "nxa tr ps = nxa tr (p # ps)" using rinvD(4) [OF i h(1)] h(2) by (auto simp: nxa_Cons)
qed

lemma sig_gone:
  assumes i: "rinv tr s" and h: "ph s t = Sig e" and "ph s' = (ph s)(t := Ready)"
  shows "at_sig s' q \<longleftrightarrow> at_sig s q \<and> q \<noteq> e"
proof
  assume "at_sig s' q"
  then obtain u where "u \<noteq> t" "ph s u = Sig q" using assms(3) by (auto simp: at_sig_def split: if_splits)
  then show "at_sig s q \<and> q \<noteq> e" using tokensD(10) [OF rinvD(7) [OF i], of u e t] h by (auto simp: at_sig_def)
next
  assume "at_sig s q \<and> q \<noteq> e"
  then obtain u where "ph s u = Sig q" "u \<noteq> t" using h unfolding at_sig_def by (metis phase.inject)
  then show "at_sig s' q" using assms(3) by (auto simp: at_sig_def intro!: exI [of _ u])
qed

lemma rinv_sig_next:
  assumes i: "rinv tr s" and h: "ph s t = Sig e" "rem s t = p # ps" "nxa tr (rem s (th tr e)) = Some e"
    and s': "s' = s\<lparr>ph := (ph s)(t := Ready), rem := (rem s)(t := ps), sem := (sem s)(th tr e := Suc (sem s (th tr e)))\<rparr>"
  shows "rinv tr s'"
proof -
  note tk = tokensD [OF rinvD(7) [OF i]] and f = sig_facts [OF i h(1,2)]
  have z: "sem s (th tr e) = 0"
    using sem_up [OF i, of "th tr e"] f(2) h(3) by (metis option.inject)
  have past: "past tr s' q = past tr s q" for q by (rule past_next [OF i h(2)]) (use h(1) in \<open>simp_all add: s'\<close>)
  have got: "got tr s' w = got tr s w" for w by (simp add: s' got_def)
  have turn: "turn tr s' q = turn tr s q" for q by (simp add: turn_def got) (simp add: s')
  have sg: "at_sig s' q \<longleftrightarrow> at_sig s q \<and> q \<noteq> e" for q by (rule sig_gone [OF i h(1)]) (simp add: s')
  have pn: "at_pnd tr s' q \<longleftrightarrow> at_pnd tr s q" for q by (simp add: s' at_pnd_def)
  have nx: "nxa tr (rem s' u) = nxa tr (rem s u)" for u using h f(4) by (simp add: s')
  have sm: "at_sem tr s' q \<longleftrightarrow> at_sem tr s q \<or> q = e" for q
  proof (cases "th tr q = th tr e")
    case True
    then show ?thesis using h(3) z by (auto simp: at_sem_def nx) (simp add: s')
  next
    case False
    then show ?thesis by (auto simp: at_sem_def nx) (simp_all add: s')
  qed
  have "threads_ok tr s'"
    using i thread_ok_tl [OF i h(2)] h(1) by (simp add: rinv_def threads_ok_def s')
  moreover have "order_ok tr s'"
    using rinvD(6) [OF i] unfolding order_ok_def past got by (simp add: s')
  moreover have "tokens_ok tr s'"
  proof (rule tokensI, unfold turn sg pn sm nx, goal_cases)
    case (1 q) then show ?case using tk(1) by blast
  next
    case (3 q) then show ?case using tk(3) by (simp add: at_pnd_def)
  next
    case (5 u) then show ?case using z h(3) f(1) tk(5) [of u] by (auto simp: s' split: if_splits)
  next
    case (6 q) then show ?case using tk(6) [of q] f(3) by blast
  next
    case (9 u u' q) then show ?case using tk(10) by (auto simp: s' split: if_splits)
  qed (use tk(2,4,7,9) in \<open>auto simp: s'\<close>)
  ultimately show ?thesis by (simp add: rinv_def)
qed

lemma rinv_sig_later:
  assumes i: "rinv tr s" and h: "ph s t = Sig e" "rem s t = p # ps" "nxa tr (rem s (th tr e)) \<noteq> Some e"
    and s': "s' = s\<lparr>ph := (ph s)(t := Ready), rem := (rem s)(t := ps), pnd := (pnd s)(th tr e := pnd s (th tr e) @ [e])\<rparr>"
  shows "rinv tr s'"
proof -
  note tk = tokensD [OF rinvD(7) [OF i]] and f = sig_facts [OF i h(1,2)]
  have past: "past tr s' q = past tr s q" for q by (rule past_next [OF i h(2)]) (use h(1) in \<open>simp_all add: s'\<close>)
  have got: "got tr s' w = got tr s w" for w by (simp add: s' got_def)
  have turn: "turn tr s' q = turn tr s q" for q by (simp add: turn_def got) (simp add: s')
  have sg: "at_sig s' q \<longleftrightarrow> at_sig s q \<and> q \<noteq> e" for q by (rule sig_gone [OF i h(1)]) (simp add: s')
  have pn: "at_pnd tr s' q \<longleftrightarrow> at_pnd tr s q \<or> q = e" for q by (auto simp: s' at_pnd_def)
  have nx: "nxa tr (rem s' u) = nxa tr (rem s u)" for u using h f(4) by (simp add: s')
  have sm: "at_sem tr s' q \<longleftrightarrow> at_sem tr s q" for q by (simp add: at_sem_def nx) (simp add: s')
  have "thread_ok tr u (rem s u) (ph s u) (pnd s' u)" for u
  proof -
    have "hd (rem s u) \<noteq> e" if "ph s u = Peeked" "u = th tr e" using rinvD(2) [OF i that(1)] h(3) that(2) by (auto simp: nxa_Cons)
    then show ?thesis using i by (auto simp: rinv_def threads_ok_def thread_ok_def s')
  qed
  then have "thread_ok tr u (rem s' u) (ph s' u) (pnd s' u)" for u
    using thread_ok_tl [OF i h(2)] by (cases "u = t") (simp_all add: s')
  then have "threads_ok tr s'" by (simp add: threads_ok_def)
  moreover have "order_ok tr s'"
    using rinvD(6) [OF i] unfolding order_ok_def past got by (simp add: s')
  moreover have "tokens_ok tr s'"
  proof (rule tokensI, unfold turn sg pn sm nx, goal_cases)
    case (1 q) then show ?case using tk(1) by blast
  next
    case (2 u q) then show ?case using tk(2) by (auto simp: s' split: if_splits)
  next
    case (3 q) then show ?case using tk(3) f(1) by (auto simp: at_pnd_def)
  next
    case (5 u) then show ?case using tk(5) [of u] by (auto simp: s')
  next
    case (6 q) then show ?case using tk(6) [of q] f(2) by blast
  next
    case (8 u) then show ?case using tk(9) f(3) by (auto simp: s' at_pnd_def)
  next
    case (9 u u' q) then show ?case using tk(10) by (auto simp: s' split: if_splits)
  qed (use tk(4,7) in blast)+
  ultimately show ?thesis by (simp add: rinv_def)
qed

lemma rinv_step:
  assumes "lawful tr (\<lambda>_. None)" and "rinv tr s" and "rstep tr s s'"
  shows "rinv tr s'"
  using assms(3)
proof cases
  case peek_pending then show ?thesis by (intro rinv_peek_pending [OF assms(2)]) simp_all
next
  case peek then show ?thesis by (intro rinv_peek [OF assms(2)]) simp_all
next
  case wait then show ?thesis by (intro rinv_wait [OF assms(2)]) simp_all
next
  case adv then show ?thesis by (intro rinv_adv [OF assms(2)]) simp_all
next
  case (rel_last t p ps v) then show ?thesis by (intro rinv_rel_last [OF assms(1,2) rel_last(2-)])
next
  case rel then show ?thesis by (intro rinv_rel [OF assms(1,2)]) simp_all
next
  case sig_next then show ?thesis by (intro rinv_sig_next [OF assms(2)]) simp_all
next
  case sig_later then show ?thesis by (intro rinv_sig_later [OF assms(2)]) simp_all
qed

section \<open>Every reachable state\<close>

lemma rinv_start:
  assumes st: "starts tr s"
  shows "rinv tr s"
proof -
  have r: "rem s t = prog tr t" "ph s t = Ready" "distinct (pnd s t)" "cur s v = 0" "log s = []"
      "set (pnd s t) = {p. first tr p \<and> th tr p = t \<and> nxa tr (prog tr t) \<noteq> Some p}"
      "sem s t = (if \<exists>p. first tr p \<and> nxa tr (prog tr t) = Some p then 1 else 0)" for t v
    using st by (simp_all add: starts_def)
  have got: "got tr s v = 0" for v by (simp add: got_def r)
  have turn: "turn tr s p \<longleftrightarrow> first tr p" for p by (auto simp: turn_def first_def got r)
  have past: "\<not> past tr s p" if "p < length tr" for p using that by (auto simp: past_def r prog_def)
  have "threads_ok tr s" by (auto simp: threads_ok_def thread_ok_def r intro!: exI [of _ 0])
  moreover have "order_ok tr s" by (auto simp: order_ok_def got r past acqs_less rels_less)
  moreover have "tokens_ok tr s"
  proof (rule tokensI, goal_cases)
    case (1 p) then show ?case by (auto simp: turn at_sem_def at_pnd_def r)
  next
    case (5 t) then show ?case by (auto simp: turn r split: if_splits)
  qed (auto simp: turn at_sem_def at_pnd_def at_sig_def r)
  ultimately show ?thesis by (simp add: rinv_def)
qed

lemma rinv_reachable:
  assumes "lawful tr (\<lambda>_. None)" and "starts tr s0" and "(rstep tr)\<^sup>*\<^sup>* s0 s"
  shows "rinv tr s"
  using assms(3) by (induction rule: rtranclp_induct) (use rinv_start [OF assms(2)] rinv_step [OF assms(1)] in auto)

lemma log_acqs:
  assumes "lawful tr (\<lambda>_. None)" and "starts tr s0" and "(rstep tr)\<^sup>*\<^sup>* s0 s" and "p \<in> set (log s)"
  shows "\<exists>v. ac tr p = Acq v"
  using assms(3,4)
proof (induction arbitrary: p rule: rtranclp_induct)
  case base then show ?case using assms(2) by (simp add: starts_def)
next
  case (step s s')
  note i = rinv_reachable [OF assms(1,2) step(1)]
  from step(2) show ?case
  proof cases
    case (wait t q qs n) then show ?thesis using step.IH step.prems rinvD(2) [OF i wait(2)] by auto
  qed (use step.IH step.prems in auto)
qed

text \<open>All actions have happened when no thread has any left.\<close>

lemma finished_log:
  assumes i: "rinv tr s" and e: "\<And>t. rem s t = []"
  shows "filter (\<lambda>p. ac tr p = Acq v) (log s) = acqs tr v"
proof -
  note ord = orderD [OF rinvD(6) [OF i], where v = v]
  have "past tr s p" for p using e by (simp add: past_def)
  then have "length (acqs tr v) \<le> got tr s v" using ord(5) [of "got tr s v"] by (cases "got tr s v < length (acqs tr v)") auto
  then show ?thesis using ord(4) by simp
qed

text \<open>
  A replay that is not complete can go on: a thread in the middle of an operation can finish it, or
  the thread of the first action that has not happened can do it.
\<close>

definition can_go :: "('t, 'v) trace \<Rightarrow> ('t, 'v) rst \<Rightarrow> 't \<Rightarrow> bool" where
  "can_go tr s t \<longleftrightarrow> rem s t \<noteq> [] \<and> (case ph s t of Ready \<Rightarrow>
     (case ac tr (hd (rem s t)) of Acq v \<Rightarrow> True | Rel v \<Rightarrow> Suc (cur s v) \<le> length (acqs tr v)) | Peeked \<Rightarrow> sem s t \<noteq> 0 | _ \<Rightarrow> True)"

lemma can_go_past:
  assumes law: "lawful tr (\<lambda>_. None)" and i: "rinv tr s" and ne: "rem s t = p # ps" and x: "ph s t = Ready \<or> ph s t = Peeked"
    and all: "\<And>q. q < p \<Longrightarrow> past tr s q" and ns: "\<And>u e. ph s u \<noteq> Sig e"
  shows "can_go tr s t"
proof -
  note tk = tokensD [OF rinvD(7) [OF i]]
  have p: "p < length tr" "th tr p = t" using rem_facts(3) [OF i, of p t] ne by auto
  have np: "\<not> past tr s p" using ne x p(2) by (auto simp: past_def)
  show ?thesis
  proof (cases "ac tr p")
    case (Rel v)
    then have "ph s t = Ready" using x rinvD(2) [OF i, of t] ne by auto
    with release_turn(1,2) [OF law i _ ne Rel] rel_acq [OF law, of "cur s v" v] Rel ne show ?thesis by (simp add: can_go_def)
  next
    case (Acq v)
    obtain j where j: "j < length (acqs tr v)" "acqs tr v ! j = p" using in_acqs [OF p(1) Acq] by blast
    note ord = orderD [OF rinvD(6) [OF i], where v = v]
    have le: "got tr s v \<le> j" using ord(5) [OF j(1)] np j(2) by simp
    have "j \<le> cur s v"
    proof (cases j)
      case (Suc k)
      then have "k < length (rels tr v)" "rels tr v ! k < p" using acq_rel [OF law, of k v] j by auto
      then show ?thesis using ord(6) [of k] all Suc by auto
    qed simp
    with le ord(1) have "j = cur s v" "got tr s v = cur s v" by linarith+
    with j have "turn tr s p" by (auto simp: turn_def intro!: exI [of _ v])
    then have "at_sem tr s p \<or> at_pnd tr s p" using tk(1) ns by (auto simp: at_sig_def)
    then show ?thesis using x rinvD(5) [OF i, of t] ne p(2) Acq by (auto simp: can_go_def at_sem_def at_pnd_def)
  qed
qed

lemma progress:
  assumes law: "lawful tr (\<lambda>_. None)" and i: "rinv tr s" and ne: "rem s t0 \<noteq> []"
  shows "\<exists>t. can_go tr s t"
proof (cases "\<exists>u. ph s u = Got \<or> (\<exists>e. ph s u = Sig e)")
  case True
  then obtain u where u: "ph s u = Got \<or> (\<exists>e. ph s u = Sig e)" by blast
  then have "rem s u \<noteq> []" using rinvD(3,4) [OF i, of u] by auto
  with u show ?thesis by (auto simp: can_go_def)
next
  case False
  then have x: "ph s u = Ready \<or> ph s u = Peeked" for u by (cases "ph s u") auto
  let ?P = "\<lambda>p. p \<in> set (rem s (th tr p))"
  obtain p0 where "p0 \<in> set (rem s t0)" using ne by (cases "rem s t0") auto
  then have ex: "?P p0" using rem_facts(3) [OF i] by metis
  define p where "p = (LEAST p. ?P p)"
  have p: "?P p" unfolding p_def by (rule LeastI [of ?P, OF ex])
  have least: "\<not> ?P q" if "q < p" for q using that unfolding p_def by (rule not_less_Least)
  obtain q ps where r: "rem s (th tr p) = q # ps" using p by (cases "rem s (th tr p)") auto
  have "q \<le> p" using p r rem_facts(2) [OF i, of "th tr p"] by auto
  moreover have "th tr q = th tr p" using rem_facts(3) [OF i, of q "th tr p"] r by simp
  ultimately have "q = p" using least [of q] r by (cases "q = p") auto
  then have "can_go tr s (th tr p)"
    using r x least False by (intro can_go_past [OF law i]) (auto simp: past_def)
  then show ?thesis by blast
qed

section \<open>Every run ends\<close>

definition left :: "('t, 'v) rst \<Rightarrow> 't \<Rightarrow> nat" where
  "left s t = 3 * length (rem s t) - (case ph s t of Ready \<Rightarrow> 0 | Peeked \<Rightarrow> 1 | Got \<Rightarrow> 2 | Sig e \<Rightarrow> 1)"

definition total :: "('t, 'v) trace \<Rightarrow> ('t, 'v) rst \<Rightarrow> nat" where
  "total tr s = (\<Sum>t\<in>fst ` set tr. left s t)"

lemma total_less:
  assumes i: "rinv tr s" and h: "rem s t = p # ps" and l: "left s' t < left s t" and o: "\<And>u. u \<noteq> t \<Longrightarrow> left s' u = left s u"
  shows "total tr s' < total tr s"
proof -
  have "p < length tr" "th tr p = t" using rem_facts(3) [OF i, of p t] h by auto
  then have "t \<in> fst ` set tr" by (auto simp: th_def)
  moreover have "left s' u \<le> left s u" for u using l o [of u] by (cases "u = t") auto
  ultimately show ?thesis unfolding total_def using l by (intro sum_strict_mono_ex1) auto
qed

lemma rstep_total:
  assumes "rinv tr s" and "rstep tr s s'"
  shows "total tr s' < total tr s"
  using assms(2) by cases (auto simp: left_def intro!: total_less [OF assms(1)])

lemma total_start: "starts tr s \<Longrightarrow> total tr s = 3 * length tr"
proof -
  assume st: "starts tr s"
  have "left s t = 3 * length (prog tr t)" for t using st by (simp add: left_def starts_def)
  then have "total tr s = 3 * (\<Sum>t\<in>fst ` set tr. length (prog tr t))" by (simp add: total_def sum_distrib_left)
  also have "(\<Sum>t\<in>fst ` set tr. length (prog tr t)) = length tr"
  proof -
    have "length (prog tr t) = card {p\<in>{0..<length tr}. th tr p = t}" for t
      by (metis prog_def distinct_card distinct_filter distinct_upt set_filter set_upt)
    then have "(\<Sum>t\<in>fst ` set tr. length (prog tr t)) = (\<Sum>t\<in>fst ` set tr. \<Sum>p\<in>{p\<in>{0..<length tr}. th tr p = t}. 1)"
      by simp
    also have "\<dots> = (\<Sum>p\<in>{0..<length tr}. 1)"
      by (rule sum.group) (auto simp: th_def)
    finally show ?thesis by simp
  qed
  finally show ?thesis .
qed

lemma run_length:
  assumes law: "lawful tr (\<lambda>_. None)" and "starts tr s0" and "(rstep tr ^^ n) s0 s"
  shows "n + total tr s \<le> 3 * length tr"
  using assms(3)
proof (induction n arbitrary: s)
  case 0 then show ?case using total_start [OF assms(2)] by simp
next
  case (Suc n)
  then obtain s1 where s1: "(rstep tr ^^ n) s0 s1" "rstep tr s1 s" by auto
  have "rinv tr s1" by (rule rinv_reachable [OF law assms(2)]) (use s1(1) in \<open>auto simp: rtranclp_power\<close>)
  with rstep_total [OF _ s1(2)] Suc.IH [OF s1(1)] show ?case by simp
qed

end
