(* ===== verification/Sync_Replay.thy ===== *)
theory Sync_Replay
  imports Sync_Events Replay_Protocol
begin

text \<open>
  The replay of synchronisations refines the protocol of \<open>Replay_Protocol\<close>. \<open>record_trace\<close> is the
  recording of one epoch, \<open>prepare_replay\<close> the preparation of the rollback, and \<open>replay_step\<close> lets
  the threads interleave: a lock is three steps (look up the event and claim a pending token, wait
  on the semaphore, advance) and an unlock two (advance the list of the variable, hand the token
  over), because these are the pieces the code protects by a lock.

  The locale \<open>cell_heap\<close> is what this needs of the runtime's heap: a new cell is not in use.
\<close>

section \<open>Threads that replay\<close>

datatype cphase = CReady | CPeeked | CGot | CSig u64

record 'h cfg =
  c_rt :: "'h rt"
  c_rem :: "u64 \<Rightarrow> u64 act list"
  c_ph :: "u64 \<Rightarrow> cphase"
  c_log :: "(u64 \<times> u64) list"

inductive replay_step :: "(u64 \<Rightarrow> 'h im_fun) \<Rightarrow> (u64 \<Rightarrow> 'h fr_fun) \<Rightarrow> 'h cfg \<Rightarrow> 'h cfg \<Rightarrow> bool" for im fr where
  lock_peek: "c_ph c t = CReady \<Longrightarrow> c_rem c t = Acq v # as \<Longrightarrow> peekSyncEvent (fr t) v t (c_rt c) = Some (Ok (ret, s)) \<Longrightarrow>
    replay_step im fr c (c\<lparr>c_rt := s, c_ph := (c_ph c)(t := if ret = 0 then CPeeked else CGot)\<rparr>)"
| lock_wait: "c_ph c t = CPeeked \<Longrightarrow> c_rem c t = Acq v # as \<Longrightarrow> waitSemaphore t (c_rt c) = Some s \<Longrightarrow>
    replay_step im fr c (c\<lparr>c_rt := s, c_ph := (c_ph c)(t := CGot), c_log := c_log c @ [(t, v)]\<rparr>)"
| lock_advance: "c_ph c t = CGot \<Longrightarrow> c_rem c t = Acq v # as \<Longrightarrow>
    replay_step im fr c (c\<lparr>c_rt := advanceThreadSyncList t (c_rt c), c_ph := (c_ph c)(t := CReady), c_rem := (c_rem c)(t := as)\<rparr>)"
| unlock_last: "c_ph c t = CReady \<Longrightarrow> c_rem c t = Rel v # as \<Longrightarrow> advanceSyncEvent v (c_rt c) = Ok (0, s) \<Longrightarrow>
    replay_step im fr c (c\<lparr>c_rt := s, c_rem := (c_rem c)(t := as)\<rparr>)"
| unlock: "c_ph c t = CReady \<Longrightarrow> c_rem c t = Rel v # as \<Longrightarrow> advanceSyncEvent v (c_rt c) = Ok (e, s) \<Longrightarrow> e \<noteq> 0 \<Longrightarrow>
    replay_step im fr c (c\<lparr>c_rt := s, c_ph := (c_ph c)(t := CSig e)\<rparr>)"
| unlock_signal: "c_ph c t = CSig e \<Longrightarrow> c_rem c t = Rel v # as \<Longrightarrow> signalNextThread (im t) e (c_rt c) = Some (Ok s) \<Longrightarrow>
    replay_step im fr c (c\<lparr>c_rt := s, c_ph := (c_ph c)(t := CReady), c_rem := (c_rem c)(t := as)\<rparr>)"

text \<open>The heap of the runtime is exhausted when a thread hands over a token.\<close>

definition out_of_memory :: "(u64 \<Rightarrow> 'h im_fun) \<Rightarrow> 'h cfg \<Rightarrow> bool" where
  "out_of_memory im c \<longleftrightarrow> (\<exists>t q x. c_ph c t = CSig q \<and> signalNextThread (im t) q (c_rt c) = Some (Err x) \<and> im t 24 (r_heap (c_rt c)) = Err x)"

section \<open>Recording and preparing\<close>

fun record_act :: "u64 \<times> u64 act \<Rightarrow> 'h rt \<Rightarrow> 'h rt res" where
  "record_act (t, Acq v) s = recordSyncEvent v t E_SYNC_MUTEX_LOCK 0 s"
| "record_act (t, Rel v) s = Ok s"

primrec record_trace :: "(u64, u64) trace \<Rightarrow> 'h rt \<Rightarrow> 'h rt res" where
  "record_trace [] s = Ok s"
| "record_trace (x # tr) s = rbind (record_act x s) (record_trace tr)"

text \<open>
  After the threads, every registered variable, and the list of thread creations, gives out its first
  turn.
\<close>

definition prepare_replay :: "'h im_fun \<Rightarrow> u64 list \<Rightarrow> u64 \<Rightarrow> 'h rt \<Rightarrow> 'h rt res option" where
  "prepare_replay im ts spawningList s =
     obind (xsync_prepareRollback im (prepareRollbackAlivethreads ts s)) (prepareEventListRollback im spawningList)"

text \<open>What a thread does, and a replay that is ready to begin.\<close>

definition thread_acts :: "(u64, u64) trace \<Rightarrow> u64 \<Rightarrow> u64 act list" where
  "thread_acts tr t = map snd (filter (\<lambda>x. fst x = t) tr)"

definition replay_of :: "'h im_fun \<Rightarrow> u64 list \<Rightarrow> u64 \<Rightarrow> (u64, u64) trace \<Rightarrow> 'h rt \<Rightarrow> 'h cfg \<Rightarrow> bool" where
  "replay_of im ts spawningList tr s0 c \<longleftrightarrow> (\<exists>s1 s2. record_trace tr s0 = Ok s1 \<and> prepare_replay im ts spawningList s1 = Some (Ok s2) \<and>
     c = \<lparr>c_rt = s2, c_rem = thread_acts tr, c_ph = (\<lambda>_. CReady), c_log = []\<rparr>)"

text \<open>The acquisitions of a variable in the recorded run, in their order.\<close>

definition acquisitions :: "(u64, u64) trace \<Rightarrow> u64 \<Rightarrow> (u64 \<times> u64) list" where
  "acquisitions tr v = map (\<lambda>x. (fst x, v)) (filter (\<lambda>x. snd x = Acq v) tr)"

section \<open>What the recording leaves\<close>

abbreviation pool :: "'h rt \<Rightarrow> u64 \<Rightarrow> unit entries" where
  "pool s t \<equiv> t_syncevents (r_thread s t)"

abbreviation pend :: "'h rt \<Rightarrow> u64 \<Rightarrow> u64" where
  "pend s t \<equiv> t_pendingSyncevents (r_thread s t)"

definition thr :: "(u64, u64) trace \<Rightarrow> u64 set" where "thr tr = fst ` set tr"

definition acq_set :: "('t, 'v) trace \<Rightarrow> nat set" where "acq_set tr = {p. p < length tr \<and> is_acq (ac tr p)}"

definition tacq :: "('t, 'v) trace \<Rightarrow> 't \<Rightarrow> nat list" where
  "tacq tr t = filter (\<lambda>p. is_acq (ac tr p)) (prog tr t)"

definition avar :: "'v act \<Rightarrow> 'v" where "avar a = (case a of Acq v \<Rightarrow> v | Rel v \<Rightarrow> v)"

text \<open>
  \<open>ea p\<close> is the address of the event of the acquisition at position \<open>p\<close>; \<open>F\<close> holds all addresses
  that are not cells of the heap.
\<close>

definition recorded :: "(u64, u64) trace \<Rightarrow> (nat \<Rightarrow> u64) \<Rightarrow> u64 set \<Rightarrow> 'h rt \<Rightarrow> bool" where
  "recorded tr ea F s \<longleftrightarrow>
     (\<forall>v. acqs tr v \<noteq> [] \<longrightarrow> v \<in> F \<and> v \<notin> pend s ` thr tr \<and> is_list (r_nodes s) v (map ea (acqs tr v))) \<and>
     (\<forall>p\<in>acq_set tr. ea p \<in> F \<and> ea p \<notin> pend s ` thr tr \<and> ea p \<noteq> 0 \<and>
       r_event s (ea p) = \<lparr>ev_thread = th tr p, ev_list = avar (ac tr p), ev_ret = 0\<rparr>) \<and>
     inj_on ea (acq_set tr) \<and> pend s ` thr tr \<subseteq> F \<and> inj_on (pend s) (thr tr) \<and>
     (\<forall>t\<in>thr tr. re_ok SYNC_EVENT_SIZE (pool s t) \<and> unat (re_cur (pool s t)) = length (tacq tr t) \<and>
       (\<forall>i<length (tacq tr t). ea (tacq tr t ! i) = re_getEntry SYNC_EVENT_SIZE (of_nat i) (pool s t)))"

definition waiting :: "(u64, u64) trace \<Rightarrow> (nat \<Rightarrow> u64) \<Rightarrow> u64 set \<Rightarrow> (u64 \<Rightarrow> u64 list) \<Rightarrow> 'h rt \<Rightarrow> (u64 \<Rightarrow> nat list) \<Rightarrow> bool" where
  "waiting tr ea F ps s pn \<longleftrightarrow>
     (\<forall>t\<in>thr tr. is_list (r_nodes s) (pend s t) (ps t) \<and> map (r_pe s) (ps t) = map ea (pn t) \<and> set (ps t) \<inter> F = {} \<and>
       set (pn t) \<subseteq> acq_set tr) \<and>
     (\<forall>t\<in>thr tr. \<forall>u\<in>thr tr. t \<noteq> u \<longrightarrow> set (ps t) \<inter> set (ps u) = {})"

definition counting :: "(u64, u64) trace \<Rightarrow> 'h rt \<Rightarrow> (u64 \<Rightarrow> nat) \<Rightarrow> (u64 \<Rightarrow> nat) \<Rightarrow> bool" where
  "counting tr s sm it \<longleftrightarrow> (\<forall>t\<in>thr tr. t_sema (r_thread s t) = int (sm t) \<and>
     unat (re_iter (pool s t)) = it t \<and> it t \<le> length (tacq tr t))"

definition turns :: "(u64, u64) trace \<Rightarrow> (nat \<Rightarrow> u64) \<Rightarrow> u64 set \<Rightarrow> 'h rt \<Rightarrow> (u64 \<Rightarrow> nat) \<Rightarrow> bool" where
  "turns tr ea W s cu \<longleftrightarrow> (\<forall>v\<in>W. acqs tr v \<noteq> [] \<longrightarrow> sl_curentry (r_evlist s v) =
     (if cu v < length (acqs tr v) then ea (acqs tr v ! cu v) else 0))"

definition cells :: "(u64, u64) trace \<Rightarrow> (u64 \<Rightarrow> u64 list) \<Rightarrow> u64 set" where
  "cells tr ps = (\<Union>t\<in>thr tr. set (ps t))"

definition rtsim :: "(u64 set \<Rightarrow> u64 set \<Rightarrow> 'h \<Rightarrow> bool) \<Rightarrow> (u64, u64) trace \<Rightarrow> (nat \<Rightarrow> u64) \<Rightarrow> u64 set \<Rightarrow> u64 set \<Rightarrow> 'h rt \<Rightarrow>
    (u64 \<Rightarrow> nat list) \<Rightarrow> (u64 \<Rightarrow> nat) \<Rightarrow> (u64 \<Rightarrow> nat) \<Rightarrow> (u64 \<Rightarrow> nat) \<Rightarrow> bool" where
  "rtsim hinv tr ea F W s pn sm it cu \<longleftrightarrow> recorded tr ea F s \<and> counting tr s sm it \<and> turns tr ea W s cu \<and>
     (\<exists>ps. waiting tr ea F ps s pn \<and> hinv (cells tr ps) F (r_heap s))"

lemmas rt_sets = set_thread_def set_evlist_def set_event_def set_nodes_def

section \<open>Facts about traces and pools\<close>

lemma thrI: "p < length tr \<Longrightarrow> th tr p \<in> thr tr"
  by (auto simp: thr_def th_def)

lemma tacq_set: "set (tacq tr t) = {p\<in>acq_set tr. th tr p = t}"
  by (auto simp: tacq_def prog_def acq_set_def)

lemma acqs_set: "set (acqs tr v) = {p. p < length tr \<and> ac tr p = Acq v}"
  by (auto simp: acqs_def)

lemma distinct_tacq [simp]: "distinct (tacq tr t)"
  by (simp add: tacq_def)

lemma avar_simps [simp]: "avar (Acq v) = v" "avar (Rel v) = v"
  by (simp_all add: avar_def)

lemma acqs_acq_set: "j < length (acqs tr v) \<Longrightarrow> acqs tr v ! j \<in> acq_set tr"
  using acqs_less [of j tr v] acqs_ac [of j tr v] by (simp add: acq_set_def)

lemma firstIterEntry_eq:
  assumes ok: "re_ok esz r" and n: "unat (re_cur r) = n" and it: "unat (re_iter r) \<le> n" and i: "i < n"
  shows "re_getEntry esz (of_nat i) r = firstIterEntry esz r \<longleftrightarrow> i = unat (re_iter r)"
proof -
  have le: "n \<le> unat (re_total r)" using ok n by (simp add: re_ok_def word_le_nat_alt)
  have f: "firstIterEntry esz r = re_getEntry esz (of_nat (unat (re_iter r))) r"
    by (simp add: firstIterEntry_def re_getEntry_def)
  show ?thesis
  proof (cases "unat (re_iter r) < unat (re_total r)")
    case True
    then show ?thesis using getEntry_inj [OF ok, of i "unat (re_iter r)"] i le f by simp
  next
    case False
    then have e: "unat (re_iter r) = unat (re_total r)" using it le by simp
    let ?x = "unat (re_start r) + unat (re_total r) * unat esz"
    have b: "?x \<le> 2 ^ 64" "0 < unat esz" "re_start r \<noteq> 0" using ok by (simp_all add: re_ok_def)
    have fx: "unat (firstIterEntry esz r) = ?x mod 2 ^ 64"
      by (simp add: firstIterEntry_def unat_word_ariths e mod_add_right_eq)
    have gi: "unat (re_getEntry esz (of_nat i) r) = unat (re_start r) + i * unat esz"
      using unat_getEntry [OF ok, of i] i le by simp
    have "i * unat esz < unat (re_total r) * unat esz" using i le b(2) by simp
    moreover have "?x mod 2 ^ 64 = (if ?x = 2 ^ 64 then 0 else ?x)" using b(1) by simp
    moreover have "unat (re_start r) \<noteq> 0" using b(3) by (simp add: unat_eq_zero)
    ultimately have "unat (re_getEntry esz (of_nat i) r) \<noteq> unat (firstIterEntry esz r)"
      unfolding fx gi by (simp split: if_splits)
    then show ?thesis using i False le by auto
  qed
qed

lemma recorded_frame:
  assumes r: "recorded tr ea F s" and "r_event s' = r_event s"
    and t: "\<And>t. t \<in> thr tr \<Longrightarrow> pend s' t = pend s t \<and> (\<exists>i. pool s' t = (pool s t)\<lparr>re_iter := i\<rparr>)"
    and n: "\<And>a. a \<in> F \<Longrightarrow> a \<notin> pend s ` thr tr \<Longrightarrow> r_nodes s' a = r_nodes s a"
  shows "recorded tr ea F s'"
proof -
  have pd: "pend s' ` thr tr = pend s ` thr tr" using t by force
  have re: "re_ok SYNC_EVENT_SIZE (pool s' t) = re_ok SYNC_EVENT_SIZE (pool s t)" "re_cur (pool s' t) = re_cur (pool s t)"
      "re_getEntry SYNC_EVENT_SIZE i (pool s' t) = re_getEntry SYNC_EVENT_SIZE i (pool s t)" if "t \<in> thr tr" for t i
    using t [OF that] by (auto simp: re_ok_def re_getEntry_def)
  have "is_list (r_nodes s') v (map ea (acqs tr v))" if v: "acqs tr v \<noteq> []" for v
  proof (rule is_list_same)
    show "is_list (r_nodes s) v (map ea (acqs tr v))" using r v by (simp add: recorded_def)
    fix a assume "a \<in> set (v # map ea (acqs tr v))"
    then have "a = v \<or> (\<exists>p\<in>acq_set tr. a = ea p)" by (auto simp: acqs_set acq_set_def)
    then show "r_nodes s' a = r_nodes s a" using r v unfolding recorded_def by (intro n) metis+
  qed
  moreover have "inj_on (pend s') (thr tr) = inj_on (pend s) (thr tr)" by (rule inj_on_cong) (use t in blast)
  ultimately show ?thesis using r assms(2) re unfolding recorded_def pd by auto
qed

lemma waitingD:
  assumes "waiting tr ea F ps s pn" and "t \<in> thr tr"
  shows "is_list (r_nodes s) (pend s t) (ps t)" and "map (r_pe s) (ps t) = map ea (pn t)" and "set (ps t) \<inter> F = {}"
    and "set (pn t) \<subseteq> acq_set tr" and "u \<in> thr tr \<Longrightarrow> u \<noteq> t \<Longrightarrow> x \<in> set (ps t) \<Longrightarrow> x \<notin> set (ps u)"
  using assms unfolding waiting_def by blast+

lemma waiting_frame:
  assumes w: "waiting tr ea F ps s pn" and "pend s ` thr tr \<subseteq> F" and "\<And>t. t \<in> thr tr \<Longrightarrow> pend s' t = pend s t"
    and "\<And>a. a \<in> cells tr ps \<union> pend s ` thr tr \<Longrightarrow> r_nodes s' a = r_nodes s a"
    and "\<And>a. a \<in> cells tr ps \<Longrightarrow> r_pe s' a = r_pe s a"
  shows "waiting tr ea F ps s' pn"
proof -
  have "is_list (r_nodes s') (pend s' t) (ps t) \<and> map (r_pe s') (ps t) = map ea (pn t)" if t: "t \<in> thr tr" for t
  proof
    have "is_list (r_nodes s) (pend s t) (ps t)" "map (r_pe s) (ps t) = map ea (pn t)" using w t by (simp_all add: waiting_def)
    moreover have "set (ps t) \<subseteq> cells tr ps" using t by (auto simp: cells_def)
    ultimately show "is_list (r_nodes s') (pend s' t) (ps t)" "map (r_pe s') (ps t) = map ea (pn t)"
      using assms(3-5) t by (auto intro!: is_list_same [of "r_nodes s"] simp: subset_iff cong: map_cong)
  qed
  then show ?thesis using w by (simp add: waiting_def)
qed

lemma rtsim_set_thread:
  assumes r: "rtsim hinv tr ea F W s pn sm it cu" and t: "t \<in> thr tr"
    and f: "t_pendingSyncevents (f (r_thread s t)) = pend s t" "t_syncevents (f (r_thread s t)) = (pool s t)\<lparr>re_iter := i\<rparr>"
      "unat i = n" "n \<le> length (tacq tr t)" "t_sema (f (r_thread s t)) = int m"
  shows "rtsim hinv tr ea F W (set_thread t f s) pn (sm(t := m)) (it(t := n)) cu"
proof -
  let ?s = "set_thread t f s"
  have p: "pend ?s u = pend s u" "\<exists>j. pool ?s u = (pool s u)\<lparr>re_iter := j\<rparr>" for u
    using f(1,2) by (auto simp: set_thread_def intro: exI [of _ "re_iter (pool s u)"])
  have o: "r_event ?s = r_event s" "r_nodes ?s = r_nodes s" "r_heap ?s = r_heap s" "r_evlist ?s = r_evlist s" "r_pe ?s = r_pe s"
    by (simp_all add: set_thread_def)
  have "recorded tr ea F ?s" by (rule recorded_frame) (use r p o in \<open>auto simp: rtsim_def\<close>)
  moreover have "counting tr ?s (sm(t := m)) (it(t := n))"
    using r f by (auto simp: rtsim_def counting_def set_thread_def)
  moreover have "turns tr ea W ?s cu" using r by (simp add: rtsim_def turns_def o)
  moreover have "waiting tr ea F ps ?s pn" if "waiting tr ea F ps s pn" for ps
    by (rule waiting_frame [OF that]) (use r p o in \<open>auto simp: rtsim_def recorded_def\<close>)
  ultimately show ?thesis using r unfolding rtsim_def o by blast
qed

lemma rtsimD:
  assumes "rtsim hinv tr ea F W s pn sm it cu" and "t \<in> thr tr"
  shows "t_sema (r_thread s t) = int (sm t)" "unat (re_iter (pool s t)) = it t" "it t \<le> length (tacq tr t)"
    "re_ok SYNC_EVENT_SIZE (pool s t)" "unat (re_cur (pool s t)) = length (tacq tr t)"
    "i < length (tacq tr t) \<Longrightarrow> ea (tacq tr t ! i) = re_getEntry SYNC_EVENT_SIZE (of_nat i) (pool s t)"
  using assms by (auto simp: rtsim_def counting_def recorded_def)

lemma rtsim_event:
  assumes "rtsim hinv tr ea F W s pn sm it cu" and "p \<in> acq_set tr"
  shows "ea p \<noteq> 0" and "r_event s (ea p) = \<lparr>ev_thread = th tr p, ev_list = avar (ac tr p), ev_ret = 0\<rparr>"
  using assms by (auto simp: rtsim_def recorded_def)

lemma it_eq: "(it :: u64 \<Rightarrow> nat)(t := it t) = it" by simp

lemma wait_sim:
  assumes r: "rtsim hinv tr ea F W s pn sm it cu" and t: "t \<in> thr tr"
  shows "sm t = 0 \<Longrightarrow> waitSemaphore t s = None"
    and "sm t = Suc n \<Longrightarrow> \<exists>s'. waitSemaphore t s = Some s' \<and> rtsim hinv tr ea F W s' pn (sm(t := n)) it cu"
proof -
  note d = rtsimD [OF r t]
  show "sm t = 0 \<Longrightarrow> waitSemaphore t s = None" using d(1) by (simp add: waitSemaphore_def sema_get_def sema_set_def)
  assume n: "sm t = Suc n"
  then have "waitSemaphore t s = Some (set_thread t (\<lambda>x. x\<lparr>t_sema := int n\<rparr>) s)"
    using d(1) by (simp add: waitSemaphore_def sema_get_def sema_set_def)
  moreover have "rtsim hinv tr ea F W (set_thread t (\<lambda>x. x\<lparr>t_sema := int n\<rparr>) s) pn (sm(t := n)) (it(t := it t)) cu"
    by (rule rtsim_set_thread [OF r t, where i = "re_iter (pool s t)"]) (use d in auto)
  ultimately show "\<exists>s'. waitSemaphore t s = Some s' \<and> rtsim hinv tr ea F W s' pn (sm(t := n)) it cu" by simp
qed

lemma signal_sim:
  assumes r: "rtsim hinv tr ea F W s pn sm it cu" and t: "t \<in> thr tr"
  shows "\<exists>f. signalThread t s = Some (set_thread t f s) \<and>
    rtsim hinv tr ea F W (set_thread t f s) pn (sm(t := Suc (sm t))) it cu"
proof -
  note d = rtsimD [OF r t]
  let ?f = "\<lambda>x. x\<lparr>t_sema := int (Suc (sm t))\<rparr> :: thread_t"
  have "signalThread t s = Some (set_thread t ?f s)"
    using d(1) by (simp add: signalThread_def sema_put_def sema_set_def add.commute)
  moreover have "rtsim hinv tr ea F W (set_thread t ?f s) pn (sm(t := Suc (sm t))) (it(t := it t)) cu"
    by (rule rtsim_set_thread [OF r t, where i = "re_iter (pool s t)"]) (use d in auto)
  ultimately show ?thesis unfolding it_eq by blast
qed

lemma advance_sim:
  assumes r: "rtsim hinv tr ea F W s pn sm it cu" and t: "t \<in> thr tr" and lt: "it t < length (tacq tr t)"
  shows "rtsim hinv tr ea F W (advanceThreadSyncList t s) pn sm (it(t := Suc (it t))) cu"
proof -
  note d = rtsimD [OF r t]
  have "re_iter (pool s t) < re_cur (pool s t)" using d lt by (simp add: word_less_nat_alt)
  then have "unat (re_iter (pool s t) + 1) = Suc (it t)" using unat_inc d(2) by simp
  then have "rtsim hinv tr ea F W (advanceThreadSyncList t s) pn (sm(t := sm t)) (it(t := Suc (it t))) cu"
    unfolding advanceThreadSyncList_def
    by (intro rtsim_set_thread [OF r t, where i = "re_iter (pool s t) + 1"]) (use d lt in \<open>auto simp: advanceEntry_def\<close>)
  then show ?thesis by simp
qed

lemma peek_event:
  assumes r: "rtsim hinv tr ea F W s pn sm it cu" and t: "t \<in> thr tr" and lt: "it t < length (tacq tr t)"
  shows "re_peek SYNC_EVENT_SIZE (pool s t) = ea (tacq tr t ! it t)"
proof -
  note d = rtsimD [OF r t]
  have "re_iter (pool s t) < re_cur (pool s t)" using d lt by (simp add: word_less_nat_alt)
  then show ?thesis using d(6) [OF lt] by (simp add: re_peek_def d(2) [symmetric])
qed

lemma next_event:
  assumes r: "rtsim hinv tr ea F W s pn sm it cu" and p: "p \<in> acq_set tr"
  shows "isThreadNextEvent (ea p) (th tr p) s \<longleftrightarrow> it (th tr p) < length (tacq tr (th tr p)) \<and> tacq tr (th tr p) ! it (th tr p) = p"
proof -
  let ?t = "th tr p"
  have t: "?t \<in> thr tr" using p by (auto simp: acq_set_def thrI)
  note d = rtsimD [OF r t]
  obtain i where i: "i < length (tacq tr ?t)" "tacq tr ?t ! i = p"
  proof -
    have "p \<in> set (tacq tr ?t)" using p by (simp add: tacq_set)
    then show ?thesis using that by (auto simp: in_set_conv_nth)
  qed
  then have "isThreadNextEvent (ea p) ?t s \<longleftrightarrow> i = it ?t"
    using firstIterEntry_eq [OF d(4,5) _ i(1)] d(2,3) d(6) [OF i(1)] i(2) by (auto simp: isThreadNextEvent_def)
  also have "\<dots> \<longleftrightarrow> it ?t < length (tacq tr ?t) \<and> tacq tr ?t ! it ?t = p"
    using i nth_eq_iff_index_eq [OF distinct_tacq, of i tr ?t "it ?t"] by auto
  finally show ?thesis .
qed

lemma pool_self: "\<exists>i. r = r\<lparr>re_iter := i\<rparr>" for r :: "'e entries"
  by (rule exI [of _ "re_iter r"]) simp

lemma rtsim_set_evlist:
  assumes r: "rtsim hinv tr ea F W s pn sm it cu" and "turns tr ea W' (set_evlist v f s) cu'"
  shows "rtsim hinv tr ea F W' (set_evlist v f s) pn sm it cu'"
proof -
  let ?s = "set_evlist v f s"
  have o: "r_event ?s = r_event s" "r_nodes ?s = r_nodes s" "r_heap ?s = r_heap s" "r_thread ?s = r_thread s" "r_pe ?s = r_pe s"
    by (simp_all add: set_evlist_def)
  have "recorded tr ea F ?s" by (rule recorded_frame [of _ _ _ s]) (use r in \<open>simp_all add: rtsim_def o pool_self\<close>)
  moreover have "waiting tr ea F ps ?s pn = waiting tr ea F ps s pn" for ps by (simp add: waiting_def o)
  ultimately show ?thesis using assms unfolding rtsim_def o by (simp add: counting_def o)
qed

lemma release_sim:
  assumes r: "rtsim hinv tr ea F W s pn sm it cu" and v: "v \<in> W" "cu v < length (acqs tr v)"
  shows "\<exists>s'. advanceSyncEvent v s = Ok (if Suc (cu v) < length (acqs tr v) then ea (acqs tr v ! Suc (cu v)) else 0, s') \<and>
    rtsim hinv tr ea F W s' pn sm it (cu(v := Suc (cu v)))"
proof -
  let ?xs = "map ea (acqs tr v)" and ?c = "if Suc (cu v) < length (acqs tr v) then ea (acqs tr v ! Suc (cu v)) else 0"
  let ?s = "set_evlist v (\<lambda>l. l\<lparr>sl_curentry := ?c\<rparr>) s"
  have ne: "acqs tr v \<noteq> []" using v(2) by auto
  have cur: "sl_curentry (r_evlist s v) = ea (acqs tr v ! cu v)" using r v ne by (auto simp: rtsim_def turns_def)
  have l: "is_list (r_nodes s) v ?xs" using r ne by (auto simp: rtsim_def recorded_def)
  have sp: "?xs = take (cu v) ?xs @ ea (acqs tr v ! cu v) # drop (Suc (cu v)) ?xs"
    using id_take_nth_drop [of "cu v" ?xs] v(2) by simp
  have nx: "nxt (r_nodes s (ea (acqs tr v ! cu v))) = hd (drop (Suc (cu v)) ?xs @ [v])"
    using is_list_succ(1) l sp by metis
  have "v \<notin> set ?xs" using l by (simp add: is_list_def)
  then have "ea (acqs tr v ! Suc (cu v)) \<noteq> v" if "Suc (cu v) < length (acqs tr v)" using that by (metis length_map nth_map nth_mem)
  then have "advanceSyncEvent v s = Ok (?c, ?s)"
    using cur nx rtsim_event(1) [OF r acqs_acq_set [OF v(2)]]
    by (cases "Suc (cu v) < length (acqs tr v)") (auto simp: advanceSyncEvent_def Let_def isListTail_def nextEntry_def hd_append hd_drop_conv_nth)
  moreover have "turns tr ea W ?s (cu(v := Suc (cu v)))" using r by (auto simp: rtsim_def turns_def set_evlist_def)
  note rtsim_set_evlist [OF r this]
  ultimately show ?thesis by blast
qed

section \<open>The two states\<close>

definition itn :: "(u64, u64) trace \<Rightarrow> (u64, u64) rst \<Rightarrow> u64 \<Rightarrow> nat" where
  "itn tr a t = length (tacq tr t) - length (filter (\<lambda>p. is_acq (ac tr p)) (rem a t))"

definition cph :: "(nat \<Rightarrow> u64) \<Rightarrow> phase \<Rightarrow> cphase" where
  "cph ea x = (case x of Ready \<Rightarrow> CReady | Peeked \<Rightarrow> CPeeked | Got \<Rightarrow> CGot | Sig e \<Rightarrow> CSig (ea e))"

definition sim :: "(u64 set \<Rightarrow> u64 set \<Rightarrow> 'h \<Rightarrow> bool) \<Rightarrow> (u64, u64) trace \<Rightarrow> (nat \<Rightarrow> u64) \<Rightarrow> u64 set \<Rightarrow> 'h cfg \<Rightarrow> (u64, u64) rst \<Rightarrow> bool" where
  "sim hinv tr ea F c a \<longleftrightarrow> rtsim hinv tr ea F UNIV (c_rt c) (pnd a) (sem a) (itn tr a) (cur a) \<and>
     (\<forall>t. c_rem c t = map (ac tr) (rem a t) \<and> c_ph c t = cph ea (ph a t)) \<and>
     c_log c = map (\<lambda>p. (th tr p, avar (ac tr p))) (log a)"

lemma cph_simps [simp]: "cph ea Ready = CReady" "cph ea Peeked = CPeeked" "cph ea Got = CGot" "cph ea (Sig e) = CSig (ea e)"
    "CReady = cph ea x \<longleftrightarrow> x = Ready" "CPeeked = cph ea x \<longleftrightarrow> x = Peeked" "CGot = cph ea x \<longleftrightarrow> x = Got"
    "cph ea x = CReady \<longleftrightarrow> x = Ready" "cph ea x = CPeeked \<longleftrightarrow> x = Peeked" "cph ea x = CGot \<longleftrightarrow> x = Got"
    "cph ea x = CSig q \<longleftrightarrow> (\<exists>e. x = Sig e \<and> q = ea e)"
  by (auto simp: cph_def split: phase.splits)

lemma acq_filter_rem:
  assumes "rinv tr a"
  shows "tacq tr t = take (itn tr a t) (tacq tr t) @ filter (\<lambda>p. is_acq (ac tr p)) (rem a t)" and "itn tr a t \<le> length (tacq tr t)"
proof -
  obtain k where k: "rem a t = drop k (prog tr t)" using rinvD(1) [OF assms] by blast
  have "tacq tr t = filter (\<lambda>p. is_acq (ac tr p)) (take k (prog tr t)) @ filter (\<lambda>p. is_acq (ac tr p)) (rem a t)"
    by (simp add: tacq_def k filter_append [symmetric])
  then show "tacq tr t = take (itn tr a t) (tacq tr t) @ filter (\<lambda>p. is_acq (ac tr p)) (rem a t)"
    by (simp add: itn_def)
  show "itn tr a t \<le> length (tacq tr t)" by (simp add: itn_def)
qed

lemma acq_filter_length: "rinv tr a \<Longrightarrow> length (filter (\<lambda>p. is_acq (ac tr p)) (rem a t)) \<le> length (tacq tr t)"
  for tr :: "(u64, u64) trace"
  using arg_cong [OF acq_filter_rem(1) [of tr a t], of length] by simp

lemma itn_next:
  assumes "rinv tr a"
  shows "nxa tr (rem a t) = Some p \<longleftrightarrow> itn tr a t < length (tacq tr t) \<and> tacq tr t ! itn tr a t = p"
proof -
  let ?f = "filter (\<lambda>p. is_acq (ac tr p)) (rem a t)"
  have n: "nxa tr xs = (case filter (\<lambda>p. is_acq (ac tr p)) xs of [] \<Rightarrow> None | p # _ \<Rightarrow> Some p)" for xs
    by (induction xs) (auto simp: nxa_def split: list.splits)
  note e = acq_filter_rem [OF assms, of t]
  have "length (take (itn tr a t) (tacq tr t)) = itn tr a t" using e(2) by simp
  then have "tacq tr t ! itn tr a t = ?f ! 0" if "?f \<noteq> []" by (subst e(1)) (simp add: nth_append)
  moreover have "length (tacq tr t) = itn tr a t + length ?f" using arg_cong [OF e(1), of length] e(2) by simp
  ultimately show ?thesis by (cases ?f) (auto simp: n)
qed

lemma itn_same: "(\<And>t. filter (\<lambda>p. is_acq (ac tr p)) (rem a' t) = filter (\<lambda>p. is_acq (ac tr p)) (rem a t)) \<Longrightarrow> itn tr a' = itn tr a"
  by (simp add: itn_def fun_eq_iff)

section \<open>Pending tokens\<close>

lemma pending_search_found:
  assumes "is_list (r_nodes s) head (us @ xs @ pe # ys)" and "\<And>x. x \<in> set xs \<Longrightarrow> r_pe s x \<noteq> e" and "r_pe s pe = e"
  shows "pending_search fr head e t (hd (xs @ [pe])) s =
    (case fr pe (r_heap s) of Err x \<Rightarrow> Some (Err x)
     | Ok h \<Rightarrow> map_option Ok (signalThread t ((set_nodes (listRemoveNode pe) s)\<lparr>r_heap := h\<rparr>)))"
  using assms(1,2)
proof (induction xs arbitrary: us)
  case Nil
  then show ?case using assms(3) by (subst pending_search.simps) (simp add: Let_def set_nodes_def split: res.splits)
next
  case (Cons x xs)
  have "nxt (r_nodes s x) = hd ((xs @ pe # ys) @ [head])" using is_list_succ(1) [of "r_nodes s" head us x] Cons.prems(1) by simp
  then have n: "nxt (r_nodes s x) = hd (xs @ [pe])" by (cases xs) auto
  moreover have "hd (xs @ [pe]) \<noteq> head" using Cons.prems(1) by (cases xs) (auto simp: is_list_def)
  moreover have "r_pe s x \<noteq> e" using Cons.prems(2) by simp
  moreover have "pending_search fr head e t (hd (xs @ [pe])) s =
    (case fr pe (r_heap s) of Err x \<Rightarrow> Some (Err x)
     | Ok h \<Rightarrow> map_option Ok (signalThread t ((set_nodes (listRemoveNode pe) s)\<lparr>r_heap := h\<rparr>)))"
    using Cons.IH [of "us @ [x]"] Cons.prems by simp
  ultimately show ?case
    by (subst pending_search.simps) (simp add: isListTail_def nextEntry_def)
qed

lemma pending_search_none:
  assumes "is_list (r_nodes s) head (us @ x # xs)" and "\<And>y. y \<in> set (x # xs) \<Longrightarrow> r_pe s y \<noteq> e"
  shows "pending_search fr head e t x s = Some (Ok s)"
  using assms
proof (induction xs arbitrary: us x)
  case Nil
  then have "nxt (r_nodes s x) = head" using is_list_succ(1) [of "r_nodes s" head us x "[]"] by simp
  then show ?case using Nil by (subst pending_search.simps) (simp add: isListTail_def)
next
  case (Cons y xs)
  have "nxt (r_nodes s x) = y" using is_list_succ(1) [of "r_nodes s" head us x "y # xs"] Cons.prems(1) by simp
  moreover have "y \<noteq> head" using Cons.prems(1) by (auto simp: is_list_def)
  moreover have "pending_search fr head e t y s = Some (Ok s)" using Cons.IH [of "us @ [x]" y] Cons.prems by simp
  ultimately show ?case using Cons.prems(2) by (subst pending_search.simps) (simp add: isListTail_def nextEntry_def)
qed

text \<open>Looking for a token in the pending list of its thread.\<close>

lemma signalCurrentThread_search:
  assumes "is_list (r_nodes s) (pend s (ev_thread (r_event s e))) xs"
  shows "signalCurrentThread fr e s = (if xs = [] then Some (Ok s)
    else pending_search fr (pend s (ev_thread (r_event s e))) e (ev_thread (r_event s e)) (hd xs) s)"
  using isListEmpty_iff [OF assms] is_list_ends(1) [OF assms] by (cases xs) (auto simp: signalCurrentThread_def Let_def nextEntry_def)

locale cell_heap =
  fixes im :: "u64 \<Rightarrow> 'h im_fun" and fr :: "u64 \<Rightarrow> 'h fr_fun" and hinv :: "u64 set \<Rightarrow> u64 set \<Rightarrow> 'h \<Rightarrow> bool"
  assumes im_fresh: "hinv C F h \<Longrightarrow> im t 24 h = Ok (p, h') \<Longrightarrow> p \<notin> C \<union> F \<and> hinv (insert p C) F h'"
    and fr_ok: "hinv C F h \<Longrightarrow> p \<in> C \<Longrightarrow> \<exists>h'. fr t p h = Ok h' \<and> hinv (C - {p}) F h'"
begin

lemma take_drop_remove1: "distinct xs \<Longrightarrow> j < length xs \<Longrightarrow> remove1 (xs ! j) xs = take j xs @ drop (Suc j) xs"
proof -
  assume d: "distinct xs" and j: "j < length xs"
  have e: "xs = take j xs @ xs ! j # drop (Suc j) xs" using j by (rule id_take_nth_drop)
  then have "xs ! j \<notin> set (take j xs)" using d by (metis disjoint_insert(1) distinct_append list.set(2))
  then show ?thesis using arg_cong [OF e, of "remove1 (xs ! j)"] by (simp add: remove1_append)
qed

text \<open>Replacing one pending list.\<close>

lemma rtsim_pending:
  assumes r: "rtsim hinv tr ea F W s pn sm it cu" and t: "t \<in> thr tr" and w: "waiting tr ea F ps s pn"
    and s': "r_event s' = r_event s" "r_thread s' = r_thread s" "r_evlist s' = r_evlist s"
    and l: "is_list (r_nodes s') (pend s t) qs" "map (r_pe s') qs = map ea qn" "set qn \<subseteq> acq_set tr"
    and new: "set qs \<inter> F = {}" "\<And>u. u \<in> thr tr \<Longrightarrow> u \<noteq> t \<Longrightarrow> set qs \<inter> set (ps u) = {}"
    and o: "\<And>a. a \<notin> set (pend s t # ps t @ qs) \<Longrightarrow> r_nodes s' a = r_nodes s a \<and> r_pe s' a = r_pe s a"
    and h: "hinv (cells tr (ps(t := qs))) F (r_heap s')"
  shows "rtsim hinv tr ea F W s' (pn(t := qn)) sm it cu"
proof -
  have rc: "recorded tr ea F s" using r by (simp add: rtsim_def)
  have pF: "pend s ` thr tr \<subseteq> F" "inj_on (pend s) (thr tr)" using rc by (simp_all add: recorded_def)
  have wt: "set (ps u) \<inter> F = {}" "is_list (r_nodes s) (pend s u) (ps u)" if "u \<in> thr tr" for u
    using w that by (simp_all add: waiting_def)
  have "recorded tr ea F s'"
  proof (rule recorded_frame [OF rc s'(1)])
    show "r_nodes s' a = r_nodes s a" if "a \<in> F" "a \<notin> pend s ` thr tr" for a using o [of a] that t wt(1) [OF t] new(1) by auto
  qed (simp add: s' pool_self)
  moreover have "waiting tr ea F (ps(t := qs)) s' (pn(t := qn))"
  proof -
    have "is_list (r_nodes s') (pend s u) (ps u) \<and> map (r_pe s') (ps u) = map ea (pn u)" if u: "u \<in> thr tr" "u \<noteq> t" for u
    proof -
      have "pend s u \<noteq> pend s t" using pF(2) u t by (auto dest: inj_onD)
      moreover have "set (ps u) \<inter> set (ps t) = {}" using w u t by (auto simp: waiting_def)
      ultimately have n: "a \<notin> set (pend s t # ps t @ qs)" if "a \<in> set (pend s u # ps u)" for a
        using that pF(1) wt(1) [OF u(1)] wt(1) [OF t] new(1) new(2) [OF u] u t by auto
      have "is_list (r_nodes s') (pend s u) (ps u)"
        by (rule is_list_same [OF wt(2) [OF u(1)]]) (use o n in blast)
      moreover have "map (r_pe s') (ps u) = map (r_pe s) (ps u)" using o n by (intro map_cong) auto
      ultimately show ?thesis using waitingD(2) [OF w u(1)] by simp
    qed
    moreover have "x \<notin> set (ps u)" if "x \<in> set qs" "u \<in> thr tr" "u \<noteq> t" for x u using new(2) that by blast
    ultimately show ?thesis using w l new(1) t unfolding waiting_def by (simp add: s') blast
  qed
  ultimately show ?thesis using r h unfolding rtsim_def counting_def turns_def s' by blast
qed

text \<open>The cell of a pending event, and the state when it has been removed.\<close>

lemma pending_cell:
  assumes w: "waiting tr ea F ps s pn" and t: "t \<in> thr tr" and j: "j < length (pn t)"
  shows "r_pe s (ps t ! j) = ea (pn t ! j)" and "j < length (ps t)" and "ps t ! j \<in> cells tr ps"
    and "cells tr (ps(t := remove1 (ps t ! j) (ps t))) = cells tr ps - {ps t ! j}"
proof -
  note wt = waitingD [OF w t]
  have len: "length (ps t) = length (pn t)" using wt(2) by (metis length_map)
  with j show l: "j < length (ps t)" by simp
  show "r_pe s (ps t ! j) = ea (pn t ! j)" using arg_cong [OF wt(2), of "\<lambda>l. l ! j"] j len by simp
  show "ps t ! j \<in> cells tr ps" using nth_mem [OF l] t unfolding cells_def by blast
  have "ps t ! j \<notin> set (ps u)" if "u \<in> thr tr" "u \<noteq> t" for u using wt(5) [OF that] l by simp
  moreover have "distinct (ps t)" using wt(1) by (simp add: is_list_def)
  ultimately show "cells tr (ps(t := remove1 (ps t ! j) (ps t))) = cells tr ps - {ps t ! j}"
    using t by (auto simp: cells_def split: if_splits)
qed

lemma pending_take:
  assumes r: "rtsim hinv tr ea F W s pn sm it cu" and t: "t \<in> thr tr" and w: "waiting tr ea F ps s pn"
    and j: "j < length (pn t)" and d: "distinct (pn t)" and h: "hinv (cells tr ps - {ps t ! j}) F h"
  shows "rtsim hinv tr ea F W ((set_nodes (listRemoveNode (ps t ! j)) s)\<lparr>r_heap := h\<rparr>) (pn(t := remove1 (pn t ! j) (pn t))) sm it cu"
proof (rule rtsim_pending [OF r t w])
  let ?xs = "take j (ps t)" and ?pe = "ps t ! j" and ?ys = "drop (Suc j) (ps t)"
  note wt = waitingD [OF w t] and c = pending_cell [where j = j, OF w t j]
  have dp: "distinct (ps t)" using wt(1) by (simp add: is_list_def)
  have rm: "remove1 ?pe (ps t) = ?xs @ ?ys" "remove1 (pn t ! j) (pn t) = take j (pn t) @ drop (Suc j) (pn t)"
    using take_drop_remove1 dp d c(2) j by auto
  have l: "is_list (r_nodes s) (pend s t) (?xs @ ?pe # ?ys)" using wt(1) id_take_nth_drop [OF c(2)] by simp
  show "is_list (r_nodes ((set_nodes (listRemoveNode ?pe) s)\<lparr>r_heap := h\<rparr>)) (pend s t) (remove1 ?pe (ps t))"
    using is_list_remove [OF l] by (simp add: set_nodes_def rm)
  show "map (r_pe ((set_nodes (listRemoveNode ?pe) s)\<lparr>r_heap := h\<rparr>)) (remove1 ?pe (ps t)) = map ea (remove1 (pn t ! j) (pn t))"
    using wt(2) by (simp add: set_nodes_def rm take_map [symmetric] drop_map [symmetric])
  show "set (remove1 (pn t ! j) (pn t)) \<subseteq> acq_set tr" using wt(4) set_remove1_subset [of "pn t ! j" "pn t"] by auto
  show "set (remove1 ?pe (ps t)) \<inter> F = {}" using wt(3) set_remove1_subset [of ?pe "ps t"] by auto
  show "set (remove1 ?pe (ps t)) \<inter> set (ps u) = {}" if "u \<in> thr tr" "u \<noteq> t" for u
    using wt(5) [OF that] set_remove1_subset [of ?pe "ps t"] by auto
  show "r_nodes ((set_nodes (listRemoveNode ?pe) s)\<lparr>r_heap := h\<rparr>) a = r_nodes s a \<and>
      r_pe ((set_nodes (listRemoveNode ?pe) s)\<lparr>r_heap := h\<rparr>) a = r_pe s a" if "a \<notin> set (pend s t # ps t @ remove1 ?pe (ps t))" for a
  proof -
    have "a \<notin> set (pend s t # ?xs @ ?pe # ?ys)" using that id_take_nth_drop [OF c(2)] by simp
    from listRemoveNode_frame [OF l this] show ?thesis by (simp add: set_nodes_def)
  qed
  show "hinv (cells tr (ps(t := remove1 ?pe (ps t)))) F (r_heap ((set_nodes (listRemoveNode ?pe) s)\<lparr>r_heap := h\<rparr>))"
    using h c(4) by simp
qed (simp_all add: set_nodes_def)

lemma pending_find:
  assumes r: "rtsim hinv tr ea F W s pn sm it cu" and w: "waiting tr ea F ps s pn" and t: "t \<in> thr tr"
    and p: "p \<in> acq_set tr" "th tr p = t" and d: "distinct (pn t)"
  shows "p \<notin> set (pn t) \<Longrightarrow> signalCurrentThread (fr tid) (ea p) s = Some (Ok s)"
    and "j < length (pn t) \<Longrightarrow> pn t ! j = p \<Longrightarrow> signalCurrentThread (fr tid) (ea p) s =
      (case fr tid (ps t ! j) (r_heap s) of Err x \<Rightarrow> Some (Err x)
       | Ok h \<Rightarrow> map_option Ok (signalThread t ((set_nodes (listRemoveNode (ps t ! j)) s)\<lparr>r_heap := h\<rparr>)))"
proof -
  note wt = waitingD [OF w t] and c = pending_cell [OF w t]
  have inj: "inj_on ea (acq_set tr)" using r by (simp add: rtsim_def recorded_def)
  have len: "length (ps t) = length (pn t)" using wt(2) by (metis length_map)
  have ne: "r_pe s (ps t ! i) \<noteq> ea p" if "i < length (pn t)" "pn t ! i \<noteq> p" for i
    using c(1) [OF that(1)] that wt(4) p(1) inj_onD [OF inj, of "pn t ! i" p] by (auto simp: subset_iff)
  have sc: "signalCurrentThread (fr tid) (ea p) s = (if ps t = [] then Some (Ok s) else pending_search (fr tid) (pend s t) (ea p) t (hd (ps t)) s)"
    using signalCurrentThread_search [of s "ea p" "ps t" "fr tid"] wt(1) rtsim_event(2) [OF r p(1)] p(2) by simp
  show "signalCurrentThread (fr tid) (ea p) s = Some (Ok s)" if n: "p \<notin> set (pn t)"
  proof (cases "ps t")
    case (Cons x xs)
    have "r_pe s y \<noteq> ea p" if "y \<in> set (ps t)" for y
      using that ne n len by (metis in_set_conv_nth nth_mem)
    then show ?thesis using pending_search_none [of s "pend s t" "[]" x xs "ea p" "fr tid" t] wt(1) Cons unfolding sc by simp
  qed (simp add: sc)
  assume j: "j < length (pn t)" "pn t ! j = p"
  let ?xs = "take j (ps t)" and ?pe = "ps t ! j" and ?ys = "drop (Suc j) (ps t)"
  have sp: "ps t = ?xs @ ?pe # ?ys" using j len by (intro id_take_nth_drop) simp
  have l: "is_list (r_nodes s) (pend s t) ([] @ ?xs @ ?pe # ?ys)" using wt(1) sp by simp
  have "r_pe s x \<noteq> ea p" if x: "x \<in> set ?xs" for x
  proof -
    obtain i where i: "i < j" "x = ps t ! i" using x j len by (auto simp: in_set_conv_nth)
    then have "pn t ! i \<noteq> p" using j d by (metis nth_eq_iff_index_eq order.strict_trans less_imp_neq)
    then show ?thesis using ne [of i] i j by simp
  qed
  note f = pending_search_found [OF l this]
  have "hd (?xs @ [?pe]) = hd (ps t)" by (subst (3) sp) (simp add: hd_append)
  then show "signalCurrentThread (fr tid) (ea p) s = (case fr tid ?pe (r_heap s) of Err x \<Rightarrow> Some (Err x)
       | Ok h \<Rightarrow> map_option Ok (signalThread t ((set_nodes (listRemoveNode ?pe) s)\<lparr>r_heap := h\<rparr>)))"
    using f c(1) [OF j(1)] j len unfolding sc by auto
qed

lemma peek_sim:
  assumes r: "rtsim hinv tr ea F W s pn sm it cu" and t: "t \<in> thr tr" "it t < length (tacq tr t)"
    and p: "p = tacq tr t ! it t" and d: "distinct (pn t)"
  shows "p \<notin> set (pn t) \<Longrightarrow> peekSyncEvent (fr tid) (avar (ac tr p)) t s = Some (Ok (0, s))"
    and "p \<in> set (pn t) \<Longrightarrow> \<exists>s'. peekSyncEvent (fr tid) (avar (ac tr p)) t s = Some (Ok (0, s')) \<and>
      rtsim hinv tr ea F W s' (pn(t := remove1 p (pn t))) (sm(t := Suc (sm t))) it cu"
proof -
  have pa: "p \<in> acq_set tr" "th tr p = t" using nth_mem [OF t(2)] p by (auto simp: tacq_set)
  note ev = rtsim_event [OF r pa(1)]
  have pk: "peekSyncEvent (fr tid) (avar (ac tr p)) t s =
      obind (signalCurrentThread (fr tid) (ea p) s) (\<lambda>s. Some (Ok (ev_ret (r_event s (ea p)), s)))"
    using peek_event [OF r t] p ev pa(2) by (simp add: peekSyncEvent_def Let_def)
  obtain ps where w: "waiting tr ea F ps s pn" and hv: "hinv (cells tr ps) F (r_heap s)" using r by (auto simp: rtsim_def)
  note pf = pending_find [OF r w t(1) pa d]
  show "p \<notin> set (pn t) \<Longrightarrow> peekSyncEvent (fr tid) (avar (ac tr p)) t s = Some (Ok (0, s))" using pf(1) ev(2) by (simp add: pk)
  assume "p \<in> set (pn t)"
  then obtain j where j: "j < length (pn t)" "pn t ! j = p" by (auto simp: in_set_conv_nth)
  obtain h where h: "fr tid (ps t ! j) (r_heap s) = Ok h" "hinv (cells tr ps - {ps t ! j}) F h"
    using fr_ok [OF hv] pending_cell(3) [OF w t(1) j(1)] by blast
  define s1 where "s1 = (set_nodes (listRemoveNode (ps t ! j)) s)\<lparr>r_heap := h\<rparr>"
  have "rtsim hinv tr ea F W s1 (pn(t := remove1 p (pn t))) sm it cu"
    using pending_take [OF r t(1) w j(1) d h(2)] j(2) by (simp add: s1_def)
  from signal_sim [OF this t(1)] obtain f where f: "signalThread t s1 = Some (set_thread t f s1)"
      "rtsim hinv tr ea F W (set_thread t f s1) (pn(t := remove1 p (pn t))) (sm(t := Suc (sm t))) it cu" by blast
  then have "peekSyncEvent (fr tid) (avar (ac tr p)) t s = Some (Ok (0, set_thread t f s1))"
    using ev(2) pf(2) [OF j] h(1) by (simp add: pk s1_def [symmetric]) (simp add: set_thread_def s1_def set_nodes_def)
  with f(2) show "\<exists>s'. peekSyncEvent (fr tid) (avar (ac tr p)) t s = Some (Ok (0, s')) \<and>
      rtsim hinv tr ea F W s' (pn(t := remove1 p (pn t))) (sm(t := Suc (sm t))) it cu" by blast
qed

text \<open>Handing a token over: to the semaphore when the event is the thread's next, else to its pending list.\<close>

definition same_fixed :: "(u64, u64) trace \<Rightarrow> u64 set \<Rightarrow> 'h rt \<Rightarrow> 'h rt \<Rightarrow> bool" where
  "same_fixed tr F s s' \<longleftrightarrow> (\<forall>a\<in>F. a \<notin> pend s ` thr tr \<longrightarrow> r_nodes s' a = r_nodes s a) \<and> r_entry s' = r_entry s \<and>
     r_activeList s' = r_activeList s \<and> (\<forall>t. pend s' t = pend s t)"

lemma add_sim:
  assumes r: "rtsim hinv tr ea F W s pn sm it cu" and e: "e \<in> acq_set tr" "th tr e = u"
    and im: "im tid 24 (r_heap s) = Ok (pe, h)"
  shows "\<exists>s'. addPendingSyncEvent (im tid) (ea e) u s = Ok s' \<and> rtsim hinv tr ea F W s' (pn(u := pn u @ [e])) sm it cu \<and> same_fixed tr F s s'"
proof -
  have u: "u \<in> thr tr" using e by (auto simp: acq_set_def thrI)
  obtain ps where w: "waiting tr ea F ps s pn" and hv: "hinv (cells tr ps) F (r_heap s)" using r by (auto simp: rtsim_def)
  note wt = waitingD [OF w u]
  have pF: "pend s ` thr tr \<subseteq> F" using r by (simp add: rtsim_def recorded_def)
  have fresh: "pe \<notin> cells tr ps" "pe \<notin> F" and hv': "hinv (insert pe (cells tr ps)) F h" using im_fresh [OF hv im] by auto
  define n1 where "n1 = listInit pe (r_nodes s)"
  define s' where "s' = s\<lparr>r_nodes := listInsertTail pe (pend s u) n1, r_pe := (r_pe s)(pe := ea e), r_heap := h\<rparr>"
  have ad: "addPendingSyncEvent (im tid) (ea e) u s = Ok s'"
    using im by (simp add: addPendingSyncEvent_def Let_def set_nodes_def s'_def n1_def)
  have out: "pe \<notin> set (pend s u # ps u)" using fresh pF u by (auto simp: cells_def)
  have n1o: "n1 a = r_nodes s a" if "a \<noteq> pe" for a using that by (simp add: n1_def listInit_def nodeInit_def set_next_def set_prev_def)
  have l1: "is_list n1 (pend s u) (ps u)" by (rule is_list_same [OF wt(1)]) (metis n1o out)
  have fr: "r_nodes s' a = r_nodes s a" if "a \<notin> set (pe # pend s u # ps u)" for a
    using listInsertTail_frame [OF l1 that] n1o that by (simp add: s'_def)
  have "rtsim hinv tr ea F W s' (pn(u := pn u @ [e])) sm it cu"
  proof (rule rtsim_pending [OF r u w, where qs = "ps u @ [pe]"])
    show "is_list (r_nodes s') (pend s u) (ps u @ [pe])" using is_list_listInsertTail [OF l1 out] by (simp add: s'_def)
    show "map (r_pe s') (ps u @ [pe]) = map ea (pn u @ [e])" using wt(2) out by (simp add: s'_def)
    show "set (pn u @ [e]) \<subseteq> acq_set tr" using wt(4) e by auto
    show "set (ps u @ [pe]) \<inter> F = {}" using wt(3) fresh by auto
    show "set (ps u @ [pe]) \<inter> set (ps v) = {}" if "v \<in> thr tr" "v \<noteq> u" for v
      using wt(5) [OF that] fresh(1) that by (auto simp: cells_def)
    show "r_nodes s' a = r_nodes s a \<and> r_pe s' a = r_pe s a" if "a \<notin> set (pend s u # ps u @ ps u @ [pe])" for a
      using fr [of a] that by (auto simp: s'_def)
    have "cells tr (ps(u := ps u @ [pe])) = insert pe (cells tr ps)" using u by (auto simp: cells_def split: if_splits)
    then show "hinv (cells tr (ps(u := ps u @ [pe]))) F (r_heap s')" using hv' by (simp add: s'_def)
  qed (simp_all add: s'_def)
  moreover have "same_fixed tr F s s'"
  proof -
    have "r_nodes s' a = r_nodes s a" if "a \<in> F" "a \<notin> pend s ` thr tr" for a
      using that fresh(2) wt(3) u by (intro fr) auto
    then show ?thesis by (simp add: same_fixed_def) (simp add: s'_def)
  qed
  ultimately show ?thesis using ad by blast
qed

lemma handover_sim:
  assumes r: "rtsim hinv tr ea F W s pn sm it cu" and e: "e \<in> acq_set tr"
  shows "it (th tr e) < length (tacq tr (th tr e)) \<and> tacq tr (th tr e) ! it (th tr e) = e \<Longrightarrow>
      \<exists>s'. signalNextThread (im tid) (ea e) s = Some (Ok s') \<and> same_fixed tr F s s' \<and>
        rtsim hinv tr ea F W s' pn (sm(th tr e := Suc (sm (th tr e)))) it cu"
    and "\<not> (it (th tr e) < length (tacq tr (th tr e)) \<and> tacq tr (th tr e) ! it (th tr e) = e) \<Longrightarrow>
      (\<exists>x. signalNextThread (im tid) (ea e) s = Some (Err x) \<and> im tid 24 (r_heap s) = Err x) \<or>
      (\<exists>s'. signalNextThread (im tid) (ea e) s = Some (Ok s') \<and> same_fixed tr F s s' \<and>
        rtsim hinv tr ea F W s' (pn(th tr e := pn (th tr e) @ [e])) sm it cu)"
proof -
  have t: "th tr e \<in> thr tr" using e by (auto simp: acq_set_def thrI)
  note ev = rtsim_event(2) [OF r e] and nx = next_event [OF r e]
  show "\<exists>s'. signalNextThread (im tid) (ea e) s = Some (Ok s') \<and> same_fixed tr F s s' \<and>
        rtsim hinv tr ea F W s' pn (sm(th tr e := Suc (sm (th tr e)))) it cu"
    if n: "it (th tr e) < length (tacq tr (th tr e)) \<and> tacq tr (th tr e) ! it (th tr e) = e"
  proof -
    from signal_sim [OF r t] obtain f where f: "signalThread (th tr e) s = Some (set_thread (th tr e) f s)"
        "rtsim hinv tr ea F W (set_thread (th tr e) f s) pn (sm(th tr e := Suc (sm (th tr e)))) it cu" by blast
    have "pend (set_thread (th tr e) f s) u = pend s u" for u
      using f(1) by (auto simp: signalThread_def set_thread_def fun_eq_iff dest!: arg_cong [of _ _ "\<lambda>s. pend s u"])
    then have "same_fixed tr F s (set_thread (th tr e) f s)" by (simp add: same_fixed_def set_thread_def)
    with f n nx ev show ?thesis by (simp add: signalNextThread_def)
  qed
  assume "\<not> (it (th tr e) < length (tacq tr (th tr e)) \<and> tacq tr (th tr e) ! it (th tr e) = e)"
  then have "\<not> isThreadNextEvent (ea e) (th tr e) s" using nx by blast
  then have sg: "signalNextThread (im tid) (ea e) s = Some (addPendingSyncEvent (im tid) (ea e) (th tr e) s)"
    using ev by (simp add: signalNextThread_def)
  show "(\<exists>x. signalNextThread (im tid) (ea e) s = Some (Err x) \<and> im tid 24 (r_heap s) = Err x) \<or>
      (\<exists>s'. signalNextThread (im tid) (ea e) s = Some (Ok s') \<and> same_fixed tr F s s' \<and>
        rtsim hinv tr ea F W s' (pn(th tr e := pn (th tr e) @ [e])) sm it cu)"
  proof (cases "im tid 24 (r_heap s)")
    case (Ok x)
    obtain pe h where "x = (pe, h)" by fastforce
    with add_sim [OF r e refl, of tid] Ok show ?thesis by (auto simp: sg)
  next
    case (Err x)
    then show ?thesis by (simp add: sg addPendingSyncEvent_def)
  qed
qed

lemma simD:
  assumes "sim hinv tr ea F c a"
  shows "rtsim hinv tr ea F UNIV (c_rt c) (pnd a) (sem a) (itn tr a) (cur a)" and "c_rem c t = map (ac tr) (rem a t)"
    and "c_ph c t = cph ea (ph a t)" and "c_log c = map (\<lambda>p. (th tr p, avar (ac tr p))) (log a)"
  using assms by (auto simp: sim_def)

lemma simI:
  assumes "rtsim hinv tr ea F UNIV (c_rt c) (pnd a) (sem a) (itn tr a) (cur a)" and "\<And>t. c_rem c t = map (ac tr) (rem a t)"
    and "\<And>t. c_ph c t = cph ea (ph a t)" and "c_log c = map (\<lambda>p. (th tr p, avar (ac tr p))) (log a)"
  shows "sim hinv tr ea F c a"
  using assms by (auto simp: sim_def)

lemma sim_lock_peek:
  assumes s: "sim hinv tr ea F c a" and i: "rinv tr a"
    and h: "c_ph c t = CReady" "c_rem c t = Acq v # as"
  shows "\<exists>s' a'. peekSyncEvent (fr tid) v t (c_rt c) = Some (Ok (0, s')) \<and> rstep tr a a' \<and>
    sim hinv tr ea F (c\<lparr>c_rt := s', c_ph := (c_ph c)(t := CPeeked)\<rparr>) a'"
proof -
  note d = simD [OF s]
  obtain p ps where p: "rem a t = p # ps" "ac tr p = Acq v" "map (ac tr) ps = as" using d(2) [of t] h(2) by auto
  have ph: "ph a t = Ready" using d(3) [of t] h(1) by simp
  have tp: "p < length tr" "th tr p = t" using rem_facts(3) [OF i, of p t] p(1) by auto
  have t: "t \<in> thr tr" using thrI [OF tp(1)] tp(2) by simp
  have nx: "itn tr a t < length (tacq tr t)" "tacq tr t ! itn tr a t = p"
    using itn_next [OF i, of t p] p by (auto simp: nxa_Cons)
  have di: "distinct (pnd a t)" using tokensD(9) [OF rinvD(7) [OF i]] by simp
  note pk = peek_sim [OF d(1) t nx(1) nx(2) [symmetric] di, unfolded p(2) avar_simps]
  show ?thesis
  proof (cases "p \<in> set (pnd a t)")
    case True
    let ?a = "a\<lparr>ph := (ph a)(t := Peeked), pnd := (pnd a)(t := remove1 p (pnd a t)), sem := (sem a)(t := Suc (sem a t))\<rparr>"
    obtain s' where s': "peekSyncEvent (fr tid) v t (c_rt c) = Some (Ok (0, s'))"
        "rtsim hinv tr ea F UNIV s' ((pnd a)(t := remove1 p (pnd a t))) ((sem a)(t := Suc (sem a t))) (itn tr a) (cur a)"
      using pk(2) [OF True] by blast
    have "itn tr ?a = itn tr a" by (rule itn_same) simp
    then have "sim hinv tr ea F (c\<lparr>c_rt := s', c_ph := (c_ph c)(t := CPeeked)\<rparr>) ?a" using s'(2) d(2-4) by (intro simI) auto
    with s'(1) rstep.peek_pending [OF ph p(1,2) True] show ?thesis by blast
  next
    case False
    let ?a = "a\<lparr>ph := (ph a)(t := Peeked)\<rparr>"
    have "itn tr ?a = itn tr a" by (rule itn_same) simp
    then have "sim hinv tr ea F (c\<lparr>c_rt := c_rt c, c_ph := (c_ph c)(t := CPeeked)\<rparr>) ?a" using d by (intro simI) auto
    with pk(1) [OF False] rstep.peek [OF ph p(1,2) False] show ?thesis by blast
  qed
qed

lemma sim_lock_wait:
  assumes s: "sim hinv tr ea F c a" and i: "rinv tr a"
    and h: "c_ph c t = CPeeked" "c_rem c t = Acq v # as" "waitSemaphore t (c_rt c) = Some s'"
  shows "\<exists>a'. rstep tr a a' \<and> sim hinv tr ea F (c\<lparr>c_rt := s', c_ph := (c_ph c)(t := CGot), c_log := c_log c @ [(t, v)]\<rparr>) a'"
proof -
  note d = simD [OF s]
  obtain p ps where p: "rem a t = p # ps" "ac tr p = Acq v" using d(2) [of t] h(2) by auto
  have ph: "ph a t = Peeked" using d(3) [of t] h(1) by simp
  have tp: "p < length tr" "th tr p = t" using rem_facts(3) [OF i, of p t] p(1) by auto
  then have t: "t \<in> thr tr" using thrI by metis
  obtain n where n: "sem a t = Suc n" using wait_sim(1) [OF d(1) t] h(3) by (cases "sem a t") auto
  let ?a = "a\<lparr>ph := (ph a)(t := Got), sem := (sem a)(t := n), log := log a @ [p]\<rparr>"
  have "rtsim hinv tr ea F UNIV s' (pnd a) ((sem a)(t := n)) (itn tr a) (cur a)"
    using wait_sim(2) [OF d(1) t n] h(3) by auto
  moreover have "itn tr ?a = itn tr a" by (rule itn_same) simp
  ultimately have "sim hinv tr ea F (c\<lparr>c_rt := s', c_ph := (c_ph c)(t := CGot), c_log := c_log c @ [(t, v)]\<rparr>) ?a"
    using d(2-4) tp(2) p(2) by (intro simI) auto
  with rstep.wait [OF ph p(1) n] show ?thesis by blast
qed

lemma sim_lock_advance:
  assumes s: "sim hinv tr ea F c a" and i: "rinv tr a" and h: "c_ph c t = CGot" "c_rem c t = Acq v # as"
  shows "\<exists>a'. rstep tr a a' \<and> sim hinv tr ea F
    (c\<lparr>c_rt := advanceThreadSyncList t (c_rt c), c_ph := (c_ph c)(t := CReady), c_rem := (c_rem c)(t := as)\<rparr>) a'"
proof -
  note d = simD [OF s]
  obtain p ps where p: "rem a t = p # ps" "ac tr p = Acq v" "map (ac tr) ps = as" using d(2) [of t] h(2) by auto
  have ph: "ph a t = Got" using d(3) [of t] h(1) by simp
  have tp: "p < length tr" "th tr p = t" using rem_facts(3) [OF i, of p t] p(1) by auto
  then have t: "t \<in> thr tr" using thrI by metis
  have nx: "itn tr a t < length (tacq tr t)" using itn_next [OF i, of t p] p by (auto simp: nxa_Cons)
  let ?a = "a\<lparr>ph := (ph a)(t := Ready), rem := (rem a)(t := ps)\<rparr>"
  have "itn tr ?a = (itn tr a)(t := Suc (itn tr a t))"
    using acq_filter_length [OF i, of t] p by (auto simp: itn_def fun_eq_iff)
  then have "sim hinv tr ea F (c\<lparr>c_rt := advanceThreadSyncList t (c_rt c), c_ph := (c_ph c)(t := CReady), c_rem := (c_rem c)(t := as)\<rparr>) ?a"
    using advance_sim [OF d(1) t nx] d(2-4) p(3) by (intro simI) auto
  with rstep.adv [OF ph p(1)] show ?thesis by blast
qed

lemma sim_unlock:
  assumes s: "sim hinv tr ea F c a" and i: "rinv tr a" and law: "lawful tr (\<lambda>_. None)"
    and h: "c_ph c t = CReady" "c_rem c t = Rel v # as"
  shows "\<exists>e s' a'. advanceSyncEvent v (c_rt c) = Ok (e, s') \<and> rstep tr a a' \<and>
    sim hinv tr ea F (if e = 0 then c\<lparr>c_rt := s', c_rem := (c_rem c)(t := as)\<rparr> else c\<lparr>c_rt := s', c_ph := (c_ph c)(t := CSig e)\<rparr>) a'"
proof -
  note d = simD [OF s]
  obtain p ps where p: "rem a t = p # ps" "ac tr p = Rel v" "map (ac tr) ps = as" using d(2) [of t] h(2) by auto
  have ph: "ph a t = Ready" using d(3) [of t] h(1) by simp
  note rt = release_turn [OF law i ph p(1,2)]
  have lt: "cur a v < length (acqs tr v)" using rel_acq [OF law rt(2)] by simp
  obtain s' where s': "advanceSyncEvent v (c_rt c) = Ok (if Suc (cur a v) < length (acqs tr v) then ea (acqs tr v ! Suc (cur a v)) else 0, s')"
      "rtsim hinv tr ea F UNIV s' (pnd a) (sem a) (itn tr a) ((cur a)(v := Suc (cur a v)))"
    using release_sim [OF d(1) _ lt] by blast
  show ?thesis
  proof (cases "Suc (cur a v) < length (acqs tr v)")
    case True
    let ?a = "a\<lparr>ph := (ph a)(t := Sig (acqs tr v ! Suc (cur a v))), cur := (cur a)(v := Suc (cur a v))\<rparr>"
    have "itn tr ?a = itn tr a" by (rule itn_same) simp
    then have "sim hinv tr ea F (c\<lparr>c_rt := s', c_ph := (c_ph c)(t := CSig (ea (acqs tr v ! Suc (cur a v))))\<rparr>) ?a"
      using s'(2) d(2-4) by (intro simI) auto
    moreover have "ea (acqs tr v ! Suc (cur a v)) \<noteq> 0" using rtsim_event(1) [OF d(1) acqs_acq_set [OF True]] .
    ultimately show ?thesis using s'(1) rstep.rel [OF ph p(1,2) True] True by auto
  next
    case False
    then have l: "Suc (cur a v) = length (acqs tr v)" using lt by simp
    let ?a = "a\<lparr>rem := (rem a)(t := ps), cur := (cur a)(v := Suc (cur a v))\<rparr>"
    have "itn tr ?a = itn tr a" using p by (intro itn_same) auto
    then have "sim hinv tr ea F (c\<lparr>c_rt := s', c_rem := (c_rem c)(t := as)\<rparr>) ?a" using s'(2) d(2-4) p(3) by (intro simI) auto
    then show ?thesis using s'(1) rstep.rel_last [OF ph p(1,2) l] False by auto
  qed
qed

lemma sim_unlock_signal:
  assumes s: "sim hinv tr ea F c a" and i: "rinv tr a" and h: "c_ph c t = CSig q" "c_rem c t = Rel v # as"
  shows "(\<exists>x. signalNextThread (im tid) q (c_rt c) = Some (Err x) \<and> im tid 24 (r_heap (c_rt c)) = Err x) \<or>
    (\<exists>s' a'. signalNextThread (im tid) q (c_rt c) = Some (Ok s') \<and> rstep tr a a' \<and>
      sim hinv tr ea F (c\<lparr>c_rt := s', c_ph := (c_ph c)(t := CReady), c_rem := (c_rem c)(t := as)\<rparr>) a')"
proof -
  note d = simD [OF s]
  obtain p ps where p: "rem a t = p # ps" "ac tr p = Rel v" "map (ac tr) ps = as" using d(2) [of t] h(2) by auto
  obtain e where ph: "ph a t = Sig e" "q = ea e" using d(3) [of t] h(1) by (cases "ph a t") auto
  have tn: "turn tr a e" by (rule sig_facts(1) [OF i ph(1) p(1)])
  have e: "e \<in> acq_set tr" using turn_not_past(2,3) [OF rinvD(6) [OF i] tn] by (auto simp: acq_set_def)
  note ho = handover_sim [OF d(1) e]
  show ?thesis
  proof (cases "nxa tr (rem a (th tr e)) = Some e")
    case True
    let ?a = "a\<lparr>ph := (ph a)(t := Ready), rem := (rem a)(t := ps), sem := (sem a)(th tr e := Suc (sem a (th tr e)))\<rparr>"
    obtain s' where s': "signalNextThread (im tid) (ea e) (c_rt c) = Some (Ok s')"
        "rtsim hinv tr ea F UNIV s' (pnd a) ((sem a)(th tr e := Suc (sem a (th tr e)))) (itn tr a) (cur a)"
      using ho(1) True itn_next [OF i, of "th tr e" e] by auto
    have "itn tr ?a = itn tr a" using p by (intro itn_same) auto
    then have "sim hinv tr ea F (c\<lparr>c_rt := s', c_ph := (c_ph c)(t := CReady), c_rem := (c_rem c)(t := as)\<rparr>) ?a"
      using s'(2) d(2-4) p(3) by (intro simI) auto
    with s'(1) rstep.sig_next [OF ph(1) p(1) True] show ?thesis unfolding ph(2) by blast
  next
    case False
    let ?a = "a\<lparr>ph := (ph a)(t := Ready), rem := (rem a)(t := ps), pnd := (pnd a)(th tr e := pnd a (th tr e) @ [e])\<rparr>"
    have it: "itn tr ?a = itn tr a" using p by (intro itn_same) auto
    from ho(2) [of tid] False itn_next [OF i, of "th tr e" e] consider
        (err) x where "signalNextThread (im tid) (ea e) (c_rt c) = Some (Err x)" "im tid 24 (r_heap (c_rt c)) = Err x"
      | (ok) s' where "signalNextThread (im tid) (ea e) (c_rt c) = Some (Ok s')"
        "rtsim hinv tr ea F UNIV s' ((pnd a)(th tr e := pnd a (th tr e) @ [e])) (sem a) (itn tr a) (cur a)" by auto
    then show ?thesis
    proof cases
      case ok
      then have "sim hinv tr ea F (c\<lparr>c_rt := s', c_ph := (c_ph c)(t := CReady), c_rem := (c_rem c)(t := as)\<rparr>) ?a"
        using it d(2-4) p(3) by (intro simI) auto
      with ok(1) rstep.sig_later [OF ph(1) p(1) False] show ?thesis unfolding ph(2) by blast
    qed (auto simp: ph(2))
  qed
qed

lemma sim_step:
  assumes law: "lawful tr (\<lambda>_. None)" and s: "sim hinv tr ea F c a" and i: "rinv tr a" and st: "replay_step im fr c c'"
  shows "\<exists>a'. rstep tr a a' \<and> sim hinv tr ea F c' a'"
  using st
proof cases
  case (lock_peek t v as ret s')
  then show ?thesis using sim_lock_peek [OF s i lock_peek(2,3), of t] by auto
next
  case lock_wait then show ?thesis using sim_lock_wait [OF s i] by blast
next
  case lock_advance then show ?thesis using sim_lock_advance [OF s i] by blast
next
  case (unlock_last t v as s')
  then show ?thesis using sim_unlock [OF s i law unlock_last(2,3)] by auto
next
  case (unlock t v as e s')
  then show ?thesis using sim_unlock [OF s i law unlock(2,3)] by auto
next
  case (unlock_signal t e v as s')
  then show ?thesis using sim_unlock_signal [OF s i unlock_signal(2,3), of t] by auto
qed

lemma sim_run:
  assumes law: "lawful tr (\<lambda>_. None)" and s0: "sim hinv tr ea F c0 a0" "starts tr a0" and st: "(replay_step im fr ^^ n) c0 c"
  shows "\<exists>a. (rstep tr ^^ n) a0 a \<and> sim hinv tr ea F c a \<and> rinv tr a"
  using st
proof (induction n arbitrary: c)
  case 0 then show ?case using s0 rinv_start by auto
next
  case (Suc n)
  then obtain c1 where c1: "(replay_step im fr ^^ n) c0 c1" "replay_step im fr c1 c" by auto
  obtain a1 where a1: "(rstep tr ^^ n) a0 a1" "sim hinv tr ea F c1 a1" "rinv tr a1" using Suc.IH [OF c1(1)] by blast
  obtain a where "rstep tr a1 a" "sim hinv tr ea F c a" using sim_step [OF law a1(2,3) c1(2)] by blast
  with a1 rinv_step [OF law] show ?case by auto
qed

lemma sim_progress:
  assumes law: "lawful tr (\<lambda>_. None)" and s: "sim hinv tr ea F c a" and i: "rinv tr a" and g: "can_go tr a t"
  shows "(\<exists>c'. replay_step im fr c c') \<or> out_of_memory im c"
proof -
  note d = simD [OF s]
  obtain p ps where p: "rem a t = p # ps" using g by (cases "rem a t") (auto simp: can_go_def)
  have rm: "c_rem c t = ac tr p # map (ac tr) ps" using d(2) [of t] p by simp
  have t: "t \<in> thr tr" using rem_facts(3) [OF i, of p t] p thrI by auto
  show ?thesis
  proof (cases "ph a t")
    case Ready
    then have ph: "c_ph c t = CReady" using d(3) [of t] by simp
    show ?thesis
    proof (cases "ac tr p")
      case (Acq v)
      with rm have rm': "c_rem c t = Acq v # map (ac tr) ps" by simp
      obtain s' where "peekSyncEvent (fr t) v t (c_rt c) = Some (Ok (0, s'))" using sim_lock_peek [OF s i ph rm'] by blast
      then show ?thesis using replay_step.lock_peek [OF ph rm'] by blast
    next
      case (Rel v)
      with rm have rm': "c_rem c t = Rel v # map (ac tr) ps" by simp
      obtain e s' where "advanceSyncEvent v (c_rt c) = Ok (e, s')" using sim_unlock [OF s i law ph rm'] by blast
      then show ?thesis using replay_step.unlock [OF ph rm'] replay_step.unlock_last [OF ph rm'] by (cases "e = 0") blast+
    qed
  next
    case Peeked
    then obtain n where "sem a t = Suc n" using g by (cases "sem a t") (auto simp: can_go_def)
    moreover obtain v where "ac tr p = Acq v" using rinvD(2) [OF i Peeked] p by auto
    ultimately show ?thesis using wait_sim(2) [OF d(1) t] replay_step.lock_wait [of c t v] rm d(3) [of t] Peeked by fastforce
  next
    case Got
    moreover obtain v where "ac tr p = Acq v" using rinvD(3) [OF i Got] p by auto
    ultimately show ?thesis using replay_step.lock_advance [of c t v] rm d(3) [of t] by fastforce
  next
    case (Sig e)
    then have ph: "c_ph c t = CSig (ea e)" using d(3) [of t] by simp
    obtain v where v: "ac tr p = Rel v" using rinvD(4) [OF i Sig] p by auto
    with rm have rm': "c_rem c t = Rel v # map (ac tr) ps" by simp
    from sim_unlock_signal [OF s i ph rm', of t] show ?thesis
    proof (elim disjE exE conjE)
      fix x assume "signalNextThread (im t) (ea e) (c_rt c) = Some (Err x)" "im t 24 (r_heap (c_rt c)) = Err x"
      then show ?thesis using ph unfolding out_of_memory_def by blast
    next
      fix s' a' assume "signalNextThread (im t) (ea e) (c_rt c) = Some (Ok s')"
      then show ?thesis using replay_step.unlock_signal [OF ph rm'] by blast
    qed
  qed
qed

lemma sim_progress_run:
  assumes law: "lawful tr (\<lambda>_. None)" and s: "sim hinv tr ea F c a" and i: "rinv tr a" and "c_rem c t \<noteq> []"
  shows "(\<exists>c'. replay_step im fr c c') \<or> out_of_memory im c"
proof -
  have "rem a t \<noteq> []" using simD(2) [OF s, of t] assms(4) by simp
  from progress [OF law i this] obtain u where "can_go tr a u" by blast
  then show ?thesis by (rule sim_progress [OF law s i])
qed

end

section \<open>The recording of an epoch\<close>

text \<open>
  The state at the beginning of an epoch: the threads \<open>T\<close> have empty pools and no pending events, the
  event lists \<open>V\<close> are empty, and all these objects are at different addresses.
\<close>

definition pool_addrs :: "'h rt \<Rightarrow> u64 \<Rightarrow> u64 set" where
  "pool_addrs s t = (\<lambda>i. re_getEntry SYNC_EVENT_SIZE (of_nat i) (pool s t)) ` {..<unat (re_total (pool s t))}"

definition epoch_start :: "u64 set \<Rightarrow> u64 set \<Rightarrow> u64 set \<Rightarrow> 'h rt \<Rightarrow> bool" where
  "epoch_start T V F s \<longleftrightarrow> (\<forall>v\<in>V. v \<in> F \<and> v \<notin> pend s ` T \<and> is_list (r_nodes s) v []) \<and>
     (\<forall>t\<in>T. re_ok SYNC_EVENT_SIZE (pool s t) \<and> re_cur (pool s t) = 0 \<and> pend s t \<in> F \<and> is_list (r_nodes s) (pend s t) [] \<and>
       pool_addrs s t \<subseteq> F - V - pend s ` T) \<and>
     inj_on (pend s) T \<and> (\<forall>t\<in>T. \<forall>u\<in>T. t \<noteq> u \<longrightarrow> pool_addrs s t \<inter> pool_addrs s u = {})"

text \<open>The registered variables are those on the active list; the list of thread creations is separate.\<close>

definition registry :: "u64 set \<Rightarrow> u64 set \<Rightarrow> u64 set \<Rightarrow> u64 list \<Rightarrow> u64 \<Rightarrow> 'h rt \<Rightarrow> bool" where
  "registry T V F es spawningList s \<longleftrightarrow> is_list (r_nodes s) (r_activeList s) es \<and>
     set (r_activeList s # es) \<subseteq> F - V - pend s ` T - (\<Union>t\<in>T. pool_addrs s t) \<and>
     distinct (map (\<lambda>e. se_syncevents (r_entry s e)) es @ [spawningList]) \<and>
     V = set (map (\<lambda>e. se_syncevents (r_entry s e)) es @ [spawningList])"

lemma acquisitions_eq: "acquisitions tr v = map (\<lambda>p. (th tr p, v)) (acqs tr v)"
proof (induction tr rule: rev_induct)
  case (snoc x tr)
  have "map (\<lambda>p. (th (tr @ [x]) p, v)) (acqs tr v) = map (\<lambda>p. (th tr p, v)) (acqs tr v)" by (rule map_cong) (auto simp: acqs_set)
  with snoc show ?case by (simp add: acquisitions_def acqs_snoc)
qed (simp add: acquisitions_def acqs_def)

lemma thread_acts_eq: "thread_acts tr = (\<lambda>t. map (ac tr) (prog tr t))"
proof
  fix t
  have "thread_acts tr t = map (ac tr) (prog tr t)"
  proof (induction tr rule: rev_induct)
    case (snoc x tr)
    have "map (ac (tr @ [x])) (prog tr t) = map (ac tr) (prog tr t)" by (rule map_cong) (auto simp: prog_def)
    with snoc show ?case by (simp add: thread_acts_def prog_snoc)
  qed (simp add: thread_acts_def prog_def)
  then show "thread_acts tr t = map (ac tr) (prog tr t)" .
qed

definition rec_ok :: "u64 set \<Rightarrow> u64 set \<Rightarrow> 'h rt \<Rightarrow> (u64, u64) trace \<Rightarrow> (nat \<Rightarrow> u64) \<Rightarrow> 'h rt \<Rightarrow> bool" where
  "rec_ok T V s0 tr ea s \<longleftrightarrow> (\<forall>v\<in>V. is_list (r_nodes s) v (map ea (acqs tr v))) \<and>
     (\<forall>t\<in>T. pend s t = pend s0 t \<and> re_start (pool s t) = re_start (pool s0 t) \<and> re_total (pool s t) = re_total (pool s0 t) \<and>
       unat (re_cur (pool s t)) = length (tacq tr t) \<and> length (tacq tr t) \<le> unat (re_total (pool s0 t)) \<and>
       (\<forall>i<length (tacq tr t). ea (tacq tr t ! i) = re_getEntry SYNC_EVENT_SIZE (of_nat i) (pool s0 t))) \<and>
     (\<forall>p\<in>acq_set tr. r_event s (ea p) = \<lparr>ev_thread = th tr p, ev_list = avar (ac tr p), ev_ret = 0\<rparr>) \<and>
     (\<forall>a. a \<notin> V \<longrightarrow> (\<forall>t\<in>T. a \<notin> pool_addrs s0 t) \<longrightarrow> r_nodes s a = r_nodes s0 a) \<and>
     r_heap s = r_heap s0 \<and> r_entry s = r_entry s0 \<and> r_activeList s = r_activeList s0"

definition uses :: "u64 set \<Rightarrow> u64 set \<Rightarrow> (u64, u64) trace \<Rightarrow> bool" where
  "uses T V tr \<longleftrightarrow> (\<forall>(t, a)\<in>set tr. t \<in> T \<and> avar a \<in> V)"

lemma tacq_snoc: "tacq (tr @ [x]) t = tacq tr t @ (if fst x = t \<and> is_acq (snd x) then [length tr] else [])"
proof -
  have "filter (\<lambda>p. is_acq (ac (tr @ [x]) p)) (prog tr t) = tacq tr t"
    unfolding tacq_def by (rule filter_cong) (auto simp: prog_def)
  then show ?thesis by (auto simp: tacq_def prog_snoc)
qed

lemma acq_set_snoc: "acq_set (tr @ [x]) = acq_set tr \<union> (if is_acq (snd x) then {length tr} else {})"
  by (auto simp: acq_set_def less_Suc_eq)

lemma record_trace_snoc: "record_trace (tr @ [x]) s = rbind (record_trace tr s) (record_act x)"
proof (induction tr arbitrary: s)
  case Nil
  show ?case by (cases "record_act x s") auto
next
  case (Cons y tr)
  then show ?case by (cases "record_act y s") auto
qed

lemma rec_okD:
  assumes "rec_ok T V s0 tr ea s"
  shows "v \<in> V \<Longrightarrow> is_list (r_nodes s) v (map ea (acqs tr v))"
    and "t \<in> T \<Longrightarrow> pend s t = pend s0 t" and "t \<in> T \<Longrightarrow> re_start (pool s t) = re_start (pool s0 t)"
    and "t \<in> T \<Longrightarrow> re_total (pool s t) = re_total (pool s0 t)" and "t \<in> T \<Longrightarrow> unat (re_cur (pool s t)) = length (tacq tr t)"
    and "t \<in> T \<Longrightarrow> length (tacq tr t) \<le> unat (re_total (pool s0 t))"
    and "t \<in> T \<Longrightarrow> i < length (tacq tr t) \<Longrightarrow> ea (tacq tr t ! i) = re_getEntry SYNC_EVENT_SIZE (of_nat i) (pool s0 t)"
    and "p \<in> acq_set tr \<Longrightarrow> r_event s (ea p) = \<lparr>ev_thread = th tr p, ev_list = avar (ac tr p), ev_ret = 0\<rparr>"
    and "a \<notin> V \<Longrightarrow> (\<And>t. t \<in> T \<Longrightarrow> a \<notin> pool_addrs s0 t) \<Longrightarrow> r_nodes s a = r_nodes s0 a"
    and "r_heap s = r_heap s0" "r_entry s = r_entry s0" "r_activeList s = r_activeList s0"
  using assms unfolding rec_ok_def by blast+

lemma epoch_startD:
  assumes "epoch_start T V F s"
  shows "v \<in> V \<Longrightarrow> v \<in> F \<and> v \<notin> pend s ` T \<and> is_list (r_nodes s) v []"
    and "t \<in> T \<Longrightarrow> re_ok SYNC_EVENT_SIZE (pool s t)" and "t \<in> T \<Longrightarrow> re_cur (pool s t) = 0" and "t \<in> T \<Longrightarrow> pend s t \<in> F"
    and "t \<in> T \<Longrightarrow> is_list (r_nodes s) (pend s t) []" and "t \<in> T \<Longrightarrow> a \<in> pool_addrs s t \<Longrightarrow> a \<in> F \<and> a \<notin> V \<and> a \<notin> pend s ` T"
    and "inj_on (pend s) T" and "t \<in> T \<Longrightarrow> u \<in> T \<Longrightarrow> a \<in> pool_addrs s t \<Longrightarrow> a \<in> pool_addrs s u \<Longrightarrow> t = u"
  using assms unfolding epoch_start_def by blast+

lemma ea_pool:
  assumes "rec_ok T V s0 tr ea s" and "uses T V tr" and "p \<in> acq_set tr"
  shows "ea p \<in> pool_addrs s0 (th tr p)" and "th tr p \<in> T"
    and "\<exists>i<length (tacq tr (th tr p)). ea p = re_getEntry SYNC_EVENT_SIZE (of_nat i) (pool s0 (th tr p)) \<and> tacq tr (th tr p) ! i = p"
proof -
  have "tr ! p \<in> set tr" using assms(3) by (auto simp: acq_set_def)
  then show t: "th tr p \<in> T" using assms(2) by (auto simp: uses_def th_def)
  have "p \<in> set (tacq tr (th tr p))" using assms(3) by (simp add: tacq_set)
  then obtain i where i: "i < length (tacq tr (th tr p))" "tacq tr (th tr p) ! i = p" by (auto simp: in_set_conv_nth)
  moreover have "ea p = re_getEntry SYNC_EVENT_SIZE (of_nat i) (pool s0 (th tr p))" "i < unat (re_total (pool s0 (th tr p)))"
    using rec_okD(6) [OF assms(1) t] rec_okD(7) [OF assms(1) t i(1)] i by auto
  ultimately show "ea p \<in> pool_addrs s0 (th tr p)"
    and "\<exists>i<length (tacq tr (th tr p)). ea p = re_getEntry SYNC_EVENT_SIZE (of_nat i) (pool s0 (th tr p)) \<and> tacq tr (th tr p) ! i = p"
    by (auto simp: pool_addrs_def)
qed

lemma ea_inj:
  assumes st: "epoch_start T V F s0" and r: "rec_ok T V s0 tr ea s" and u: "uses T V tr"
  shows "inj_on ea (acq_set tr)"
proof (rule inj_onI)
  fix p q assume p: "p \<in> acq_set tr" and q: "q \<in> acq_set tr" and e: "ea p = ea q"
  note P = ea_pool [OF r u p] and Q = ea_pool [OF r u q]
  have t: "th tr q = th tr p" using epoch_startD(8) [OF st P(2) Q(2) P(1)] Q(1) e by simp
  obtain i j where "i < length (tacq tr (th tr p))" "tacq tr (th tr p) ! i = p" "j < length (tacq tr (th tr p))" "tacq tr (th tr p) ! j = q"
      "re_getEntry SYNC_EVENT_SIZE (of_nat i) (pool s0 (th tr p)) = re_getEntry SYNC_EVENT_SIZE (of_nat j) (pool s0 (th tr p))"
    using P(3) Q(3) e t by auto
  then show "p = q"
    using getEntry_inj [OF epoch_startD(2) [OF st P(2)], of i j] rec_okD(6) [OF r P(2)] by auto
qed

text \<open>The entry that is taken next is none of the recorded events.\<close>

lemma next_entry:
  assumes st: "epoch_start T V F s0" and r: "rec_ok T V s0 tr ea s" and u: "uses T V tr" and t: "t \<in> T"
    and n: "length (tacq tr t) < unat (re_total (pool s0 t))" and e: "e = re_getEntry SYNC_EVENT_SIZE (of_nat (length (tacq tr t))) (pool s0 t)"
  shows "e \<in> pool_addrs s0 t" and "e \<notin> ea ` acq_set tr" and "e \<notin> V" and "e \<noteq> 0"
proof -
  show ep: "e \<in> pool_addrs s0 t" using n e by (auto simp: pool_addrs_def)
  then show "e \<notin> V" using epoch_startD(6) [OF st t] by blast
  show "e \<noteq> 0" using getEntry_nonzero [OF epoch_startD(2) [OF st t] n] e by simp
  show "e \<notin> ea ` acq_set tr"
  proof
    assume "e \<in> ea ` acq_set tr"
    then obtain p where p: "p \<in> acq_set tr" "e = ea p" by blast
    note P = ea_pool [OF r u p(1)]
    have "th tr p = t" using epoch_startD(8) [OF st P(2) t P(1)] ep p(2) by simp
    then obtain i where i: "i < length (tacq tr t)" "e = re_getEntry SYNC_EVENT_SIZE (of_nat i) (pool s0 t)" using P(3) p(2) by auto
    then show False using getEntry_inj [OF epoch_startD(2) [OF st t], of i "length (tacq tr t)"] e n by auto
  qed
qed

lemma syncEvent_fill: "(x :: syncEvent)\<lparr>ev_thread := t, ev_list := v, ev_ret := r\<rparr> = \<lparr>ev_thread = t, ev_list = v, ev_ret = r\<rparr>"
  by (cases x) simp

lemma recordSyncEvent_eq:
  assumes "recordSyncEvent v t E_SYNC_MUTEX_LOCK ret s = Ok s'" and "e = re_start (pool s t) + re_cur (pool s t) * SYNC_EVENT_SIZE"
  shows "re_cur (pool s t) < re_total (pool s t)"
    and "r_thread s' = (r_thread s)(t := (r_thread s t)\<lparr>t_syncevents := (pool s t)\<lparr>re_cur := re_cur (pool s t) + 1\<rparr>\<rparr>)"
    and "r_nodes s' = listInsertTail e v (listInit e (r_nodes s))"
    and "r_event s' = (r_event s)(e := \<lparr>ev_thread = t, ev_list = v, ev_ret = ret\<rparr>)"
    and "r_heap s' = r_heap s" "r_entry s' = r_entry s" "r_activeList s' = r_activeList s"
  using assms by (auto simp: recordSyncEvent_def allocSyncEvent_def re_alloc_def rmap_Ok_iff rt_sets Let_def syncEvent_fill split: if_splits)

text \<open>The event lists after the insertion of a new event.\<close>

lemma record_lists:
  assumes st: "epoch_start T V F s0" and r: "rec_ok T V s0 tr ea s" and u: "uses T V tr" and v: "v \<in> V"
    and e: "e \<notin> ea ` acq_set tr" "e \<notin> V" and n: "n = listInsertTail e v (listInit e (r_nodes s))"
  shows "w \<in> V \<Longrightarrow> is_list n w (map ea (acqs tr w) @ (if w = v then [e] else []))"
    and "a \<notin> V \<Longrightarrow> a \<noteq> e \<Longrightarrow> a \<notin> ea ` acq_set tr \<Longrightarrow> n a = r_nodes s a"
proof -
  let ?n = "listInit e (r_nodes s)"
  have al: "ea ` set (acqs tr w) \<subseteq> ea ` acq_set tr" for w by (auto simp: acqs_set acq_set_def)
  have no: "?n a = r_nodes s a" if "a \<noteq> e" for a using that by (simp add: listInit_def nodeInit_def set_next_def set_prev_def)
  have le: "e \<notin> set (w # map ea (acqs tr w))" if "w \<in> V" for w using e that al [of w] by auto
  have l: "is_list ?n w (map ea (acqs tr w))" if w: "w \<in> V" for w
    by (rule is_list_same [OF rec_okD(1) [OF r w]]) (metis le [OF w] no)
  have fr: "n a = r_nodes s a" if "a \<notin> set (e # v # map ea (acqs tr v))" for a
    using listInsertTail_frame [OF l [OF v] that] no that by (simp add: n)
  show "a \<notin> V \<Longrightarrow> a \<noteq> e \<Longrightarrow> a \<notin> ea ` acq_set tr \<Longrightarrow> n a = r_nodes s a" using fr [of a] v al [of v] by auto
  assume w: "w \<in> V"
  show "is_list n w (map ea (acqs tr w) @ (if w = v then [e] else []))"
  proof (cases "w = v")
    case True
    then show ?thesis using is_list_listInsertTail [OF l [OF w] le [OF w]] by (simp add: n)
  next
    case False
    have "a \<notin> set (e # v # map ea (acqs tr v))" if a: "a \<in> set (w # map ea (acqs tr w))" for a
    proof -
      have "x \<notin> V" if "x \<in> ea ` acq_set tr" for x using that ea_pool(1,2) [OF r u] epoch_startD(6) [OF st] by blast
      moreover have "ea p \<noteq> ea q" if "p \<in> set (acqs tr w)" "q \<in> set (acqs tr v)" for p q
        using that inj_onD [OF ea_inj [OF st r u], of p q] False by (auto simp: acqs_set acq_set_def)
      ultimately show ?thesis using a False w v le [OF w] al by (auto simp: image_subset_iff)
    qed
    then show ?thesis using False is_list_same [OF rec_okD(1) [OF r w] fr] by simp
  qed
qed

lemma rec_ok_acq:
  assumes st: "epoch_start T V F s0" and r: "rec_ok T V s0 tr ea s" and u: "uses T V tr" and tv: "t \<in> T" "v \<in> V"
    and rec: "recordSyncEvent v t E_SYNC_MUTEX_LOCK 0 s = Ok s'"
  shows "\<exists>e. rec_ok T V s0 (tr @ [(t, Acq v)]) (ea(length tr := e)) s'"
proof
  define e where "e = re_getEntry SYNC_EVENT_SIZE (of_nat (length (tacq tr t))) (pool s0 t)"
  note R = rec_okD [OF r]
  have "re_cur (pool s t) = of_nat (length (tacq tr t))" by (simp flip: R(5) [OF tv(1)])
  then have e: "e = re_start (pool s t) + re_cur (pool s t) * SYNC_EVENT_SIZE" using R(3) [OF tv(1)] by (simp add: e_def re_getEntry_def)
  note s' = recordSyncEvent_eq [OF rec e]
  have n: "length (tacq tr t) < unat (re_total (pool s0 t))" using s'(1) R(4,5) [OF tv(1)] by (simp add: word_less_nat_alt)
  have c: "unat (re_cur (pool s t) + 1) = Suc (length (tacq tr t))" using unat_inc [OF s'(1)] R(5) [OF tv(1)] by simp
  note ne = next_entry [OF st r u tv(1) n e_def]
  note li = record_lists [OF st r u tv(2) ne(2,3) s'(3)]
  let ?tr = "tr @ [(t, Acq v)]" and ?ea = "ea(length tr := e)"
  have "map ?ea (acqs ?tr w) = map ea (acqs tr w) @ (if w = v then [e] else [])" for w
    by (auto simp: acqs_snoc acqs_set)
  then have "is_list (r_nodes s') w (map ?ea (acqs ?tr w))" if w: "w \<in> V" for w using li(1) [OF w] by simp
  moreover have "r_nodes s' a = r_nodes s0 a" if "a \<notin> V" "\<forall>t\<in>T. a \<notin> pool_addrs s0 t" for a
  proof -
    have "a \<notin> ea ` acq_set tr" "a \<noteq> e" using that ea_pool(1,2) [OF r u] ne(1) tv(1) by blast+
    then show ?thesis using li(2) R(9) that by metis
  qed
  moreover have "tacq ?tr w = tacq tr w @ (if w = t then [length tr] else [])" for w by (simp add: tacq_snoc)
  moreover have "tacq tr w ! i \<noteq> length tr" if "i < length (tacq tr w)" for w i
    using nth_mem [OF that] by (auto simp: tacq_set acq_set_def)
  moreover have "r_event s' (?ea p) = \<lparr>ev_thread = th ?tr p, ev_list = avar (ac ?tr p), ev_ret = 0\<rparr>" if "p \<in> acq_set ?tr" for p
    using that R(8) [of p] ne(2) by (auto simp: s'(4) acq_set_snoc) (auto simp: acq_set_def)
  ultimately show "rec_ok T V s0 ?tr ?ea s'"
    using R(2-7,10-12) n c e_def tv unfolding rec_ok_def s'(2,5-7) by (auto simp: nth_append less_Suc_eq)
qed

lemma rec_ok_trace:
  assumes st: "epoch_start T V F s0" and "uses T V tr" and "record_trace tr s0 = Ok s"
  shows "\<exists>ea. rec_ok T V s0 tr ea s"
  using assms(2,3)
proof (induction tr arbitrary: s rule: rev_induct)
  case Nil
  then show ?case using epoch_startD [OF st] by (auto simp: rec_ok_def acqs_def tacq_def prog_def acq_set_def)
next
  case (snoc x tr)
  obtain t a where x: "x = (t, a)" by fastforce
  obtain s1 where s1: "record_trace tr s0 = Ok s1" "record_act x s1 = Ok s" using snoc.prems by (auto simp: record_trace_snoc rbind_Ok_iff)
  have u: "uses T V tr" "t \<in> T" "avar a \<in> V" using snoc.prems by (auto simp: uses_def x)
  obtain ea where ea: "rec_ok T V s0 tr ea s1" using snoc.IH [OF u(1) s1(1)] by blast
  show ?case
  proof (cases a)
    case (Acq v)
    then show ?thesis using rec_ok_acq [OF st ea u(1,2), of v s] u(3) s1(2) by (auto simp: x)
  next
    case (Rel v)
    then have "s = s1" using s1(2) by (simp add: x)
    moreover have "th (tr @ [x]) p = th tr p \<and> ac (tr @ [x]) p = ac tr p" if "p \<in> acq_set tr" for p
      using that by (auto simp: acq_set_def)
    ultimately show ?thesis using ea Rel by (intro exI [of _ ea]) (auto simp: rec_ok_def acqs_snoc tacq_snoc acq_set_snoc x)
  qed
qed

section \<open>The preparation of a replay\<close>

lemma prepare_threads:
  "r_thread (prepareRollbackAlivethreads ts s) t =
     (if t \<in> set ts then (r_thread s t)\<lparr>t_sema := 0, t_syncevents := re_prepareRollback (pool s t), t_sys := sysrecord_prepareRollback (t_sys (r_thread s t))\<rparr> else r_thread s t)"
  "r_nodes (prepareRollbackAlivethreads ts s) = r_nodes s" "r_event (prepareRollbackAlivethreads ts s) = r_event s"
  "r_evlist (prepareRollbackAlivethreads ts s) = r_evlist s" "r_pe (prepareRollbackAlivethreads ts s) = r_pe s"
  "r_entry (prepareRollbackAlivethreads ts s) = r_entry s" "r_activeList (prepareRollbackAlivethreads ts s) = r_activeList s"
  "r_heap (prepareRollbackAlivethreads ts s) = r_heap s"
  by (induction ts arbitrary: s)
    (auto simp: prepareRollbackAlivethreads_def prepareRollbackThread_def initThreadSemaphore_def set_thread_def re_prepareRollback_def
      sysrecord_prepareRollback_def)

definition first_of :: "('t, 'v) trace \<Rightarrow> 'v set \<Rightarrow> nat \<Rightarrow> bool" where
  "first_of tr W p \<longleftrightarrow> (\<exists>v\<in>W. acqs tr v \<noteq> [] \<and> p = acqs tr v ! 0)"

definition tokens_at :: "('t, 'v) trace \<Rightarrow> 'v set \<Rightarrow> ('t \<Rightarrow> nat list) \<Rightarrow> ('t \<Rightarrow> nat) \<Rightarrow> bool" where
  "tokens_at tr W pn sm \<longleftrightarrow> (\<forall>t. distinct (pn t) \<and>
     set (pn t) = {p. first_of tr W p \<and> th tr p = t \<and> nxa tr (prog tr t) \<noteq> Some p} \<and>
     sm t = (if \<exists>p. first_of tr W p \<and> nxa tr (prog tr t) = Some p then 1 else 0))"

definition prepared :: "(u64 set \<Rightarrow> u64 set \<Rightarrow> 'h \<Rightarrow> bool) \<Rightarrow> (u64, u64) trace \<Rightarrow> (nat \<Rightarrow> u64) \<Rightarrow> u64 set \<Rightarrow> u64 set \<Rightarrow> 'h rt \<Rightarrow> bool" where
  "prepared hinv tr ea F W s \<longleftrightarrow> (\<exists>pn sm. rtsim hinv tr ea F W s pn sm (\<lambda>_. 0) (\<lambda>_. 0) \<and> tokens_at tr W pn sm)"

lemma uses_thr: "uses T V tr \<Longrightarrow> thr tr \<subseteq> T" "uses T V tr \<Longrightarrow> acqs tr v \<noteq> [] \<Longrightarrow> v \<in> V"
proof -
  assume u: "uses T V tr"
  then show "thr tr \<subseteq> T" by (auto simp: uses_def thr_def)
  assume "acqs tr v \<noteq> []"
  then obtain p where "p < length tr" "ac tr p = Acq v" using acqs_less [of 0 tr v] acqs_ac [of 0 tr v] by auto
  then show "v \<in> V" using u nth_mem [of p tr] by (cases "tr ! p") (auto simp: uses_def ac_def)
qed

lemma prepared_start:
  assumes st: "epoch_start T V F s0" and r: "rec_ok T V s0 tr ea s" and u: "uses T V tr" and ts: "T \<subseteq> set ts"
    and h: "hinv {} F (r_heap s0)"
  shows "prepared hinv tr ea F {} (prepareRollbackAlivethreads ts s)"
proof -
  let ?s = "prepareRollbackAlivethreads ts s"
  note R = rec_okD [OF r] and E = epoch_startD [OF st] and P = prepare_threads [of ts s] and U = uses_thr [OF u]
  have t: "t \<in> T" "t \<in> set ts" if "t \<in> thr tr" for t using that U(1) ts by auto
  have pd: "pend ?s t = pend s0 t" if "t \<in> T" for t using R(2) [OF that] by (simp add: P)
  then have pT: "pend ?s ` thr tr \<subseteq> pend s0 ` T" using U(1) by auto
  have ok: "re_ok SYNC_EVENT_SIZE (pool ?s t)" "unat (re_cur (pool ?s t)) = length (tacq tr t)" "re_start (pool ?s t) = re_start (pool s0 t)"
      "re_iter (pool ?s t) = 0" if "t \<in> thr tr" for t
    using E(2) [OF t(1) [OF that]] R(3-6) [OF t(1) [OF that]] t [OF that]
    by (auto simp: P re_prepareRollback_def re_ok_def word_le_nat_alt)
  have ev: "ea p \<in> F" "ea p \<notin> pend ?s ` thr tr" "ea p \<noteq> 0" if "p \<in> acq_set tr" for p
  proof -
    note e = ea_pool [OF r u that]
    show "ea p \<in> F" "ea p \<notin> pend ?s ` thr tr" using E(6) [OF e(2,1)] pT by auto
    obtain i where "i < length (tacq tr (th tr p))" "ea p = re_getEntry SYNC_EVENT_SIZE (of_nat i) (pool s0 (th tr p))" using e(3) by blast
    then show "ea p \<noteq> 0" using getEntry_nonzero [OF E(2) [OF e(2)], of i] R(6) [OF e(2)] by simp
  qed
  have "inj_on (pend ?s) (thr tr)" by (rule inj_onI) (metis inj_onD [OF E(7)] pd U(1) subsetD)
  moreover have "pend ?s ` thr tr \<subseteq> F" using pd E(4) U(1) by auto
  moreover have "v \<in> F \<and> v \<notin> pend ?s ` thr tr \<and> is_list (r_nodes ?s) v (map ea (acqs tr v))" if "acqs tr v \<noteq> []" for v
    using E(1) [OF U(2) [OF that]] R(1) [OF U(2) [OF that]] pT by (auto simp: P)
  ultimately have "recorded tr ea F ?s"
    using ok ev ea_inj [OF st r u] R(7,8) t unfolding recorded_def by (auto simp: re_getEntry_def) (simp add: P)
  moreover have "counting tr ?s (\<lambda>_. 0) (\<lambda>_. 0)" using ok t by (auto simp: counting_def) (simp add: P)
  moreover have "waiting tr ea F (\<lambda>_. []) ?s (\<lambda>_. [])"
  proof -
    have "is_list (r_nodes ?s) (pend ?s t) []" if "t \<in> thr tr" for t
    proof -
      have "r_nodes s (pend s0 t) = r_nodes s0 (pend s0 t)"
        using t(1) [OF that] E(1,6) by (intro R(9)) blast+
      then show ?thesis using is_list_same [OF E(5) [OF t(1) [OF that]], of "r_nodes s"] pd t(1) [OF that] by (simp add: P)
    qed
    then show ?thesis by (simp add: waiting_def)
  qed
  moreover have "cells tr (\<lambda>_. []) = {}" by (simp add: cells_def)
  moreover have "turns tr ea {} ?s (\<lambda>_. 0)" by (simp add: turns_def)
  ultimately have "rtsim hinv tr ea F {} ?s (\<lambda>_. []) (\<lambda>_. 0) (\<lambda>_. 0) (\<lambda>_. 0)"
    unfolding rtsim_def using h R(10) by (auto simp: P intro!: exI [of _ "\<lambda>_. []"])
  then show ?thesis unfolding prepared_def
    by (intro exI [of _ "\<lambda>_. []"] exI [of _ "\<lambda>_. 0"]) (simp add: tokens_at_def first_of_def)
qed

lemma nxa_first: "nxa tr (prog tr t) = Some p \<longleftrightarrow> 0 < length (tacq tr t) \<and> tacq tr t ! 0 = p"
proof -
  have "nxa tr xs = (case filter (\<lambda>p. is_acq (ac tr p)) xs of [] \<Rightarrow> None | p # _ \<Rightarrow> Some p)" for xs
    by (induction xs) (auto simp: nxa_def split: list.splits)
  then show ?thesis unfolding tacq_def by (auto split: list.splits)
qed

lemma first_of_insert:
  assumes "acqs tr v \<noteq> []" and "v \<notin> W"
  shows "first_of tr (insert v W) p \<longleftrightarrow> first_of tr W p \<or> p = acqs tr v ! 0" and "\<not> first_of tr W (acqs tr v ! 0)"
proof -
  show "first_of tr (insert v W) p \<longleftrightarrow> first_of tr W p \<or> p = acqs tr v ! 0" using assms by (auto simp: first_of_def)
  show "\<not> first_of tr W (acqs tr v ! 0)"
    using assms nth_acqs_eq [of 0 tr v 0] by (auto simp: first_of_def)
qed

text \<open>One more token in the right place.\<close>

lemma tokens_at_insert:
  assumes tk: "tokens_at tr W pn sm" and v: "acqs tr v \<noteq> []" "v \<notin> W" and e: "e = acqs tr v ! 0"
  shows "nxa tr (prog tr (th tr e)) = Some e \<Longrightarrow> tokens_at tr (insert v W) pn (sm(th tr e := Suc (sm (th tr e))))"
    and "nxa tr (prog tr (th tr e)) \<noteq> Some e \<Longrightarrow> tokens_at tr (insert v W) (pn(th tr e := pn (th tr e) @ [e])) sm"
proof -
  note f = first_of_insert [OF v, folded e]
  have th: "t = th tr e" if "nxa tr (prog tr t) = Some e" for t using nxa_Some [OF that] by (auto simp: prog_def)
  show "tokens_at tr (insert v W) pn (sm(th tr e := Suc (sm (th tr e))))" if n: "nxa tr (prog tr (th tr e)) = Some e"
  proof -
    have "\<not> (\<exists>p. first_of tr W p \<and> nxa tr (prog tr (th tr e)) = Some p)" using n f(2) by auto
    then have "sm (th tr e) = 0" using tk by (simp add: tokens_at_def)
    show ?thesis unfolding tokens_at_def f(1)
    proof (intro allI conjI)
      fix t
      have T: "distinct (pn t)" "set (pn t) = {p. first_of tr W p \<and> th tr p = t \<and> nxa tr (prog tr t) \<noteq> Some p}"
          "sm t = (if \<exists>p. first_of tr W p \<and> nxa tr (prog tr t) = Some p then 1 else 0)"
        using tk unfolding tokens_at_def by blast+
      show "distinct (pn t)" by (rule T(1))
      show "set (pn t) = {p. (first_of tr W p \<or> p = e) \<and> th tr p = t \<and> nxa tr (prog tr t) \<noteq> Some p}" unfolding T(2) using n by auto
      show "(sm(th tr e := Suc (sm (th tr e)))) t = (if \<exists>p. (first_of tr W p \<or> p = e) \<and> nxa tr (prog tr t) = Some p then 1 else 0)"
      proof (cases "t = th tr e")
        case True
        then show ?thesis using n \<open>sm (th tr e) = 0\<close> by auto
      next
        case False
        then have "nxa tr (prog tr t) \<noteq> Some e" using th by blast
        then show ?thesis using False T(3) by auto
      qed
    qed
  qed
  show "tokens_at tr (insert v W) (pn(th tr e := pn (th tr e) @ [e])) sm" if n: "nxa tr (prog tr (th tr e)) \<noteq> Some e"
  proof -
    have "nxa tr (prog tr t) \<noteq> Some e" for t using th n by blast
    show ?thesis unfolding tokens_at_def f(1)
    proof (intro allI conjI)
      fix t
      have T: "distinct (pn t)" "set (pn t) = {p. first_of tr W p \<and> th tr p = t \<and> nxa tr (prog tr t) \<noteq> Some p}"
          "sm t = (if \<exists>p. first_of tr W p \<and> nxa tr (prog tr t) = Some p then 1 else 0)"
        using tk unfolding tokens_at_def by blast+
      show "distinct ((pn(th tr e := pn (th tr e) @ [e])) t)" using T(1,2) f(2) by auto
      show "set ((pn(th tr e := pn (th tr e) @ [e])) t) = {p. (first_of tr W p \<or> p = e) \<and> th tr p = t \<and> nxa tr (prog tr t) \<noteq> Some p}"
        using T(2) n by auto
      show "sm t = (if \<exists>p. (first_of tr W p \<or> p = e) \<and> nxa tr (prog tr t) = Some p then 1 else 0)"
        using T(3) \<open>\<And>t. nxa tr (prog tr t) \<noteq> Some e\<close> by auto
    qed
  qed
qed

context cell_heap
begin

lemma same_fixed_refl: "same_fixed tr F s s"
  by (simp add: same_fixed_def)

lemma same_fixed_trans: "same_fixed tr F s s' \<Longrightarrow> same_fixed tr F s' s'' \<Longrightarrow> same_fixed tr F s s''"
  by (simp add: same_fixed_def)

lemma prepare_list_sim:
  assumes p: "prepared hinv tr ea F W s" and v: "v \<notin> W" and em: "acqs tr v = [] \<Longrightarrow> isListEmpty v (r_nodes s)"
    and ok: "prepareEventListRollback (im tid) v s = Some (Ok s')"
  shows "same_fixed tr F s s' \<and> prepared hinv tr ea F (insert v W) s'"
proof -
  obtain pn sm where r: "rtsim hinv tr ea F W s pn sm (\<lambda>_. 0) (\<lambda>_. 0)" and tk: "tokens_at tr W pn sm" using p by (auto simp: prepared_def)
  show ?thesis
  proof (cases "acqs tr v = []")
    case True
    then have "s' = s" using em ok by (simp add: prepareEventListRollback_def sel_prepareRollback_def)
    moreover have "first_of tr (insert v W) = first_of tr W" using True by (auto simp: first_of_def fun_eq_iff)
    then have "tokens_at tr (insert v W) pn sm" using tk by (simp add: tokens_at_def)
    moreover have "rtsim hinv tr ea F (insert v W) s pn sm (\<lambda>_. 0) (\<lambda>_. 0)" using r True by (auto simp: rtsim_def turns_def)
    ultimately show ?thesis by (auto simp: prepared_def same_fixed_def)
  next
    case False
    define e where "e = acqs tr v ! 0"
    define s1 where "s1 = set_evlist v (\<lambda>l. l\<lparr>sl_curentry := ea e\<rparr>) s"
    have e: "e \<in> acq_set tr" using acqs_acq_set [of 0 tr v] False by (simp add: e_def)
    have l: "is_list (r_nodes s) v (map ea (acqs tr v))" using r False by (auto simp: rtsim_def recorded_def)
    have "nxt (r_nodes s v) = ea e" using is_list_ends(1) [OF l] False by (cases "acqs tr v") (simp_all add: e_def)
    then have sg: "signalNextThread (im tid) (ea e) s1 = Some (Ok s')"
      using ok isListEmpty_iff [OF l] False rtsim_event(1) [OF r e]
      by (simp add: prepareEventListRollback_def sel_prepareRollback_def nextEntry_def s1_def Let_def)
    have "turns tr ea (insert v W) s1 (\<lambda>_. 0)" using r False by (auto simp: rtsim_def turns_def s1_def set_evlist_def e_def)
    then have r1: "rtsim hinv tr ea F (insert v W) s1 pn sm (\<lambda>_. 0) (\<lambda>_. 0)" unfolding s1_def by (rule rtsim_set_evlist [OF r])
    have sf: "same_fixed tr F s x" if "same_fixed tr F s1 x" for x using that by (simp add: same_fixed_def s1_def set_evlist_def)
    note ti = tokens_at_insert [OF tk False v e_def]
    show ?thesis
    proof (cases "nxa tr (prog tr (th tr e)) = Some e")
      case True
      then show ?thesis using handover_sim(1) [OF r1 e, of tid] sg ti(1) sf unfolding nxa_first prepared_def by fastforce
    next
      case n: False
      then show ?thesis using handover_sim(2) [OF r1 e, of tid] sg ti(2) sf unfolding nxa_first prepared_def by fastforce
    qed
  qed
qed

lemma is_list_fixed:
  "is_list (r_nodes s) a xs \<Longrightarrow> set (a # xs) \<subseteq> F - pend s ` thr tr \<Longrightarrow> same_fixed tr F s s' \<Longrightarrow> is_list (r_nodes s') a xs"
  by (rule is_list_same [of "r_nodes s"]) (auto simp: same_fixed_def)

lemma rollback_loop_sim:
  assumes "prepared hinv tr ea F W s" and "is_list (r_nodes s) act (us @ x # xs)"
    and "set (act # us @ x # xs) \<subseteq> F - pend s ` thr tr" and "lst = last (x # xs)" and "vs = map (\<lambda>y. se_syncevents (r_entry s y)) (x # xs)"
    and "distinct vs" and "set vs \<inter> W = {}" and "set vs \<subseteq> F - pend s ` thr tr"
    and "\<And>v. v \<in> set vs \<Longrightarrow> acqs tr v = [] \<Longrightarrow> isListEmpty v (r_nodes s)"
    and "rollback_loop (im tid) lst x s = Some (Ok s')"
  shows "same_fixed tr F s s' \<and> prepared hinv tr ea F (W \<union> set vs) s'"
  using assms
proof (induction xs arbitrary: us x s W vs)
  case Nil
  then have "prepareEventListRollback (im tid) (se_syncevents (r_entry s x)) s = Some (Ok s')"
    by (subst (asm) rollback_loop.simps) (auto split: option.splits res.splits)
  then show ?case using prepare_list_sim [OF Nil.prems(1)] Nil.prems by simp
next
  case (Cons y ys)
  let ?v = "se_syncevents (r_entry s x)"
  have xl: "x \<noteq> lst" using Cons.prems(2,4) by (auto simp: is_list_def)
  obtain s1 where s1: "prepareEventListRollback (im tid) ?v s = Some (Ok s1)"
      "rollback_loop (im tid) lst (nextEntry x (r_nodes s1)) s1 = Some (Ok s')"
    using Cons.prems(10) xl by (subst (asm) rollback_loop.simps) (auto split: option.splits res.splits)
  have p1: "same_fixed tr F s s1" "prepared hinv tr ea F (insert ?v W) s1"
    using prepare_list_sim [OF Cons.prems(1) _ _ s1(1)] Cons.prems(5,7,9) by auto
  have sf: "r_entry s1 = r_entry s" "pend s1 ` thr tr = pend s ` thr tr" using p1(1) by (auto simp: same_fixed_def)
  have l1: "is_list (r_nodes s1) act ((us @ [x]) @ y # ys)" using is_list_fixed [OF Cons.prems(2,3) p1(1)] by simp
  then have "nextEntry x (r_nodes s1) = y" using is_list_succ(1) [of "r_nodes s1" act us x "y # ys"] by (simp add: nextEntry_def)
  then have lp: "rollback_loop (im tid) lst y s1 = Some (Ok s')" using s1(2) by simp
  have em: "isListEmpty v (r_nodes s1)" if "v \<in> set (tl vs)" "acqs tr v = []" for v
  proof -
    have "v \<in> set vs" using that(1) by (rule in_set_tlD)
    then have "isListEmpty v (r_nodes s)" "r_nodes s1 v = r_nodes s v" using Cons.prems(8,9) that(2) p1(1) by (auto simp: same_fixed_def)
    then show ?thesis by (simp add: isListEmpty_def)
  qed
  have "same_fixed tr F s1 s' \<and> prepared hinv tr ea F (insert ?v W \<union> set (tl vs)) s'"
    by (rule Cons.IH [OF p1(2) l1]) (use Cons.prems(3-8) sf em lp in auto)
  then show ?case using same_fixed_trans [OF p1(1)] Cons.prems(5) by (simp add: insert_commute)
qed

lemma starts_exists:
  assumes "prepared hinv tr ea F V s" and "\<And>v. acqs tr v \<noteq> [] \<Longrightarrow> v \<in> V"
  shows "\<exists>a. starts tr a \<and> sim hinv tr ea F \<lparr>c_rt = s, c_rem = (\<lambda>t. map (ac tr) (prog tr t)), c_ph = (\<lambda>_. CReady), c_log = []\<rparr> a"
proof -
  obtain pn sm where r: "rtsim hinv tr ea F V s pn sm (\<lambda>_. 0) (\<lambda>_. 0)" and tk: "tokens_at tr V pn sm" using assms(1) by (auto simp: prepared_def)
  let ?a = "\<lparr>rem = prog tr, ph = \<lambda>_. Ready, pnd = pn, sem = sm, cur = \<lambda>_. 0, log = []\<rparr> :: (u64, u64) rst"
  have "first_of tr V = first tr" using assms(2) by (auto simp: first_of_def first_def fun_eq_iff)
  then have "starts tr ?a" using tk by (simp add: starts_def tokens_at_def)
  moreover have "rtsim hinv tr ea F UNIV s pn sm (\<lambda>_. 0) (\<lambda>_. 0)" using r assms(2) unfolding rtsim_def turns_def by blast
  moreover have "itn tr ?a = (\<lambda>_. 0)" by (simp add: itn_def tacq_def fun_eq_iff)
  ultimately show ?thesis by (intro exI [of _ ?a]) (simp add: sim_def)
qed

lemma sim_start:
  assumes st: "epoch_start T V F s0" and reg: "registry T V F es spawn s0" and u: "uses T V tr" and ts: "T \<subseteq> set ts"
    and h: "hinv {} F (r_heap s0)" and c: "replay_of (im tid) ts spawn tr s0 c"
  shows "\<exists>ea a. starts tr a \<and> sim hinv tr ea F c a"
proof -
  obtain s1 s2 where s1: "record_trace tr s0 = Ok s1" and s2: "prepare_replay (im tid) ts spawn s1 = Some (Ok s2)"
    and c: "c = \<lparr>c_rt = s2, c_rem = thread_acts tr, c_ph = (\<lambda>_. CReady), c_log = []\<rparr>" using c by (auto simp: replay_of_def)
  obtain ea where r: "rec_ok T V s0 tr ea s1" using rec_ok_trace [OF st u s1] by blast
  let ?p = "prepareRollbackAlivethreads ts s1" and ?vs = "map (\<lambda>e. se_syncevents (r_entry s0 e)) es"
  note R = rec_okD [OF r] and E = epoch_startD [OF st] and P = prepare_threads [of ts s1] and U = uses_thr [OF u]
  have p0: "prepared hinv tr ea F {} ?p" by (rule prepared_start [where hinv = hinv, OF st r u ts h])
  have fx: "pend ?p ` thr tr \<subseteq> pend s0 ` T" using R(2) U(1) by (auto simp: P)
  have act: "is_list (r_nodes s0) (r_activeList s0) es" "distinct (?vs @ [spawn])" "V = set (?vs @ [spawn])"
      "set (r_activeList s0 # es) \<subseteq> F - V - pend s0 ` T - (\<Union>t\<in>T. pool_addrs s0 t)"
    using reg unfolding registry_def by blast+
  have l: "is_list (r_nodes ?p) (r_activeList ?p) es"
    unfolding P R(12) by (rule is_list_same [OF act(1)]) (use act(4) in \<open>auto intro!: R(9)\<close>)
  have em: "isListEmpty v (r_nodes ?p)" if "v \<in> V" "acqs tr v = []" for v
    using isListEmpty_iff [OF R(1) [OF that(1)]] that(2) by (simp add: P)
  have VF: "V \<subseteq> F - pend ?p ` thr tr" using E(1) fx by blast
  have sp: "spawn \<in> V" "spawn \<notin> set ?vs" using act(2,3) by auto
  have "r_activeList ?p = r_activeList s0" by (simp add: P(7) R(12))
  moreover have "F - V - pend s0 ` T - (\<Union>t\<in>T. pool_addrs s0 t) \<subseteq> F - pend ?p ` thr tr" using fx by blast
  ultimately have aF: "set (r_activeList ?p # es) \<subseteq> F - pend ?p ` thr tr" using order_trans [OF act(4)] by metis
  have en: "r_entry ?p = r_entry s0" by (simp add: P(6) R(11))
  obtain s3 where s3: "xsync_prepareRollback (im tid) ?p = Some (Ok s3)" "prepareEventListRollback (im tid) spawn s3 = Some (Ok s2)"
    using s2 by (auto simp: prepare_replay_def obind_Ok_iff)
  have p3: "same_fixed tr F ?p s3 \<and> prepared hinv tr ea F (set ?vs) s3"
  proof (cases es)
    case Nil
    then show ?thesis using s3(1) isListEmpty_iff [OF l] p0 by (simp add: xsync_prepareRollback_def same_fixed_def)
  next
    case (Cons x xs)
    have "rollback_loop (im tid) (last (x # xs)) x ?p = Some (Ok s3)"
      using s3(1) isListEmpty_iff [OF l] is_list_ends [OF l] Cons
      by (simp add: xsync_prepareRollback_def Let_def nextEntry_def prevEntry_def)
    then have "same_fixed tr F ?p s3 \<and> prepared hinv tr ea F ({} \<union> set ?vs) s3"
      by (intro rollback_loop_sim [OF p0, where us = "[]" and xs = xs and x = x and act = "r_activeList ?p"])
        (use l act(2,3) em VF aF Cons en in auto)
    then show ?thesis by simp
  qed
  have "isListEmpty spawn (r_nodes s3)" if "acqs tr spawn = []"
    using em [OF sp(1) that] VF sp(1) p3 by (auto simp: same_fixed_def isListEmpty_def)
  then have "prepared hinv tr ea F (insert spawn (set ?vs)) s2"
    using prepare_list_sim [of tr ea F "set ?vs" s3 spawn tid s2] p3 sp(2) s3(2) by blast
  moreover have "insert spawn (set ?vs) = V" using act(3) by auto
  ultimately have "prepared hinv tr ea F V s2" by simp
  from starts_exists [OF this U(2)] show ?thesis unfolding c thread_acts_eq by blast
qed

lemma order_run:
  assumes law: "lawful tr (\<lambda>_. None)" and st: "starts tr a0" "sim hinv tr ea F c0 a0" and run: "(replay_step im fr ^^ n) c0 c"
  shows "n \<le> 3 * length tr" and "\<exists>k. filter (\<lambda>x. snd x = v) (c_log c) = take k (acquisitions tr v)"
    and "(\<exists>c'. replay_step im fr c c') \<or> out_of_memory im c \<or>
      (\<forall>t. c_rem c t = []) \<and> (\<forall>v. filter (\<lambda>x. snd x = v) (c_log c) = acquisitions tr v)"
proof -
  obtain a where a: "(rstep tr ^^ n) a0 a" "sim hinv tr ea F c a" "rinv tr a" using sim_run [OF law st(2,1) run] by blast
  show "n \<le> 3 * length tr" using run_length [OF law st(1) a(1)] by simp
  have "(rstep tr)\<^sup>*\<^sup>* a0 a" using a(1) by (auto simp: rtranclp_power)
  note la = log_acqs [OF law st(1) this]
  have fl: "filter (\<lambda>x. snd x = w) (c_log c) = map (\<lambda>p. (th tr p, w)) (filter (\<lambda>p. ac tr p = Acq w) (log a))" for w
  proof -
    have "filter (\<lambda>p. avar (ac tr p) = w) (log a) = filter (\<lambda>p. ac tr p = Acq w) (log a)" by (rule filter_cong) (use la in \<open>force+\<close>)
    moreover have "map (\<lambda>p. (th tr p, avar (ac tr p))) (filter (\<lambda>p. ac tr p = Acq w) (log a)) =
        map (\<lambda>p. (th tr p, w)) (filter (\<lambda>p. ac tr p = Acq w) (log a))" by (rule map_cong) auto
    ultimately show ?thesis by (simp add: simD(4) [OF a(2)] filter_map o_def)
  qed
  show "\<exists>k. filter (\<lambda>x. snd x = v) (c_log c) = take k (acquisitions tr v)"
    using orderD(4) [OF rinvD(6) [OF a(3)], of v] by (auto simp: fl acquisitions_eq take_map)
  show "(\<exists>c'. replay_step im fr c c') \<or> out_of_memory im c \<or>
      (\<forall>t. c_rem c t = []) \<and> (\<forall>v. filter (\<lambda>x. snd x = v) (c_log c) = acquisitions tr v)"
  proof (cases "\<forall>t. c_rem c t = []")
    case True
    then have "rem a t = []" for t using simD(2) [OF a(2), of t] by simp
    then show ?thesis using True finished_log [OF a(3)] by (simp add: fl acquisitions_eq)
  next
    case False
    then show ?thesis using sim_progress_run [OF law a(2,3)] by blast
  qed
qed

end

end
