(* ===== verification/Sync_Order.thy ===== *)
theory Sync_Order
  imports Sync_Replay Heap_Safety
begin

text \<open>
  The theorems about the replay of synchronisations, with the heap of the runtime (\<open>Xpheap\<close>) as the
  heap that holds the pending tokens.
\<close>

section \<open>Pending tokens in the heap of the runtime\<close>

text \<open>
  Thread \<open>t\<close> uses the heap with index \<open>idx t\<close>. \<open>C\<close> holds live objects of the heap of the runtime, and
  every address of \<open>F\<close> is outside the heap or inside a live object that is not in \<open>C\<close>.
\<close>

definition reserved :: "(u64 \<times> nat) set \<Rightarrow> u64 set \<Rightarrow> perheap \<Rightarrow> u64 \<Rightarrow> bool" where
  "reserved L C h a \<longleftrightarrow> unat a < unat (si_start (ph_src h)) \<or> unat (si_end (ph_src h)) \<le> unat a \<or>
     (\<exists>(q, d)\<in>L. q \<notin> C \<and> blk_lo (q, d) \<le> unat a \<and> unat a < blk_hi (q, d))"

definition cells_in :: "(u64 \<Rightarrow> int) \<Rightarrow> u64 set \<Rightarrow> u64 set \<Rightarrow> perheap \<Rightarrow> bool" where
  "cells_in idx C F h \<longleftrightarrow> (\<forall>t. 0 \<le> idx t \<and> idx t < NUM_HEAPS) \<and>
     (\<exists>B Fr. ik.heaps_inv heap_nums (ph_lay h) B Fr (ph_src h, ph_mem h) \<and>
       (\<forall>a\<in>C. (a, ik.class_of 24) \<in> ik.all_live heap_nums B Fr) \<and> (\<forall>a\<in>F. reserved (ik.all_live heap_nums B Fr) C h a))"

lemma cells_inD:
  assumes "cells_in idx C F h"
  obtains B Fr where "ik.heaps_inv heap_nums (ph_lay h) B Fr (ph_src h, ph_mem h)"
    "\<forall>a\<in>C. (a, ik.class_of 24) \<in> ik.all_live heap_nums B Fr" "\<forall>a\<in>F. reserved (ik.all_live heap_nums B Fr) C h a"
    "\<And>t. 0 \<le> idx t" "\<And>t. idx t < NUM_HEAPS" "\<And>t. nat (idx t) \<in> heap_nums"
proof -
  have "nat (idx t) \<in> heap_nums" for t using assms heap_num [of "idx t"] by (simp only: cells_in_def)
  then show ?thesis using assms that unfolding cells_in_def by blast
qed

lemma reserved_mono:
  assumes "reserved L C h a" and "\<And>q d. (q, d) \<in> L \<Longrightarrow> q \<notin> C \<Longrightarrow> (q, d) \<in> L' \<and> q \<notin> C'"
    and "si_start (ph_src h') = si_start (ph_src h)" "si_end (ph_src h') = si_end (ph_src h)"
  shows "reserved L' C' h' a"
  using assms unfolding reserved_def by fastforce

lemma cells_malloc:
  assumes c: "cells_in idx C F h" and im: "InternalHeap_malloc (idx t) 24 h = Ok (p, h')"
  shows "p \<notin> C \<union> F \<and> cells_in idx (insert p C) F h'"
proof -
  let ?l = "ph_lay h (nat (idx t))" and ?c = "ik.class_of 24" and ?L = "ik.all_live heap_nums"
  obtain B Fr where B: "ik.heaps_inv heap_nums (ph_lay h) B Fr (ph_src h, ph_mem h)" "\<forall>a\<in>C. (a, ?c) \<in> ?L B Fr" "\<forall>a\<in>F. reserved (?L B Fr) C h a"
    and ix: "\<And>t. 0 \<le> idx t" "\<And>t. idx t < NUM_HEAPS" "\<And>t. nat (idx t) \<in> heap_nums"
    using cells_inD [OF c] by metis
  obtain x m where m: "ansi_malloc int_src ?l iah_getSize (iah_malloc ?l) 24 (ph_src h, ph_mem h) = Ok (p, x, m)"
      "h' = h\<lparr>ph_src := x, ph_mem := m\<rparr>"
    using im by (auto simp: InternalHeap_malloc_def ph_malloc_def rmap_Ok_iff rbind_Ok_iff split: if_splits)
  have "\<exists>B' Fr'. ik.heaps_inv heap_nums (ph_lay h) B' Fr' (x, m) \<and> ?L B' Fr' = insert (p, ?c) (?L B Fr) \<and> (p, ?c) \<notin> ?L B Fr \<and>
      si_end x = si_end (ph_src h) \<and> si_start x = si_start (ph_src h)"
    using ik.heaps_malloc [OF B(1) ix(3) [of t], of 24] m(1) by (auto simp: MallocMaxSize_def word_unat_eq_iff [symmetric])
  then obtain B' Fr' where B': "ik.heaps_inv heap_nums (ph_lay h) B' Fr' (x, m)" "?L B' Fr' = insert (p, ?c) (?L B Fr)" "(p, ?c) \<notin> ?L B Fr"
      "si_end x = si_end (ph_src h)" "si_start x = si_start (ph_src h)" by blast
  have new: "(p, ?c) \<in> ?L B' Fr'" using B'(2) by simp
  note L = ik.heaps_disjoint [OF B'(1) zero_num new]
  have top: "unat (si_position x) \<le> unat (si_end x)" using ik.heaps_invD(3) [OF B'(1) zero_num] ib.bounded [of x] by simp
  have off: "p \<noteq> q \<and> \<not> (blk_lo (q, d) \<le> unat p \<and> unat p < blk_hi (q, d))" if q: "(q, d) \<in> ?L B Fr" for q d
  proof -
    have "(q, d) \<in> ?L B' Fr'" "(q, d) \<noteq> (p, ?c)" using B'(2,3) q by auto
    from L(4) [OF this] show ?thesis by (auto simp: blk_lo_def blk_hi_def)
  qed
  have "\<not> reserved (?L B Fr) C h p" using off L(1,2) top B'(4,5) unfolding reserved_def by fastforce
  then have pF: "p \<notin> F" using B(3) by blast
  moreover have pC: "p \<notin> C" using B(2) B'(3) by auto
  moreover have "cells_in idx (insert p C) F h'"
    unfolding cells_in_def
  proof (intro conjI exI ballI allI)
    show "0 \<le> idx u" "idx u < NUM_HEAPS" for u by (rule ix)+
    show "ik.heaps_inv heap_nums (ph_lay h') B' Fr' (ph_src h', ph_mem h')" using B'(1) m(2) by simp
    show "(a, ?c) \<in> ?L B' Fr'" if "a \<in> insert p C" for a using that B(2) B'(2) by auto
    show "reserved (?L B' Fr') (insert p C) h' a" if "a \<in> F" for a
      by (rule reserved_mono [of "?L B Fr" C h]) (use that B(3) B'(2,4,5) off m(2) in auto)
  qed
  ultimately show ?thesis by blast
qed

lemma cells_free:
  assumes c: "cells_in idx C F h" and p: "p \<in> C"
  shows "\<exists>h'. InternalHeap_free (idx t) p h = Ok h' \<and> cells_in idx (C - {p}) F h'"
proof -
  let ?l = "ph_lay h (nat (idx t))" and ?c = "ik.class_of 24" and ?L = "ik.all_live heap_nums"
  obtain B Fr where B: "ik.heaps_inv heap_nums (ph_lay h) B Fr (ph_src h, ph_mem h)" "\<forall>a\<in>C. (a, ?c) \<in> ?L B Fr" "\<forall>a\<in>F. reserved (?L B Fr) C h a"
    and ix: "\<And>t. 0 \<le> idx t" "\<And>t. idx t < NUM_HEAPS" "\<And>t. nat (idx t) \<in> heap_nums"
    using cells_inD [OF c] by metis
  have "(p, ?c) \<in> ?L B Fr" using B(2) p by blast
  then obtain m Fr' where m: "ansi_free iah_getSize ?l p (ph_mem h) = Ok m" "ik.heaps_inv heap_nums (ph_lay h) B Fr' (ph_src h, m)"
      "?L B Fr' = ?L B Fr - {(p, ?c)}"
    using ik.heaps_free [OF B(1) ix(3) [of t]] by fastforce
  have "cells_in idx (C - {p}) F (h\<lparr>ph_mem := m\<rparr>)"
    unfolding cells_in_def
  proof (intro conjI exI ballI allI)
    show "0 \<le> idx u" "idx u < NUM_HEAPS" for u by (rule ix)+
    show "ik.heaps_inv heap_nums (ph_lay (h\<lparr>ph_mem := m\<rparr>)) B Fr' (ph_src (h\<lparr>ph_mem := m\<rparr>), ph_mem (h\<lparr>ph_mem := m\<rparr>))"
      using m(2) by simp
    show "(a, ?c) \<in> ?L B Fr'" if "a \<in> C - {p}" for a using that B(2) m(3) by auto
    show "reserved (?L B Fr') (C - {p}) (h\<lparr>ph_mem := m\<rparr>) a" if "a \<in> F" for a
      by (rule reserved_mono [of "?L B Fr" C h]) (use that B(3) m(3) p in auto)
  qed
  moreover have "InternalHeap_free (idx t) p h = Ok (h\<lparr>ph_mem := m\<rparr>)"
    using m(1) ix(2) [of t] by (simp add: InternalHeap_free_def ph_free_def)
  ultimately show ?thesis by blast
qed

interpretation ic: cell_heap "\<lambda>t. InternalHeap_malloc (idx t)" "\<lambda>t. InternalHeap_free (idx t)" "cells_in idx" for idx
  by unfold_locales (use cells_malloc cells_free in auto)

text \<open>The heap of the runtime right after its start, 16 MB at 1 MB.\<close>

definition demo_perheap :: perheap where
  "demo_perheap = \<lparr>ph_src = \<lparr>si_start = 1048576, si_end = 17825792, si_position = 1048576, si_remaining = 16777216, si_magic = 0xCAFEBABE\<rparr>,
     ph_mem = pth_new demo_layout (\<lambda>_. 0), ph_lay = demo_layout, ph_heapStart = 1048576, ph_heapEnd = 17825792\<rparr>"

text \<open>The first thread has the heap 0, all others have the heap 1.\<close>

definition demo_index :: "u64 \<Rightarrow> int" where "demo_index t = (if t = 1000 then 0 else 1)"

lemma demo_cells: "cells_in demo_index {} {a. unat a < 1048576} demo_perheap"
proof -
  have l: "layouts_ok heap_nums demo_layout 1048576" using demo_layouts by (fastforce simp: layouts_ok_def meta_ok_def)
  have si: "si_inv (ph_src demo_perheap)" "unat (si_start (ph_src demo_perheap)) = 1048576" "unat (si_position (ph_src demo_perheap)) = 1048576"
    by (simp_all add: demo_perheap_def si_inv_def)
  have "ik.heaps_inv heap_nums demo_layout {} (\<lambda>_ _. []) (ph_src demo_perheap, ph_mem demo_perheap)"
    using l si by (intro ik.heaps_new [where m = "\<lambda>_. 0"]) (simp_all add: demo_perheap_def)
  then show ?thesis unfolding cells_in_def
    by (intro conjI exI [of _ "{}"] exI [of _ "\<lambda>_ _. []"]) (auto simp: demo_perheap_def reserved_def demo_index_def)
qed

section \<open>Two threads that hand over a mutex\<close>

abbreviation pool0 :: "u64 \<Rightarrow> unit entries" where
  "pool0 p \<equiv> \<lparr>re_store = \<lambda>_. (), re_start = p, re_total = 2, re_cur = 0, re_size = 4096, re_iter = 0\<rparr>"

abbreviation thread0 :: "u64 \<Rightarrow> u64 \<Rightarrow> thread_t" where
  "thread0 pd p \<equiv> \<lparr>t_available = False, t_internalheap = False, t_disablecheck = False, t_isNewlySpawned = False, t_hasJoined = False,
     t_isSafe = True, t_index = 0, t_self = 0, t_status = E_THREAD_RUNNING, t_condwait = 0, t_isDetached = False, t_parent = 0, t_joiner = 0,
     t_sys = demo_systhread, t_syncevents = pool0 p, t_qlist = qs_q demo_qstate, t_pendingSyncevents = pd, t_sema = 0, t_startRoutine = 0, t_startArg = 0, t_result = 0\<rparr>"

definition two_threads :: "perheap rt" where
  "two_threads = \<lparr>r_nodes = listInsertTail 400 300 (listInit 300 (listInit 500 (listInit 600 (listInit 1100 (listInit 2100 blank_store))))),
     r_event = \<lambda>_. \<lparr>ev_thread = 0, ev_list = 0, ev_ret = 0\<rparr>,
     r_evlist = \<lambda>_. \<lparr>sl_syncVariable = 0, sl_syncCmd = E_SYNC_MUTEX_LOCK, sl_curentry = 0\<rparr>,
     r_thread = \<lambda>t. if t = 1000 then thread0 1100 10000 else thread0 2100 20000,
     r_pe = \<lambda>_. 0, r_entry = \<lambda>_. \<lparr>se_type = E_SYNCVAR_MUTEX, se_nominal = 0, se_real = 0, se_syncevents = 500\<rparr>,
     r_newList = 310, r_activeList = 300, r_delList = 320, r_heap = demo_perheap\<rparr>"

abbreviation hand_over :: "(u64, u64) trace" where
  "hand_over \<equiv> [(1000, Acq 500), (1000, Rel 500), (2000, Acq 500), (2000, Rel 500)]"

lemma two_threads_start:
  "epoch_start {1000, 2000} {500, 600} {a. unat a < 1048576} two_threads"
  "registry {1000, 2000} {500, 600} {a. unat a < 1048576} [400] 600 two_threads"
  "uses {1000, 2000} {500, 600} hand_over" "lawful hand_over (\<lambda>_. None)" "cells_in demo_index {} {a. unat a < 1048576} (r_heap two_threads)"
proof -
  have two: "{..<2 :: nat} = {0, 1}" by auto
  have pa: "pool_addrs two_threads 1000 = {10000, 10040}" "pool_addrs two_threads 2000 = {20000, 20040}"
    using two by (simp_all add: pool_addrs_def two_threads_def re_getEntry_def)
  show "epoch_start {1000, 2000} {500, 600} {a. unat a < 1048576} two_threads"
    unfolding epoch_start_def by (simp add: pa) (simp add: two_threads_def re_ok_def is_list_def listInsertTail_def listInit_def)
  show "registry {1000, 2000} {500, 600} {a. unat a < 1048576} [400] 600 two_threads"
    unfolding registry_def by (simp add: pa) (simp add: two_threads_def is_list_def listInsertTail_def listInit_def insert_commute)
qed (simp_all add: uses_def two_threads_def demo_cells)

lemma two_threads_recorded:
  obtains s1 where "record_trace hand_over two_threads = Ok s1"
    and "r_nodes s1 300 = r_nodes two_threads 300" "r_nodes s1 1100 = r_nodes two_threads 1100"
    and "isListEmpty 600 (r_nodes s1)" "\<not> isListEmpty 500 (r_nodes s1)" "nxt (r_nodes s1 500) = 10000"
    and "r_event s1 10000 = \<lparr>ev_thread = 1000, ev_list = 500, ev_ret = 0\<rparr>" "r_activeList s1 = 300" "r_entry s1 = r_entry two_threads"
    and "pool s1 1000 = (pool0 10000)\<lparr>re_cur := 1\<rparr>" "pend s1 1000 = 1100"
proof -
  obtain s1 where s1: "record_trace hand_over two_threads = Ok s1" "pool s1 1000 = (pool0 10000)\<lparr>re_cur := 1\<rparr>" "pend s1 1000 = 1100"
    by (simp add: recordSyncEvent_def allocSyncEvent_def re_alloc_def rt_sets Let_def two_threads_def)
  obtain ea where r: "rec_ok {1000, 2000} {500, 600} two_threads hand_over ea s1"
    using rec_ok_trace [OF two_threads_start(1,3) s1(1)] by blast
  note R = rec_okD [OF r]
  have pa: "pool_addrs two_threads 1000 = {10000, 10040}" "pool_addrs two_threads 2000 = {20000, 20040}"
  proof -
    have two: "{..<2 :: nat} = {0, 1}" by auto
    show "pool_addrs two_threads 1000 = {10000, 10040}" "pool_addrs two_threads 2000 = {20000, 20040}"
      using two by (simp_all add: pool_addrs_def two_threads_def re_getEntry_def)
  qed
  have a: "acqs hand_over 500 = [0, 2]" "acqs hand_over 600 = []" "tacq hand_over 1000 = [0]"
    by (simp_all add: acqs_def tacq_def prog_def ac_def th_def upt_rec)
  have e: "ea 0 = 10000" using R(7) [of 1000 0] a(3) by (simp add: re_getEntry_def two_threads_def)
  have l: "is_list (r_nodes s1) 500 [10000, ea 2]" "is_list (r_nodes s1) 600 []" using R(1) [of 500] R(1) [of 600] a e by simp_all
  show ?thesis
  proof (rule that [OF s1(1)])
    show "r_nodes s1 300 = r_nodes two_threads 300" "r_nodes s1 1100 = r_nodes two_threads 1100"
      by (rule R(9); use pa in \<open>auto simp: two_threads_def\<close>)+
    show "isListEmpty 600 (r_nodes s1)" "\<not> isListEmpty 500 (r_nodes s1)" "nxt (r_nodes s1 500) = 10000"
      using l isListEmpty_iff is_list_ends(1) by fastforce+
    show "r_event s1 10000 = \<lparr>ev_thread = 1000, ev_list = 500, ev_ret = 0\<rparr>"
      using R(8) [of 0] e by (simp add: acq_set_def ac_def th_def)
    show "r_activeList s1 = 300" "r_entry s1 = r_entry two_threads" using R(11,12) by (simp_all add: two_threads_def)
  qed (use s1 in auto)
qed

lemma two_threads_run:
  "\<exists>c0. replay_of (InternalHeap_malloc (demo_index 1000)) [1000, 2000] 600 hand_over two_threads c0 \<and>
     (\<exists>c. (replay_step (\<lambda>t. InternalHeap_malloc (demo_index t)) (\<lambda>t. InternalHeap_free (demo_index t)) ^^ 2) c0 c \<and> c_log c = [(1000, 500)])"
proof -
  obtain s1 s2 s3 s4 where s: "record_trace hand_over two_threads = Ok s1" "prepare_replay (InternalHeap_malloc (demo_index 1000)) [1000, 2000] 600 s1 = Some (Ok s2)"
      "peekSyncEvent (InternalHeap_free (demo_index 1000)) 500 1000 s2 = Some (Ok (0, s3))" "waitSemaphore 1000 s3 = Some s4"
  proof -
    obtain s1 where s1: "record_trace hand_over two_threads = Ok s1"
        "r_nodes s1 300 = r_nodes two_threads 300" "r_nodes s1 1100 = r_nodes two_threads 1100"
        "isListEmpty 600 (r_nodes s1)" "\<not> isListEmpty 500 (r_nodes s1)" "nxt (r_nodes s1 500) = 10000"
        "r_event s1 10000 = \<lparr>ev_thread = 1000, ev_list = 500, ev_ret = 0\<rparr>" "r_activeList s1 = 300" "r_entry s1 = r_entry two_threads"
        "pool s1 1000 = (pool0 10000)\<lparr>re_cur := 1\<rparr>" "pend s1 1000 = 1100"
      by (rule two_threads_recorded)
    have n: "nxt (r_nodes two_threads 300) = 400" "prv (r_nodes two_threads 300) = 400" "nxt (r_nodes two_threads 1100) = 1100"
      by (simp_all add: two_threads_def listInsertTail_def listInit_def)
    let ?p = "prepareRollbackAlivethreads [1000, 2000] s1"
    let ?s = "set_thread 1000 (\<lambda>x. x\<lparr>t_sema := 1\<rparr>) (set_evlist 500 (\<lambda>l. l\<lparr>sl_curentry := 10000\<rparr>) ?p)"
    note P = prepare_threads [of "[1000, 2000]" s1]
    have "prepareEventListRollback (InternalHeap_malloc (demo_index 1000)) 500 ?p = Some (Ok ?s)"
      using s1 by (simp add: prepareEventListRollback_def sel_prepareRollback_def Let_def nextEntry_def signalNextThread_def
        isThreadNextEvent_def firstIterEntry_def signalThread_def sema_put_def sema_set_def P re_prepareRollback_def set_evlist_def)
    then have "rollback_loop (InternalHeap_malloc (demo_index 1000)) 400 400 ?p = Some (Ok ?s)"
      using s1 by (subst rollback_loop.simps) (simp add: P two_threads_def)
    then have "xsync_prepareRollback (InternalHeap_malloc (demo_index 1000)) ?p = Some (Ok ?s)"
      using s1 n by (simp add: xsync_prepareRollback_def Let_def P isListEmpty_def prevEntry_def nextEntry_def)
    moreover have "prepareEventListRollback (InternalHeap_malloc (demo_index 1000)) 600 ?s = Some (Ok ?s)"
      using s1 by (simp add: prepareEventListRollback_def sel_prepareRollback_def rt_sets P)
    ultimately have "prepare_replay (InternalHeap_malloc (demo_index 1000)) [1000, 2000] 600 s1 = Some (Ok ?s)" by (simp add: prepare_replay_def)
    moreover have "peekSyncEvent (InternalHeap_free (demo_index 1000)) 500 1000 ?s = Some (Ok (0, ?s))"
      using s1 n by (simp add: peekSyncEvent_def Let_def re_peek_def re_getEntry_def rt_sets P re_prepareRollback_def
        signalCurrentThread_def isListEmpty_def)
    moreover have "waitSemaphore 1000 ?s = Some (set_thread 1000 (\<lambda>x. x\<lparr>t_sema := 0\<rparr>) ?s)"
      by (simp add: waitSemaphore_def sema_get_def sema_set_def set_thread_def)
    ultimately show ?thesis using s1(1) that by blast
  qed
  let ?c0 = "\<lparr>c_rt = s2, c_rem = thread_acts hand_over, c_ph = (\<lambda>_. CReady), c_log = []\<rparr> :: perheap cfg"
  let ?c1 = "?c0\<lparr>c_rt := s3, c_ph := (c_ph ?c0)(1000 := CPeeked)\<rparr>"
  have r: "thread_acts hand_over 1000 = [Acq 500, Rel 500]" by (simp add: thread_acts_def)
  have "replay_step (\<lambda>t. InternalHeap_malloc (demo_index t)) (\<lambda>t. InternalHeap_free (demo_index t)) ?c0 ?c1" using replay_step.lock_peek [of ?c0 1000 500 "[Rel 500]" "\<lambda>t. InternalHeap_free (demo_index t)" 0 s3 "\<lambda>t. InternalHeap_malloc (demo_index t)"] s(3) r by simp
  moreover have "replay_step (\<lambda>t. InternalHeap_malloc (demo_index t)) (\<lambda>t. InternalHeap_free (demo_index t)) ?c1 (?c1\<lparr>c_rt := s4, c_ph := (c_ph ?c1)(1000 := CGot), c_log := c_log ?c1 @ [(1000, 500)]\<rparr>)"
    using s(4) r by (intro replay_step.lock_wait) simp_all
  ultimately have "(replay_step (\<lambda>t. InternalHeap_malloc (demo_index t)) (\<lambda>t. InternalHeap_free (demo_index t)) ^^ 2) ?c0 (?c1\<lparr>c_rt := s4, c_ph := (c_ph ?c1)(1000 := CGot), c_log := c_log ?c1 @ [(1000, 500)]\<rparr>)"
    by (auto simp: numeral_2_eq_2)
  moreover have "replay_of (InternalHeap_malloc (demo_index 1000)) [1000, 2000] 600 hand_over two_threads ?c0" using s(1,2) by (auto simp: replay_of_def)
  ultimately show ?thesis by (intro exI [of _ ?c0] conjI exI) (assumption+, simp)
qed

section \<open>Properties\<close>

text \<open>
  C4. A replay repeats the order of the recording: whenever the threads of an epoch ran their locks
  and unlocks as in the trace \<open>tr\<close>, the recorder logged them, and the replay was prepared, then in every
  interleaving of the replaying threads the sequence of acquisitions of each variable is an initial
  part of the sequence in which it was acquired in the first run, by the same threads. This needs that
  all recorded acquisitions succeeded and that the first run was lawful (a variable is acquired when it
  is free and released by its holder).
\<close>

theorem replay_order:
  assumes "cells_in idx {} F (r_heap s0)" and "epoch_start T V F s0" and "registry T V F es spawn s0"
    and "T \<subseteq> set ts" and "uses T V tr" and "lawful tr (\<lambda>_. None)" and "replay_of (InternalHeap_malloc (idx t0)) ts spawn tr s0 c0"
    and "(replay_step (\<lambda>t. InternalHeap_malloc (idx t)) (\<lambda>t. InternalHeap_free (idx t)) ^^ n) c0 c"
  shows "\<exists>k. filter (\<lambda>x. snd x = v) (c_log c) = take k (acquisitions tr v)"
proof -
  obtain ea a where "starts tr a" "sim (cells_in idx) tr ea F c0 a"
    using ic.sim_start [OF assms(2,3,5,4,1,7)] by blast
  then show ?thesis using ic.order_run(2) [OF assms(6) _ _ assms(8)] by blast
qed

theorem replay_order_witness:
  "\<exists>c0 c. replay_of (InternalHeap_malloc (demo_index 1000)) [1000, 2000] 600 hand_over two_threads c0 \<and>
    (replay_step (\<lambda>t. InternalHeap_malloc (demo_index t)) (\<lambda>t. InternalHeap_free (demo_index t)) ^^ 2) c0 c \<and> c_log c \<noteq> [] \<and>
    (\<exists>k. filter (\<lambda>x. snd x = 500) (c_log c) = take k (acquisitions hand_over 500))"
proof -
  note S = two_threads_start
  obtain c0 c where c: "replay_of (InternalHeap_malloc (demo_index 1000)) [1000, 2000] 600 hand_over two_threads c0"
      "(replay_step (\<lambda>t. InternalHeap_malloc (demo_index t)) (\<lambda>t. InternalHeap_free (demo_index t)) ^^ 2) c0 c" "c_log c = [(1000, 500)]"
    using two_threads_run by blast
  from replay_order [where idx = demo_index and ?t0.0 = 1000, OF S(5,1,2) _ S(3,4) c(1,2), of 500] c show ?thesis by fastforce
qed

text \<open>
  C5. A replay ends and never deadlocks: it has at most three steps for each action of the trace, and
  in every state that it reaches some thread can take a step, or the heap of the runtime is exhausted,
  or all threads have finished and every variable was acquired in exactly the recorded order.
\<close>

theorem replay_completes:
  assumes "cells_in idx {} F (r_heap s0)" and "epoch_start T V F s0" and "registry T V F es spawn s0"
    and "T \<subseteq> set ts" and "uses T V tr" and "lawful tr (\<lambda>_. None)" and "replay_of (InternalHeap_malloc (idx t0)) ts spawn tr s0 c0"
    and "(replay_step (\<lambda>t. InternalHeap_malloc (idx t)) (\<lambda>t. InternalHeap_free (idx t)) ^^ n) c0 c"
  shows "n \<le> 3 * length tr \<and> ((\<exists>c'. replay_step (\<lambda>t. InternalHeap_malloc (idx t)) (\<lambda>t. InternalHeap_free (idx t)) c c') \<or> out_of_memory (\<lambda>t. InternalHeap_malloc (idx t)) c \<or>
    (\<forall>t. c_rem c t = []) \<and> (\<forall>v. filter (\<lambda>x. snd x = v) (c_log c) = acquisitions tr v))"
proof -
  obtain ea a where "starts tr a" "sim (cells_in idx) tr ea F c0 a"
    using ic.sim_start [OF assms(2,3,5,4,1,7)] by blast
  then show ?thesis using ic.order_run(1,3) [OF assms(6) _ _ assms(8)] by blast
qed

theorem replay_completes_witness:
  "\<exists>c0 c. replay_of (InternalHeap_malloc (demo_index 1000)) [1000, 2000] 600 hand_over two_threads c0 \<and>
    (replay_step (\<lambda>t. InternalHeap_malloc (demo_index t)) (\<lambda>t. InternalHeap_free (demo_index t)) ^^ 2) c0 c \<and> 2 \<le> 3 * length hand_over \<and>
    ((\<exists>c'. replay_step (\<lambda>t. InternalHeap_malloc (demo_index t)) (\<lambda>t. InternalHeap_free (demo_index t)) c c') \<or> out_of_memory (\<lambda>t. InternalHeap_malloc (demo_index t)) c \<or>
      (\<forall>t. c_rem c t = []) \<and> (\<forall>v. filter (\<lambda>x. snd x = v) (c_log c) = acquisitions hand_over v))"
proof -
  note S = two_threads_start
  obtain c0 c where c: "replay_of (InternalHeap_malloc (demo_index 1000)) [1000, 2000] 600 hand_over two_threads c0"
      "(replay_step (\<lambda>t. InternalHeap_malloc (demo_index t)) (\<lambda>t. InternalHeap_free (demo_index t)) ^^ 2) c0 c"
    using two_threads_run by blast
  from replay_completes [where idx = demo_index and ?t0.0 = 1000, OF S(5,1,2) _ S(3,4) c] c show ?thesis by fastforce
qed

end
