(* ===== verification/File_Ops.thy ===== *)
theory File_Ops
  imports Sys_Record Copies
begin

text \<open>
  The files and directories of an epoch (\<open>include/fops.hh\<close>). For every open file the runtime keeps the
  position at the beginning of the epoch and, for a \<open>FILE\<close> stream, a copy of its bytes; a rollback puts
  both back. Closing a file is deferred to the end of the epoch, so that its descriptor stays valid for
  a replay.

  The two hash maps are association lists of pointers; the order of a list is the order in which the
  iterator visits the map, about which nothing is assumed (that it visits every entry once is shown in
  \<open>Hash_Map\<close>). What lies outside of the runtime, file positions, directory streams and the memory of
  the program's heap, is a state of type \<open>'k\<close>, and the calls into it are the members of \<open>calls\<close>.
  \<open>im\<close> and \<open>fr\<close> are \<open>malloc\<close> and \<open>free\<close> of the heap of the runtime. A pointer is not initialised by
  \<open>im\<close>: \<open>f_info\<close> holds whatever the memory contains.
\<close>

section \<open>Data\<close>

record fileInfo =
  fi_fd :: int
  fi_pos :: int
  fi_backupStream :: u64
  fi_origStream :: u64
  fi_isNew :: bool

record dirInfo =
  di_pos :: int
  di_backupDir :: u64
  di_dir :: u64
  di_isNew :: bool

record 'k calls =
  c_tell :: "int \<Rightarrow> 'k \<Rightarrow> int"
  c_seek :: "int \<Rightarrow> int \<Rightarrow> 'k \<Rightarrow> 'k"
  c_telldir :: "u64 \<Rightarrow> mem \<Rightarrow> 'k \<Rightarrow> int"
  c_seekdir :: "u64 \<Rightarrow> int \<Rightarrow> mem \<Rightarrow> 'k \<Rightarrow> mem \<times> 'k"
  c_rewinddir :: "u64 \<Rightarrow> mem \<Rightarrow> 'k \<Rightarrow> mem \<times> 'k"
  c_close :: "int \<Rightarrow> 'k \<Rightarrow> 'k"
  c_fclose :: "u64 \<Rightarrow> mem \<Rightarrow> 'k \<Rightarrow> mem \<times> 'k"
  c_closedir :: "u64 \<Rightarrow> mem \<Rightarrow> 'k \<Rightarrow> mem \<times> 'k"
  c_malloc :: "u64 \<Rightarrow> 'k \<Rightarrow> u64 \<times> 'k"

record ('h, 'k) fops =
  f_filesMap :: "(int \<times> u64) list"
  f_dirsMap :: "(u64 \<times> u64) list"
  f_info :: "u64 \<Rightarrow> fileInfo"
  f_dinfo :: "u64 \<Rightarrow> dirInfo"
  f_sys :: systhread
  f_mem :: mem
  f_heap :: 'h
  f_out :: 'k

abbreviation FOPEN_ALLOC_SIZE :: u64 where "FOPEN_ALLOC_SIZE \<equiv> 0x238"
abbreviation DIROPEN_ALLOC_SIZE :: u64 where "DIROPEN_ALLOC_SIZE \<equiv> 0x8030"
abbreviation FILE_INFO_SIZE :: u64 where "FILE_INFO_SIZE \<equiv> 40"
abbreviation DIR_INFO_SIZE :: u64 where "DIR_INFO_SIZE \<equiv> 32"

definition set_info :: "u64 \<Rightarrow> (fileInfo \<Rightarrow> fileInfo) \<Rightarrow> ('h, 'k) fops \<Rightarrow> ('h, 'k) fops" where
  "set_info p g s = s\<lparr>f_info := (f_info s)(p := g (f_info s p))\<rparr>"

definition set_dinfo :: "u64 \<Rightarrow> (dirInfo \<Rightarrow> dirInfo) \<Rightarrow> ('h, 'k) fops \<Rightarrow> ('h, 'k) fops" where
  "set_dinfo p g s = s\<lparr>f_dinfo := (f_dinfo s)(p := g (f_dinfo s p))\<rparr>"

definition set_out :: "mem \<times> 'k \<Rightarrow> ('h, 'k) fops \<Rightarrow> ('h, 'k) fops" where
  "set_out mk s = s\<lparr>f_mem := fst mk, f_out := snd mk\<rparr>"

definition fops_initialize :: "('h, 'k) fops \<Rightarrow> ('h, 'k) fops" where
  "fops_initialize s = s\<lparr>f_filesMap := [], f_dirsMap := []\<rparr>"

section \<open>The end of an epoch\<close>

definition update_file :: "'k calls \<Rightarrow> u64 \<Rightarrow> ('h, 'k) fops \<Rightarrow> ('h, 'k) fops res" where
  "update_file c p s =
     (let s = set_info p (\<lambda>i. if fi_isNew i then i\<lparr>fi_isNew := False\<rparr> else i) s;
          pos = c_tell c (fi_fd (f_info s p)) (f_out s);
          s = set_info p (\<lambda>i. i\<lparr>fi_pos := pos\<rparr>) s; i = f_info s p
      in if fi_origStream i \<noteq> 0 then
           if fi_backupStream i = 0 then Err Assertion
           else Ok (s\<lparr>f_mem := memcpy (f_mem s) (fi_backupStream i) (fi_origStream i) FOPEN_ALLOC_SIZE\<rparr>)
         else Ok s)"

definition update_dir :: "'k calls \<Rightarrow> u64 \<Rightarrow> ('h, 'k) fops \<Rightarrow> ('h, 'k) fops" where
  "update_dir c p s =
     (let s = set_dinfo p (\<lambda>i. if di_isNew i then i\<lparr>di_isNew := False\<rparr> else i) s;
          pos = c_telldir c (di_dir (f_dinfo s p)) (f_mem s) (f_out s);
          s = set_dinfo p (\<lambda>i. i\<lparr>di_pos := pos\<rparr>) s; i = f_dinfo s p
      in s\<lparr>f_mem := memcpy (f_mem s) (di_backupDir i) (di_dir i) DIROPEN_ALLOC_SIZE\<rparr>)"

primrec update_files :: "'k calls \<Rightarrow> (int \<times> u64) list \<Rightarrow> ('h, 'k) fops \<Rightarrow> ('h, 'k) fops res" where
  "update_files c [] s = Ok s"
| "update_files c (x # xs) s = rbind (update_file c (snd x) s) (update_files c xs)"

definition updateOpenedFiles :: "'k calls \<Rightarrow> ('h, 'k) fops \<Rightarrow> ('h, 'k) fops res" where
  "updateOpenedFiles c s =
     rmap (\<lambda>s. fold (\<lambda>x. update_dir c (snd x)) (f_dirsMap s) s) (update_files c (f_filesMap s) s)"

section \<open>A rollback\<close>

definition restore_file :: "'k calls \<Rightarrow> u64 \<Rightarrow> ('h, 'k) fops \<Rightarrow> ('h, 'k) fops" where
  "restore_file c p s =
     (let i = f_info s p in
      if \<not> fi_isNew i then
        let s = (if fi_origStream i \<noteq> 0
              then s\<lparr>f_mem := memcpy (f_mem s) (fi_origStream i) (fi_backupStream i) FOPEN_ALLOC_SIZE\<rparr> else s)
        in s\<lparr>f_out := c_seek c (fi_fd i) (fi_pos i) (f_out s)\<rparr>
      else s)"

definition restore_dir :: "'k calls \<Rightarrow> u64 \<Rightarrow> ('h, 'k) fops \<Rightarrow> ('h, 'k) fops res" where
  "restore_dir c p s =
     (let i = f_dinfo s p in
      if \<not> di_isNew i then
        if di_backupDir i = 0 \<or> di_dir i = 0 then Err Assertion
        else let s = s\<lparr>f_mem := memcpy (f_mem s) (di_dir i) (di_backupDir i) DIROPEN_ALLOC_SIZE\<rparr>
          in Ok (set_out (c_seekdir c (di_dir i) (di_pos i) (f_mem s) (f_out s)) s)
      else Ok s)"

primrec restore_dirs :: "'k calls \<Rightarrow> (u64 \<times> u64) list \<Rightarrow> ('h, 'k) fops \<Rightarrow> ('h, 'k) fops res" where
  "restore_dirs c [] s = Ok s"
| "restore_dirs c (x # xs) s = rbind (restore_dir c (snd x) s) (restore_dirs c xs)"

definition fops_prepareRollback :: "'k calls \<Rightarrow> ('h, 'k) fops \<Rightarrow> ('h, 'k) fops res" where
  "fops_prepareRollback c s =
     (let s = fold (\<lambda>x. restore_file c (snd x)) (f_filesMap s) s in restore_dirs c (f_dirsMap s) s)"

section \<open>Opening\<close>

definition isNormalFile :: "int \<Rightarrow> ('h, 'k) fops \<Rightarrow> bool" where
  "isNormalFile fd s \<longleftrightarrow> map_of (f_filesMap s) fd \<noteq> None"

definition saveFd :: "'h im_fun \<Rightarrow> int \<Rightarrow> u64 \<Rightarrow> ('h, 'k) fops \<Rightarrow> ('h, 'k) fops res" where
  "saveFd im fd file s =
     rbind (recordFileOps E_SYS_FILE_OPEN fd (f_sys s)) (\<lambda>t.
       let s = s\<lparr>f_sys := t\<rparr> in
       if fd \<noteq> - 1 then
         rbind (im FILE_INFO_SIZE (f_heap s)) (\<lambda>(p, h).
         let s = set_info p (\<lambda>i. i\<lparr>fi_fd := fd, fi_pos := 0, fi_origStream := file\<rparr>) (s\<lparr>f_heap := h\<rparr>) in
         rmap (\<lambda>s. s\<lparr>f_filesMap := f_filesMap s @ [(fd, p)]\<rparr>)
           (if file \<noteq> 0 then
              rmap (\<lambda>(q, h). set_info p (\<lambda>i. i\<lparr>fi_backupStream := q\<rparr>)
                (s\<lparr>f_heap := h, f_mem := memcpy (f_mem s) q file FOPEN_ALLOC_SIZE\<rparr>)) (im FOPEN_ALLOC_SIZE (f_heap s))
            else Ok (set_info p (\<lambda>i. i\<lparr>fi_backupStream := 0\<rparr>) s)))
       else Ok s)"

text \<open>\<open>fileno\<close> is the descriptor in the \<open>FILE\<close> structure.\<close>

definition saveFopen :: "'h im_fun \<Rightarrow> (u64 \<Rightarrow> mem \<Rightarrow> int) \<Rightarrow> u64 \<Rightarrow> ('h, 'k) fops \<Rightarrow> ('h, 'k) fops res" where
  "saveFopen im fileno file s =
     (if file \<noteq> 0 then saveFd im (fileno file (f_mem s)) file s else saveFd im (- 1) 0 s)"

definition saveDupFd :: "'h im_fun \<Rightarrow> int \<Rightarrow> int \<Rightarrow> ('h, 'k) fops \<Rightarrow> ('h, 'k) fops res" where
  "saveDupFd im oldfd newfd s =
     rbind (recordFileOps E_SYS_FILE_DUP newfd (f_sys s)) (\<lambda>t.
       let s = s\<lparr>f_sys := t\<rparr> in
       if newfd \<noteq> - 1 then
         case map_of (f_filesMap s) oldfd of
           None \<Rightarrow> Err Assertion
         | Some old \<Rightarrow>
             rbind (im FILE_INFO_SIZE (f_heap s)) (\<lambda>(p, h).
             let s = set_info p (\<lambda>_. (f_info s old)\<lparr>fi_fd := newfd\<rparr>) (s\<lparr>f_heap := h\<rparr>) in
             rmap (\<lambda>s. s\<lparr>f_filesMap := f_filesMap s @ [(newfd, p)]\<rparr>)
               (if fi_backupStream (f_info s p) \<noteq> 0 then
                  rmap (\<lambda>(q, h). set_info p (\<lambda>i. i\<lparr>fi_backupStream := q\<rparr>)
                    (s\<lparr>f_heap := h, f_mem := memcpy (f_mem s) q (fi_backupStream (f_info s old)) FOPEN_ALLOC_SIZE\<rparr>))
                    (im FOPEN_ALLOC_SIZE (f_heap s))
                else Ok s))
       else Ok s)"

definition saveDir :: "'h im_fun \<Rightarrow> 'k calls \<Rightarrow> u64 \<Rightarrow> ('h, 'k) fops \<Rightarrow> ('h, 'k) fops res" where
  "saveDir im c dir s =
     rbind (recordDirOps E_SYS_DIR_OPEN dir (f_sys s)) (\<lambda>t.
       let s = s\<lparr>f_sys := t\<rparr> in
       if dir \<noteq> 0 then
         rbind (im DIR_INFO_SIZE (f_heap s)) (\<lambda>(p, h).
         if p = 0 then Err Assertion
         else let s = set_dinfo p (\<lambda>i. i\<lparr>di_pos := c_telldir c dir (f_mem s) (f_out s), di_dir := dir, di_isNew := True\<rparr>) (s\<lparr>f_heap := h\<rparr>) in
         rmap (\<lambda>(q, h). let s = set_dinfo p (\<lambda>i. i\<lparr>di_backupDir := q\<rparr>)
             (s\<lparr>f_heap := h, f_mem := memcpy (f_mem s) q dir DIROPEN_ALLOC_SIZE\<rparr>)
           in s\<lparr>f_dirsMap := f_dirsMap s @ [(dir, p)]\<rparr>) (im DIROPEN_ALLOC_SIZE (f_heap s)))
       else Ok s)"

text \<open>In a replay: the descriptor that was recorded, at the saved position.\<close>

definition getFdAtOpen :: "'k calls \<Rightarrow> ('h, 'k) fops \<Rightarrow> (int \<times> ('h, 'k) fops) res" where
  "getFdAtOpen c s =
     rbind (getFileOps E_SYS_FILE_OPEN (- 1) (f_sys s)) (\<lambda>(found, fd, t).
       let s = s\<lparr>f_sys := t\<rparr> in
       if \<not> found then Err Assertion
       else if fd \<noteq> - 1 then
         case map_of (f_filesMap s) fd of
           None \<Rightarrow> Err Assertion
         | Some p \<Rightarrow> if p = 0 then Err Assertion
             else Ok (fd, s\<lparr>f_out := c_seek c (fi_fd (f_info s p)) (fi_pos (f_info s p)) (f_out s)\<rparr>)
       else Ok (fd, s))"

definition getFopen :: "'k calls \<Rightarrow> ('h, 'k) fops \<Rightarrow> (u64 \<times> ('h, 'k) fops) res" where
  "getFopen c s =
     rbind (getFdAtOpen c s) (\<lambda>(fd, s).
       if fd = - 1 then Ok (0, s)
       else case map_of (f_filesMap s) fd of
           None \<Rightarrow> Err Assertion
         | Some p \<Rightarrow>
             let (ptr, k) = c_malloc c FOPEN_ALLOC_SIZE (f_out s); s = s\<lparr>f_out := k\<rparr>; i = f_info s p in
             if ptr \<noteq> fi_origStream i then Err Assertion
             else let s = s\<lparr>f_mem := memcpy (f_mem s) ptr (fi_backupStream i) FOPEN_ALLOC_SIZE\<rparr>
               in if ptr = 0 then Err Assertion else Ok (ptr, s))"

definition getDupFd :: "('h, 'k) fops \<Rightarrow> (int \<times> ('h, 'k) fops) res" where
  "getDupFd s =
     rbind (getFileOps E_SYS_FILE_DUP (- 1) (f_sys s)) (\<lambda>(found, fd, t).
       if \<not> found then Err Assertion else Ok (fd, s\<lparr>f_sys := t\<rparr>))"

definition getDirAtOpen :: "'k calls \<Rightarrow> ('h, 'k) fops \<Rightarrow> (u64 \<times> ('h, 'k) fops) res" where
  "getDirAtOpen c s =
     rbind (getDirOps E_SYS_DIR_OPEN 0 (f_sys s)) (\<lambda>(found, dir, t).
       let s = s\<lparr>f_sys := t\<rparr> in
       if \<not> found then Err Assertion
       else if dir \<noteq> 0 then
         case map_of (f_dirsMap s) dir of
           None \<Rightarrow> Err Assertion
         | Some p \<Rightarrow>
             let (ptr, k) = c_malloc c DIROPEN_ALLOC_SIZE (f_out s); s = s\<lparr>f_out := k\<rparr>; i = f_dinfo s p in
             if dir \<noteq> di_dir i \<or> dir \<noteq> ptr then Err Assertion
             else let s = s\<lparr>f_mem := memcpy (f_mem s) ptr (di_backupDir i) DIROPEN_ALLOC_SIZE\<rparr>
               in Ok (dir, set_out (c_rewinddir c dir (f_mem s) (f_out s)) s)
       else Ok (dir, s))"

section \<open>Closing\<close>

text \<open>
  When the descriptor is not in the map, \<open>thisFile\<close> was never assigned and is dereferenced; for a
  directory it is a null pointer.
\<close>

definition closeFile :: "int \<Rightarrow> u64 \<Rightarrow> ('h, 'k) fops \<Rightarrow> (int \<times> ('h, 'k) fops) res" where
  "closeFile fd fp s =
     (if fd = 0 \<or> fd = 1 \<or> fd = 2 then Ok (0, s)
      else case map_of (f_filesMap s) fd of
          None \<Rightarrow> Err Undefined
        | Some p \<Rightarrow>
            let ret = (if fp \<noteq> fi_origStream (f_info s p) then - 1 else 0) in
            rmap (\<lambda>t. (ret, s\<lparr>f_sys := t\<rparr>)) (recordFileOps_ret E_SYS_FILE_CLOSE fd ret (f_sys s)))"

text \<open>\<open>junk\<close> is the value of the uninitialised variable \<open>ret\<close>.\<close>

definition getCloseFile :: "int \<Rightarrow> int \<Rightarrow> ('h, 'k) fops \<Rightarrow> (int \<times> ('h, 'k) fops) res" where
  "getCloseFile junk fd s =
     rmap (\<lambda>(_, _, ret, t). (ret, s\<lparr>f_sys := t\<rparr>)) (getFileOps_ret E_SYS_FILE_CLOSE fd junk (f_sys s))"

definition getClose :: "int \<Rightarrow> int \<Rightarrow> ('h, 'k) fops \<Rightarrow> (int \<times> ('h, 'k) fops) res" where
  "getClose junk fd s =
     rmap (\<lambda>(_, _, ret, t). (ret, s\<lparr>f_sys := t\<rparr>)) (getFileOps_ret E_SYS_FILE_CLOSE fd junk (f_sys s))"

definition closeDir :: "u64 \<Rightarrow> ('h, 'k) fops \<Rightarrow> (int \<times> ('h, 'k) fops) res" where
  "closeDir dir s =
     (if dir = 0 then Err Undefined
      else case map_of (f_dirsMap s) dir of
          None \<Rightarrow> Err Undefined
        | Some p \<Rightarrow>
            let ret = (if dir \<noteq> di_dir (f_dinfo s p) then - 1 else 0) in
            rmap (\<lambda>t. (ret, s\<lparr>f_sys := t\<rparr>)) (recordDirOps E_SYS_DIR_CLOSE dir (f_sys s)))"

definition getCloseDir :: "u64 \<Rightarrow> ('h, 'k) fops \<Rightarrow> (int \<times> ('h, 'k) fops) res" where
  "getCloseDir dir s =
     (case map_of (f_dirsMap s) dir of
        None \<Rightarrow> Err Undefined
      | Some p \<Rightarrow>
          let ret = (if dir = 0 then - 1 else 0); ret = (if dir \<noteq> di_dir (f_dinfo s p) then - 1 else ret) in
          rmap (\<lambda>(_, _, t). (ret, s\<lparr>f_sys := t\<rparr>)) (getDirOps E_SYS_DIR_CLOSE dir (f_sys s)))"

text \<open>\<open>fd\<close> and \<open>dir\<close> keep their values between the rounds.\<close>

definition erase_key :: "'a \<Rightarrow> ('a \<times> 'b) list \<Rightarrow> ('a \<times> 'b) list" where
  "erase_key k xs = takeWhile (\<lambda>x. fst x \<noteq> k) xs @ drop 1 (dropWhile (\<lambda>x. fst x \<noteq> k) xs)"

definition clean_file :: "'h fr_fun \<Rightarrow> 'k calls \<Rightarrow> int \<Rightarrow> ('h, 'k) fops \<Rightarrow> ('h, 'k) fops res" where
  "clean_file fr c fd s =
     (case map_of (f_filesMap s) fd of
        None \<Rightarrow> Err Assertion
      | Some p \<Rightarrow>
          if p = 0 then Err Assertion
          else rbind
            (if fi_origStream (f_info s p) \<noteq> 0 then
               let s = set_out (c_fclose c (fi_origStream (f_info s p)) (f_mem s) (f_out s)) s in
               if fi_backupStream (f_info s p) = 0 then Err Assertion
               else rmap (\<lambda>h. s\<lparr>f_heap := h\<rparr>) (fr (fi_backupStream (f_info s p)) (f_heap s))
             else Ok (s\<lparr>f_out := c_close c fd (f_out s)\<rparr>))
            (\<lambda>s. let s = s\<lparr>f_filesMap := erase_key fd (f_filesMap s)\<rparr> in
              rmap (\<lambda>h. s\<lparr>f_heap := h\<rparr>) (fr p (f_heap s))))"

partial_function (option) clean_files :: "'h fr_fun \<Rightarrow> 'k calls \<Rightarrow> int \<Rightarrow> ('h, 'k) fops \<Rightarrow> ('h, 'k) fops res option" where
  "clean_files fr c fd s =
     (case retrieveFCloseList fd (f_sys s) of
        Err e \<Rightarrow> Some (Err e)
      | Ok (found, fd, t) \<Rightarrow>
          if \<not> found then Some (Ok (s\<lparr>f_sys := t\<rparr>))
          else if fd = - 1 then clean_files fr c fd (s\<lparr>f_sys := t\<rparr>)
          else (case clean_file fr c fd (s\<lparr>f_sys := t\<rparr>) of
              Err e \<Rightarrow> Some (Err e)
            | Ok s \<Rightarrow> clean_files fr c fd s))"

definition clean_dir :: "'h fr_fun \<Rightarrow> 'k calls \<Rightarrow> u64 \<Rightarrow> ('h, 'k) fops \<Rightarrow> ('h, 'k) fops res" where
  "clean_dir fr c dir s =
     (case map_of (f_dirsMap s) dir of
        None \<Rightarrow> Err Assertion
      | Some p \<Rightarrow>
          if dir \<noteq> di_dir (f_dinfo s p) then Err Assertion
          else let s = set_out (c_closedir c dir (f_mem s) (f_out s)) s in
            rbind (fr (di_backupDir (f_dinfo s p)) (f_heap s)) (\<lambda>h.
              let s = s\<lparr>f_heap := h, f_dirsMap := erase_key dir (f_dirsMap s)\<rparr> in
              rmap (\<lambda>h. s\<lparr>f_heap := h\<rparr>) (fr p (f_heap s))))"

partial_function (option) clean_dirs :: "'h fr_fun \<Rightarrow> 'k calls \<Rightarrow> u64 \<Rightarrow> ('h, 'k) fops \<Rightarrow> ('h, 'k) fops res option" where
  "clean_dirs fr c dir s =
     (case retrieveDIRCloseList dir (f_sys s) of
        Err e \<Rightarrow> Some (Err e)
      | Ok (found, dir, t) \<Rightarrow>
          if \<not> found then Some (Ok (s\<lparr>f_sys := t\<rparr>))
          else if dir = 0 then clean_dirs fr c dir (s\<lparr>f_sys := t\<rparr>)
          else (case clean_dir fr c dir (s\<lparr>f_sys := t\<rparr>) of
              Err e \<Rightarrow> Some (Err e)
            | Ok s \<Rightarrow> clean_dirs fr c dir s))"

definition cleanClosedFiles :: "'h fr_fun \<Rightarrow> 'k calls \<Rightarrow> ('h, 'k) fops \<Rightarrow> ('h, 'k) fops res option" where
  "cleanClosedFiles fr c s = obind (clean_files fr c (- 1) s) (clean_dirs fr c 0)"

definition checkPermission :: "int \<Rightarrow> ('h, 'k) fops \<Rightarrow> bool" where
  "checkPermission fd s \<longleftrightarrow>
     (if fd \<le> 0 then False else if fd = 1 \<or> fd = 2 \<or> fd = 3 then True else map_of (f_filesMap s) fd \<noteq> None)"

section \<open>Copies of several regions\<close>

text \<open>A region that has to be restored: where it is, where its copy is, and its size.\<close>

type_synonym region = "u64 \<times> u64 \<times> u64"

definition separate :: "region list \<Rightarrow> bool" where
  "separate ts \<longleftrightarrow> distinct (map (\<lambda>(a, b, n). b) ts) \<and>
     (\<forall>(a, b, n)\<in>set ts. \<forall>(a', b', n')\<in>set ts. apart a n b' n' \<and> (b = b' \<or> apart b n b' n') \<and> (a = a' \<and> n = n' \<or> apart a n a' n'))"

lemma separateD:
  assumes "separate ts" and "(a, b, n) \<in> set ts" and "(a', b', n') \<in> set ts"
  shows "apart a n b' n'" and "b = b' \<Longrightarrow> (a, n) = (a', n')" and "b \<noteq> b' \<Longrightarrow> apart b n b' n'"
    and "\<not> apart a n a' n' \<Longrightarrow> a = a' \<and> n = n'"
proof -
  show "apart a n b' n'" "b \<noteq> b' \<Longrightarrow> apart b n b' n'" "\<not> apart a n a' n' \<Longrightarrow> a = a' \<and> n = n'"
    using assms unfolding separate_def by fastforce+
  have "distinct (map (\<lambda>(a, b, n). b) ts)" using assms(1) by (simp add: separate_def)
  then have "inj_on (\<lambda>(a, b, n). b) (set ts)" by (simp add: distinct_map)
  then show "b = b' \<Longrightarrow> (a, n) = (a', n')" using assms(2,3) by (auto simp: inj_on_def)
qed

text \<open>All copies are taken: they have the bytes of the originals, and nothing else changes.\<close>

lemma copies_taken:
  assumes "separate ts"
  shows "(a, b, n) \<in> set ts \<Longrightarrow> same_bytes (copies (map (\<lambda>(a, b, n). (b, a, n)) ts) m) b m a n"
    and "(\<And>a b n. (a, b, n) \<in> set ts \<Longrightarrow> \<not> in_range b n x) \<Longrightarrow> copies (map (\<lambda>(a, b, n). (b, a, n)) ts) m x = m x"
proof -
  show "(\<And>a b n. (a, b, n) \<in> set ts \<Longrightarrow> \<not> in_range b n x) \<Longrightarrow> copies (map (\<lambda>(a, b, n). (b, a, n)) ts) m x = m x"
    by (rule copies_outsideI) auto
  assume t: "(a, b, n) \<in> set ts"
  show "same_bytes (copies (map (\<lambda>(a, b, n). (b, a, n)) ts) m) b m a n"
    unfolding same_bytes_def
  proof (intro allI impI, rule copies_get)
    show "(b, a, n) \<in> set (map (\<lambda>(a, b, n). (b, a, n)) ts)" using t by force
    fix b' a' n' assume "(b', a', n') \<in> set (map (\<lambda>(a, b, n). (b, a, n)) ts)"
    then have t': "(a', b', n') \<in> set ts" by auto
    show "b' = b \<and> n' = n \<and> same_bytes m a' m a n \<or> apart b' n' b n"
      using separateD(2,3) [OF assms t' t] by (auto simp: same_bytes_def)
    fix b'' a'' n'' assume "(b'', a'', n'') \<in> set (map (\<lambda>(a, b, n). (b, a, n)) ts)"
    then show "apart a' n' b'' n''" using separateD(1) [OF assms t'] by auto
  qed
qed

section \<open>What an epoch keeps\<close>

text \<open>
  The documented behaviour of the calls. \<open>share\<close> tells which descriptors have a common position, \<open>sk\<close>
  which are seekable. A directory call changes the bytes of its stream only, and where a directory
  stream stands depends on its own bytes and on the outside.
\<close>

definition calls_ok :: "'k calls \<Rightarrow> (int \<Rightarrow> int \<Rightarrow> bool) \<Rightarrow> (int \<Rightarrow> bool) \<Rightarrow> bool" where
  "calls_ok c share sk \<longleftrightarrow>
     (\<forall>fd. share fd fd) \<and>
     (\<forall>k fd. sk fd \<longrightarrow> 0 \<le> c_tell c fd k) \<and>
     (\<forall>k fd fd'. share fd fd' \<longrightarrow> c_tell c fd k = c_tell c fd' k) \<and>
     (\<forall>k fd fd' v. sk fd \<longrightarrow> 0 \<le> v \<longrightarrow> c_tell c fd' (c_seek c fd v k) = (if share fd fd' then v else c_tell c fd' k)) \<and>
     (\<forall>k fd fd' v. \<not> sk fd \<longrightarrow> c_tell c fd' (c_seek c fd v k) = c_tell c fd' k) \<and>
     (\<forall>fd fd'. share fd fd' \<longrightarrow> sk fd = sk fd') \<and>
     (\<forall>k fd d v m. c_tell c fd (snd (c_seekdir c d v m k)) = c_tell c fd k) \<and>
     (\<forall>k d v m x. \<not> in_range d DIROPEN_ALLOC_SIZE x \<longrightarrow> fst (c_seekdir c d v m k) x = m x) \<and>
     (\<forall>k d m m'. (\<forall>x. in_range d DIROPEN_ALLOC_SIZE x \<longrightarrow> m x = m' x) \<longrightarrow> c_telldir c d m k = c_telldir c d m' k) \<and>
     (\<forall>k d fd v m. c_telldir c d m (c_seek c fd v k) = c_telldir c d m k) \<and>
     (\<forall>k d m k0 m0. c_telldir c d (fst (c_seekdir c d (c_telldir c d m0 k0) m k)) (snd (c_seekdir c d (c_telldir c d m0 k0) m k)) = c_telldir c d m0 k0) \<and>
     (\<forall>k d d' v m. d \<noteq> d' \<longrightarrow> c_telldir c d' (fst (c_seekdir c d v m k)) (snd (c_seekdir c d v m k)) = c_telldir c d' (fst (c_seekdir c d v m k)) k)"

lemma calls_okD:
  assumes "calls_ok c share sk"
  shows "share fd fd" and "sk fd \<Longrightarrow> 0 \<le> c_tell c fd k" and "share fd fd' \<Longrightarrow> c_tell c fd k = c_tell c fd' k"
    and "sk fd \<Longrightarrow> 0 \<le> v \<Longrightarrow> c_tell c fd' (c_seek c fd v k) = (if share fd fd' then v else c_tell c fd' k)"
    and "\<not> sk fd \<Longrightarrow> c_tell c fd' (c_seek c fd v k) = c_tell c fd' k" and "share fd fd' \<Longrightarrow> sk fd = sk fd'"
    and "c_tell c fd (snd (c_seekdir c d v m k)) = c_tell c fd k"
    and "\<not> in_range d DIROPEN_ALLOC_SIZE x \<Longrightarrow> fst (c_seekdir c d v m k) x = m x"
    and "(\<And>x. in_range d DIROPEN_ALLOC_SIZE x \<Longrightarrow> m x = m' x) \<Longrightarrow> c_telldir c d m k = c_telldir c d m' k"
    and "c_telldir c d m (c_seek c fd v k) = c_telldir c d m k"
    and "v = c_telldir c d m0 k0 \<Longrightarrow> c_telldir c d (fst (c_seekdir c d v m k)) (snd (c_seekdir c d v m k)) = v"
    and "d \<noteq> d' \<Longrightarrow> c_telldir c d' (fst (c_seekdir c d v m k)) (snd (c_seekdir c d v m k)) = c_telldir c d' (fst (c_seekdir c d v m k)) k"
  using assms unfolding calls_ok_def by (elim conjE, (blast | simp))+

definition file_region :: "('h, 'k) fops \<Rightarrow> u64 \<Rightarrow> region" where
  "file_region s p = (fi_origStream (f_info s p), fi_backupStream (f_info s p), FOPEN_ALLOC_SIZE)"

definition dir_region :: "('h, 'k) fops \<Rightarrow> u64 \<Rightarrow> region" where
  "dir_region s p = (di_dir (f_dinfo s p), di_backupDir (f_dinfo s p), DIROPEN_ALLOC_SIZE)"

abbreviation fptrs :: "('h, 'k) fops \<Rightarrow> u64 list" where "fptrs s \<equiv> map snd (f_filesMap s)"
abbreviation dptrs :: "('h, 'k) fops \<Rightarrow> u64 list" where "dptrs s \<equiv> map snd (f_dirsMap s)"

definition regions :: "('h, 'k) fops \<Rightarrow> region list" where
  "regions s = map (file_region s) (filter (\<lambda>p. fi_origStream (f_info s p) \<noteq> 0) (fptrs s)) @ map (dir_region s) (dptrs s)"

text \<open>The maps are in order: entries are distinct objects, and streams, directories and their copies do not overlap.\<close>

definition fops_ok :: "('h, 'k) fops \<Rightarrow> bool" where
  "fops_ok s \<longleftrightarrow> distinct (fptrs s) \<and> distinct (dptrs s) \<and> separate (regions s) \<and>
     (\<forall>p\<in>set (fptrs s). fi_origStream (f_info s p) = 0 \<longleftrightarrow> fi_backupStream (f_info s p) = 0) \<and>
     (\<forall>p\<in>set (dptrs s). di_dir (f_dinfo s p) \<noteq> 0 \<and> di_backupDir (f_dinfo s p) \<noteq> 0) \<and>
     (\<forall>(fd, p)\<in>set (f_filesMap s). fi_fd (f_info s p) = fd)"

subsection \<open>The snapshot\<close>

definition same_rest :: "('h, 'k) fops \<Rightarrow> ('h, 'k) fops \<Rightarrow> bool" where
  "same_rest s s' \<longleftrightarrow> f_filesMap s' = f_filesMap s \<and> f_dirsMap s' = f_dirsMap s \<and> f_sys s' = f_sys s \<and> f_heap s' = f_heap s \<and> f_out s' = f_out s"

lemma mark_old:
  "(if fi_isNew i then i\<lparr>fi_isNew := False\<rparr> else i) = i\<lparr>fi_isNew := False\<rparr>" "(if di_isNew j then j\<lparr>di_isNew := False\<rparr> else j) = j\<lparr>di_isNew := False\<rparr>"
  by (cases i; cases j; simp)+

abbreviation snap :: "'k calls \<Rightarrow> 'k \<Rightarrow> fileInfo \<Rightarrow> fileInfo" where
  "snap c k i \<equiv> i\<lparr>fi_isNew := False, fi_pos := c_tell c (fi_fd i) k\<rparr>"

abbreviation backward :: "region list \<Rightarrow> region list" where
  "backward ts \<equiv> map (\<lambda>(a, b, n). (b, a, n)) ts"

abbreviation streamed :: "('h, 'k) fops \<Rightarrow> u64 list \<Rightarrow> u64 list" where
  "streamed s ps \<equiv> filter (\<lambda>p. fi_origStream (f_info s p) \<noteq> 0) ps"

lemma in_backward: "(d, a, n) \<in> set (backward ts) \<longleftrightarrow> (a, d, n) \<in> set ts"
  by force

lemma update_file_ok:
  assumes "fi_origStream (f_info s p) \<noteq> 0 \<Longrightarrow> fi_backupStream (f_info s p) \<noteq> 0"
  shows "update_file c p s = Ok (s\<lparr>f_info := (f_info s)(p := snap c (f_out s) (f_info s p)), f_mem := copies (backward (map (file_region s) (streamed s [p]))) (f_mem s)\<rparr>)"
  using assms by (simp add: update_file_def Let_def set_info_def mark_old copies_def file_region_def)

lemma update_files_ok:
  assumes "distinct (map snd xs)" and "\<And>p. p \<in> set (map snd xs) \<Longrightarrow> fi_origStream (f_info s p) \<noteq> 0 \<Longrightarrow> fi_backupStream (f_info s p) \<noteq> 0"
  shows "\<exists>s'. update_files c xs s = Ok s' \<and> same_rest s s' \<and> f_dinfo s' = f_dinfo s \<and>
    (\<forall>p. f_info s' p = (if p \<in> set (map snd xs) then snap c (f_out s) (f_info s p) else f_info s p)) \<and>
    f_mem s' = copies (backward (map (file_region s) (streamed s (map snd xs)))) (f_mem s)"
  using assms
proof (induction xs arbitrary: s)
  case (Cons x xs)
  let ?p = "snd x"
  define t where "t = s\<lparr>f_info := (f_info s)(?p := snap c (f_out s) (f_info s ?p)), f_mem := copies (backward (map (file_region s) (streamed s [?p]))) (f_mem s)\<rparr>"
  have u: "update_file c ?p s = Ok t" unfolding t_def using Cons.prems(2) by (intro update_file_ok) simp
  have n: "?p \<notin> set (map snd xs)" using Cons.prems(1) by simp
  have i: "f_info t q = f_info s q" if "q \<in> set (map snd xs)" for q using that n by (cases "q = ?p") (auto simp: t_def)
  have r: "map (file_region t) (streamed t (map snd xs)) = map (file_region s) (streamed s (map snd xs))"
  proof (rule map_cong)
    show "streamed t (map snd xs) = streamed s (map snd xs)" by (rule filter_cong) (use i in auto)
    show "file_region t p = file_region s p" if "p \<in> set (streamed s (map snd xs))" for p using that i by (simp add: file_region_def)
  qed
  have "\<exists>s'. update_files c xs t = Ok s' \<and> same_rest t s' \<and> f_dinfo s' = f_dinfo t \<and>
      (\<forall>p. f_info s' p = (if p \<in> set (map snd xs) then snap c (f_out t) (f_info t p) else f_info t p)) \<and>
      f_mem s' = copies (backward (map (file_region t) (streamed t (map snd xs)))) (f_mem t)"
    using Cons.prems i by (intro Cons.IH) auto
  then obtain s' where s': "update_files c xs t = Ok s'" "same_rest t s'" "f_dinfo s' = f_dinfo t"
      "\<And>p. f_info s' p = (if p \<in> set (map snd xs) then snap c (f_out t) (f_info t p) else f_info t p)"
      "f_mem s' = copies (backward (map (file_region s) (streamed s (map snd xs)))) (f_mem t)" unfolding r by blast
  have o: "f_out t = f_out s" "f_dinfo t = f_dinfo s" "same_rest s t" by (simp_all add: t_def same_rest_def)
  have "f_info s' p = (if p \<in> set (map snd (x # xs)) then snap c (f_out s) (f_info s p) else f_info s p)" for p
  proof (cases "p = ?p")
    case True then show ?thesis using s'(4) [of p] n by (simp add: t_def)
  next
    case False then show ?thesis using s'(4) [of p] o(1) by (simp add: t_def)
  qed
  moreover have "f_mem s' = copies (backward (map (file_region s) (streamed s (map snd (x # xs))))) (f_mem s)"
    unfolding s'(5) t_def by (simp add: copies_def)
  moreover have "same_rest s s'" using s'(2) o(3) by (simp add: same_rest_def)
  ultimately show ?case using u s'(1,3) o(2) by simp
qed (simp add: copies_def same_rest_def)

lemma update_dirs_ok:
  assumes "distinct (map snd xs)" and "s' = fold (\<lambda>x. update_dir c (snd x)) xs s"
  shows "same_rest s s'" and "f_info s' = f_info s" and "f_mem s' = copies (backward (map (dir_region s) (map snd xs))) (f_mem s)"
    and "p \<notin> set (map snd xs) \<Longrightarrow> f_dinfo s' p = f_dinfo s p"
    and "p \<in> set (map snd xs) \<Longrightarrow> \<exists>ys. set ys \<subseteq> set (map snd xs) \<and> f_dinfo s' p = (f_dinfo s p)\<lparr>di_isNew := False,
      di_pos := c_telldir c (di_dir (f_dinfo s p)) (copies (backward (map (dir_region s) ys)) (f_mem s)) (f_out s)\<rparr>"
proof -
  have "same_rest s s' \<and> f_info s' = f_info s \<and> f_mem s' = copies (backward (map (dir_region s) (map snd xs))) (f_mem s) \<and>
    (\<forall>p. p \<notin> set (map snd xs) \<longrightarrow> f_dinfo s' p = f_dinfo s p) \<and>
    (\<forall>p\<in>set (map snd xs). \<exists>ys. set ys \<subseteq> set (map snd xs) \<and> f_dinfo s' p = (f_dinfo s p)\<lparr>di_isNew := False,
      di_pos := c_telldir c (di_dir (f_dinfo s p)) (copies (backward (map (dir_region s) ys)) (f_mem s)) (f_out s)\<rparr>)"
    using assms
  proof (induction xs arbitrary: s' rule: rev_induct)
    case (snoc x xs)
    let ?p = "snd x"
    define t where "t = fold (\<lambda>x. update_dir c (snd x)) xs s"
    have d: "distinct (map snd xs)" "?p \<notin> set (map snd xs)" using snoc.prems(1) by auto
    have t: "same_rest s t" "f_info t = f_info s" "f_mem t = copies (backward (map (dir_region s) (map snd xs))) (f_mem s)"
        "\<And>p. p \<notin> set (map snd xs) \<Longrightarrow> f_dinfo t p = f_dinfo s p"
        "\<And>p. p \<in> set (map snd xs) \<Longrightarrow> \<exists>ys. set ys \<subseteq> set (map snd xs) \<and> f_dinfo t p = (f_dinfo s p)\<lparr>di_isNew := False,
          di_pos := c_telldir c (di_dir (f_dinfo s p)) (copies (backward (map (dir_region s) ys)) (f_mem s)) (f_out s)\<rparr>"
      using snoc.IH [OF d(1) t_def] by blast+
    have s': "s' = update_dir c ?p t" using snoc.prems(2) by (simp add: t_def)
    have f: "same_rest t s'" "f_info s' = f_info t"
        "f_dinfo s' = (f_dinfo t)(?p := (f_dinfo t ?p)\<lparr>di_isNew := False, di_pos := c_telldir c (di_dir (f_dinfo t ?p)) (f_mem t) (f_out t)\<rparr>)"
        "f_mem s' = memcpy (f_mem t) (di_backupDir (f_dinfo t ?p)) (di_dir (f_dinfo t ?p)) DIROPEN_ALLOC_SIZE"
      by (simp_all add: s' update_dir_def Let_def set_dinfo_def mark_old same_rest_def)
    have "\<exists>ys. set ys \<subseteq> set (map snd (xs @ [x])) \<and> f_dinfo s' p = (f_dinfo s p)\<lparr>di_isNew := False,
        di_pos := c_telldir c (di_dir (f_dinfo s p)) (copies (backward (map (dir_region s) ys)) (f_mem s)) (f_out s)\<rparr>"
      if p: "p \<in> set (map snd (xs @ [x]))" for p
    proof (cases "p = ?p")
      case True
      then show ?thesis using f(3) t(1,3) t(4) [OF d(2)] by (intro exI [of _ "map snd xs"]) (auto simp: same_rest_def)
    next
      case False
      then have "p \<in> set (map snd xs)" using p by auto
      from t(5) [OF this] show ?thesis using f(3) False by auto
    qed
    moreover have "f_mem s' = copies (backward (map (dir_region s) (map snd (xs @ [x])))) (f_mem s)"
      using f(4) t(3) t(4) [OF d(2)] by (simp add: copies_def dir_region_def)
    moreover have "same_rest s s'" "f_info s' = f_info s" using f(1,2) t(1,2) by (simp_all add: same_rest_def)
    moreover have "f_dinfo s' p = f_dinfo s p" if "p \<notin> set (map snd (xs @ [x]))" for p using that f(3) t(4) by simp
    ultimately show ?case by blast
  qed (simp add: copies_def same_rest_def)
  then show "same_rest s s'" and "f_info s' = f_info s" and "f_mem s' = copies (backward (map (dir_region s) (map snd xs))) (f_mem s)"
    and "p \<notin> set (map snd xs) \<Longrightarrow> f_dinfo s' p = f_dinfo s p"
    and "p \<in> set (map snd xs) \<Longrightarrow> \<exists>ys. set ys \<subseteq> set (map snd xs) \<and> f_dinfo s' p = (f_dinfo s p)\<lparr>di_isNew := False,
      di_pos := c_telldir c (di_dir (f_dinfo s p)) (copies (backward (map (dir_region s) ys)) (f_mem s)) (f_out s)\<rparr>"
    by blast+
qed

text \<open>After the update every file has its position and its stream copied, and every directory likewise.\<close>

lemma regions_files: "p \<in> set (streamed s (fptrs s)) \<Longrightarrow> file_region s p \<in> set (regions s)"
  by (simp add: regions_def)

lemma regions_dirs: "p \<in> set (dptrs s) \<Longrightarrow> dir_region s p \<in> set (regions s)"
  unfolding regions_def set_append set_map by blast

lemma updateOpenedFiles_ok:
  assumes ok: "fops_ok s" and c: "calls_ok c share sk"
  shows "\<exists>s'. updateOpenedFiles c s = Ok s' \<and> same_rest s s' \<and>
    (\<forall>p\<in>set (fptrs s). f_info s' p = snap c (f_out s) (f_info s p)) \<and>
    (\<forall>p\<in>set (dptrs s). f_dinfo s' p = (f_dinfo s p)\<lparr>di_isNew := False, di_pos := c_telldir c (di_dir (f_dinfo s p)) (f_mem s) (f_out s)\<rparr>) \<and>
    (\<forall>(a, b, n)\<in>set (regions s). same_bytes (f_mem s') b (f_mem s) a n \<and> same_bytes (f_mem s') a (f_mem s) a n)"
proof -
  have d: "distinct (fptrs s)" "distinct (dptrs s)" "separate (regions s)" using ok by (auto simp: fops_ok_def)
  have "\<And>p. p \<in> set (fptrs s) \<Longrightarrow> fi_origStream (f_info s p) \<noteq> 0 \<Longrightarrow> fi_backupStream (f_info s p) \<noteq> 0" using ok by (auto simp: fops_ok_def)
  from update_files_ok [OF d(1) this, of c] obtain t where t: "update_files c (f_filesMap s) s = Ok t" "same_rest s t" "f_dinfo t = f_dinfo s"
      "\<And>p. f_info t p = (if p \<in> set (fptrs s) then snap c (f_out s) (f_info s p) else f_info s p)"
      "f_mem t = copies (backward (map (file_region s) (streamed s (fptrs s)))) (f_mem s)" by blast
  define s' where "s' = fold (\<lambda>x. update_dir c (snd x)) (f_dirsMap t) t"
  have dm: "f_dirsMap t = f_dirsMap s" "f_out t = f_out s" using t(2) by (simp_all add: same_rest_def)
  note u = update_dirs_ok [OF d(2) [folded dm(1)] s'_def]
  have dr: "dir_region t = dir_region s" by (simp add: dir_region_def t(3) fun_eq_iff)
  have m: "f_mem s' = copies (backward (regions s)) (f_mem s)"
    unfolding u(3) t(5) dr dm(1) by (simp add: regions_def copies_def)
  have "updateOpenedFiles c s = Ok s'" using t(1) by (simp add: updateOpenedFiles_def s'_def)
  moreover have "same_rest s s'" using t(2) u(1) by (simp add: same_rest_def)
  moreover have "f_info s' p = snap c (f_out s) (f_info s p)" if "p \<in> set (fptrs s)" for p using that t(4) u(2) by simp
  moreover have "f_dinfo s' p = (f_dinfo s p)\<lparr>di_isNew := False, di_pos := c_telldir c (di_dir (f_dinfo s p)) (f_mem s) (f_out s)\<rparr>"
    if p: "p \<in> set (dptrs s)" for p
  proof -
    obtain ys where ys: "set ys \<subseteq> set (dptrs s)" "f_dinfo s' p = (f_dinfo s p)\<lparr>di_isNew := False,
        di_pos := c_telldir c (di_dir (f_dinfo s p)) (copies (backward (map (dir_region s) ys)) (f_mem t)) (f_out s)\<rparr>"
      using u(5) [of p] p unfolding dr dm t(3) by blast
    have "copies (backward (map (dir_region s) ys)) (f_mem t) x = f_mem s x" if x: "in_range (di_dir (f_dinfo s p)) DIROPEN_ALLOC_SIZE x" for x
    proof -
      have "copies (backward (map (dir_region s) ys)) (f_mem t) x = copies (backward (map (file_region s) (streamed s (fptrs s)) @ map (dir_region s) ys)) (f_mem s) x"
        by (simp add: t(5) copies_def)
      also have "\<dots> = f_mem s x"
      proof (rule copies_outsideI)
        fix d' a' n' assume "(d', a', n') \<in> set (backward (map (file_region s) (streamed s (fptrs s)) @ map (dir_region s) ys))"
        then have "(a', d', n') \<in> set (map (file_region s) (streamed s (fptrs s)) @ map (dir_region s) ys)" unfolding in_backward .
        then have "(a', d', n') \<in> set (regions s)" using ys(1) unfolding regions_def set_append set_map by blast
        from separateD(1) [OF d(3) regions_dirs [OF p, unfolded dir_region_def] this] show "\<not> in_range d' n' x" using x by (auto simp: apart_def)
      qed
      finally show ?thesis .
    qed
    from calls_okD(9) [OF c this] show ?thesis using ys(2) by simp
  qed
  moreover have "same_bytes (f_mem s') b (f_mem s) a n \<and> same_bytes (f_mem s') a (f_mem s) a n" if r: "(a, b, n) \<in> set (regions s)" for a b n
  proof
    show "same_bytes (f_mem s') b (f_mem s) a n" unfolding m by (rule copies_taken(1) [OF d(3) r])
    show "same_bytes (f_mem s') a (f_mem s) a n" unfolding same_bytes_def m
    proof (intro allI impI copies_taken(2) [OF d(3)])
      fix i a' b' n' assume "i < n" "(a', b', n') \<in> set (regions s)"
      then show "\<not> in_range b' n' (a + i)" using separateD(1) [OF d(3) r] by (auto simp: apart_def)
    qed
  qed
  ultimately show ?thesis by fastforce
qed

subsection \<open>The rollback\<close>

abbreviation old_files :: "('h, 'k) fops \<Rightarrow> u64 list" where
  "old_files s \<equiv> filter (\<lambda>p. \<not> fi_isNew (f_info s p)) (fptrs s)"

lemma restore_files_ok:
  assumes "s' = fold (\<lambda>x. restore_file c (snd x)) xs s"
  shows "f_info s' = f_info s" and "f_dinfo s' = f_dinfo s" and "f_filesMap s' = f_filesMap s" and "f_dirsMap s' = f_dirsMap s"
    and "f_mem s' = copies (map (file_region s) (streamed s (filter (\<lambda>p. \<not> fi_isNew (f_info s p)) (map snd xs)))) (f_mem s)"
    and "f_out s' = fold (\<lambda>p. c_seek c (fi_fd (f_info s p)) (fi_pos (f_info s p))) (filter (\<lambda>p. \<not> fi_isNew (f_info s p)) (map snd xs)) (f_out s)"
proof -
  have "f_info s' = f_info s \<and> f_dinfo s' = f_dinfo s \<and> f_filesMap s' = f_filesMap s \<and> f_dirsMap s' = f_dirsMap s \<and>
    f_mem s' = copies (map (file_region s) (streamed s (filter (\<lambda>p. \<not> fi_isNew (f_info s p)) (map snd xs)))) (f_mem s) \<and>
    f_out s' = fold (\<lambda>p. c_seek c (fi_fd (f_info s p)) (fi_pos (f_info s p))) (filter (\<lambda>p. \<not> fi_isNew (f_info s p)) (map snd xs)) (f_out s)"
    using assms
  proof (induction xs arbitrary: s' rule: rev_induct)
    case (snoc x xs)
    define t where "t = fold (\<lambda>x. restore_file c (snd x)) xs s"
    note t = snoc.IH [OF t_def]
    have "s' = restore_file c (snd x) t" using snoc.prems by (simp add: t_def)
    then show ?case using t by (auto simp: restore_file_def Let_def copies_def file_region_def)
  qed (simp add: copies_def)
  then show "f_info s' = f_info s" and "f_dinfo s' = f_dinfo s" and "f_filesMap s' = f_filesMap s" and "f_dirsMap s' = f_dirsMap s"
    and "f_mem s' = copies (map (file_region s) (streamed s (filter (\<lambda>p. \<not> fi_isNew (f_info s p)) (map snd xs)))) (f_mem s)"
    and "f_out s' = fold (\<lambda>p. c_seek c (fi_fd (f_info s p)) (fi_pos (f_info s p))) (filter (\<lambda>p. \<not> fi_isNew (f_info s p)) (map snd xs)) (f_out s)"
    by blast+
qed

lemma seeks_position:
  assumes c: "calls_ok c share sk" and p: "(fd, v) \<in> set xs" "sk fd" "0 \<le> v"
    and e: "\<And>fd' v'. (fd', v') \<in> set xs \<Longrightarrow> sk fd' \<Longrightarrow> 0 \<le> v' \<and> (share fd' fd \<longrightarrow> v' = v)"
  shows "c_tell c fd (fold (\<lambda>(fd, v). c_seek c fd v) xs k) = v"
  using p(1) e
proof (induction xs rule: rev_induct)
  case (snoc x xs)
  obtain fd' v' where x: "x = (fd', v')" by (cases x)
  let ?k = "fold (\<lambda>(fd, v). c_seek c fd v) xs k"
  have f: "c_tell c fd (fold (\<lambda>(fd, v). c_seek c fd v) (xs @ [x]) k) = c_tell c fd (c_seek c fd' v' ?k)" by (simp add: x)
  show ?case
  proof (cases "sk fd' \<and> share fd' fd")
    case True
    then have "0 \<le> v'" "v' = v" using snoc.prems(2) [of fd' v'] x by auto
    then show ?thesis using True calls_okD(4) [OF c, of fd' v' fd ?k] f by simp
  next
    case False
    then have "x \<noteq> (fd, v)" using calls_okD(1) [OF c] p(2) x by auto
    then have "(fd, v) \<in> set xs" using snoc.prems(1) by auto
    then have "c_tell c fd ?k = v" using snoc.prems(2) by (intro snoc.IH) auto
    moreover have "c_tell c fd (c_seek c fd' v' ?k) = c_tell c fd ?k"
    proof (cases "sk fd'")
      case True
      then show ?thesis using False snoc.prems(2) [of fd' v'] x calls_okD(4) [OF c, of fd' v' fd ?k] by auto
    next
      case n: False then show ?thesis by (rule calls_okD(5) [OF c])
    qed
    ultimately show ?thesis using f by simp
  qed
qed simp

lemma restore_dirs_ok:
  assumes c: "calls_ok c share sk" and "\<And>p. p \<in> set (map snd xs) \<Longrightarrow> di_dir (f_dinfo s p) \<noteq> 0 \<and> di_backupDir (f_dinfo s p) \<noteq> 0"
  shows "\<exists>s'. restore_dirs c xs s = Ok s' \<and> f_dinfo s' = f_dinfo s \<and> f_info s' = f_info s \<and> (\<forall>fd. c_tell c fd (f_out s') = c_tell c fd (f_out s)) \<and>
    (\<forall>x. (\<forall>p\<in>set (map snd xs). di_isNew (f_dinfo s p) \<or> \<not> in_range (di_dir (f_dinfo s p)) DIROPEN_ALLOC_SIZE x) \<longrightarrow> f_mem s' x = f_mem s x) \<and>
    (\<forall>d. (\<forall>p\<in>set (map snd xs). di_isNew (f_dinfo s p) \<or> apart (di_dir (f_dinfo s p)) DIROPEN_ALLOC_SIZE d DIROPEN_ALLOC_SIZE) \<longrightarrow>
      c_telldir c d (f_mem s') (f_out s') = c_telldir c d (f_mem s) (f_out s))"
  using assms(2)
proof (induction xs arbitrary: s)
  case (Cons x xs)
  let ?p = "snd x"
  let ?i = "f_dinfo s ?p"
  obtain t where t: "restore_dir c ?p s = Ok t" "f_dinfo t = f_dinfo s" "f_info t = f_info s" "\<And>fd. c_tell c fd (f_out t) = c_tell c fd (f_out s)"
      "\<And>x. di_isNew ?i \<or> \<not> in_range (di_dir ?i) DIROPEN_ALLOC_SIZE x \<Longrightarrow> f_mem t x = f_mem s x"
      "\<And>d. di_isNew ?i \<or> apart (di_dir ?i) DIROPEN_ALLOC_SIZE d DIROPEN_ALLOC_SIZE \<Longrightarrow>
        c_telldir c d (f_mem t) (f_out t) = c_telldir c d (f_mem s) (f_out s)"
  proof (cases "di_isNew ?i")
    case True
    then show ?thesis by (intro that [of s]) (simp_all add: restore_dir_def)
  next
    case False
    let ?m = "memcpy (f_mem s) (di_dir ?i) (di_backupDir ?i) DIROPEN_ALLOC_SIZE"
    let ?t = "set_out (c_seekdir c (di_dir ?i) (di_pos ?i) ?m (f_out s)) (s\<lparr>f_mem := ?m\<rparr>)"
    have 1: "f_mem ?t x = f_mem s x" if "\<not> in_range (di_dir ?i) DIROPEN_ALLOC_SIZE x" for x
      using calls_okD(8) [OF c that] that by (simp add: set_out_def memcpy_def)
    have 2: "c_telldir c d (f_mem ?t) (f_out ?t) = c_telldir c d (f_mem s) (f_out s)"
      if a: "apart (di_dir ?i) DIROPEN_ALLOC_SIZE d DIROPEN_ALLOC_SIZE" for d
    proof -
      have "in_range d DIROPEN_ALLOC_SIZE d" by (simp add: in_range_def)
      then have "di_dir ?i \<noteq> d" using a by (auto simp: apart_def)
      then have "c_telldir c d (f_mem ?t) (f_out ?t) = c_telldir c d (f_mem ?t) (f_out s)"
        using calls_okD(12) [OF c] by (simp add: set_out_def)
      also have "\<dots> = c_telldir c d (f_mem s) (f_out s)" by (rule calls_okD(9) [OF c]) (use a 1 in \<open>auto simp: apart_def\<close>)
      finally show ?thesis .
    qed
    show ?thesis by (rule that [of ?t]) (use False Cons.prems [of ?p] 1 2 calls_okD(7) [OF c] in \<open>auto simp: restore_dir_def Let_def set_out_def\<close>)
  qed
  have "\<And>p. p \<in> set (map snd xs) \<Longrightarrow> di_dir (f_dinfo t p) \<noteq> 0 \<and> di_backupDir (f_dinfo t p) \<noteq> 0" using Cons.prems t(2) by simp
  from Cons.IH [OF this] obtain s' where s': "restore_dirs c xs t = Ok s'" "f_dinfo s' = f_dinfo s" "f_info s' = f_info s"
      "\<And>fd. c_tell c fd (f_out s') = c_tell c fd (f_out s)"
      "\<And>x. (\<And>p. p \<in> set (map snd xs) \<Longrightarrow> di_isNew (f_dinfo s p) \<or> \<not> in_range (di_dir (f_dinfo s p)) DIROPEN_ALLOC_SIZE x) \<Longrightarrow> f_mem s' x = f_mem t x"
      "\<And>d. (\<And>p. p \<in> set (map snd xs) \<Longrightarrow> di_isNew (f_dinfo s p) \<or> apart (di_dir (f_dinfo s p)) DIROPEN_ALLOC_SIZE d DIROPEN_ALLOC_SIZE) \<Longrightarrow>
        c_telldir c d (f_mem s') (f_out s') = c_telldir c d (f_mem t) (f_out t)"
    unfolding t(2,3,4) by blast
  show ?case
  proof (intro exI [of _ s'] conjI allI impI)
    show "restore_dirs c (x # xs) s = Ok s'" using t(1) s'(1) by simp
    fix y assume "\<forall>p\<in>set (map snd (x # xs)). di_isNew (f_dinfo s p) \<or> \<not> in_range (di_dir (f_dinfo s p)) DIROPEN_ALLOC_SIZE y"
    then show "f_mem s' y = f_mem s y" using s'(5) [of y] t(5) [of y] by auto
  next
    fix d assume "\<forall>p\<in>set (map snd (x # xs)). di_isNew (f_dinfo s p) \<or> apart (di_dir (f_dinfo s p)) DIROPEN_ALLOC_SIZE d DIROPEN_ALLOC_SIZE"
    then show "c_telldir c d (f_mem s') (f_out s') = c_telldir c d (f_mem s) (f_out s)" using s'(6) [of d] t(6) [of d] by auto
  qed (use s'(2-4) in auto)
qed simp

lemma restore_dirs_position:
  assumes c: "calls_ok c share sk" and "restore_dirs c xs s = Ok s'" and "p \<in> set (map snd xs)" and v: "v = c_telldir c d m0 k0"
    and "di_dir (f_dinfo s p) = d" "\<not> di_isNew (f_dinfo s p)"
    and "\<And>q. q \<in> set (map snd xs) \<Longrightarrow> di_dir (f_dinfo s q) \<noteq> 0 \<and> di_backupDir (f_dinfo s q) \<noteq> 0"
    and "\<And>q. q \<in> set (map snd xs) \<Longrightarrow> \<not> di_isNew (f_dinfo s q) \<Longrightarrow>
      di_dir (f_dinfo s q) = d \<and> di_pos (f_dinfo s q) = v \<or> apart (di_dir (f_dinfo s q)) DIROPEN_ALLOC_SIZE d DIROPEN_ALLOC_SIZE"
  shows "c_telldir c d (f_mem s') (f_out s') = v"
  using assms(2,3,5-8)
proof (induction xs arbitrary: s p)
  case (Cons x xs)
  let ?q = "snd x"
  obtain t where t: "restore_dir c ?q s = Ok t" "restore_dirs c xs t = Ok s'" using Cons.prems(1) by (auto simp: rbind_Ok_iff)
  have dt: "f_dinfo t = f_dinfo s" using t(1) by (auto simp: restore_dir_def Let_def set_out_def split: if_splits)
  show ?case
  proof (cases "\<exists>r\<in>set (map snd xs). di_dir (f_dinfo s r) = d \<and> \<not> di_isNew (f_dinfo s r)")
    case True
    then obtain r where "r \<in> set (map snd xs)" "di_dir (f_dinfo s r) = d" "\<not> di_isNew (f_dinfo s r)" by blast
    then show ?thesis using Cons.IH [OF t(2), of r] Cons.prems(5,6) unfolding dt by simp
  next
    case False
    then have q: "?q = p" using Cons.prems(2-4) by auto
    have "di_pos (f_dinfo s p) = v" using Cons.prems(3,4) Cons.prems(6) [of p] q apart_nonempty [of DIROPEN_ALLOC_SIZE d] by auto
    then have here: "c_telldir c d (f_mem t) (f_out t) = v"
      using t(1) q Cons.prems(3,4) calls_okD(11) [OF c v] by (auto simp: restore_dir_def Let_def set_out_def split: if_splits)
    have "\<And>r. r \<in> set (map snd xs) \<Longrightarrow> di_dir (f_dinfo t r) \<noteq> 0 \<and> di_backupDir (f_dinfo t r) \<noteq> 0" using Cons.prems(5) dt by simp
    moreover have "\<forall>r\<in>set (map snd xs). di_isNew (f_dinfo t r) \<or> apart (di_dir (f_dinfo t r)) DIROPEN_ALLOC_SIZE d DIROPEN_ALLOC_SIZE"
      using False Cons.prems(6) unfolding dt by (auto simp del: set_map)
    ultimately have "c_telldir c d (f_mem s') (f_out s') = c_telldir c d (f_mem t) (f_out t)"
      using restore_dirs_ok [OF c, of xs t] t(2) by auto
    then show ?thesis using here by simp
  qed
qed simp

section \<open>The steps of an epoch\<close>

text \<open>
  \<open>avoids\<close> says that a block overlaps no stream, no directory and no copy. A block that the heap of the
  runtime hands out avoids everything in use and the object \<open>d\<close> about to be saved, also the second one
  of a handler.
\<close>

definition avoids :: "region list \<Rightarrow> u64 \<Rightarrow> u64 \<Rightarrow> bool" where
  "avoids ts q n \<longleftrightarrow> (\<forall>(a, b, k)\<in>set ts. apart q n a k \<and> apart q n b k)"

definition fresh :: "('h, 'k) fops \<Rightarrow> u64 \<Rightarrow> u64 \<Rightarrow> u64 \<Rightarrow> u64 \<Rightarrow> bool" where
  "fresh s d k q n \<longleftrightarrow> q \<noteq> 0 \<and> q \<notin> set (fptrs s) \<and> q \<notin> set (dptrs s) \<and> avoids (regions s) q n \<and> apart d k q n"

definition fresh_heap :: "'h im_fun \<Rightarrow> ('h, 'k) fops \<Rightarrow> u64 \<Rightarrow> u64 \<Rightarrow> bool" where
  "fresh_heap im s d k \<longleftrightarrow> (\<forall>n q h. im n (f_heap s) = Ok (q, h) \<longrightarrow> fresh s d k q n \<and> (\<forall>n' q' h'. im n' h = Ok (q', h') \<longrightarrow> fresh s d k q' n'))"

text \<open>
  In an epoch the program reads, writes and seeks as it likes, outside of the copies (\<open>Run\<close>); it opens
  files whose descriptors share no position with one in use, duplicates descriptors, opens directories
  and closes. Closing is deferred, so that no descriptor and no stream is used again before the end.
\<close>

inductive file_step :: "'h im_fun \<Rightarrow> 'k calls \<Rightarrow> (int \<Rightarrow> int \<Rightarrow> bool) \<Rightarrow> ('h, 'k) fops \<Rightarrow> ('h, 'k) fops \<Rightarrow> bool"
  for im :: "'h im_fun" and c :: "'k calls" and share :: "int \<Rightarrow> int \<Rightarrow> bool" where
  Run: "\<lbrakk>\<forall>(a, b, n)\<in>set (regions s). same_bytes m b (f_mem s) b n\<rbrakk> \<Longrightarrow>
    file_step im c share s (s\<lparr>f_mem := m, f_out := k, f_sys := t, f_heap := h\<rparr>)"
| Open: "\<lbrakk>saveFd im fd file s = Ok s'; fresh_heap im s file FOPEN_ALLOC_SIZE;
    \<forall>p\<in>set (fptrs s). \<not> share fd (fi_fd (f_info s p)) \<and> \<not> share (fi_fd (f_info s p)) fd;
    file \<noteq> 0 \<Longrightarrow> avoids (regions s) file FOPEN_ALLOC_SIZE\<rbrakk> \<Longrightarrow> file_step im c share s s'"
| Dup: "\<lbrakk>saveDupFd im oldfd newfd s = Ok s'; fresh_heap im s (fi_origStream (f_info s (the (map_of (f_filesMap s) oldfd)))) FOPEN_ALLOC_SIZE;
    share newfd oldfd; \<forall>fd. share newfd fd = share oldfd fd \<and> share fd newfd = share fd oldfd\<rbrakk> \<Longrightarrow> file_step im c share s s'"
| OpenDir: "\<lbrakk>saveDir im c dir s = Ok s'; fresh_heap im s dir DIROPEN_ALLOC_SIZE; avoids (regions s) dir DIROPEN_ALLOC_SIZE\<rbrakk> \<Longrightarrow> file_step im c share s s'"
| Close: "closeFile fd fp s = Ok (r, s') \<Longrightarrow> file_step im c share s s'"
| CloseDir: "closeDir dir s = Ok (r, s') \<Longrightarrow> file_step im c share s s'"

text \<open>Descriptors with a common position agree about it, and copies of one stream are equal.\<close>

definition files_agree :: "(int \<Rightarrow> int \<Rightarrow> bool) \<Rightarrow> (int \<Rightarrow> bool) \<Rightarrow> ('h, 'k) fops \<Rightarrow> bool" where
  "files_agree share sk s \<longleftrightarrow>
     (\<forall>p\<in>set (fptrs s). sk (fi_fd (f_info s p)) \<longrightarrow> 0 \<le> fi_pos (f_info s p)) \<and>
     (\<forall>p\<in>set (fptrs s). \<forall>q\<in>set (fptrs s).
       (share (fi_fd (f_info s p)) (fi_fd (f_info s q)) \<longrightarrow> fi_pos (f_info s p) = fi_pos (f_info s q)) \<and>
       (fi_origStream (f_info s p) \<noteq> 0 \<and> fi_origStream (f_info s p) = fi_origStream (f_info s q) \<longrightarrow>
         same_bytes (f_mem s) (fi_backupStream (f_info s p)) (f_mem s) (fi_backupStream (f_info s q)) FOPEN_ALLOC_SIZE))"

definition epoch_kept :: "(int \<Rightarrow> int \<Rightarrow> bool) \<Rightarrow> (int \<Rightarrow> bool) \<Rightarrow> ('h, 'k) fops \<Rightarrow> ('h, 'k) fops \<Rightarrow> bool" where
  "epoch_kept share sk s s' \<longleftrightarrow> fops_ok s' \<and> files_agree share sk s' \<and>
     set (fptrs s) \<subseteq> set (fptrs s') \<and> set (dptrs s) \<subseteq> set (dptrs s') \<and>
     (\<forall>p\<in>set (fptrs s). f_info s' p = f_info s p) \<and> (\<forall>p\<in>set (dptrs s). f_dinfo s' p = f_dinfo s p) \<and>
     (\<forall>(a, b, n)\<in>set (regions s). same_bytes (f_mem s') b (f_mem s) b n) \<and>
     (\<forall>p\<in>set (dptrs s'). p \<in> set (dptrs s) \<or> di_isNew (f_dinfo s' p))"

subsection \<open>Every step keeps the snapshot\<close>

lemma avoidsD: "avoids ts q n \<Longrightarrow> (a, b, k) \<in> set ts \<Longrightarrow> apart q n a k \<and> apart q n b k"
  by (auto simp: avoids_def)

lemma separate_insert:
  assumes s: "separate (xs @ ys)" and q: "avoids (xs @ ys) b n" and "apart a n b n" and "0 < n"
    and o: "\<And>a' b' n'. (a', b', n') \<in> set (xs @ ys) \<Longrightarrow> 0 < n' \<and> apart a n b' n' \<and> (a = a' \<and> n = n' \<or> apart a n a' n')"
  shows "separate (xs @ (a, b, n) # ys)"
proof -
  have "b \<noteq> b'" if "(a', b', n') \<in> set (xs @ ys)" for a' b' n'
    using avoidsD [OF q that] o [OF that] in_range_shift [of b n 0] in_range_shift [of b n' 0] assms(4) by (auto simp: apart_def)
  then have "b \<notin> set (map (\<lambda>(a, b, n). b) (xs @ ys))" by auto
  then have "distinct (map (\<lambda>(a, b, n). b) (xs @ (a, b, n) # ys))" using s by (auto simp: separate_def)
  moreover have "apart a' n' b n \<and> apart b' n' b n \<and> (a' = a \<and> n' = n \<or> apart a' n' a n) \<and> apart b n b' n'"
    if t: "(a', b', n') \<in> set (xs @ ys)" for a' b' n'
    using avoidsD [OF q t] o [OF t] by (auto dest: apart_sym)
  ultimately show ?thesis using s assms(3) o unfolding separate_def set_append list.set Ball_def by fast
qed

lemma regions_size: "(a, b, n) \<in> set (regions s) \<Longrightarrow> 0 < n"
  by (auto simp: regions_def file_region_def dir_region_def)

lemma fresh_heapD:
  assumes "fresh_heap im s d k"
  shows "im n (f_heap s) = Ok (q, h) \<Longrightarrow> fresh s d k q n" and "im n (f_heap s) = Ok (q, h) \<Longrightarrow> im n' h = Ok (q', h') \<Longrightarrow> fresh s d k q' n'"
  using assms unfolding fresh_heap_def by blast+

lemma fops_okD: "fops_ok s \<Longrightarrow> (fd, p) \<in> set (f_filesMap s) \<Longrightarrow> fi_fd (f_info s p) = fd"
  unfolding fops_ok_def by blast

lemma files_agreeD:
  assumes "files_agree share sk s"
  shows "p \<in> set (fptrs s) \<Longrightarrow> sk (fi_fd (f_info s p)) \<Longrightarrow> 0 \<le> fi_pos (f_info s p)"
    and "p \<in> set (fptrs s) \<Longrightarrow> q \<in> set (fptrs s) \<Longrightarrow> share (fi_fd (f_info s p)) (fi_fd (f_info s q)) \<Longrightarrow> fi_pos (f_info s p) = fi_pos (f_info s q)"
    and "p \<in> set (fptrs s) \<Longrightarrow> q \<in> set (fptrs s) \<Longrightarrow> fi_origStream (f_info s p) \<noteq> 0 \<Longrightarrow> fi_origStream (f_info s p) = fi_origStream (f_info s q) \<Longrightarrow>
      same_bytes (f_mem s) (fi_backupStream (f_info s p)) (f_mem s) (fi_backupStream (f_info s q)) FOPEN_ALLOC_SIZE"
  using assms unfolding files_agree_def by blast+

lemma regions_kept: "epoch_kept share sk s0 s \<Longrightarrow> set (regions s0) \<subseteq> set (regions s)"
proof
  fix r assume k: "epoch_kept share sk s0 s" and "r \<in> set (regions s0)"
  then consider p where "p \<in> set (fptrs s0)" "fi_origStream (f_info s0 p) \<noteq> 0" "r = file_region s0 p" | p where "p \<in> set (dptrs s0)" "r = dir_region s0 p"
    unfolding regions_def set_append set_map [of "file_region s0"] set_map [of "dir_region s0"] set_filter by blast
  then show "r \<in> set (regions s)"
  proof cases
    case 1
    then have "f_info s p = f_info s0 p" "p \<in> set (fptrs s)" using k unfolding epoch_kept_def by blast+
    then show ?thesis using 1 regions_files [of p s] by (simp add: file_region_def)
  next
    case 2
    then have "f_dinfo s p = f_dinfo s0 p" "p \<in> set (dptrs s)" using k unfolding epoch_kept_def by blast+
    then show ?thesis using 2 regions_dirs [of p s] by (simp add: dir_region_def)
  qed
qed

lemma epoch_bytes: "epoch_kept share sk s0 s \<Longrightarrow> (a, b, n) \<in> set (regions s0) \<Longrightarrow> same_bytes (f_mem s) b (f_mem s0) b n"
  unfolding epoch_kept_def by blast

lemma epoch_extend:
  assumes k: "epoch_kept share sk s0 s" and "fops_ok s'" "files_agree share sk s'" and sub: "set (fptrs s) \<subseteq> set (fptrs s')" "set (dptrs s) \<subseteq> set (dptrs s')"
    and i: "\<And>p. p \<in> set (fptrs s) \<Longrightarrow> f_info s' p = f_info s p" and d: "\<And>p. p \<in> set (dptrs s) \<Longrightarrow> f_dinfo s' p = f_dinfo s p"
    and m: "\<And>a b n j. (a, b, n) \<in> set (regions s) \<Longrightarrow> j < n \<Longrightarrow> f_mem s' (b + j) = f_mem s (b + j)"
    and new: "\<And>p. p \<in> set (dptrs s') \<Longrightarrow> p \<in> set (dptrs s) \<or> di_isNew (f_dinfo s' p)"
  shows "epoch_kept share sk s0 s'"
  unfolding epoch_kept_def
proof (intro conjI ballI)
  have s: "set (fptrs s0) \<subseteq> set (fptrs s)" "set (dptrs s0) \<subseteq> set (dptrs s)" "\<And>p. p \<in> set (fptrs s0) \<Longrightarrow> f_info s p = f_info s0 p"
    "\<And>p. p \<in> set (dptrs s0) \<Longrightarrow> f_dinfo s p = f_dinfo s0 p" "\<And>p. p \<in> set (dptrs s) \<Longrightarrow> p \<in> set (dptrs s0) \<or> di_isNew (f_dinfo s p)"
    using k unfolding epoch_kept_def by blast+
  show "set (fptrs s0) \<subseteq> set (fptrs s')" "set (dptrs s0) \<subseteq> set (dptrs s')" using s(1,2) sub by blast+
  show "f_info s' p = f_info s0 p" if "p \<in> set (fptrs s0)" for p using i [OF subsetD [OF s(1) that]] s(3) [OF that] by simp
  show "f_dinfo s' p = f_dinfo s0 p" if "p \<in> set (dptrs s0)" for p using d [OF subsetD [OF s(2) that]] s(4) [OF that] by simp
  show "case r of (a, b, n) \<Rightarrow> same_bytes (f_mem s') b (f_mem s0) b n" if r: "r \<in> set (regions s0)" for r
  proof -
    obtain a b n where t: "r = (a, b, n)" by (cases r)
    have "same_bytes (f_mem s) b (f_mem s0) b n" using epoch_bytes [OF k] r t by blast
    then show ?thesis using m [of a b n] subsetD [OF regions_kept [OF k] r] t by (simp add: same_bytes_def)
  qed
  show "p \<in> set (dptrs s0) \<or> di_isNew (f_dinfo s' p)" if "p \<in> set (dptrs s')" for p using new [OF that] s(5) d by metis
qed (use assms(2,3) in simp_all)

text \<open>A file is added to the map: its copy is fresh, its stream is either outside of everything or one that is already known.\<close>

lemma add_file:
  assumes k: "epoch_kept share sk s0 s" and p: "p \<notin> set (fptrs s)"
    and s': "f_filesMap s' = f_filesMap s @ [(fi_fd i, p)]" "f_dirsMap s' = f_dirsMap s" "f_info s' = (f_info s)(p := i)" "f_dinfo s' = f_dinfo s"
    and pos: "sk (fi_fd i) \<Longrightarrow> 0 \<le> fi_pos i"
    and share: "\<And>q. q \<in> set (fptrs s) \<Longrightarrow> share (fi_fd i) (fi_fd (f_info s q)) \<or> share (fi_fd (f_info s q)) (fi_fd i) \<Longrightarrow> fi_pos (f_info s q) = fi_pos i"
    and stream: "fi_origStream i \<noteq> 0 \<Longrightarrow> fresh s (fi_origStream i) FOPEN_ALLOC_SIZE (fi_backupStream i) FOPEN_ALLOC_SIZE \<and>
      f_mem s' = memcpy (f_mem s) (fi_backupStream i) a FOPEN_ALLOC_SIZE \<and>
      (avoids (regions s) (fi_origStream i) FOPEN_ALLOC_SIZE \<or>
        (\<exists>q\<in>set (fptrs s). fi_origStream (f_info s q) = fi_origStream i \<and> fi_backupStream (f_info s q) = a))"
    and "fi_origStream i = 0 \<Longrightarrow> fi_backupStream i = 0 \<and> f_mem s' = f_mem s"
  shows "epoch_kept share sk s0 s'"
proof -
  let ?o = "fi_origStream i" and ?b = "fi_backupStream i"
  let ?F = "map (file_region s) (streamed s (fptrs s))" and ?D = "map (dir_region s) (dptrs s)"
  have ok: "fops_ok s" and fa: "files_agree share sk s" using k by (simp_all add: epoch_kept_def)
  have i: "f_info s' q = f_info s q" if "q \<in> set (fptrs s)" for q using that p s'(3) by auto
  have ip: "f_info s' p = i" by (simp add: s'(3))
  have fp: "fptrs s' = fptrs s @ [p]" by (simp add: s'(1))
  have F: "map (file_region s') (streamed s' (fptrs s)) = ?F"
  proof (rule map_cong)
    show "streamed s' (fptrs s) = streamed s (fptrs s)" by (rule filter_cong) (use i in auto)
    show "file_region s' q = file_region s q" if "q \<in> set (streamed s (fptrs s))" for q using that i by (simp add: file_region_def)
  qed
  have R: "regions s = ?F @ ?D" by (simp add: regions_def)
  have R': "regions s' = ?F @ (if ?o \<noteq> 0 then [(?o, ?b, FOPEN_ALLOC_SIZE)] else []) @ ?D"
    unfolding regions_def fp filter_append map_append F using s'(2,4) ip by (simp add: file_region_def dir_region_def)
  have bytes: "f_mem s' x = f_mem s x" if "?o \<noteq> 0 \<Longrightarrow> \<not> in_range ?b FOPEN_ALLOC_SIZE x" for x
    using that stream assms(10) by (cases "?o = 0") (auto simp: memcpy_def)
  have keep: "f_mem s' (b + j) = f_mem s (b + j)" if "(a', b, n) \<in> set (regions s)" "j < n" for a' b n j
  proof (rule bytes)
    assume "?o \<noteq> 0"
    then have "apart ?b FOPEN_ALLOC_SIZE b n" using stream avoidsD [OF _ that(1)] by (auto simp: fresh_def)
    then show "\<not> in_range ?b FOPEN_ALLOC_SIZE (b + j)" using that(2) by (auto simp: apart_def)
  qed
  have reg: "(fi_origStream (f_info s q), fi_backupStream (f_info s q), FOPEN_ALLOC_SIZE) \<in> set (regions s)"
    if "q \<in> set (fptrs s)" "fi_origStream (f_info s q) \<noteq> 0" for q
    using that regions_files [of q s] by (simp add: file_region_def)
  have sep: "separate (regions s)" using ok by (simp add: fops_ok_def)
  have o: "0 < n \<and> apart ?o FOPEN_ALLOC_SIZE b n \<and> (?o = a' \<and> FOPEN_ALLOC_SIZE = n \<or> apart ?o FOPEN_ALLOC_SIZE a' n)"
    if nz: "?o \<noteq> 0" and t: "(a', b, n) \<in> set (regions s)" for a' b n
  proof (cases "avoids (regions s) ?o FOPEN_ALLOC_SIZE")
    case True
    then show ?thesis using avoidsD [OF True t] regions_size [OF t] by simp
  next
    case False
    then obtain q where q: "q \<in> set (fptrs s)" "fi_origStream (f_info s q) = ?o" using stream [OF nz] by blast
    from separateD(1,4) [OF sep reg [OF q(1)] t] show ?thesis using q nz regions_size [OF t] by auto
  qed
  have "separate (regions s')"
  proof (cases "?o = 0")
    case False
    have "separate (?F @ (?o, ?b, FOPEN_ALLOC_SIZE) # ?D)"
      by (rule separate_insert [OF sep [unfolded R]])
        (use stream [OF False, unfolded fresh_def] o [OF False] in \<open>simp_all only: R [symmetric], simp_all\<close>)
    then show ?thesis unfolding R' using False by simp
  qed (use sep in \<open>simp add: R' R\<close>)
  moreover have "case x of (fd, q) \<Rightarrow> fi_fd (f_info s' q) = fd" if "x \<in> set (f_filesMap s')" for x
    using that ok i ip unfolding fops_ok_def s'(1) by force
  ultimately have ok': "fops_ok s'" using ok p s' i ip stream assms(10) unfolding fops_ok_def fp by (auto simp: fresh_def simp del: case_prod_beta)
  have copy: "f_mem s' (fi_backupStream (f_info s' q) + j) = f_mem s (fi_backupStream (f_info s q) + j)"
    if "q \<in> set (fptrs s)" "fi_origStream (f_info s q) \<noteq> 0" "j < FOPEN_ALLOC_SIZE" for q j
    using keep [OF reg [OF that(1,2)] that(3)] i [OF that(1)] by simp
  have new: "f_mem s' (?b + j) = f_mem s (fi_backupStream (f_info s q) + j)"
    if q: "q \<in> set (fptrs s)" "fi_origStream (f_info s q) = ?o" "?o \<noteq> 0" and j: "j < FOPEN_ALLOC_SIZE" for q j
  proof -
    have "\<not> avoids (regions s) ?o FOPEN_ALLOC_SIZE"
      using avoidsD [OF _ reg [OF q(1)], of ?o FOPEN_ALLOC_SIZE] q(2,3) apart_nonempty [of FOPEN_ALLOC_SIZE ?o] by auto
    then obtain r where r: "r \<in> set (fptrs s)" "fi_origStream (f_info s r) = ?o" "fi_backupStream (f_info s r) = a" using stream q(3) by blast
    then have "same_bytes (f_mem s) a (f_mem s) (fi_backupStream (f_info s q)) FOPEN_ALLOC_SIZE"
      using files_agreeD(3) [OF fa r(1) q(1)] q(2,3) by simp
    then show ?thesis using stream [OF q(3)] j by (simp add: memcpy_def same_bytes_def)
  qed
  have pair: "(share (fi_fd (f_info s' q)) (fi_fd (f_info s' r)) \<longrightarrow> fi_pos (f_info s' q) = fi_pos (f_info s' r)) \<and>
      (fi_origStream (f_info s' q) \<noteq> 0 \<and> fi_origStream (f_info s' q) = fi_origStream (f_info s' r) \<longrightarrow>
        same_bytes (f_mem s') (fi_backupStream (f_info s' q)) (f_mem s') (fi_backupStream (f_info s' r)) FOPEN_ALLOC_SIZE)"
    if qr: "q \<in> set (fptrs s')" "r \<in> set (fptrs s')" for q r
  proof -
    consider "q \<in> set (fptrs s)" "r \<in> set (fptrs s)" | "q \<in> set (fptrs s)" "r = p" | "q = p" "r \<in> set (fptrs s)" | "q = p" "r = p"
      using qr unfolding fp by auto
    then show ?thesis
    proof cases
      case 1
      then show ?thesis using files_agreeD(2,3) [OF fa 1] copy [OF 1(1)] copy [OF 1(2)] i [OF 1(1)] i [OF 1(2)] by (auto simp: same_bytes_def)
    next
      case 2
      then show ?thesis using share [OF 2(1)] new [OF 2(1)] copy [OF 2(1)] i [OF 2(1)] ip by (auto simp: same_bytes_def)
    next
      case 3
      then show ?thesis using share [OF 3(2)] new [OF 3(2)] copy [OF 3(2)] i [OF 3(2)] ip by (auto simp: same_bytes_def)
    qed (simp add: same_bytes_def)
  qed
  have "files_agree share sk s'" unfolding files_agree_def
  proof (intro conjI ballI)
    show "sk (fi_fd (f_info s' q)) \<longrightarrow> 0 \<le> fi_pos (f_info s' q)" if "q \<in> set (fptrs s')" for q
      using that files_agreeD(1) [OF fa, of q] i [of q] ip pos unfolding fp by (auto simp del: set_map)
  qed (use pair in blast)+
  then show ?thesis by (rule epoch_extend [OF k ok']) (use i keep s'(2,4) fp in \<open>auto simp del: set_map\<close>)
qed

text \<open>What the three operations add.\<close>

lemma saveFd_adds:
  assumes "saveFd im fd file s = Ok s'" and f: "fresh_heap im s file FOPEN_ALLOC_SIZE" and fd: "fd \<noteq> - 1"
  obtains p i where "p \<notin> set (fptrs s)" "fi_fd i = fd" "fi_pos i = 0" "fi_origStream i = file"
    "f_filesMap s' = f_filesMap s @ [(fd, p)]" "f_dirsMap s' = f_dirsMap s" "f_info s' = (f_info s)(p := i)" "f_dinfo s' = f_dinfo s"
    "file \<noteq> 0 \<Longrightarrow> fresh s file FOPEN_ALLOC_SIZE (fi_backupStream i) FOPEN_ALLOC_SIZE \<and> f_mem s' = memcpy (f_mem s) (fi_backupStream i) file FOPEN_ALLOC_SIZE"
    "file = 0 \<Longrightarrow> fi_backupStream i = 0 \<and> f_mem s' = f_mem s"
proof -
  obtain t p h where h: "recordFileOps E_SYS_FILE_OPEN fd (f_sys s) = Ok t" "im FILE_INFO_SIZE (f_heap s) = Ok (p, h)"
    using assms(1) fd by (auto simp: saveFd_def rbind_Ok_iff Let_def)
  have p: "p \<notin> set (fptrs s)" using fresh_heapD(1) [OF f h(2)] by (simp add: fresh_def)
  show ?thesis
  proof (cases "file = 0")
    case True
    show ?thesis by (rule that [of p "f_info s' p"])
      (use assms(1) fd h p True in \<open>auto simp: saveFd_def Let_def set_info_def\<close>)
  next
    case False
    then obtain q h' where q: "im FOPEN_ALLOC_SIZE h = Ok (q, h')" using assms(1) fd h by (auto simp: saveFd_def rmap_Ok_iff Let_def set_info_def)
    show ?thesis by (rule that [of p "f_info s' p"])
      (use assms(1) fd h p q False fresh_heapD(2) [OF f h(2) q] in \<open>auto simp: saveFd_def Let_def set_info_def\<close>)
  qed
qed

lemma saveDupFd_adds:
  assumes "saveDupFd im oldfd newfd s = Ok s'" and f: "fresh_heap im s d k" and fd: "newfd \<noteq> - 1"
  obtains p i old where "map_of (f_filesMap s) oldfd = Some old" "p \<notin> set (fptrs s)" "fi_fd i = newfd" "fi_pos i = fi_pos (f_info s old)"
    "fi_origStream i = fi_origStream (f_info s old)"
    "f_filesMap s' = f_filesMap s @ [(newfd, p)]" "f_dirsMap s' = f_dirsMap s" "f_info s' = (f_info s)(p := i)" "f_dinfo s' = f_dinfo s"
    "fi_backupStream (f_info s old) \<noteq> 0 \<Longrightarrow> fresh s d k (fi_backupStream i) FOPEN_ALLOC_SIZE \<and>
      f_mem s' = memcpy (f_mem s) (fi_backupStream i) (fi_backupStream (f_info s old)) FOPEN_ALLOC_SIZE"
    "fi_backupStream (f_info s old) = 0 \<Longrightarrow> fi_backupStream i = 0 \<and> f_mem s' = f_mem s"
proof -
  obtain t old where o: "recordFileOps E_SYS_FILE_DUP newfd (f_sys s) = Ok t" "map_of (f_filesMap s) oldfd = Some old"
    using assms(1) fd by (auto simp: saveDupFd_def rbind_Ok_iff Let_def split: option.splits)
  then obtain p h where h: "im FILE_INFO_SIZE (f_heap s) = Ok (p, h)" using assms(1) fd by (auto simp: saveDupFd_def rbind_Ok_iff Let_def)
  have p: "p \<notin> set (fptrs s)" using fresh_heapD(1) [OF f h] by (simp add: fresh_def)
  have old: "old \<noteq> p" using p map_of_SomeD [OF o(2)] by force
  show ?thesis
  proof (cases "fi_backupStream (f_info s old) = 0")
    case True
    show ?thesis by (rule that [of old p "f_info s' p"])
      (use assms(1) fd o h p True in \<open>auto simp: saveDupFd_def Let_def set_info_def\<close>)
  next
    case False
    then obtain q h' where q: "im FOPEN_ALLOC_SIZE h = Ok (q, h')" using assms(1) fd o h by (auto simp: saveDupFd_def rmap_Ok_iff Let_def set_info_def)
    show ?thesis by (rule that [of old p "f_info s' p"])
      (use assms(1) fd o h p old q False fresh_heapD(2) [OF f h q] in \<open>auto simp: saveDupFd_def Let_def set_info_def\<close>)
  qed
qed

lemma saveDir_adds:
  assumes "saveDir im c dir s = Ok s'" and f: "fresh_heap im s dir DIROPEN_ALLOC_SIZE" and d: "dir \<noteq> 0"
  obtains p i where "p \<notin> set (dptrs s)" "di_dir i = dir" "di_isNew i" "fresh s dir DIROPEN_ALLOC_SIZE (di_backupDir i) DIROPEN_ALLOC_SIZE"
    "f_filesMap s' = f_filesMap s" "f_dirsMap s' = f_dirsMap s @ [(dir, p)]" "f_info s' = f_info s" "f_dinfo s' = (f_dinfo s)(p := i)"
    "f_mem s' = memcpy (f_mem s) (di_backupDir i) dir DIROPEN_ALLOC_SIZE"
proof -
  obtain t p h where h: "recordDirOps E_SYS_DIR_OPEN dir (f_sys s) = Ok t" "im DIR_INFO_SIZE (f_heap s) = Ok (p, h)"
    using assms(1) d by (auto simp: saveDir_def rbind_Ok_iff Let_def)
  have p: "p \<notin> set (dptrs s)" "p \<noteq> 0" using fresh_heapD(1) [OF f h(2)] by (simp_all add: fresh_def)
  obtain q h' where q: "im DIROPEN_ALLOC_SIZE h = Ok (q, h')" using assms(1) d h p by (auto simp: saveDir_def rmap_Ok_iff Let_def set_dinfo_def)
  show ?thesis by (rule that [of p "f_dinfo s' p"])
    (use assms(1) d h p q fresh_heapD(2) [OF f h(2) q] in \<open>auto simp: saveDir_def Let_def set_dinfo_def\<close>)
qed

lemma files_agree_bytes:
  assumes fa: "files_agree share sk s" and "f_filesMap s' = f_filesMap s" "f_info s' = f_info s"
    and m: "\<And>a b n j. (a, b, n) \<in> set (regions s) \<Longrightarrow> j < n \<Longrightarrow> f_mem s' (b + j) = f_mem s (b + j)"
  shows "files_agree share sk s'"
  unfolding files_agree_def assms(2,3)
proof (intro conjI ballI impI)
  have k: "f_mem s' (fi_backupStream (f_info s p) + j) = f_mem s (fi_backupStream (f_info s p) + j)"
    if "p \<in> set (fptrs s)" "fi_origStream (f_info s p) \<noteq> 0" "j < FOPEN_ALLOC_SIZE" for p j
    using that regions_files [of p s] by (intro m [where n = FOPEN_ALLOC_SIZE]) (auto simp: file_region_def simp del: set_map)
  show "same_bytes (f_mem s') (fi_backupStream (f_info s p)) (f_mem s') (fi_backupStream (f_info s q)) FOPEN_ALLOC_SIZE"
    if "p \<in> set (fptrs s)" "q \<in> set (fptrs s)" "fi_origStream (f_info s p) \<noteq> 0 \<and> fi_origStream (f_info s p) = fi_origStream (f_info s q)" for p q
    using files_agreeD(3) [OF fa that(1,2)] that(3) k [OF that(1)] k [OF that(2)] by (auto simp: same_bytes_def)
qed (use files_agreeD(1,2) [OF fa] in blast)+

lemma epoch_same_maps:
  assumes k: "epoch_kept share sk s0 s" and s': "f_filesMap s' = f_filesMap s" "f_dirsMap s' = f_dirsMap s" "f_info s' = f_info s" "f_dinfo s' = f_dinfo s"
    and m: "\<And>a b n j. (a, b, n) \<in> set (regions s) \<Longrightarrow> j < n \<Longrightarrow> f_mem s' (b + j) = f_mem s (b + j)"
  shows "epoch_kept share sk s0 s'"
proof (rule epoch_extend [OF k])
  have "file_region s' = file_region s" "dir_region s' = dir_region s" using s' by (simp_all add: file_region_def dir_region_def fun_eq_iff)
  then show "fops_ok s'" using k s' by (simp add: epoch_kept_def fops_ok_def regions_def)
  show "files_agree share sk s'" using k by (intro files_agree_bytes [OF _ s'(1,3) m]) (simp_all add: epoch_kept_def)
qed (use s' m in auto)

lemma add_dir:
  assumes k: "epoch_kept share sk s0 s" and p: "p \<notin> set (dptrs s)" and i: "di_dir i = dir" "di_isNew i" "dir \<noteq> 0"
    and f: "fresh s dir DIROPEN_ALLOC_SIZE (di_backupDir i) DIROPEN_ALLOC_SIZE" and a: "avoids (regions s) dir DIROPEN_ALLOC_SIZE"
    and s': "f_filesMap s' = f_filesMap s" "f_dirsMap s' = f_dirsMap s @ [(dir, p)]" "f_info s' = f_info s" "f_dinfo s' = (f_dinfo s)(p := i)"
      "f_mem s' = memcpy (f_mem s) (di_backupDir i) dir DIROPEN_ALLOC_SIZE"
  shows "epoch_kept share sk s0 s'"
proof -
  have ok: "fops_ok s" using k by (simp add: epoch_kept_def)
  have e: "f_dinfo s' q = f_dinfo s q" if "q \<in> set (dptrs s)" for q using that p s'(4) by auto
  have m: "f_mem s' (b + j) = f_mem s (b + j)" if t: "(a', b, n) \<in> set (regions s)" "j < n" for a' b n j
  proof -
    have "apart (di_backupDir i) DIROPEN_ALLOC_SIZE b n" using f avoidsD [OF _ t(1)] by (auto simp: fresh_def)
    then show ?thesis using t(2) unfolding s'(5) by (auto simp: apart_def memcpy_def)
  qed
  have "map (file_region s') (streamed s' (fptrs s')) = map (file_region s) (streamed s (fptrs s))" using s'(1,3) by (simp add: file_region_def)
  moreover have "map (dir_region s') (dptrs s) = map (dir_region s) (dptrs s)" by (rule map_cong) (use e in \<open>simp_all add: dir_region_def del: set_map\<close>)
  ultimately have R: "regions s' = regions s @ [(dir, di_backupDir i, DIROPEN_ALLOC_SIZE)]" by (simp add: regions_def s'(2,4) dir_region_def i(1))
  have "separate (regions s @ (dir, di_backupDir i, DIROPEN_ALLOC_SIZE) # [])"
    by (rule separate_insert) (use ok f avoidsD [OF a] regions_size [of _ _ _ s] in \<open>auto simp: fops_ok_def fresh_def\<close>)
  then have "fops_ok s'" unfolding fops_ok_def R using ok p s' e i f by (auto simp: fops_ok_def fresh_def)
  moreover have "files_agree share sk s'" using k by (intro files_agree_bytes [OF _ s'(1,3) m]) (simp_all add: epoch_kept_def)
  ultimately show ?thesis by (rule epoch_extend [OF k]) (use s' e m i in auto)
qed

lemma add_dup:
  assumes c: "calls_ok c share sk" and k: "epoch_kept share sk s0 s" and "saveDupFd im oldfd newfd s = Ok s'"
    and "fresh_heap im s (fi_origStream (f_info s (the (map_of (f_filesMap s) oldfd)))) FOPEN_ALLOC_SIZE"
    and fd: "newfd \<noteq> - 1" and share: "share newfd oldfd" and same: "\<forall>fd. share newfd fd = share oldfd fd \<and> share fd newfd = share fd oldfd"
  shows "epoch_kept share sk s0 s'"
proof -
  obtain p i old where d: "map_of (f_filesMap s) oldfd = Some old" "p \<notin> set (fptrs s)" "fi_fd i = newfd" "fi_pos i = fi_pos (f_info s old)"
  "fi_origStream i = fi_origStream (f_info s old)"
  "f_filesMap s' = f_filesMap s @ [(newfd, p)]" "f_dirsMap s' = f_dirsMap s" "f_info s' = (f_info s)(p := i)" "f_dinfo s' = f_dinfo s"
  "fi_backupStream (f_info s old) \<noteq> 0 \<Longrightarrow> fresh s (fi_origStream i) FOPEN_ALLOC_SIZE (fi_backupStream i) FOPEN_ALLOC_SIZE \<and>
    f_mem s' = memcpy (f_mem s) (fi_backupStream i) (fi_backupStream (f_info s old)) FOPEN_ALLOC_SIZE"
  "fi_backupStream (f_info s old) = 0 \<Longrightarrow> fi_backupStream i = 0 \<and> f_mem s' = f_mem s"
    by (rule saveDupFd_adds [OF assms(3,4) fd]) simp
  have fa: "files_agree share sk s" and ok: "fops_ok s" using k by (simp_all add: epoch_kept_def)
  have old: "old \<in> set (fptrs s)" "fi_fd (f_info s old) = oldfd" using map_of_SomeD [OF d(1)] fops_okD [OF ok] by force+
  have b: "fi_origStream (f_info s old) = 0 \<longleftrightarrow> fi_backupStream (f_info s old) = 0" using ok old(1) by (auto simp: fops_ok_def)
  show ?thesis
  proof (rule add_file [OF k d(2) _ d(7-9)])
    show "0 \<le> fi_pos i" if "sk (fi_fd i)" using that files_agreeD(1) [OF fa old(1)] calls_okD(6) [OF c share] old(2) d(3,4) by simp
    show "fi_pos (f_info s q) = fi_pos i" if q: "q \<in> set (fptrs s)" "share (fi_fd i) (fi_fd (f_info s q)) \<or> share (fi_fd (f_info s q)) (fi_fd i)" for q
    proof -
      have "share (fi_fd (f_info s old)) (fi_fd (f_info s q)) \<or> share (fi_fd (f_info s q)) (fi_fd (f_info s old))"
        using q(2) same unfolding d(3) old(2) by blast
      then show ?thesis using files_agreeD(2) [OF fa old(1) q(1)] files_agreeD(2) [OF fa q(1) old(1)] d(4) by auto
    qed
  qed (use d b old in auto)
qed

lemma epoch_step:
  assumes c: "calls_ok c share sk" and k: "epoch_kept share sk s0 s" and "file_step im c share s s'"
  shows "epoch_kept share sk s0 s'"
  using assms(3)
proof cases
  case (Run m h t k)
  then show ?thesis using assms(2) by (intro epoch_same_maps [OF assms(2)]) (auto simp: same_bytes_def)
next
  case (Open fd fl)
  show ?thesis
  proof (cases "fd = - 1")
    case True
    then show ?thesis using Open(1) by (intro epoch_same_maps [OF k]) (auto simp: saveFd_def rbind_Ok_iff Let_def)
  next
    case False
    show ?thesis
    proof (rule saveFd_adds [OF Open(1,2) False], goal_cases)
      case (1 p i)
      then show ?case using Open(3,4) by (intro add_file [OF k, where p = p and i = i and a = fl]) (auto simp del: set_map)
    qed
  qed
next
  case (Dup oldfd newfd)
  show ?thesis
  proof (cases "newfd = - 1")
    case True
    then show ?thesis using Dup(1) by (intro epoch_same_maps [OF k]) (auto simp: saveDupFd_def rbind_Ok_iff Let_def)
  next
    case False
    then show ?thesis using Dup(2-4) by (intro add_dup [OF c k Dup(1)]) simp_all
  qed
next
  case (OpenDir dir)
  show ?thesis
  proof (cases "dir = 0")
    case True
    then show ?thesis using OpenDir(1) by (intro epoch_same_maps [OF k]) (auto simp: saveDir_def rbind_Ok_iff Let_def)
  next
    case False
    show ?thesis
    proof (rule saveDir_adds [OF OpenDir(1,2) False], goal_cases)
      case (1 p i)
      then show ?case using OpenDir(3) False by (intro add_dir [OF k, of p i dir s']) (auto simp del: set_map)
    qed
  qed
next
  case (Close fd fp r)
  then show ?thesis by (intro epoch_same_maps [OF k]) (auto simp: closeFile_def rmap_Ok_iff Let_def split: if_splits option.splits)
next
  case (CloseDir dir r)
  then show ?thesis by (intro epoch_same_maps [OF k]) (auto simp: closeDir_def rmap_Ok_iff Let_def split: if_splits option.splits)
qed

subsection \<open>The rollback after an epoch\<close>

lemma epoch_start:
  assumes c: "calls_ok c share sk" and ok: "fops_ok s" and u: "updateOpenedFiles c s = Ok s1"
  shows "epoch_kept share sk s1 s1"
proof -
  have s1: "same_rest s s1" "\<And>p. p \<in> set (fptrs s) \<Longrightarrow> f_info s1 p = snap c (f_out s) (f_info s p)"
    "\<And>p. p \<in> set (dptrs s) \<Longrightarrow> f_dinfo s1 p = (f_dinfo s p)\<lparr>di_isNew := False, di_pos := c_telldir c (di_dir (f_dinfo s p)) (f_mem s) (f_out s)\<rparr>"
    "\<And>a b n. (a, b, n) \<in> set (regions s) \<Longrightarrow> same_bytes (f_mem s1) b (f_mem s) a n"
    using updateOpenedFiles_ok [OF ok c] u by fastforce+
  have m: "f_filesMap s1 = f_filesMap s" "f_dirsMap s1 = f_dirsMap s" using s1(1) by (simp_all add: same_rest_def)
  have "map (file_region s1) (streamed s1 (fptrs s)) = map (file_region s) (streamed s (fptrs s))"
  proof (rule map_cong)
    show "streamed s1 (fptrs s) = streamed s (fptrs s)" by (rule filter_cong) (use s1(2) in auto)
    show "file_region s1 q = file_region s q" if "q \<in> set (streamed s (fptrs s))" for q using that s1(2) by (simp add: file_region_def)
  qed
  moreover have "map (dir_region s1) (dptrs s) = map (dir_region s) (dptrs s)" by (rule map_cong) (use s1(3) in \<open>simp_all add: dir_region_def del: set_map\<close>)
  ultimately have R: "regions s1 = regions s" by (simp add: regions_def m)
  have "fops_ok s1" unfolding fops_ok_def R m
  proof (intro conjI ballI)
    show "case x of (fd, p) \<Rightarrow> fi_fd (f_info s1 p) = fd" if x: "x \<in> set (f_filesMap s)" for x
    proof -
      obtain fd p where "x = (fd, p)" by (cases x)
      then show ?thesis using x fops_okD [OF ok, of fd p] s1(2) [of p] by force
    qed
  qed (use ok s1(2,3) in \<open>simp_all add: fops_ok_def del: set_map\<close>)
  moreover have "files_agree share sk s1" unfolding files_agree_def m
  proof (intro conjI ballI impI)
    show "same_bytes (f_mem s1) (fi_backupStream (f_info s1 p)) (f_mem s1) (fi_backupStream (f_info s1 q)) FOPEN_ALLOC_SIZE"
      if "p \<in> set (fptrs s)" "q \<in> set (fptrs s)" "fi_origStream (f_info s1 p) \<noteq> 0 \<and> fi_origStream (f_info s1 p) = fi_origStream (f_info s1 q)" for p q
    proof -
      have "p \<in> set (streamed s (fptrs s))" "q \<in> set (streamed s (fptrs s))" using that s1(2) by (auto simp del: set_map)
      from this [THEN regions_files, unfolded file_region_def, THEN s1(4)] show ?thesis
        using that s1(2) by (auto simp: same_bytes_def)
    qed
  qed (use s1(2) calls_okD(2,3) [OF c] in \<open>auto simp del: set_map\<close>)
  ultimately show ?thesis using s1(3) by (auto simp: epoch_kept_def same_bytes_def)
qed

lemma rollback_positions:
  assumes c: "calls_ok c share sk" and fa: "files_agree share sk s" and p: "p \<in> set (old_files s)" "sk (fi_fd (f_info s p))"
    and t: "t = fold (\<lambda>x. restore_file c (snd x)) (f_filesMap s) s"
  shows "c_tell c (fi_fd (f_info s p)) (f_out t) = fi_pos (f_info s p)"
proof -
  let ?g = "\<lambda>p. (fi_fd (f_info s p), fi_pos (f_info s p))"
  have "f_out t = fold (\<lambda>(fd, v). c_seek c fd v) (map ?g (old_files s)) (f_out s)"
    unfolding restore_files_ok(6) [OF t] by (simp add: fold_map comp_def)
  also have "c_tell c (fi_fd (f_info s p)) \<dots> = fi_pos (f_info s p)"
    by (rule seeks_position [OF c])
      (use p files_agreeD(1) [OF fa] files_agreeD(2) [OF fa, of _ p] in \<open>auto simp del: set_map simp: image_iff set_map [of ?g]\<close>)
  finally show ?thesis .
qed

lemma rollback_streams:
  assumes ok: "fops_ok s" and fa: "files_agree share sk s" and p: "p \<in> set (old_files s)" "fi_origStream (f_info s p) \<noteq> 0"
    and t: "t = fold (\<lambda>x. restore_file c (snd x)) (f_filesMap s) s"
  shows "same_bytes (f_mem t) (fi_origStream (f_info s p)) (f_mem s) (fi_backupStream (f_info s p)) FOPEN_ALLOC_SIZE"
  unfolding same_bytes_def restore_files_ok(5) [OF t]
proof (intro allI impI, rule copies_get)
  let ?ts = "map (file_region s) (streamed s (old_files s))"
  have sep: "separate (regions s)" using ok by (simp add: fops_ok_def)
  have in_ts: "\<exists>q\<in>set (fptrs s). fi_origStream (f_info s q) \<noteq> 0 \<and> (d, b, n) = file_region s q" if "(d, b, n) \<in> set ?ts" for d b n
    using that by auto
  have reg: "(d, b, n) \<in> set (regions s)" if "(d, b, n) \<in> set ?ts" for d b n
    using in_ts [OF that] regions_files [of _ s] by (auto simp del: set_map)
  show p_in: "(fi_origStream (f_info s p), fi_backupStream (f_info s p), FOPEN_ALLOC_SIZE) \<in> set ?ts" using p by (auto simp: file_region_def)
  show "apart b n d' n'" if "(d, b, n) \<in> set ?ts" "(d', b', n') \<in> set ?ts" for d b n d' b' n'
    using separateD(1) [OF sep reg [OF that(2)] reg [OF that(1)]] by (rule apart_sym)
  show "d = fi_origStream (f_info s p) \<and> n = FOPEN_ALLOC_SIZE \<and> same_bytes (f_mem s) b (f_mem s) (fi_backupStream (f_info s p)) FOPEN_ALLOC_SIZE \<or>
      apart d n (fi_origStream (f_info s p)) FOPEN_ALLOC_SIZE" if t: "(d, b, n) \<in> set ?ts" for d b n
  proof (cases "apart d n (fi_origStream (f_info s p)) FOPEN_ALLOC_SIZE")
    case False
    then have e: "d = fi_origStream (f_info s p)" "n = FOPEN_ALLOC_SIZE" using separateD(4) [OF sep reg [OF t] reg [OF p_in] False] by simp_all
    obtain q where q: "q \<in> set (fptrs s)" "fi_origStream (f_info s q) \<noteq> 0" "(d, b, n) = file_region s q" using in_ts [OF t] by blast
    have "p \<in> set (fptrs s)" using p(1) by simp
    moreover have "fi_origStream (f_info s q) = d" "fi_backupStream (f_info s q) = b" using q(3) by (simp_all add: file_region_def)
    ultimately show ?thesis using files_agreeD(3) [OF fa q(1), of p] e q(2) by blast
  qed simp
qed

lemma rollback_ok:
  assumes c: "calls_ok c share sk" and k: "epoch_kept share sk s1 s2"
    and old: "\<And>p. p \<in> set (fptrs s1) \<Longrightarrow> \<not> fi_isNew (f_info s1 p)"
    and dold: "\<And>p. p \<in> set (dptrs s1) \<Longrightarrow> \<not> di_isNew (f_dinfo s1 p) \<and> di_pos (f_dinfo s1 p) = c_telldir c (di_dir (f_dinfo s1 p)) m0 k0"
  obtains s3 where "fops_prepareRollback c s2 = Ok s3"
    and "\<And>p. p \<in> set (fptrs s1) \<Longrightarrow> sk (fi_fd (f_info s1 p)) \<Longrightarrow> c_tell c (fi_fd (f_info s1 p)) (f_out s3) = fi_pos (f_info s1 p)"
    and "\<And>p. p \<in> set (fptrs s1) \<Longrightarrow> fi_origStream (f_info s1 p) \<noteq> 0 \<Longrightarrow>
      same_bytes (f_mem s3) (fi_origStream (f_info s1 p)) (f_mem s1) (fi_backupStream (f_info s1 p)) FOPEN_ALLOC_SIZE"
    and "\<And>p. p \<in> set (dptrs s1) \<Longrightarrow> c_telldir c (di_dir (f_dinfo s1 p)) (f_mem s3) (f_out s3) = di_pos (f_dinfo s1 p)"
proof -
  define t where "t = fold (\<lambda>x. restore_file c (snd x)) (f_filesMap s2) s2"
  note t = restore_files_ok [OF t_def]
  have ok: "fops_ok s2" and fa: "files_agree share sk s2" using k by (simp_all add: epoch_kept_def)
  have sep: "separate (regions s2)" using ok by (simp add: fops_ok_def)
  have f: "p \<in> set (fptrs s2)" "f_info s2 p = f_info s1 p" "p \<in> set (old_files s2)" if "p \<in> set (fptrs s1)" for p
    using that k old [OF that] unfolding epoch_kept_def by auto
  have d: "p \<in> set (dptrs s2)" "f_dinfo s2 p = f_dinfo s1 p" if "p \<in> set (dptrs s1)" for p using that k unfolding epoch_kept_def by auto
  have nz: "di_dir (f_dinfo t p) \<noteq> 0 \<and> di_backupDir (f_dinfo t p) \<noteq> 0" if "p \<in> set (dptrs s2)" for p
    using that ok unfolding fops_ok_def t(2) by blast
  obtain s3 where s3: "restore_dirs c (f_dirsMap s2) t = Ok s3" "\<And>fd. c_tell c fd (f_out s3) = c_tell c fd (f_out t)"
      "\<And>x. (\<And>p. p \<in> set (dptrs s2) \<Longrightarrow> \<not> in_range (di_dir (f_dinfo t p)) DIROPEN_ALLOC_SIZE x) \<Longrightarrow> f_mem s3 x = f_mem t x"
    using restore_dirs_ok [OF c nz] by blast
  show ?thesis
  proof (rule that)
    show "fops_prepareRollback c s2 = Ok s3" using s3(1) t(4) by (simp add: fops_prepareRollback_def flip: t_def)
    show "c_tell c (fi_fd (f_info s1 p)) (f_out s3) = fi_pos (f_info s1 p)" if "p \<in> set (fptrs s1)" "sk (fi_fd (f_info s1 p))" for p
      using rollback_positions [OF c fa f(3) [OF that(1)] _ t_def] that(2) s3(2) f(2) [OF that(1)] by simp
    show "same_bytes (f_mem s3) (fi_origStream (f_info s1 p)) (f_mem s1) (fi_backupStream (f_info s1 p)) FOPEN_ALLOC_SIZE"
      if p: "p \<in> set (fptrs s1)" "fi_origStream (f_info s1 p) \<noteq> 0" for p
    proof -
      let ?a = "fi_origStream (f_info s1 p)" and ?b = "fi_backupStream (f_info s1 p)"
      have r: "(?a, ?b, FOPEN_ALLOC_SIZE) \<in> set (regions s1)" using p regions_files [of p s1] by (simp add: file_region_def)
      have "f_mem s3 (?a + j) = f_mem t (?a + j)" if "j < FOPEN_ALLOC_SIZE" for j
      proof (rule s3(3))
        fix q assume "q \<in> set (dptrs s2)"
        from separateD(4) [OF sep subsetD [OF regions_kept [OF k] r] regions_dirs [OF this, unfolded dir_region_def]]
        have "apart ?a FOPEN_ALLOC_SIZE (di_dir (f_dinfo s2 q)) DIROPEN_ALLOC_SIZE" by auto
        then show "\<not> in_range (di_dir (f_dinfo t q)) DIROPEN_ALLOC_SIZE (?a + j)" using \<open>j < FOPEN_ALLOC_SIZE\<close> unfolding t(2) by (auto simp: apart_def)
      qed
      then show ?thesis using rollback_streams [OF ok fa f(3) [OF p(1)] _ t_def] p(2) f(2) [OF p(1)] epoch_bytes [OF k r] by (simp add: same_bytes_def)
    qed
    show "c_telldir c (di_dir (f_dinfo s1 p)) (f_mem s3) (f_out s3) = di_pos (f_dinfo s1 p)" if p: "p \<in> set (dptrs s1)" for p
    proof (rule restore_dirs_position [OF c s3(1) d(1) [OF p]])
      show "di_pos (f_dinfo s1 p) = c_telldir c (di_dir (f_dinfo s1 p)) m0 k0" "\<not> di_isNew (f_dinfo t p)" "di_dir (f_dinfo t p) = di_dir (f_dinfo s1 p)"
        using dold [OF p] d(2) [OF p] t(2) by simp_all
      fix q assume q: "q \<in> set (dptrs s2)"
      show "di_dir (f_dinfo t q) \<noteq> 0 \<and> di_backupDir (f_dinfo t q) \<noteq> 0" by (rule nz [OF q])
      assume "\<not> di_isNew (f_dinfo t q)"
      then have q1: "q \<in> set (dptrs s1)" using k q unfolding epoch_kept_def t(2) by blast
      show "di_dir (f_dinfo t q) = di_dir (f_dinfo s1 p) \<and> di_pos (f_dinfo t q) = di_pos (f_dinfo s1 p) \<or>
          apart (di_dir (f_dinfo t q)) DIROPEN_ALLOC_SIZE (di_dir (f_dinfo s1 p)) DIROPEN_ALLOC_SIZE"
        using separateD(4) [OF sep regions_dirs [OF q, unfolded dir_region_def] regions_dirs [OF d(1) [OF p], unfolded dir_region_def]]
          dold [OF p] dold [OF q1] d(2) [OF p] d(2) [OF q1] t(2) by auto
    qed
  qed
qed


text \<open>
  A kernel that keeps a position for every descriptor, and directory streams that keep theirs in their
  first byte. One stream (descriptor 5) and one directory are open.
\<close>

definition demo_calls :: "(int \<Rightarrow> nat) calls" where
  "demo_calls = \<lparr>c_tell = (\<lambda>fd k. int (k fd)), c_seek = (\<lambda>fd v k. k(fd := nat v)), c_telldir = (\<lambda>d m k. uint (m d)),
     c_seekdir = (\<lambda>d v m k. (m(d := word_of_int v), k)), c_rewinddir = (\<lambda>d m k. (m(d := 0), k)), c_close = (\<lambda>fd k. k),
     c_fclose = (\<lambda>f m k. (m, k)), c_closedir = (\<lambda>d m k. (m, k)), c_malloc = (\<lambda>n k. (0, k))\<rparr>"

definition demo_files :: "(u64, int \<Rightarrow> nat) fops" where
  "demo_files = \<lparr>f_filesMap = [(5, 256)], f_dirsMap = [(65536, 512)],
     f_info = (\<lambda>_. \<lparr>fi_fd = 5, fi_pos = 0, fi_backupStream = 8192, fi_origStream = 4096, fi_isNew = True\<rparr>),
     f_dinfo = (\<lambda>_. \<lparr>di_pos = 0, di_backupDir = 131072, di_dir = 65536, di_isNew = True\<rparr>),
     f_sys = demo_systhread, f_mem = (\<lambda>x. if x = 4096 then 17 else if x = 65536 then 3 else 0), f_heap = 0, f_out = (\<lambda>_. 40)\<rparr>"

lemma demo_calls_ok: "calls_ok demo_calls (=) (\<lambda>_. True)"
proof -
  have "in_range d DIROPEN_ALLOC_SIZE d" for d by (simp add: in_range_def)
  then show ?thesis by (auto simp: calls_ok_def demo_calls_def)
qed

lemma demo_files_ok: "fops_ok demo_files"
proof -
  note ap = apartI [THEN conjunct1] apartI [THEN conjunct2]
  have "apart 4096 568 8192 568" "apart 4096 568 131072 32816" "apart 8192 568 131072 32816" "apart 4096 568 65536 32816"
    "apart 65536 32816 8192 568" "apart 65536 32816 131072 32816" "apart 131072 32816 8192 568" "apart 65536 32816 4096 568"
    by (rule ap(1); simp; fail | rule ap(2); simp; fail)+
  then show ?thesis by (simp add: fops_ok_def separate_def regions_def file_region_def dir_region_def demo_files_def)
qed


end
