(* ===== verification/File_Close.thy ===== *)
theory File_Close
  imports File_Ops
begin

text \<open>
  The closes of an epoch (\<open>closeFile\<close>, \<open>closeDir\<close> and \<open>cleanClosedFiles\<close> of \<open>include/fops.hh\<close>). A close is
  only recorded, in the order of the calls; at the end of the epoch \<open>cleanClosedFiles\<close> takes the records
  from their lists and performs them.
\<close>

section \<open>Taking the records from the two lists\<close>

text \<open>Two lists of records without a common node; \<open>js\<close> and \<open>ks\<close> are the indices of their entries.\<close>

definition two_chains :: "eRecordSyscall \<Rightarrow> nat list \<Rightarrow> eRecordSyscall \<Rightarrow> nat list \<Rightarrow> systhread \<Rightarrow> bool" where
  "two_chains sc js sc' ks t \<longleftrightarrow> sc \<in> chained \<and> sc' \<in> chained \<and> re_ok SYS_ENTRY_SIZE (ts_syscalls t) \<and>
     (\<forall>j\<in>set js \<union> set ks. j < unat (re_cur (ts_syscalls t))) \<and>
     is_list (ts_nodes t) (getTargetList sc t) (map (entry_node (ts_syscalls t)) js) \<and>
     is_list (ts_nodes t) (getTargetList sc' t) (map (entry_node (ts_syscalls t)) ks) \<and>
     set (getTargetList sc t # map (entry_node (ts_syscalls t)) js) \<inter> set (getTargetList sc' t # map (entry_node (ts_syscalls t)) ks) = {}"

abbreviation event :: "systhread \<Rightarrow> nat \<Rightarrow> SyscallEntry" where
  "event t j \<equiv> re_events SYS_ENTRY_SIZE (ts_syscalls t) ! j"

lemma two_chains_sym: "two_chains sc js sc' ks t \<Longrightarrow> two_chains sc' ks sc js t"
  by (auto simp: two_chains_def)

lemma retrieveListEntry_Nil: "two_chains sc [] sc' ks t \<Longrightarrow> retrieveListEntry sc t = Ok (0, t)"
  using lq.deq_Nil [of "ts_nodes t" "getTargetList sc t"] by (auto simp: two_chains_def retrieveListEntry_def chained_def)

lemma retrieveListEntry_Cons:
  assumes "two_chains sc (j # js) sc' ks t"
  obtains h p where "retrieveListEntry sc t = Ok (p, t\<lparr>ts_nodes := h\<rparr>)" "p \<noteq> 0" "entry_of p (t\<lparr>ts_nodes := h\<rparr>) = event t j"
    "two_chains sc js sc' ks (t\<lparr>ts_nodes := h\<rparr>)"
proof -
  let ?r = "ts_syscalls t"
  let ?n = "map (entry_node ?r)" and ?x = "getTargetList sc t" and ?y = "getTargetList sc' t"
  have a: "sc \<in> chained" "sc' \<in> chained" "re_ok SYS_ENTRY_SIZE ?r" "j < unat (re_cur ?r)"
    "is_list (ts_nodes t) ?x (entry_node ?r j # ?n js)" "is_list (ts_nodes t) ?y (?n ks)"
    "set (?x # entry_node ?r j # ?n js) \<inter> set (?y # ?n ks) = {}" using assms by (auto simp: two_chains_def)
  define h where "h = snd (listRetrieveItem ?x (ts_nodes t))"
  have h: "listRetrieveItem ?x (ts_nodes t) = (entry_node ?r j, h)" "is_list h ?x (?n js)"
    using listRetrieveItem_Cons [OF a(5)] by (simp_all add: h_def prod_eq_iff)
  have "h = listRemoveNode (entry_node ?r j) (ts_nodes t)"
    using a(5) is_list_ends(1) [OF a(5)] by (simp add: h_def listRetrieveItem_def isListEmpty_iff Let_def)
  then have "is_list h ?y (?n ks)" using is_list_frame [of _ _ "[]", OF _ a(6)] a(5,7) by simp
  then have "two_chains sc js sc' ks (t\<lparr>ts_nodes := h\<rparr>)" using assms h(2) by (auto simp: two_chains_def getTargetList_def)
  moreover have "retrieveListEntry sc t = Ok (entry_node ?r j, t\<lparr>ts_nodes := h\<rparr>)" using h(1) a(1) by (auto simp: retrieveListEntry_def chained_def)
  moreover have "entry_of (entry_node ?r j) (t\<lparr>ts_nodes := h\<rparr>) = event t j" using a(4) by (simp add: entry_of_def re_events_def)
  moreover have "entry_node ?r j \<noteq> 0"
  proof (rule sys_entry_pointer [OF a(3)])
    have "re_cur ?r \<le> re_total ?r" using a(3) by (simp add: re_ok_def)
    moreover have "(of_nat j :: u64) < re_cur ?r" using a(4) unat_u64_less [of "re_cur ?r"] by (simp add: word_less_nat_alt unat_of_nat)
    ultimately show "of_nat j < re_total ?r" by simp
  qed
  ultimately show ?thesis using that by blast
qed

lemma sys_inv_two_chains:
  assumes inv: "sys_inv t"
  shows "two_chains E_SYS_FILE_CLOSE (chain E_SYS_FILE_CLOSE (ts_syscalls t)) E_SYS_DIR_CLOSE (chain E_SYS_DIR_CLOSE (ts_syscalls t)) t"
  using chains_disjoint [OF inv, of E_SYS_FILE_CLOSE E_SYS_DIR_CLOSE] inv chain_bound
  by (auto simp: two_chains_def sys_inv_def chained_def simp del: list.set set_map)

section \<open>The files\<close>

lemma map_of_filter_keys: "map_of (filter (\<lambda>x. fst x \<notin> A) xs) k = (if k \<in> A then None else map_of xs k)"
  by (induction xs) auto

lemma erase_key_filter: "distinct (map fst xs) \<Longrightarrow> erase_key k xs = filter (\<lambda>x. fst x \<noteq> k) xs"
proof (induction xs)
  case (Cons x xs)
  have "filter (\<lambda>y. fst y \<noteq> k) xs = xs" if "k = fst x" using that Cons.prems by (simp add: filter_id_conv) (metis image_eqI)
  with Cons show ?case by (auto simp: erase_key_def)
qed (simp add: erase_key_def)

text \<open>What closing a descriptor means for the outside: \<open>fclose\<close> for a stream, \<open>close\<close> otherwise.\<close>

definition real_close :: "'k calls \<Rightarrow> ('h, 'k) fops \<Rightarrow> int \<Rightarrow> mem \<times> 'k \<Rightarrow> mem \<times> 'k" where
  "real_close c s fd mk =
     (let file = fi_origStream (f_info s (the (map_of (f_filesMap s) fd)))
      in if file \<noteq> 0 then c_fclose c file (fst mk) (snd mk) else (fst mk, c_close c fd (snd mk)))"

text \<open>The entries of the maps, and a heap that takes back what it is given.\<close>

definition entries_ok :: "('h, 'k) fops \<Rightarrow> bool" where
  "entries_ok s \<longleftrightarrow> distinct (map fst (f_filesMap s)) \<and> distinct (map fst (f_dirsMap s)) \<and>
     (\<forall>(fd, p)\<in>set (f_filesMap s). p \<noteq> 0 \<and> (fi_origStream (f_info s p) \<noteq> 0 \<longrightarrow> fi_backupStream (f_info s p) \<noteq> 0)) \<and>
     (\<forall>(dir, p)\<in>set (f_dirsMap s). di_dir (f_dinfo s p) = dir)"

definition heap_frees :: "'h fr_fun \<Rightarrow> bool" where
  "heap_frees fr \<longleftrightarrow> (\<forall>p h. \<exists>h'. fr p h = Ok h')"

lemma clean_file_ok:
  assumes e: "entries_ok s" and fr: "heap_frees fr" and fd: "fd \<in> fst ` set (f_filesMap s)"
  obtains s' where "clean_file fr c fd s = Ok s'" "f_filesMap s' = filter (\<lambda>x. fst x \<noteq> fd) (f_filesMap s)" "f_dirsMap s' = f_dirsMap s"
    "f_info s' = f_info s" "f_dinfo s' = f_dinfo s" "f_sys s' = f_sys s" "(f_mem s', f_out s') = real_close c s fd (f_mem s, f_out s)"
proof -
  obtain p where p: "map_of (f_filesMap s) fd = Some p" using fd by (metis map_of_eq_None_iff not_None_eq)
  then have q: "p \<noteq> 0" "fi_origStream (f_info s p) \<noteq> 0 \<Longrightarrow> fi_backupStream (f_info s p) \<noteq> 0" "distinct (map fst (f_filesMap s))"
    using e map_of_SomeD [OF p] by (auto simp: entries_ok_def)
  obtain g where g: "\<And>p h. fr p h = Ok (g p h)" using fr unfolding heap_frees_def by metis
  obtain s' where s': "clean_file fr c fd s = Ok s'" using p q g by (cases "fi_origStream (f_info s p) = 0") (simp_all add: clean_file_def Let_def set_out_def)
  show ?thesis
    by (rule that [OF s'])
      (use s' p q g erase_key_filter [OF q(3), of fd] in \<open>auto simp: clean_file_def Let_def set_out_def real_close_def split: if_splits\<close>)
qed

lemma clean_dir_ok:
  assumes e: "entries_ok s" and fr: "heap_frees fr" and d: "dir \<in> fst ` set (f_dirsMap s)"
  obtains s' where "clean_dir fr c dir s = Ok s'" "f_dirsMap s' = filter (\<lambda>x. fst x \<noteq> dir) (f_dirsMap s)" "f_filesMap s' = f_filesMap s"
    "f_info s' = f_info s" "f_dinfo s' = f_dinfo s" "f_sys s' = f_sys s" "(f_mem s', f_out s') = c_closedir c dir (f_mem s) (f_out s)"
proof -
  obtain p where p: "map_of (f_dirsMap s) dir = Some p" using d by (metis map_of_eq_None_iff not_None_eq)
  then have q: "di_dir (f_dinfo s p) = dir" "distinct (map fst (f_dirsMap s))" using e map_of_SomeD [OF p] by (auto simp: entries_ok_def)
  obtain g where g: "\<And>p h. fr p h = Ok (g p h)" using fr unfolding heap_frees_def by metis
  obtain s' where s': "clean_dir fr c dir s = Ok s'" using p q g by (simp add: clean_dir_def Let_def set_out_def)
  show ?thesis
    by (rule that [OF s']) (use s' p q g erase_key_filter [OF q(2), of dir] in \<open>auto simp: clean_dir_def Let_def set_out_def\<close>)
qed

lemma entries_ok_filter:
  assumes "entries_ok s" and "f_filesMap s' = filter P (f_filesMap s)" and "f_dirsMap s' = filter Q (f_dirsMap s)" and "f_info s' = f_info s" and "f_dinfo s' = f_dinfo s"
  shows "entries_ok s'"
  using assms unfolding entries_ok_def by (auto simp: distinct_map_filter)

lemma real_close_filter:
  "f_filesMap s' = filter (\<lambda>x. fst x \<notin> A) (f_filesMap s) \<Longrightarrow> f_info s' = f_info s \<Longrightarrow> fd \<notin> A \<Longrightarrow> real_close c s' fd = real_close c s fd"
  by (simp add: real_close_def map_of_filter_keys fun_eq_iff)

lemma clean_files_ok:
  assumes "two_chains E_SYS_FILE_CLOSE js E_SYS_DIR_CLOSE ks (f_sys s)" and "entries_ok s" and fr: "heap_frees fr"
    and "fds = map (\<lambda>j. file_fd (event (f_sys s) j)) js" and "distinct fds" and "set fds \<subseteq> fst ` set (f_filesMap s) - {- 1}"
  shows "\<exists>s'. clean_files fr c fd s = Some (Ok s') \<and> f_filesMap s' = filter (\<lambda>x. fst x \<notin> set fds) (f_filesMap s) \<and> f_dirsMap s' = f_dirsMap s \<and>
    f_info s' = f_info s \<and> f_dinfo s' = f_dinfo s \<and> (f_mem s', f_out s') = fold (real_close c s) fds (f_mem s, f_out s) \<and>
    two_chains E_SYS_FILE_CLOSE [] E_SYS_DIR_CLOSE ks (f_sys s') \<and> ts_syscalls (f_sys s') = ts_syscalls (f_sys s)"
  using assms(1,2,4-6)
proof (induction js arbitrary: s fd fds)
  case Nil
  have "retrieveFCloseList fd (f_sys s) = Ok (False, fd, f_sys s)" using retrieveListEntry_Nil [OF Nil.prems(1)] by (simp add: retrieveFCloseList_def)
  then show ?case using Nil.prems by (intro exI [of _ s]) (simp add: clean_files.simps)
next
  case (Cons j js)
  let ?fd = "file_fd (event (f_sys s) j)" and ?fds = "map (\<lambda>j. file_fd (event (f_sys s) j)) js"
  obtain h p where h: "retrieveListEntry E_SYS_FILE_CLOSE (f_sys s) = Ok (p, (f_sys s)\<lparr>ts_nodes := h\<rparr>)" "p \<noteq> 0"
      "entry_of p ((f_sys s)\<lparr>ts_nodes := h\<rparr>) = event (f_sys s) j" "two_chains E_SYS_FILE_CLOSE js E_SYS_DIR_CLOSE ks ((f_sys s)\<lparr>ts_nodes := h\<rparr>)"
    by (rule retrieveListEntry_Cons [OF Cons.prems(1)])
  define t where "t = s\<lparr>f_sys := (f_sys s)\<lparr>ts_nodes := h\<rparr>\<rparr>"
  have fds: "fds = ?fd # ?fds" and "?fd \<in> fst ` set (f_filesMap s)" "?fd \<noteq> - 1" "?fd \<notin> set ?fds" using Cons.prems(3-5) by auto
  have "entries_ok t" by (rule entries_ok_filter [OF Cons.prems(2), of _ "\<lambda>_. True" "\<lambda>_. True"]) (simp_all add: t_def)
  moreover have "?fd \<in> fst ` set (f_filesMap t)" using \<open>?fd \<in> fst ` set (f_filesMap s)\<close> by (simp add: t_def)
  ultimately obtain u where u: "clean_file fr c ?fd t = Ok u" "f_filesMap u = filter (\<lambda>x. fst x \<noteq> ?fd) (f_filesMap t)" "f_dirsMap u = f_dirsMap t"
    "f_info u = f_info t" "f_dinfo u = f_dinfo t" "f_sys u = f_sys t" "(f_mem u, f_out u) = real_close c t ?fd (f_mem t, f_out t)"
    using clean_file_ok [OF _ fr] by metis
  have step: "clean_files fr c fd s = clean_files fr c ?fd u"
    using h(1-3) u(1) \<open>?fd \<noteq> - 1\<close> by (subst clean_files.simps) (simp add: retrieveFCloseList_def t_def)
  have "entries_ok u" by (rule entries_ok_filter [OF \<open>entries_ok t\<close> u(2), of "\<lambda>_. True"]) (use u in simp_all)
  moreover have "set ?fds \<subseteq> fst ` set (f_filesMap u) - {- 1}"
  proof
    fix x assume x: "x \<in> set ?fds"
    then have "x \<in> fst ` set (f_filesMap s) - {- 1}" by (intro subsetD [OF Cons.prems(5)]) (simp add: Cons.prems(3))
    moreover have "x \<noteq> ?fd" using x \<open>?fd \<notin> set ?fds\<close> by blast
    ultimately show "x \<in> fst ` set (f_filesMap u) - {- 1}" unfolding u(2) by (auto simp: t_def)
  qed
  ultimately obtain s' where s': "clean_files fr c ?fd u = Some (Ok s')" "f_filesMap s' = filter (\<lambda>x. fst x \<notin> set ?fds) (f_filesMap u)" "f_dirsMap s' = f_dirsMap u"
    "f_info s' = f_info u" "f_dinfo s' = f_dinfo u" "(f_mem s', f_out s') = fold (real_close c u) ?fds (f_mem u, f_out u)"
    "two_chains E_SYS_FILE_CLOSE [] E_SYS_DIR_CLOSE ks (f_sys s')" "ts_syscalls (f_sys s') = ts_syscalls (f_sys u)"
    using Cons.IH [of u ?fds ?fd] Cons.prems(4) h(4) u(6) unfolding fds by (auto simp: t_def)
  have "real_close c u x = real_close c s x" if "x \<in> set ?fds" for x
  proof -
    have "x \<noteq> ?fd" using that \<open>?fd \<notin> set ?fds\<close> by blast
    then show ?thesis using real_close_filter [of u "{?fd}" s x c] u(2,4) by (simp add: t_def)
  qed
  then have "fold (real_close c u) ?fds mk = fold (real_close c s) ?fds mk" for mk by (intro fold_cong) (simp_all del: set_map)
  moreover have "real_close c t ?fd = real_close c s ?fd" by (simp add: real_close_def t_def fun_eq_iff)
  ultimately have "(f_mem s', f_out s') = fold (real_close c s) fds (f_mem s, f_out s)" using s'(6) u(7) unfolding fds by (simp add: t_def)
  then show ?case using step s'(1-5,7,8) u(2-6) unfolding fds by (auto simp: t_def intro!: exI [of _ s'] filter_cong)
qed

lemma clean_dirs_ok:
  assumes "two_chains E_SYS_DIR_CLOSE ks E_SYS_FILE_CLOSE js (f_sys s)" and "entries_ok s" and fr: "heap_frees fr"
    and "ds = map (\<lambda>j. dir_dir (event (f_sys s) j)) ks" and "distinct ds" and "set ds \<subseteq> fst ` set (f_dirsMap s) - {0}"
  shows "\<exists>s'. clean_dirs fr c dir s = Some (Ok s') \<and> f_dirsMap s' = filter (\<lambda>x. fst x \<notin> set ds) (f_dirsMap s) \<and> f_filesMap s' = f_filesMap s \<and>
    f_info s' = f_info s \<and> f_dinfo s' = f_dinfo s \<and> (f_mem s', f_out s') = fold (\<lambda>d (m, k). c_closedir c d m k) ds (f_mem s, f_out s) \<and>
    two_chains E_SYS_DIR_CLOSE [] E_SYS_FILE_CLOSE js (f_sys s')"
  using assms(1,2,4-6)
proof (induction ks arbitrary: s dir ds)
  case Nil
  have "retrieveDIRCloseList dir (f_sys s) = Ok (False, dir, f_sys s)" using retrieveListEntry_Nil [OF Nil.prems(1)] by (simp add: retrieveDIRCloseList_def)
  then show ?case using Nil.prems by (intro exI [of _ s]) (simp add: clean_dirs.simps)
next
  case (Cons j ks)
  let ?d = "dir_dir (event (f_sys s) j)" and ?ds = "map (\<lambda>j. dir_dir (event (f_sys s) j)) ks"
  obtain h p where h: "retrieveListEntry E_SYS_DIR_CLOSE (f_sys s) = Ok (p, (f_sys s)\<lparr>ts_nodes := h\<rparr>)" "p \<noteq> 0"
      "entry_of p ((f_sys s)\<lparr>ts_nodes := h\<rparr>) = event (f_sys s) j" "two_chains E_SYS_DIR_CLOSE ks E_SYS_FILE_CLOSE js ((f_sys s)\<lparr>ts_nodes := h\<rparr>)"
    by (rule retrieveListEntry_Cons [OF Cons.prems(1)])
  define t where "t = s\<lparr>f_sys := (f_sys s)\<lparr>ts_nodes := h\<rparr>\<rparr>"
  have ds: "ds = ?d # ?ds" and "?d \<in> fst ` set (f_dirsMap s)" "?d \<noteq> 0" "?d \<notin> set ?ds" using Cons.prems(3-5) by auto
  have "entries_ok t" by (rule entries_ok_filter [OF Cons.prems(2), of _ "\<lambda>_. True" "\<lambda>_. True"]) (simp_all add: t_def)
  moreover have "?d \<in> fst ` set (f_dirsMap t)" using \<open>?d \<in> fst ` set (f_dirsMap s)\<close> by (simp add: t_def)
  ultimately obtain u where u: "clean_dir fr c ?d t = Ok u" "f_dirsMap u = filter (\<lambda>x. fst x \<noteq> ?d) (f_dirsMap t)" "f_filesMap u = f_filesMap t"
    "f_info u = f_info t" "f_dinfo u = f_dinfo t" "f_sys u = f_sys t" "(f_mem u, f_out u) = c_closedir c ?d (f_mem t) (f_out t)"
    using clean_dir_ok [OF _ fr] by metis
  have step: "clean_dirs fr c dir s = clean_dirs fr c ?d u"
    using h(1-3) u(1) \<open>?d \<noteq> 0\<close> by (subst clean_dirs.simps) (simp add: retrieveDIRCloseList_def t_def)
  have "entries_ok u" by (rule entries_ok_filter [OF \<open>entries_ok t\<close> _ u(2), of "\<lambda>_. True"]) (use u in simp_all)
  moreover have "set ?ds \<subseteq> fst ` set (f_dirsMap u) - {0}"
  proof
    fix x assume x: "x \<in> set ?ds"
    then have "x \<in> fst ` set (f_dirsMap s) - {0}" by (intro subsetD [OF Cons.prems(5)]) (simp add: Cons.prems(3))
    moreover have "x \<noteq> ?d" using x \<open>?d \<notin> set ?ds\<close> by blast
    ultimately show "x \<in> fst ` set (f_dirsMap u) - {0}" unfolding u(2) by (auto simp: t_def)
  qed
  ultimately obtain s' where s': "clean_dirs fr c ?d u = Some (Ok s')" "f_dirsMap s' = filter (\<lambda>x. fst x \<notin> set ?ds) (f_dirsMap u)" "f_filesMap s' = f_filesMap u"
    "f_info s' = f_info u" "f_dinfo s' = f_dinfo u" "(f_mem s', f_out s') = fold (\<lambda>d (m, k). c_closedir c d m k) ?ds (f_mem u, f_out u)"
    "two_chains E_SYS_DIR_CLOSE [] E_SYS_FILE_CLOSE js (f_sys s')"
    using Cons.IH [of u ?ds ?d] Cons.prems(4) h(4) u(6) unfolding ds by (auto simp: t_def)
  have "(f_mem s', f_out s') = fold (\<lambda>d (m, k). c_closedir c d m k) ds (f_mem s, f_out s)" using s'(6) u(7) unfolding ds by (simp add: t_def)
  then show ?case using step s'(1-5,7) u(2-6) unfolding ds by (auto simp: t_def intro!: exI [of _ s'] filter_cong)
qed

section \<open>Properties\<close>

definition closed_fds :: "systhread \<Rightarrow> int list" where
  "closed_fds t = map (\<lambda>j. file_fd (event t j)) (chain E_SYS_FILE_CLOSE (ts_syscalls t))"

definition closed_dirs :: "systhread \<Rightarrow> u64 list" where
  "closed_dirs t = map (\<lambda>j. dir_dir (event t j)) (chain E_SYS_DIR_CLOSE (ts_syscalls t))"


lemma chain_append:
  assumes "re_events SYS_ENTRY_SIZE r' = re_events SYS_ENTRY_SIZE r @ [e]"
  shows "map (\<lambda>j. f (re_events SYS_ENTRY_SIZE r' ! j)) (chain sc r') =
    map (\<lambda>j. f (re_events SYS_ENTRY_SIZE r ! j)) (chain sc r) @ (if sc_syscall e = sc then [f e] else [])"
proof -
  let ?n = "unat (re_cur r)"
  have n: "unat (re_cur r') = Suc ?n" using arg_cong [OF assms, of length] by simp
  have nth: "re_events SYS_ENTRY_SIZE r' ! j = re_events SYS_ENTRY_SIZE r ! j" if "j < ?n" for j using that assms by (simp add: nth_append)
  have "[i \<leftarrow> [0..<?n]. sc_syscall (re_events SYS_ENTRY_SIZE r' ! i) = sc] = chain sc r" unfolding chain_def by (rule filter_cong) (use nth in auto)
  moreover have "re_events SYS_ENTRY_SIZE r' ! ?n = e" using assms nth_append_length [of "re_events SYS_ENTRY_SIZE r" e "[]"] by simp
  ultimately have "chain sc r' = chain sc r @ (if sc_syscall e = sc then [?n] else [])" "re_events SYS_ENTRY_SIZE r' ! ?n = e" by (simp_all add: chain_def n)
  moreover have "j < ?n" if "j \<in> set (chain sc r)" for j using chain_bound [OF that] by simp
  ultimately show ?thesis using nth by simp
qed

text \<open>A close is recorded and nothing else happens.\<close>

lemma closeFile_records:
  assumes inv: "sys_inv (f_sys s)" and room: "length (re_events SYS_ENTRY_SIZE (ts_syscalls (f_sys s))) < unat (re_total (ts_syscalls (f_sys s)))"
    and fd: "map_of (f_filesMap s) fd = Some p" "fd \<notin> {0, 1, 2}"
  obtains t where "closeFile fd fp s = Ok (if fp \<noteq> fi_origStream (f_info s p) then - 1 else 0, s\<lparr>f_sys := t\<rparr>)" "sys_inv t"
    "closed_fds t = closed_fds (f_sys s) @ [fd]" "closed_dirs t = closed_dirs (f_sys s)"
    "length (re_events SYS_ENTRY_SIZE (ts_syscalls t)) = Suc (length (re_events SYS_ENTRY_SIZE (ts_syscalls (f_sys s))))"
    "re_total (ts_syscalls t) = re_total (ts_syscalls (f_sys s))"
proof -
  let ?r = "if fp \<noteq> fi_origStream (f_info s p) then - 1 else 0"
  obtain t e where r: "record_op (SClose fd ?r) (f_sys s) = Ok t" "sys_inv t" "sc_syscall e = op_sc (SClose fd ?r)" "e \<in> range (fill_op (SClose fd ?r))"
      "re_events SYS_ENTRY_SIZE (ts_syscalls t) = re_events SYS_ENTRY_SIZE (ts_syscalls (f_sys s)) @ [e]"
      "re_total (ts_syscalls t) = re_total (ts_syscalls (f_sys s))"
    using record_op_inv [OF inv _ room, of "SClose fd ?r"] by (auto simp only: complete_op.simps)
  then have t: "recordFileOps_ret E_SYS_FILE_CLOSE fd ?r (f_sys s) = Ok t" "sys_inv t" "sc_syscall e = E_SYS_FILE_CLOSE" "file_fd e = fd"
      "re_events SYS_ENTRY_SIZE (ts_syscalls t) = re_events SYS_ENTRY_SIZE (ts_syscalls (f_sys s)) @ [e]"
      "re_total (ts_syscalls t) = re_total (ts_syscalls (f_sys s))" by auto
  show ?thesis
  proof (rule that [OF _ t(2)])
    show "closeFile fd fp s = Ok (?r, s\<lparr>f_sys := t\<rparr>)" using fd t(1) by (simp add: closeFile_def Let_def)
    show "closed_fds t = closed_fds (f_sys s) @ [fd]" "closed_dirs t = closed_dirs (f_sys s)"
      using chain_append [OF t(5), of file_fd E_SYS_FILE_CLOSE] chain_append [OF t(5), of dir_dir E_SYS_DIR_CLOSE] t(3,4)
      by (simp_all add: closed_fds_def closed_dirs_def)
  qed (use t(5,6) in \<open>simp_all del: length_re_events\<close>)
qed


text \<open>The files of the earlier example, with the record of a new epoch.\<close>

lemma demo_close:
  "sys_inv (f_sys demo_files)" "closed_fds (f_sys demo_files) = []" "closed_dirs (f_sys demo_files) = []" "entries_ok demo_files" "heap_frees (\<lambda>p h. Ok h)"
  "length (re_events SYS_ENTRY_SIZE (ts_syscalls (f_sys demo_files))) + 2 \<le> unat (re_total (ts_syscalls (f_sys demo_files)))"
  "map_of (f_filesMap demo_files) 5 = Some 256" "fi_origStream (f_info demo_files 256) = 4096"
  using demo_systhread_fresh demo_systhread_room
  by (auto simp: demo_files_def fresh_epoch_def closed_fds_def closed_dirs_def chain_def entries_ok_def heap_frees_def simp del: length_re_events)
    (simp_all add: demo_systhread_def)



end
