(* ===== verification/System_Calls.thy ===== *)
theory System_Calls
  imports File_Close Xdefines
begin

text \<open>
  The wrappers of the system calls (\<open>include/syscalls.hh\<close>). Three kinds: calls that are recorded in the
  first run and answered from the record in a replay (\<open>rb\<close> is \<open>global_isRollback()\<close>); calls that are
  harmless to repeat and are simply made; and calls that end the epoch, because they cannot be undone.

  The kernel behind \<open>Real::\<close> is a record of functions over the outside \<open>'k\<close>. \<open>ee\<close> and \<open>eb\<close> are
  \<open>xrun::epochEnd(false)\<close> and \<open>xrun::epochBegin()\<close>; ending an epoch may start a rollback and not return.
  The wrappers with one and the same body as \<open>seekdir\<close>, about two hundred, are not repeated here.
\<close>

section \<open>The real calls\<close>

record 'k real =
  r_files :: "'k calls"
  r_open :: "string \<Rightarrow> int \<Rightarrow> int \<Rightarrow> 'k \<Rightarrow> int \<times> 'k"
  r_dup :: "int \<Rightarrow> 'k \<Rightarrow> int \<times> 'k"
  r_dup2 :: "int \<Rightarrow> int \<Rightarrow> 'k \<Rightarrow> int \<times> 'k"
  r_opendir :: "string \<Rightarrow> mem \<Rightarrow> 'k \<Rightarrow> u64 \<times> mem \<times> 'k"
  r_fopen :: "string \<Rightarrow> string \<Rightarrow> mem \<Rightarrow> 'k \<Rightarrow> u64 \<times> mem \<times> 'k"
  r_fopen64 :: "string \<Rightarrow> string \<Rightarrow> mem \<Rightarrow> 'k \<Rightarrow> u64 \<times> mem \<times> 'k"
  r_fileno :: "u64 \<Rightarrow> mem \<Rightarrow> int"
  r_fflush :: "u64 \<Rightarrow> mem \<Rightarrow> 'k \<Rightarrow> mem \<times> 'k"
  r_close :: "int \<Rightarrow> 'k \<Rightarrow> int \<times> 'k"
  r_read :: "int \<Rightarrow> u64 \<Rightarrow> u64 \<Rightarrow> mem \<Rightarrow> 'k \<Rightarrow> int \<times> mem \<times> 'k"
  r_write :: "int \<Rightarrow> u64 \<Rightarrow> u64 \<Rightarrow> mem \<Rightarrow> 'k \<Rightarrow> int \<times> 'k"
  r_pread :: "int \<Rightarrow> u64 \<Rightarrow> u64 \<Rightarrow> int \<Rightarrow> mem \<Rightarrow> 'k \<Rightarrow> int \<times> mem \<times> 'k"
  r_pwrite :: "int \<Rightarrow> u64 \<Rightarrow> u64 \<Rightarrow> int \<Rightarrow> mem \<Rightarrow> 'k \<Rightarrow> int \<times> 'k"
  r_writev :: "int \<Rightarrow> u64 \<Rightarrow> int \<Rightarrow> mem \<Rightarrow> 'k \<Rightarrow> int \<times> 'k"
  r_lseek :: "int \<Rightarrow> int \<Rightarrow> int \<Rightarrow> 'k \<Rightarrow> int \<times> 'k"
  r_mmap :: "u64 \<Rightarrow> u64 \<Rightarrow> int \<Rightarrow> int \<Rightarrow> int \<Rightarrow> int \<Rightarrow> 'k \<Rightarrow> u64 \<times> 'k"
  r_fcntl :: "int \<Rightarrow> int \<Rightarrow> int \<Rightarrow> 'k \<Rightarrow> int \<times> 'k"
  r_time :: "'k \<Rightarrow> int \<times> 'k"
  r_gettimeofday :: "timeval option \<Rightarrow> timezone option \<Rightarrow> 'k \<Rightarrow> int \<times> timeval option \<times> timezone option \<times> 'k"
  r_times :: "tms option \<Rightarrow> 'k \<Rightarrow> int \<times> tms option \<times> 'k"

type_synonym ('h, 'k) epoch_fun = "('h, 'k) fops \<Rightarrow> ('h, 'k) fops res option"

text \<open>A call with a result and a new outside; one that also writes memory.\<close>

definition real_call :: "('k \<Rightarrow> 'a \<times> 'k) \<Rightarrow> ('h, 'k) fops \<Rightarrow> 'a \<times> ('h, 'k) fops" where
  "real_call f s = (let (r, k) = f (f_out s) in (r, s\<lparr>f_out := k\<rparr>))"

definition real_mem_call :: "(mem \<Rightarrow> 'k \<Rightarrow> 'a \<times> mem \<times> 'k) \<Rightarrow> ('h, 'k) fops \<Rightarrow> 'a \<times> ('h, 'k) fops" where
  "real_mem_call f s = (let (r, m, k) = f (f_mem s) (f_out s) in (r, s\<lparr>f_mem := m, f_out := k\<rparr>))"

definition irrevocable :: "('h, 'k) epoch_fun \<Rightarrow> ('h, 'k) epoch_fun \<Rightarrow> (('h, 'k) fops \<Rightarrow> 'a \<times> ('h, 'k) fops) \<Rightarrow> ('h, 'k) fops \<Rightarrow>
    ('a \<times> ('h, 'k) fops) res option" where
  "irrevocable ee eb f s = obind (ee s) (\<lambda>s. let (r, s) = f s in obind (eb s) (\<lambda>s. Some (Ok (r, s))))"

section \<open>Epochs\<close>

definition epochEndWell :: "'h fr_fun \<Rightarrow> 'k real \<Rightarrow> ('h, 'k) epoch_fun" where
  "epochEndWell fr R s = obind (cleanClosedFiles fr (r_files R) s) (\<lambda>s. Some (updateOpenedFiles (r_files R) s))"

definition syscalls_prepareRollback :: "'k real \<Rightarrow> ('h, 'k) fops \<Rightarrow> ('h, 'k) fops res" where
  "syscalls_prepareRollback R s = fops_prepareRollback (r_files R) s"

section \<open>Reading and writing\<close>

text \<open>
  One byte of every page of the buffer is written, and its last byte. The parameter \<open>count\<close> is a
  32-bit integer; \<open>count / PageSize\<close> is an unsigned division.
\<close>

definition makeWritable :: "u64 \<Rightarrow> u32 \<Rightarrow> mem \<Rightarrow> mem" where
  "makeWritable buf count m =
     (let pages = (scast count :: u64) div PageSize;
          m = fold (\<lambda>i m. m(buf + of_nat i * PageSize := 0)) [0..<unat pages] m
      in m(buf + scast (count - 1) := 0))"

definition sys_checkOverflowBeforehand :: "u64 \<Rightarrow> u64 \<Rightarrow> mem \<Rightarrow> mem" where
  "sys_checkOverflowBeforehand start sz = makeWritable start (ucast sz)"

definition sys_read :: "('h, 'k) epoch_fun \<Rightarrow> ('h, 'k) epoch_fun \<Rightarrow> 'k real \<Rightarrow> int \<Rightarrow> u64 \<Rightarrow> u64 \<Rightarrow> ('h, 'k) fops \<Rightarrow> (int \<times> ('h, 'k) fops) res option" where
  "sys_read ee eb R fd buf count s =
     (let s = s\<lparr>f_mem := makeWritable buf (ucast count) (f_mem s)\<rparr> in
      if checkPermission fd s then Some (Ok (real_mem_call (r_read R fd buf count) s))
      else irrevocable ee eb (real_mem_call (r_read R fd buf count)) s)"

definition sys_write :: "('h, 'k) epoch_fun \<Rightarrow> ('h, 'k) epoch_fun \<Rightarrow> 'k real \<Rightarrow> int \<Rightarrow> u64 \<Rightarrow> u64 \<Rightarrow> ('h, 'k) fops \<Rightarrow> (int \<times> ('h, 'k) fops) res option" where
  "sys_write ee eb R fd buf count s = irrevocable ee eb (\<lambda>s. real_call (r_write R fd buf count (f_mem s)) s) s"

definition sys_pread :: "('h, 'k) epoch_fun \<Rightarrow> ('h, 'k) epoch_fun \<Rightarrow> 'k real \<Rightarrow> int \<Rightarrow> u64 \<Rightarrow> u64 \<Rightarrow> int \<Rightarrow> ('h, 'k) fops \<Rightarrow> (int \<times> ('h, 'k) fops) res option" where
  "sys_pread ee eb R fd buf count off s =
     (let s = s\<lparr>f_mem := sys_checkOverflowBeforehand buf count (f_mem s)\<rparr> in
      if checkPermission fd s then Some (Ok (real_mem_call (r_pread R fd buf count off) s))
      else irrevocable ee eb (real_mem_call (r_pread R fd buf count off)) s)"

definition sys_pwrite :: "('h, 'k) epoch_fun \<Rightarrow> ('h, 'k) epoch_fun \<Rightarrow> 'k real \<Rightarrow> int \<Rightarrow> u64 \<Rightarrow> u64 \<Rightarrow> int \<Rightarrow> ('h, 'k) fops \<Rightarrow> (int \<times> ('h, 'k) fops) res option" where
  "sys_pwrite ee eb R fd buf count off s =
     (if checkPermission fd s then Some (Ok (real_call (r_pwrite R fd buf count off (f_mem s)) s))
      else irrevocable ee eb (\<lambda>s. real_call (r_pwrite R fd buf count off (f_mem s)) s) s)"

definition sys_writev :: "('h, 'k) epoch_fun \<Rightarrow> ('h, 'k) epoch_fun \<Rightarrow> 'k real \<Rightarrow> int \<Rightarrow> u64 \<Rightarrow> int \<Rightarrow> ('h, 'k) fops \<Rightarrow> (int \<times> ('h, 'k) fops) res option" where
  "sys_writev ee eb R fd vector count s =
     (if checkPermission fd s then Some (Ok (real_call (r_writev R fd vector count (f_mem s)) s))
      else irrevocable ee eb (\<lambda>s. real_call (r_writev R fd vector count (f_mem s)) s) s)"

abbreviation SEEK_CUR :: int where "SEEK_CUR \<equiv> 1"

definition sys_lseek :: "('h, 'k) epoch_fun \<Rightarrow> ('h, 'k) epoch_fun \<Rightarrow> 'k real \<Rightarrow> int \<Rightarrow> int \<Rightarrow> int \<Rightarrow> ('h, 'k) fops \<Rightarrow> (int \<times> ('h, 'k) fops) res option" where
  "sys_lseek ee eb R filedes off whence s =
     (if whence = SEEK_CUR \<and> off = 0 then Some (Ok (real_call (r_lseek R filedes off whence) s))
      else irrevocable ee eb (real_call (r_lseek R filedes off whence)) s)"

section \<open>Files and directories\<close>

definition sys_open :: "bool \<Rightarrow> 'h im_fun \<Rightarrow> 'k real \<Rightarrow> string \<Rightarrow> int \<Rightarrow> int \<Rightarrow> ('h, 'k) fops \<Rightarrow> (int \<times> ('h, 'k) fops) res" where
  "sys_open rb im R pathname flags mode s =
     (if \<not> rb then let (ret, s) = real_call (r_open R pathname flags mode) s in rmap (Pair ret) (saveFd im ret 0 s)
      else getFdAtOpen (r_files R) s)"

definition sys_open2 :: "bool \<Rightarrow> 'h im_fun \<Rightarrow> 'k real \<Rightarrow> string \<Rightarrow> int \<Rightarrow> ('h, 'k) fops \<Rightarrow> (int \<times> ('h, 'k) fops) res" where
  "sys_open2 rb im R pathname flags s = sys_open rb im R pathname flags 0 s"

text \<open>\<open>junk\<close> is the value of an uninitialised variable that the getter overwrites.\<close>

definition sys_close :: "bool \<Rightarrow> int \<Rightarrow> ('h, 'k) epoch_fun \<Rightarrow> ('h, 'k) epoch_fun \<Rightarrow> 'k real \<Rightarrow> int \<Rightarrow> ('h, 'k) fops \<Rightarrow> (int \<times> ('h, 'k) fops) res option" where
  "sys_close rb junk ee eb R fd s =
     (if isNormalFile fd s then Some (if \<not> rb then closeFile fd 0 s else getClose junk fd s)
      else irrevocable ee eb (real_call (r_close R fd)) s)"

definition sys_opendir :: "bool \<Rightarrow> 'h im_fun \<Rightarrow> 'k real \<Rightarrow> string \<Rightarrow> ('h, 'k) fops \<Rightarrow> (u64 \<times> ('h, 'k) fops) res" where
  "sys_opendir rb im R name s =
     (if \<not> rb then let (ret, s) = real_mem_call (r_opendir R name) s in rmap (Pair ret) (saveDir im (r_files R) ret s)
      else getDirAtOpen (r_files R) s)"

definition sys_closedir :: "bool \<Rightarrow> u64 \<Rightarrow> ('h, 'k) fops \<Rightarrow> (int \<times> ('h, 'k) fops) res" where
  "sys_closedir rb dir s = (if \<not> rb then closeDir dir s else getCloseDir dir s)"

definition sys_seekdir :: "('h, 'k) epoch_fun \<Rightarrow> ('h, 'k) epoch_fun \<Rightarrow> 'k real \<Rightarrow> u64 \<Rightarrow> int \<Rightarrow> ('h, 'k) fops \<Rightarrow> (unit \<times> ('h, 'k) fops) res option" where
  "sys_seekdir ee eb R dir pos = irrevocable ee eb (\<lambda>s. ((), set_out (c_seekdir (r_files R) dir pos (f_mem s) (f_out s)) s))"

definition sys_rewinddir :: "('h, 'k) epoch_fun \<Rightarrow> ('h, 'k) epoch_fun \<Rightarrow> 'k real \<Rightarrow> u64 \<Rightarrow> ('h, 'k) fops \<Rightarrow> (unit \<times> ('h, 'k) fops) res option" where
  "sys_rewinddir ee eb R dir = irrevocable ee eb (\<lambda>s. ((), set_out (c_rewinddir (r_files R) dir (f_mem s) (f_out s)) s))"

definition sys_fopen :: "bool \<Rightarrow> 'h im_fun \<Rightarrow> 'k real \<Rightarrow> string \<Rightarrow> string \<Rightarrow> ('h, 'k) fops \<Rightarrow> (u64 \<times> ('h, 'k) fops) res" where
  "sys_fopen rb im R filename modes s =
     (if \<not> rb then
        let (ret, s) = real_mem_call (r_fopen R filename modes) s in
        if ret \<noteq> 0 then rmap (Pair ret) (saveFopen im (r_fileno R) ret s) else Ok (ret, s)
      else getFopen (r_files R) s)"

definition sys_fopen64 :: "bool \<Rightarrow> 'h im_fun \<Rightarrow> 'k real \<Rightarrow> string \<Rightarrow> string \<Rightarrow> ('h, 'k) fops \<Rightarrow> (u64 \<times> ('h, 'k) fops) res" where
  "sys_fopen64 rb im R filename modes s =
     (if \<not> rb then
        let (ret, s) = real_mem_call (r_fopen64 R filename modes) s in
        if ret \<noteq> 0 then rmap (Pair ret) (saveFopen im (r_fileno R) ret s) else rmap (Pair ret) (saveFd im (- 1) 0 s)
      else getFopen (r_files R) s)"

definition sys_fclose :: "bool \<Rightarrow> int \<Rightarrow> 'k real \<Rightarrow> u64 \<Rightarrow> ('h, 'k) fops \<Rightarrow> (int \<times> ('h, 'k) fops) res" where
  "sys_fclose rb junk R fp s =
     (if fp = 0 then Err Assertion
      else let s = set_out (r_fflush R fp (f_mem s) (f_out s)) s; fd = r_fileno R fp (f_mem s) in
        if \<not> rb then closeFile fd fp s else getCloseFile junk fd s)"

definition sys_dup :: "bool \<Rightarrow> 'h im_fun \<Rightarrow> ('h, 'k) epoch_fun \<Rightarrow> ('h, 'k) epoch_fun \<Rightarrow> 'k real \<Rightarrow> int \<Rightarrow> ('h, 'k) fops \<Rightarrow> (int \<times> ('h, 'k) fops) res option" where
  "sys_dup rb im ee eb R oldfd s =
     (if isNormalFile oldfd s then
        Some (if \<not> rb then let (ret, s) = real_call (r_dup R oldfd) s in rmap (Pair ret) (saveDupFd im oldfd ret s) else getDupFd s)
      else irrevocable ee eb (real_call (r_dup R oldfd)) s)"

definition sys_dup2 :: "bool \<Rightarrow> 'h im_fun \<Rightarrow> ('h, 'k) epoch_fun \<Rightarrow> ('h, 'k) epoch_fun \<Rightarrow> 'k real \<Rightarrow> int \<Rightarrow> int \<Rightarrow> ('h, 'k) fops \<Rightarrow> (int \<times> ('h, 'k) fops) res option" where
  "sys_dup2 rb im ee eb R oldfd newfd s =
     (if isNormalFile newfd s then
        Some (if \<not> rb then let (ret, s) = real_call (r_dup2 R oldfd newfd) s in rmap (Pair ret) (saveDupFd im oldfd ret s)
          else getFdAtOpen (r_files R) s)
      else irrevocable ee eb (real_call (r_dup2 R oldfd newfd)) s)"

text \<open>The commands of \<open>fcntl\<close> with a case of their own.\<close>

datatype fcntl_cmd = F_DUPFD | F_GETFL | F_GETLK | F_GETOWN | F_GETOWN_EX | F_GETSIG | F_GETPIPE_SZ | F_SETFD | F_OTHER int

abbreviation FD_CLOEXEC :: int where "FD_CLOEXEC \<equiv> 1"

fun cmd_num :: "fcntl_cmd \<Rightarrow> int" where
  "cmd_num F_DUPFD = 0" | "cmd_num F_GETFL = 3" | "cmd_num F_GETLK = 5" | "cmd_num F_GETOWN = 9" | "cmd_num F_GETOWN_EX = 16"
| "cmd_num F_GETSIG = 11" | "cmd_num F_GETPIPE_SZ = 1032" | "cmd_num F_SETFD = 2" | "cmd_num (F_OTHER n) = n"

definition sys_fcntl :: "bool \<Rightarrow> 'h im_fun \<Rightarrow> ('h, 'k) epoch_fun \<Rightarrow> ('h, 'k) epoch_fun \<Rightarrow> 'k real \<Rightarrow> int \<Rightarrow> fcntl_cmd \<Rightarrow> int \<Rightarrow> ('h, 'k) fops \<Rightarrow>
    (int \<times> ('h, 'k) fops) res option" where
  "sys_fcntl rb im ee eb R fd cmd arg s =
     (let real = real_call (r_fcntl R fd (cmd_num cmd) arg) in
      if cmd = F_DUPFD then
        Some (if rb then getFdAtOpen (r_files R) s else let (ret, s) = real s in rmap (Pair ret) (saveFd im ret 0 s))
      else if cmd \<in> {F_GETFL, F_GETLK, F_GETOWN, F_GETOWN_EX, F_GETSIG, F_GETPIPE_SZ} \<or> cmd = F_SETFD \<and> arg = FD_CLOEXEC then Some (Ok (real s))
      else irrevocable ee eb real s)"

section \<open>Memory and time\<close>

definition sys_mmap :: "bool \<Rightarrow> 'k real \<Rightarrow> u64 \<Rightarrow> u64 \<Rightarrow> int \<Rightarrow> int \<Rightarrow> int \<Rightarrow> int \<Rightarrow> ('h, 'k) fops \<Rightarrow> (u64 \<times> ('h, 'k) fops) res" where
  "sys_mmap rb R start len prot flags fd off s =
     (if \<not> rb then
        let (ret, s) = real_call (r_mmap R start len prot flags fd off) s in
        rmap (\<lambda>t. (ret, s\<lparr>f_sys := t\<rparr>)) (recordMmapOps ret (f_sys s))
      else rmap (\<lambda>(_, ret, t). (ret, s\<lparr>f_sys := t\<rparr>)) (getMmapOps 0 (f_sys s)))"

definition sys_munmap :: "bool \<Rightarrow> u64 \<Rightarrow> u64 \<Rightarrow> ('h, 'k) fops \<Rightarrow> (int \<times> ('h, 'k) fops) res" where
  "sys_munmap rb start len s =
     rmap (\<lambda>t. (0, s\<lparr>f_sys := t\<rparr>)) (if \<not> rb then recordMunmapOps start len (f_sys s) else getMunmapOps (f_sys s))"

text \<open>
  Null pointers are \<open>None\<close>; a call returns what it left behind the pointers. \<open>time\<close> stores its result
  behind its pointer only when the real call is made.
\<close>

definition sys_time :: "bool \<Rightarrow> int \<Rightarrow> 'k real \<Rightarrow> int option \<Rightarrow> ('h, 'k) fops \<Rightarrow> ((int \<times> int option) \<times> ('h, 'k) fops) res" where
  "sys_time rb junk R p s =
     (if \<not> rb then
        let (ret, s) = real_call (r_time R) s in
        rmap (\<lambda>t. ((ret, map_option (\<lambda>_. ret) p), s\<lparr>f_sys := t\<rparr>)) (recordTimeOps ret (f_sys s))
      else rbind (getTimeOps junk (f_sys s)) (\<lambda>(found, ret, t).
        if found then Ok ((ret, p), s\<lparr>f_sys := t\<rparr>) else Err Assertion))"

definition sys_gettimeofday :: "bool \<Rightarrow> 'k real \<Rightarrow> timeval option \<Rightarrow> timezone option \<Rightarrow> ('h, 'k) fops \<Rightarrow>
    ((int \<times> timeval option \<times> timezone option) \<times> ('h, 'k) fops) res" where
  "sys_gettimeofday rb R tv tz s =
     (if \<not> rb then
        let (ret, tv, tz, k) = r_gettimeofday R tv tz (f_out s); s = s\<lparr>f_out := k\<rparr> in
        rmap (\<lambda>t. ((ret, tv, tz), s\<lparr>f_sys := t\<rparr>)) (recordGettimeofdayOps ret tv tz (f_sys s))
      else rbind (getGettimeofdayOps 0 tv tz (f_sys s)) (\<lambda>(found, ret, tv, tz, t).
        if found then Ok ((ret, tv, tz), s\<lparr>f_sys := t\<rparr>) else Err Assertion))"

definition sys_times :: "bool \<Rightarrow> int \<Rightarrow> 'k real \<Rightarrow> tms option \<Rightarrow> ('h, 'k) fops \<Rightarrow> ((int \<times> tms option) \<times> ('h, 'k) fops) res" where
  "sys_times rb junk R buf s =
     (if \<not> rb then
        let (ret, buf, k) = r_times R buf (f_out s); s = s\<lparr>f_out := k\<rparr> in
        rmap (\<lambda>t. ((ret, buf), s\<lparr>f_sys := t\<rparr>)) (recordTimesOps ret buf (f_sys s))
      else rbind (getTimesOps junk buf (f_sys s)) (\<lambda>(found, ret, buf, t).
        if found then Ok ((ret, buf), s\<lparr>f_sys := t\<rparr>) else Err Assertion))"

section \<open>The recorded calls of an epoch\<close>

datatype sys_call =
  COpen string int int | CClose int | CDup int | CCloseDir u64 | CMmap u64 u64 int int int int | CMunmap u64 u64
  | CTime | CTod "timeval option" "timezone option" | CTimes "tms option"

datatype sys_result = RInt int | RPtr u64 | RTod int "timeval option" "timezone option" | RTimes int "tms option"

record ('h, 'k) sys_env =
  e_im :: "'h im_fun"
  e_real :: "'k real"
  e_epochEnd :: "('h, 'k) epoch_fun"
  e_epochBegin :: "('h, 'k) epoch_fun"
  e_junk :: int

abbreviation ret :: "('a \<Rightarrow> sys_result) \<Rightarrow> ('a \<times> ('h, 'k) fops) res \<Rightarrow> (sys_result \<times> ('h, 'k) fops) res" where
  "ret f \<equiv> rmap (\<lambda>(r, s). (f r, s))"

fun sys_do :: "bool \<Rightarrow> ('h, 'k) sys_env \<Rightarrow> sys_call \<Rightarrow> ('h, 'k) fops \<Rightarrow> (sys_result \<times> ('h, 'k) fops) res option" where
  "sys_do rb E (COpen p f m) s = Some (ret RInt (sys_open rb (e_im E) (e_real E) p f m s))"
| "sys_do rb E (CClose fd) s = map_option (ret RInt) (sys_close rb (e_junk E) (e_epochEnd E) (e_epochBegin E) (e_real E) fd s)"
| "sys_do rb E (CDup fd) s = map_option (ret RInt) (sys_dup rb (e_im E) (e_epochEnd E) (e_epochBegin E) (e_real E) fd s)"
| "sys_do rb E (CCloseDir d) s = Some (ret RInt (sys_closedir rb d s))"
| "sys_do rb E (CMmap a l p f fd off) s = Some (ret RPtr (sys_mmap rb (e_real E) a l p f fd off s))"
| "sys_do rb E (CMunmap a l) s = Some (ret RInt (sys_munmap rb a l s))"
| "sys_do rb E CTime s = Some (ret (RInt \<circ> fst) (sys_time rb (e_junk E) (e_real E) None s))"
| "sys_do rb E (CTod tv tz) s = Some (ret (\<lambda>(r, tv, tz). RTod r tv tz) (sys_gettimeofday rb (e_real E) tv tz s))"
| "sys_do rb E (CTimes buf) s = Some (ret (\<lambda>(r, buf). RTimes r buf) (sys_times rb (e_junk E) (e_real E) buf s))"

text \<open>
  The calls that are recorded: a descriptor that is closed or duplicated is in the map and not a standard
  one, and the results of \<open>times\<close> are complete.
\<close>

fun is_recorded :: "('h, 'k) sys_env \<Rightarrow> sys_call \<Rightarrow> ('h, 'k) fops \<Rightarrow> bool" where
  "is_recorded E (CClose fd) s \<longleftrightarrow> isNormalFile fd s \<and> fd \<notin> {0, 1, 2}"
| "is_recorded E (CDup fd) s \<longleftrightarrow> isNormalFile fd s"
| "is_recorded E (CTimes buf) s \<longleftrightarrow> (let (r, b, k) = r_times (e_real E) buf (f_out s) in (r \<noteq> - 1 \<longleftrightarrow> b \<noteq> None) \<and> (b = None \<longleftrightarrow> buf = None))"
| "is_recorded E (CTod tv tz) s \<longleftrightarrow> (let (r, tv', tz', k) = r_gettimeofday (e_real E) tv tz (f_out s) in (tv' = None \<longleftrightarrow> tv = None) \<and> (tz' = None \<longleftrightarrow> tz = None))"
| "is_recorded E _ s \<longleftrightarrow> True"

text \<open>
  The calls of an epoch in their order. Before each one the program and the kernel change memory and the
  outside in some way. \<open>first_run\<close> stops at a call that is not recorded.
\<close>

type_synonym 'k gap = "mem \<times> 'k \<Rightarrow> mem \<times> 'k"

primrec first_run :: "('h, 'k) sys_env \<Rightarrow> ('k gap \<times> sys_call) list \<Rightarrow> ('h, 'k) fops \<Rightarrow> (sys_result list \<times> ('h, 'k) fops) res option" where
  "first_run E [] s = Some (Ok ([], s))"
| "first_run E (x # xs) s =
     (let s = set_out (fst x (f_mem s, f_out s)) s in
      if is_recorded E (snd x) s then
        obind (sys_do False E (snd x) s) (\<lambda>(r, s). obind (first_run E xs s) (\<lambda>(rs, s). Some (Ok (r # rs, s))))
      else None)"

primrec second_run :: "('h, 'k) sys_env \<Rightarrow> ('k gap \<times> sys_call) list \<Rightarrow> ('h, 'k) fops \<Rightarrow> (sys_result list \<times> ('h, 'k) fops) res option" where
  "second_run E [] s = Some (Ok ([], s))"
| "second_run E (x # xs) s =
     obind (sys_do True E (snd x) (set_out (fst x (f_mem s, f_out s)) s)) (\<lambda>(r, s).
       obind (second_run E xs s) (\<lambda>(rs, s). Some (Ok (r # rs, s))))"

text \<open>What is recorded of a call.\<close>

fun op_of :: "sys_call \<Rightarrow> sys_result \<Rightarrow> sysop" where
  "op_of (COpen _ _ _) (RInt r) = SOpen r" | "op_of (CClose fd) (RInt r) = SClose fd r" | "op_of (CDup _) (RInt r) = SDup r"
| "op_of (CCloseDir d) _ = SDirClose d" | "op_of (CMmap _ _ _ _ _ _) (RPtr p) = SMmap p" | "op_of (CMunmap a l) _ = SMunmap a l"
| "op_of CTime (RInt r) = STime r" | "op_of (CTod _ _) (RTod r tv tz) = STod r tv tz" | "op_of (CTimes _) (RTimes r b) = STimes r b"
| "op_of _ _ = STime 0"

text \<open>The maps of the files only grow.\<close>

definition maps_grow :: "('h, 'k) fops \<Rightarrow> ('h, 'k) fops \<Rightarrow> bool" where
  "maps_grow s s' \<longleftrightarrow> (\<exists>fs. f_filesMap s' = f_filesMap s @ fs) \<and> f_dirsMap s' = f_dirsMap s \<and> f_dinfo s' = f_dinfo s"

text \<open>What the replay of a call needs of the maps.\<close>

fun replay_ready :: "sys_call \<Rightarrow> sys_result \<Rightarrow> ('h, 'k) fops \<Rightarrow> bool" where
  "replay_ready (COpen _ _ _) (RInt r) s \<longleftrightarrow> r = - 1 \<or> (\<exists>p. map_of (f_filesMap s) r = Some p \<and> p \<noteq> 0)"
| "replay_ready (CClose fd) (RInt r) s \<longleftrightarrow> isNormalFile fd s"
| "replay_ready (CDup fd) (RInt r) s \<longleftrightarrow> isNormalFile fd s"
| "replay_ready (CCloseDir d) (RInt r) s \<longleftrightarrow> d \<noteq> 0 \<and> (\<exists>p. map_of (f_dirsMap s) d = Some p \<and> r = (if d \<noteq> di_dir (f_dinfo s p) then - 1 else 0))"
| "replay_ready (CMmap _ _ _ _ _ _) (RPtr _) s \<longleftrightarrow> True"
| "replay_ready (CMunmap _ _) (RInt r) s \<longleftrightarrow> r = 0"
| "replay_ready CTime (RInt _) s \<longleftrightarrow> True"
| "replay_ready (CTod tv tz) (RTod _ tv' tz') s \<longleftrightarrow> (tv' = None \<longleftrightarrow> tv = None) \<and> (tz' = None \<longleftrightarrow> tz = None)"
| "replay_ready (CTimes b) (RTimes _ b') s \<longleftrightarrow> (b' = None \<longleftrightarrow> b = None)"
| "replay_ready _ _ s \<longleftrightarrow> False"

lemma replay_ready_grow: "replay_ready c r s \<Longrightarrow> maps_grow s s' \<Longrightarrow> replay_ready c r s'"
  by (cases c; cases r) (auto simp: maps_grow_def isNormalFile_def map_add_def split: option.splits)

definition never_null :: "'h im_fun \<Rightarrow> bool" where
  "never_null im \<longleftrightarrow> (\<forall>n h q h'. im n h = Ok (q, h') \<longrightarrow> q \<noteq> 0)"

definition entries_nonzero :: "('h, 'k) fops \<Rightarrow> bool" where
  "entries_nonzero s \<longleftrightarrow> 0 \<notin> snd ` set (f_filesMap s)"

lemma map_of_added: "0 \<notin> snd ` set xs \<Longrightarrow> p \<noteq> 0 \<Longrightarrow> \<exists>q. map_of (xs @ [(k, p)]) k = Some q \<and> q \<noteq> 0" for p :: u64
  by (cases "map_of xs k") (force simp: map_add_def dest: map_of_SomeD)+

lemma real_call_eq: "real_call f s = (fst (f (f_out s)), s\<lparr>f_out := snd (f (f_out s))\<rparr>)"
  by (simp add: real_call_def case_prod_unfold Let_def)

lemma outside_irrelevant [simp]:
  "entries_nonzero (s\<lparr>f_out := k\<rparr>) = entries_nonzero s" "maps_grow (s\<lparr>f_out := k\<rparr>) s' = maps_grow s s'"
  "maps_grow s (s\<lparr>f_out := k, f_sys := t\<rparr>)" "maps_grow s (s\<lparr>f_sys := t\<rparr>)"
  "entries_nonzero (s\<lparr>f_out := k, f_sys := t\<rparr>) = entries_nonzero s" "entries_nonzero (s\<lparr>f_sys := t\<rparr>) = entries_nonzero s"
  by (simp_all add: entries_nonzero_def maps_grow_def)

lemma saveFd_records:
  assumes "saveFd im fd file s = Ok s'" and im: "never_null im" and nz: "entries_nonzero s"
  shows "recordFileOps E_SYS_FILE_OPEN fd (f_sys s) = Ok (f_sys s') \<and> maps_grow s s' \<and> entries_nonzero s' \<and>
    (fd = - 1 \<or> (\<exists>p. map_of (f_filesMap s') fd = Some p \<and> p \<noteq> 0))"
proof -
  obtain t where t: "recordFileOps E_SYS_FILE_OPEN fd (f_sys s) = Ok t" using assms(1) by (auto simp: saveFd_def rbind_Ok_iff)
  show ?thesis
  proof (cases "fd = - 1")
    case True
    then show ?thesis using assms(1) t nz by (auto simp: saveFd_def maps_grow_def entries_nonzero_def)
  next
    case False
    then obtain p h where p: "im FILE_INFO_SIZE (f_heap s) = Ok (p, h)" using assms(1) t by (auto simp: saveFd_def rbind_Ok_iff Let_def)
    then have "p \<noteq> 0" using im by (auto simp: never_null_def)
    moreover have "f_filesMap s' = f_filesMap s @ [(fd, p)]" "f_dirsMap s' = f_dirsMap s" "f_dinfo s' = f_dinfo s" "f_sys s' = t"
      using assms(1) t p False by (auto simp: saveFd_def Let_def set_info_def rmap_Ok_iff split: if_splits)
    ultimately show ?thesis using t nz map_of_added [of "f_filesMap s" p fd] by (auto simp: maps_grow_def entries_nonzero_def)
  qed
qed

lemma saveDupFd_records:
  assumes "saveDupFd im oldfd newfd s = Ok s'" and im: "never_null im" and nz: "entries_nonzero s"
  shows "recordFileOps E_SYS_FILE_DUP newfd (f_sys s) = Ok (f_sys s') \<and> maps_grow s s' \<and> entries_nonzero s'"
proof -
  obtain t where t: "recordFileOps E_SYS_FILE_DUP newfd (f_sys s) = Ok t" using assms(1) by (auto simp: saveDupFd_def rbind_Ok_iff)
  show ?thesis
  proof (cases "newfd = - 1")
    case True
    then show ?thesis using assms(1) t nz by (auto simp: saveDupFd_def maps_grow_def entries_nonzero_def)
  next
    case False
    then obtain old where old: "map_of (f_filesMap s) oldfd = Some old" using assms(1) t by (auto simp: saveDupFd_def Let_def split: option.splits)
    then obtain p h where p: "im FILE_INFO_SIZE (f_heap s) = Ok (p, h)" using assms(1) t False by (auto simp: saveDupFd_def rbind_Ok_iff Let_def)
    then have "p \<noteq> 0" using im by (auto simp: never_null_def)
    moreover have "f_filesMap s' = f_filesMap s @ [(newfd, p)]" "f_dirsMap s' = f_dirsMap s" "f_dinfo s' = f_dinfo s" "f_sys s' = t"
      using assms(1) t p old False by (auto simp: saveDupFd_def Let_def set_info_def rmap_Ok_iff split: if_splits)
    ultimately show ?thesis using t nz by (auto simp: maps_grow_def entries_nonzero_def)
  qed
qed

lemma sys_do_records:
  assumes "sys_do False E c s = Some (Ok (r, s'))" and "is_recorded E c s" and im: "never_null (e_im E)" and nz: "entries_nonzero s"
  shows "record_op (op_of c r) (f_sys s) = Ok (f_sys s') \<and> complete_op (op_of c r) \<and> maps_grow s s' \<and> entries_nonzero s' \<and> replay_ready c r s'"
proof (cases c)
  case (COpen pathname flags mode)
  then obtain fd k where "saveFd (e_im E) fd 0 (s\<lparr>f_out := k\<rparr>) = Ok s'" "r = RInt fd" using assms(1) by (auto simp: sys_open_def real_call_eq rmap_Ok_iff)
  then show ?thesis using saveFd_records [OF _ im, of fd 0 "s\<lparr>f_out := k\<rparr>" s'] nz COpen by simp
next
  case (CDup fd)
  then obtain fd' k where "saveDupFd (e_im E) fd fd' (s\<lparr>f_out := k\<rparr>) = Ok s'" "r = RInt fd'" "isNormalFile fd s"
    using assms(1,2) by (auto simp: sys_dup_def real_call_eq rmap_Ok_iff)
  then show ?thesis using saveDupFd_records [OF _ im, of fd fd' "s\<lparr>f_out := k\<rparr>" s'] nz CDup
    by (auto simp: isNormalFile_def maps_grow_def map_add_def split: option.splits)
next
  case (CClose fd)
  then show ?thesis using assms(1,2) nz by (auto simp: sys_close_def closeFile_def isNormalFile_def Let_def rmap_Ok_iff split: option.splits)
next
  case (CCloseDir d)
  then show ?thesis using assms(1) nz by (auto simp: sys_closedir_def closeDir_def Let_def rmap_Ok_iff split: if_splits option.splits)
next
  case (CMmap a l p f fd off)
  then show ?thesis using assms(1) nz by (auto simp: sys_mmap_def real_call_eq rmap_Ok_iff)
next
  case (CMunmap a l)
  then show ?thesis using assms(1) nz by (auto simp: sys_munmap_def rmap_Ok_iff)
next
  case CTime
  then show ?thesis using assms(1) nz by (auto simp: sys_time_def real_call_eq rmap_Ok_iff)
next
  case (CTod tv tz)
  then show ?thesis using assms(1,2) nz by (auto simp: sys_gettimeofday_def rmap_Ok_iff case_prod_unfold Let_def)
next
  case (CTimes b)
  then show ?thesis using assms(1,2) nz by (auto simp: sys_times_def rmap_Ok_iff case_prod_unfold Let_def)
qed

text \<open>In a replay the answer of every call is the recorded one, and nothing of the maps changes.\<close>

lemma sys_do_replays:
  assumes "retrieveEntry (op_sc (op_of c r)) (f_sys s) = Ok (p, t)" and "p \<noteq> 0" and "entry_of p t = e" and "read_op (op_of c r) e = op_of c r"
    and "replay_ready c r s"
  shows "\<exists>s'. sys_do True E c s = Some (Ok (r, s')) \<and> f_sys s' = t \<and> maps_grow s s'"
  using assms
  by (cases c; cases r) (auto simp: sys_open_def sys_close_def sys_dup_def sys_closedir_def sys_mmap_def sys_munmap_def sys_time_def
    sys_gettimeofday_def sys_times_def getFdAtOpen_def getClose_def getDupFd_def getCloseDir_def replay_defs Let_def maps_grow_def)

lemma maps_grow_trans: "maps_grow s t \<Longrightarrow> maps_grow t u \<Longrightarrow> maps_grow s u"
  by (auto simp: maps_grow_def)

lemma maps_grow_set_out [simp]: "maps_grow (set_out mk s) t = maps_grow s t" "entries_nonzero (set_out mk s) = entries_nonzero s" "f_sys (set_out mk s) = f_sys s"
  by (simp_all add: maps_grow_def entries_nonzero_def set_out_def)

lemma first_run_records:
  assumes "first_run E xs s = Some (Ok (rs, s1))" and im: "never_null (e_im E)" and "entries_nonzero s"
  shows "record_ops (map2 op_of (map snd xs) rs) (f_sys s) = Ok (f_sys s1) \<and> list_all complete_op (map2 op_of (map snd xs) rs) \<and>
    maps_grow s s1 \<and> length rs = length xs \<and> list_all2 (\<lambda>c r. replay_ready c r s1) (map snd xs) rs"
  using assms(1,3)
proof (induction xs arbitrary: s rs)
  case (Cons x xs)
  let ?s = "set_out (fst x (f_mem s, f_out s)) s"
  obtain r s' rs' where d: "is_recorded E (snd x) ?s" "sys_do False E (snd x) ?s = Some (Ok (r, s'))" "first_run E xs s' = Some (Ok (rs', s1))" "rs = r # rs'"
    using Cons.prems(1) by (auto simp: Let_def obind_Ok_iff split: if_splits)
  have "entries_nonzero ?s" using Cons.prems(2) by simp
  note r = sys_do_records [OF d(2,1) im this]
  from r have "entries_nonzero s'" by simp
  note i = Cons.IH [OF d(3) this]
  have "maps_grow s s'" using r by simp
  with i have "maps_grow s s1" by (blast intro: maps_grow_trans)
  moreover have "replay_ready (snd x) r s1" using r i replay_ready_grow by blast
  ultimately show ?case using r i d(4) by simp
qed (simp add: maps_grow_def)

lemma second_run_ok:
  assumes "re_ok SYS_ENTRY_SIZE (ts_syscalls (f_sys s))"
    and "list_all2 (\<lambda>x e. sc_syscall e = op_sc x \<and> read_op x e = x) (map2 op_of (map snd ys) rs) es"
    and "drop (unat (re_iter (ts_syscalls (f_sys s)))) (re_events SYS_ENTRY_SIZE (ts_syscalls (f_sys s))) = es"
    and "list_all2 (\<lambda>c r. replay_ready c r s) (map snd ys) rs"
  shows "\<exists>s2. second_run E ys s = Some (Ok (rs, s2))"
  using assms
proof (induction ys arbitrary: s rs es)
  case (Cons y ys)
  obtain r rs' where rs: "rs = r # rs'" "replay_ready (snd y) r s" "list_all2 (\<lambda>c r. replay_ready c r s) (map snd ys) rs'"
    using Cons.prems(4) by (auto simp: list_all2_Cons1)
  obtain e es' where es: "es = e # es'" "sc_syscall e = op_sc (op_of (snd y) r)" "read_op (op_of (snd y) r) e = op_of (snd y) r"
      "list_all2 (\<lambda>x e. sc_syscall e = op_sc x \<and> read_op x e = x) (map2 op_of (map snd ys) rs') es'"
    using Cons.prems(2) by (auto simp: rs(1) list_all2_Cons1)
  obtain q where q: "re_next SYS_ENTRY_SIZE (ts_syscalls (f_sys s)) = (Some e, q)" "re_ok SYS_ENTRY_SIZE q"
      "drop (unat (re_iter q)) (re_events SYS_ENTRY_SIZE q) = es'"
    using replay_next [OF Cons.prems(1,3)[unfolded es(1)]] by metis
  let ?s = "set_out (fst y (f_mem s, f_out s)) s"
  obtain p where p: "retrieveEntry (op_sc (op_of (snd y) r)) (f_sys s) = Ok (p, (f_sys s)\<lparr>ts_syscalls := q\<rparr>)" "p \<noteq> 0"
      "entry_of p ((f_sys s)\<lparr>ts_syscalls := q\<rparr>) = e"
    using retrieveEntry_eq [OF Cons.prems(1) op_sc_proper q(1) es(2)] by blast
  have grow: "maps_grow s ?s" by (simp add: maps_grow_def set_out_def)
  obtain s' where s': "sys_do True E (snd y) ?s = Some (Ok (r, s'))" "f_sys s' = (f_sys s)\<lparr>ts_syscalls := q\<rparr>" "maps_grow ?s s'"
    using sys_do_replays [of "snd y" r ?s p _ e E] p es(3) replay_ready_grow [OF rs(2) grow] by auto
  have "maps_grow s s'" using s'(3) by simp
  then have "list_all2 (\<lambda>c r. replay_ready c r s') (map snd ys) rs'" using rs(3) by (auto elim!: list_all2_mono intro: replay_ready_grow)
  then obtain s2 where "second_run E ys s' = Some (Ok (rs', s2))" using Cons.IH [OF _ es(4), of s'] s'(2) q(2,3) by auto
  then show ?case using s'(1) rs(1) by simp
qed simp

section \<open>Properties\<close>


text \<open>
  A kernel in which \<open>open\<close> answers 7, \<open>dup\<close> 8, and \<open>time\<close> the number that the outside holds for
  descriptor 0. In the second run the clock has moved on and \<open>open\<close> would give another descriptor.
\<close>

definition demo_real :: "(int \<Rightarrow> nat) real" where
  "demo_real = \<lparr>r_files = demo_calls, r_open = (\<lambda>p f m k. (7, k)), r_dup = (\<lambda>fd k. (8, k)), r_dup2 = (\<lambda>a b k. (b, k)), r_opendir = (\<lambda>n m k. (0, m, k)),
     r_fopen = (\<lambda>f md m k. (0, m, k)), r_fopen64 = (\<lambda>f md m k. (0, m, k)), r_fileno = (\<lambda>f m. 0), r_fflush = (\<lambda>f m k. (m, k)), r_close = (\<lambda>fd k. (0, k)),
     r_read = (\<lambda>fd b n m k. (0, m, k)), r_write = (\<lambda>fd b n m k. (0, k)), r_pread = (\<lambda>fd b n off m k. (0, m, k)), r_pwrite = (\<lambda>fd b n off m k. (0, k)),
     r_writev = (\<lambda>fd v n m k. (0, k)), r_lseek = (\<lambda>fd off w k. (0, k)), r_mmap = (\<lambda>a l p f fd off k. (4096, k)), r_fcntl = (\<lambda>fd c a k. (0, k)),
     r_time = (\<lambda>k. (int (k 0), k)), r_gettimeofday = (\<lambda>tv tz k. (0, map_option (\<lambda>_. (int (k 0), 0)) tv, tz, k)),
     r_times = (\<lambda>b k. (int (k 0), map_option (\<lambda>_. (1, 2, 3, 4)) b, k))\<rparr>"

definition demo_env :: "(u64, int \<Rightarrow> nat) sys_env" where
  "demo_env = \<lparr>e_im = (\<lambda>n h. Ok (1024, h)), e_real = demo_real, e_epochEnd = (\<lambda>s. None), e_epochBegin = (\<lambda>s. None), e_junk = 0\<rparr>"

definition later_env :: "(u64, int \<Rightarrow> nat) sys_env" where
  "later_env = demo_env\<lparr>e_real := demo_real\<lparr>r_open := (\<lambda>p f m k. (12, k))\<rparr>\<rparr>"

definition demo_calls_made :: "((int \<Rightarrow> nat) gap \<times> sys_call) list" where
  "demo_calls_made = [(id, COpen ''a'' 0 0), (id, CTime), (id, CDup 7), (id, CClose 7)]"

lemma demo_sys: "ts_syscalls demo_systhread =
    \<lparr>re_store = (\<lambda>_. demo_entry), re_start = 65536, re_total = 16, re_cur = 0, re_size = 4096, re_iter = 0\<rparr>"
  by (simp add: demo_systhread_def)

lemmas run_defs = Let_def set_out_def demo_env_def demo_real_def sys_open_def sys_close_def sys_dup_def sys_time_def saveFd_def saveDupFd_def
  closeFile_def isNormalFile_def real_call_eq record_defs allocEntry_def re_alloc_def demo_files_def demo_sys set_info_def set_entry_def insertList_def

lemma demo_first_run: "\<exists>s1. first_run demo_env demo_calls_made demo_files = Some (Ok ([RInt 7, RInt 40, RInt 8, RInt 0], s1))"
  by (simp add: demo_calls_made_def run_defs)


subsection \<open>Touching a buffer\<close>

lemma scast_nonneg:
  assumes "w < 0x80000000"
  shows "(scast (w :: u32) :: u64) = ucast w"
proof (rule bit_word_eqI)
  fix n :: nat assume n: "n < LENGTH(64)"
  have "unat w < 2147483648" using assms by (simp add: word_less_nat_alt)
  then have b: "\<not> bit w 31" by (simp add: bit_iff_odd_drop_bit drop_bit_eq_div word_arith_nat_div unat_div flip: unat_eq_zero)
  show "bit (scast w :: u64) n = bit (ucast w :: u64) n"
  proof (cases "n < 31")
    case True then show ?thesis by (simp add: bit_simps)
  next
    case False
    then have "bit w n = False" using b bit_imp_le_length [of w n] by (cases "n = 31") auto
    then show ?thesis using False b n by (simp add: bit_simps min_def)
  qed
qed

lemma int_count:
  assumes "count < 0x80000000"
  shows "(scast (ucast (count :: u64) :: u32) :: u64) = count" and "(scast (ucast count - 1 :: u32) :: u64) = count - 1"
proof -
  have u: "unat count < 2147483648" using assms by (simp add: word_less_nat_alt)
  then have c: "unat (ucast count :: u32) = unat count" by (simp add: unsigned_ucast_eq take_bit_nat_eq_self)
  have up: "(scast w :: u64) = v" if "unat (w :: u32) = unat v" "unat v < 2147483648" for w v
  proof -
    have "unat (ucast w :: u64) = unat v" using that by (simp add: unsigned_ucast_eq take_bit_nat_eq_self)
    then show ?thesis using scast_nonneg [of w] that by (simp add: word_less_nat_alt word_unat_eq_iff)
  qed
  show "(scast (ucast count :: u32) :: u64) = count" using up [OF c u] .
  show "(scast (ucast count - 1 :: u32) :: u64) = count - 1"
  proof (cases "count = 0")
    case False
    then have "unat count \<noteq> 0" by (simp add: unat_eq_zero)
    moreover from this have "(ucast count :: u32) \<noteq> 0" using c by (metis unat_0)
    ultimately have "unat (ucast count - 1 :: u32) = unat count - 1" "unat (count - 1) = unat count - 1"
      using c unat_minus_one [of "ucast count :: u32"] unat_minus_one [of count] by (auto simp: unat_eq_zero)
    then show ?thesis using u by (intro up) auto
  qed simp
qed

lemma touch_pages:
  "fold (\<lambda>i m. m(buf + of_nat i * PageSize := 0)) [0..<n] m x = (if \<exists>i<n. x = buf + of_nat i * PageSize then 0 else m x)"
  by (induction n) (auto simp: less_Suc_eq)

text \<open>
  C29. What \<open>makeWritable\<close> does to a buffer of up to \<open>2\<^sup>3\<^sup>1 - 1\<close> bytes before it is read into: it writes
  inside of the buffer only, and zeroes its last byte. For an empty buffer, as in \<open>read(fd, buf, 0)\<close>, this is
  the byte in front of the buffer, which belongs to somebody else.
\<close>

theorem makeWritable_bounds:
  assumes "count < 0x80000000"
  shows "(\<forall>x. makeWritable buf (ucast count) m x \<noteq> m x \<longrightarrow> in_range buf count x \<or> count = 0 \<and> x = buf - 1) \<and>
    makeWritable buf (ucast count) m (buf + count - 1) = 0"
proof (intro conjI allI impI)
  have mw: "makeWritable buf (ucast count) m = (fold (\<lambda>i m. m(buf + of_nat i * PageSize := 0)) [0..<unat (count div PageSize)] m)(buf + (count - 1) := 0)"
    unfolding makeWritable_def Let_def int_count [OF assms] by simp
  show "makeWritable buf (ucast count) m (buf + count - 1) = 0" unfolding mw by (simp add: add_diff_eq)
  fix x assume "makeWritable buf (ucast count) m x \<noteq> m x"
  then consider "x = buf + (count - 1)" | i where "i < unat (count div PageSize)" "x = buf + of_nat i * PageSize"
    unfolding mw by (auto simp: touch_pages split: if_splits)
  then show "in_range buf count x \<or> count = 0 \<and> x = buf - 1"
  proof cases
    case 1
    then show ?thesis by (cases "count = 0") (auto simp: word_less_1 measure_unat word_less_nat_alt unat_minus_one unat_gt_0)
  next
    case 2
    have "i < unat count div 4096" using 2(1) by (simp add: PageSize_def unat_div)
    then have "i * 4096 < unat count" by linarith
    moreover from this have "unat (of_nat i * PageSize) = i * 4096" using unat_u64_less [of count] by (simp add: PageSize_def unat_word_ariths unat_of_nat)
    ultimately show ?thesis using 2(2) by (simp add: word_less_nat_alt)
  qed
qed

theorem makeWritable_bounds_witness:
  "makeWritable 4096 (ucast (0 :: u64)) (\<lambda>_. 7) 4095 = 0 \<and> makeWritable 4096 (ucast (8192 :: u64)) (\<lambda>_. 7) 12287 = 0 \<and>
    makeWritable 4096 (ucast (8192 :: u64)) (\<lambda>_. 7) 4095 = 7"
  using makeWritable_bounds [of 0 4096 "\<lambda>_. 7"] makeWritable_bounds [of 8192 4096 "\<lambda>_. 7"] by (auto simp: in_range_def)

end
