(* ===== verification/Spec2Isabelle.thy ===== *)
theory Spec2Isabelle
  imports Hash_Map Xmemory Heap_Safety Leakcheck Sync_Order System_Calls
begin

text \<open>
  DoubleTake is a runtime library that finds heap buffer overflows, uses after free and memory leaks
  in C and C++ programs. It runs the program at full speed in epochs; at the end of an epoch it looks
  for evidence of an error (a changed canary), and if it finds one it restores the memory of the
  beginning of the epoch and runs it again, with the system calls replayed and with hardware
  watchpoints on the corrupted words. This development models that runtime, file by file.

  \<^bold>\<open>Conventions.\<close> Memory is a function from 64-bit addresses to bytes, little-endian, with \<open>rd64\<close>,
  \<open>wr64\<close>, \<open>rd32\<close>, \<open>wr32\<close> and \<open>memcpy\<close> (\<open>Prelude\<close>). Sizes and addresses are 64-bit words, so
  that arithmetic wraps as in the program. An operation that can fail has a result in \<open>'a res\<close>:
  \<open>Err Assertion\<close> for a failed \<open>assert\<close>, \<open>Err Abort\<close> and \<open>Err Exit\<close> for calls of \<open>abort\<close> and
  \<open>exit\<close>, \<open>Err Undefined\<close> for behaviour the language leaves undefined. Loops that may not end are
  \<open>partial_function (option)\<close>; \<open>None\<close> means that they do not return. Nothing uses fuel. The
  kernel, the compiler's layout of objects and the rest of the runtime appear as arguments of the
  definitions that use them.

  \<^bold>\<open>The parts of the program and their theories.\<close>
  \<^item> \<open>Linked_List\<close>: the intrusive circular lists of \<open>include/list.hh\<close> over a pointer store. A list is
    abstracted to the sequence of its nodes (\<open>is_list\<close>); insertion at the tail and retrieval
    refine a queue.
  \<^item> \<open>Bitmap\<close>: \<open>include/bitmap.hh\<close>. The bitmap refines a set of items; the two scans are characterised,
    one of them with the inputs on which it does not return.
  \<^item> \<open>Hash_Map\<close>: \<open>include/hashmap.hh\<close> and \<open>hashfuncs.hh\<close>, buckets of intrusive lists with counters. The
    map refines a finite sequence of key-value pairs; iteration visits every entry once.
  \<^item> \<open>Xdefines\<close>: the constants and the alignment functions of \<open>include/xdefines.hh\<close>.
  \<^item> \<open>Object_Header\<close>: \<open>include/objectheader.hh\<close>, the 16 bytes in front of an object.
  \<^item> \<open>Watchpoint\<close>: call sites, tracked objects and watchpoints (\<open>include/callsite.hh\<close>, \<open>memtrack.hh\<close>,
    \<open>watchpoint.hh\<close> and the files of the same names under \<open>source/\<close>).
  \<^item> \<open>Sentinel_Map\<close>: \<open>include/sentinelmap.hh\<close> and the guard writer of \<open>xmemory\<close>: the canaries behind an
    object and the bitmap of the words that hold one. The overflow check is exact.
  \<^item> \<open>Quarantine\<close>: \<open>include/quarantine.hh\<close>, the ring of freed objects filled with canaries. The
    use-after-free check is exact and eviction is in order.
  \<^item> \<open>Record_Entries\<close> and \<open>Sys_Record\<close>: \<open>include/mm.hh\<close>, \<open>recordentries.hh\<close> and \<open>sysrecord.hh\<close>, the log of the
    system calls of an epoch. The replay returns what was recorded, and a diverging replay is
    detected.
  \<^item> \<open>Xheap\<close>: the page allocators and the backup of memory regions (\<open>include/xheap.hh\<close>,
    \<open>sourceinternalheap.hh\<close>, \<open>xmapping.hh\<close>, \<open>xglobals.hh\<close>).
  \<^item> \<open>Heap_Layers\<close>: the layers under \<open>heaplayers/\<close> that the heaps are made of: size classes, free lists, the
    zone allocator, segregated fits, the ANSI wrapper.
  \<^item> \<open>Xpheap\<close>: the application heap and the heap of the runtime (\<open>include/xpheap.hh\<close>, \<open>internalheap.hh\<close>).
  \<^item> \<open>Xmemory\<close>: \<open>include/xmemory.hh\<close>, the operations a program calls: \<open>malloc\<close>, \<open>free\<close>, \<open>realloc\<close>,
    \<open>memalign\<close>, and the epoch's backup and rollback. Its properties join the components: an object from
    \<open>malloc\<close> to \<open>free\<close>, and memory from the beginning of an epoch to its rollback.
  \<^item> \<open>Kingsley_Heap\<close>, \<open>Thread_Heaps\<close> and \<open>Heap_Safety\<close>: the invariant of the memory of one heap, of the heaps
    of all threads over their common source heap, and the result that live objects never overlap, whatever the
    threads write inside them and whichever thread releases them.
  \<^item> \<open>Leakcheck\<close>: \<open>include/leakcheck.hh\<close>. The mark phase implements a search of the graph of objects, and
    the whole check is exact for reachability of objects with a power-of-two size.
  \<^item> \<open>Sync_Events\<close>: the record of synchronisations and the hand-over of turns (\<open>include/synceventlist.hh\<close>,
    \<open>xsync.hh\<close>, \<open>semaphore.hh\<close>).
  \<^item> \<open>Replay_Protocol\<close>: the abstract protocol of a replay: one token per variable travels along the
    recorded acquisitions and sits in a semaphore or in a list of pending tokens. Its invariant gives order,
    absence of deadlock and termination.
  \<^item> \<open>Sync_Replay\<close> and \<open>Sync_Order\<close>: the recorded epoch, the preparation of a rollback (\<open>source/xthread.cpp\<close>) and
    the threads that run their locks and unlocks again (\<open>include/xthread.hh\<close>), interleaved, refine that
    protocol; the theorems on the order and the end of a replay. \<open>Sync_Events\<close> also has what a new epoch
    and a rollback reset in a thread (\<open>xthread::epochBegin\<close>, \<open>prepareRollbackAlivethreads\<close>).
  \<^item> \<open>Copies\<close>: sequences of \<open>memcpy\<close> calls, shared by the backups of memory and of streams.
  \<^item> \<open>File_Ops\<close> and \<open>File_Close\<close>: \<open>include/fops.hh\<close>. The epoch's snapshot of file positions, streams and
    directories and its restoration after any steps of the program; the deferred closes, which are performed
    in order at the end of the epoch, and the second close of a file, which fails there.
  \<^item> \<open>System_Calls\<close>: the wrappers of \<open>include/syscalls.hh\<close> over the record and the files. A second run gets
    the results of the first one.

  \<^bold>\<open>Interfaces.\<close> A locale states what a client relies on, and the model's definitions interpret it:
  \<open>fifo\<close> (queues) by the lists, \<open>item_set\<close> by the bitmap, \<open>assoc_map\<close> by the hash map, \<open>guard_zone\<close>
  (a checked region) by the guards and the canaries, \<open>event_log\<close> (append, rewind, replay) by
  the record entries, \<open>bump_heap\<close> (pages handed out in a row) by both source heaps,
  \<open>worklist\<close> (a graph search) by the mark phase of the leak detector, \<open>kingsley\<close>, which
  extends \<open>bump_heap\<close> by the object layer, by both complete heaps, and \<open>cell_heap\<close> (fresh cells for
  pending tokens) by the heap of the runtime.

  \<^bold>\<open>Not modelled.\<close> Signal handling, the assembly of the context switch (\<open>source/rollback_amd64.s\<close>) and
  the registration of the interposed functions (\<open>source/real.cpp\<close>) have no state of their own.
  Of the threads, creation, condition variables, barriers and the stop signals of an epoch's end
  are left out (\<open>xthread.hh\<close>, \<open>xrun.cpp\<close>, \<open>globalinfo.hh\<close>): they park and wake real threads. Of the system
  calls, some two hundred wrappers that end the epoch, make the call and begin an epoch differ from \<open>seekdir\<close>
  in the call only and are not repeated; \<open>readv\<close> is left out. The reader of \<open>/proc/self/maps\<close>
  (\<open>selfmap.hh\<close>), the copies of stacks (\<open>xcontext.hh\<close>) and the log have no model.
\<close>

end
